(* ===== verification/Prelude.thy ===== *)
theory Prelude
  imports Main "HOL-Library.Word"
begin

text \<open>
  The prelude of the development: the machine types of the C code (LP64, little endian, as
  on the iOS devices the application is built for), byte-addressed memory, the result type of
  a C function that returns a \<^verbatim>\<open>bool\<close> and works on a stream, and the generic lemmas the
  component theories share.
\<close>

unbundle bit_operations_syntax

section \<open>Machine types\<close>

type_synonym u8 = "8 word"
type_synonym u16 = "16 word"
type_synonym u32 = "32 word"
type_synonym u64 = "64 word"

type_synonym addr = u64

text \<open>Simplification rules for results of C functions and for byte lists.\<close>

named_theorems cres_simps
named_theorems byte_simps

lemma unat_word_of_nat_small: "n < 2 ^ LENGTH('a) \<Longrightarrow> unat (word_of_nat n :: 'a::len word) = n"
  by (simp add: unat_of_nat)

lemma unat_bound: "unat (w :: 'a::len word) < 2 ^ LENGTH('a)"
  by (rule unsigned_less)

lemma unat_drop_bit: "unat (drop_bit n w) = unat w div 2 ^ n"
  unfolding unsigned_drop_bit_eq by (simp add: take_bit_nat_eq_self unat_bound drop_bit_eq_div)

lemma unat_drop_bit_less: "w \<noteq> 0 \<Longrightarrow> 0 < n \<Longrightarrow> unat (drop_bit n w) < unat w"
  unfolding unat_drop_bit by (rule div_less_dividend) (use one_less_power [of "2::nat" n] in \<open>auto simp: unat_gt_0\<close>)

lemma unat_plus_small:
  "unat a + unat b < 2 ^ LENGTH('a) \<Longrightarrow> unat (a + b) = unat a + unat (b :: 'a::len word)"
  by (simp add: unat_word_ariths)

lemma unat_Suc_less: "a < b \<Longrightarrow> unat (a + 1) = Suc (unat (a :: 'a::len word))"
  using unat_bound [of b] by (subst unat_plus_small) (auto simp: word_less_nat_alt simp del: unsigned_less)

lemma unat_ucast_up:
  fixes w :: "'a::len word"
  assumes "LENGTH('a) \<le> LENGTH('b::len)"
  shows "unat (ucast w :: 'b word) = unat w"
proof -
  have "unat w < 2 ^ LENGTH('b)"
    using assms unat_bound [of w] by (meson order_less_le_trans one_le_numeral power_increasing)
  then show ?thesis by (simp add: unsigned_ucast_eq take_bit_nat_eq_self)
qed

lemma unat_ucast_32_64 [simp]: "unat (ucast (w :: u32) :: u64) = unat w"
  by (rule unat_ucast_up) simp

lemma ucast_32_64_32 [simp]: "ucast (ucast (v :: u32) :: u64) = v"
  by (rule bit_word_eqI) (auto simp: bit_ucast_iff)

lemma bit_0x80: "n < 8 \<Longrightarrow> bit (0x80 :: u8) n \<longleftrightarrow> n = 7"
  using bit_exp_iff [of 7 n, where 'a = u8] by auto

section \<open>Results of C functions\<close>

text \<open>
  A C function that returns a \<^verbatim>\<open>bool\<close> and updates a state through a pointer is a function
  from the state to a value of this type. \<open>None\<close> is a run that does not return: a call
  through a null function pointer, or, for the recursive functions, fuel that ran out.
\<close>

type_synonym 's cres = "(bool \<times> 's) option"

definition ret_true :: "'s \<Rightarrow> 's cres" where
  "ret_true s = Some (True, s)"

definition ret_false :: "'s \<Rightarrow> 's cres" where
  "ret_false s = Some (False, s)"

text \<open>The idiom \<^verbatim>\<open>if (!f(stream)) return false; g(stream)\<close>.\<close>

definition and_then :: "'s cres \<Rightarrow> ('s \<Rightarrow> 's cres) \<Rightarrow> 's cres" where
  "and_then r g = (case r of None \<Rightarrow> None
     | Some (ok, s) \<Rightarrow> if ok then g s else Some (False, s))"

lemma ret_simps [simp]:
  "ret_true s = ret_true t \<longleftrightarrow> s = t"
  "ret_false s = ret_false t \<longleftrightarrow> s = t"
  "ret_true s \<noteq> ret_false t"
  "ret_false t \<noteq> ret_true s"
  by (simp_all add: ret_true_def ret_false_def)

lemma and_then_simps [simp, cres_simps]:
  "and_then None g = None"
  "and_then (Some (True, s)) g = g s"
  "and_then (Some (False, s)) g = Some (False, s)"
  by (simp_all add: and_then_def)

lemma and_then_ret [simp, cres_simps]:
  "and_then (ret_true s) g = g s"
  "and_then (ret_false s) g = ret_false s"
  by (simp_all add: ret_true_def ret_false_def)

lemma and_then_True:
  "and_then r g = Some (True, t) \<longleftrightarrow> (\<exists>s. r = Some (True, s) \<and> g s = Some (True, t))"
  by (auto simp: and_then_def split: option.splits prod.splits if_splits)

lemma and_then_cong [fundef_cong]:
  "r = r' \<Longrightarrow> (\<And>s. r' = Some (True, s) \<Longrightarrow> g s = g' s) \<Longrightarrow> and_then r g = and_then r' g'"
  by (auto simp: and_then_def split: option.splits prod.splits)

lemma and_then_cases:
  assumes "and_then r g = Some (ok, t)"
  obtains "r = Some (False, t)" and "\<not> ok" | s where "r = Some (True, s)" and "g s = Some (ok, t)"
  using assms by (auto simp: and_then_def split: option.splits prod.splits if_splits)

section \<open>Little-endian bytes\<close>

definition byte_at :: "nat \<Rightarrow> 'a::len word \<Rightarrow> u8" where
  "byte_at i w = ucast (drop_bit (8 * i) w)"

definition le_bytes :: "nat \<Rightarrow> 'a::len word \<Rightarrow> u8 list" where
  "le_bytes n w = map (\<lambda>i. byte_at i w) [0..<n]"

fun le_word :: "u8 list \<Rightarrow> 'a::len word" where
  "le_word [] = 0"
| "le_word (b # bs) = ucast b OR push_bit 8 (le_word bs)"

lemma length_le_bytes [simp]: "length (le_bytes n w) = n"
  by (simp add: le_bytes_def)

lemma nth_le_bytes [simp]: "i < n \<Longrightarrow> le_bytes n w ! i = byte_at i w"
  by (simp add: le_bytes_def)

lemma bit_byte_at:
  "bit (byte_at i w) k \<longleftrightarrow> k < 8 \<and> bit w (8 * i + k)"
  by (auto simp: byte_at_def bit_ucast_iff bit_drop_bit_eq bit_imp_le_length)

lemma bit_le_word:
  "bit (le_word bs :: 'a::len word) k \<longleftrightarrow>
     k < LENGTH('a) \<and> k div 8 < length bs \<and> bit (bs ! (k div 8)) (k mod 8)"
proof (induction bs arbitrary: k)
  case Nil
  then show ?case by simp
next
  case (Cons b bs)
  show ?case
  proof (cases "k < 8")
    case True
    then show ?thesis
      by (auto simp: bit_or_iff bit_ucast_iff bit_push_bit_iff)
  next
    case False
    have d: "k div 8 = Suc ((k - 8) div 8)" and m: "k mod 8 = (k - 8) mod 8"
      using False by (simp_all add: div_if mod_if)
    have "\<not> bit b k" using False bit_imp_le_length [of b k] by auto
    with False show ?thesis
      by (auto simp: bit_or_iff bit_ucast_iff bit_push_bit_iff Cons.IH d m)
  qed
qed

lemma le_word_le_bytes [byte_simps]:
  "le_word (le_bytes n w) = (w AND mask (8 * n) :: 'a::len word)"
proof (rule bit_word_eqI)
  fix k assume "k < LENGTH('a)"
  moreover have "k div 8 < n \<longleftrightarrow> k < 8 * n" by (simp add: div_less_iff_less_mult mult.commute)
  ultimately show "bit (le_word (le_bytes n w) :: 'a word) k = bit (w AND mask (8 * n)) k"
    by (auto simp: bit_le_word bit_byte_at bit_and_iff bit_mask_iff)
qed

lemma le_word_le_bytes_full:
  "LENGTH('a) \<le> 8 * n \<Longrightarrow> le_word (le_bytes n w) = (w :: 'a::len word)"
  by (rule bit_word_eqI) (auto simp: byte_simps bit_and_iff bit_mask_iff)

lemma le_bytes_le_word:
  "length bs = n \<Longrightarrow> 8 * n \<le> LENGTH('a) \<Longrightarrow> le_bytes n (le_word bs :: 'a::len word) = bs"
  by (rule nth_equalityI)
     (auto intro!: bit_word_eqI simp: bit_byte_at bit_le_word)

lemma upt_0_4: "[0..<4] = [0, 1, 2, 3]"
  by code_simp

lemma upt_0_8: "[0..<8] = [0, 1, 2, 3, 4, 5, 6, 7]"
  by code_simp

lemma word_255_mask: "(0xFF :: 'a::len word) = mask 8"
  by (simp add: mask_eq_exp_minus_1)

lemma ucast_and_255: "(ucast (w AND 0xFF) :: u8) = ucast w"
  by (rule bit_word_eqI) (auto simp: word_255_mask bit_ucast_iff bit_and_iff bit_mask_iff bit_imp_le_length)

lemma ucast_drop_bit_and_255: "ucast (drop_bit (8 * i) w AND 0xFF) = byte_at i w"
  by (simp add: byte_at_def ucast_and_255)

section \<open>Byte-addressed memory\<close>

type_synonym mem = "addr \<Rightarrow> u8"

definition load :: "mem \<Rightarrow> addr \<Rightarrow> nat \<Rightarrow> u8 list" where
  "load m a n = map (\<lambda>i. m (a + word_of_nat i)) [0..<n]"

definition store :: "mem \<Rightarrow> addr \<Rightarrow> u8 list \<Rightarrow> mem" where
  "store m a bs = (\<lambda>x. if unat (x - a) < length bs then bs ! unat (x - a) else m x)"

definition load_u32 :: "mem \<Rightarrow> addr \<Rightarrow> u32" where
  "load_u32 m a = le_word (load m a 4)"

definition load_u64 :: "mem \<Rightarrow> addr \<Rightarrow> u64" where
  "load_u64 m a = le_word (load m a 8)"

definition store_u32 :: "mem \<Rightarrow> addr \<Rightarrow> u32 \<Rightarrow> mem" where
  "store_u32 m a v = store m a (le_bytes 4 v)"

definition store_u64 :: "mem \<Rightarrow> addr \<Rightarrow> u64 \<Rightarrow> mem" where
  "store_u64 m a v = store m a (le_bytes 8 v)"

lemma length_load [simp]: "length (load m a n) = n"
  by (simp add: load_def)

lemma nth_load [simp]: "i < n \<Longrightarrow> load m a n ! i = m (a + word_of_nat i)"
  by (simp add: load_def)

lemma load_store_same:
  assumes "length bs \<le> 2 ^ 64"
  shows "load (store m a bs) a (length bs) = bs"
proof (rule nth_equalityI)
  fix i assume "i < length (load (store m a bs) a (length bs))"
  then have i: "i < length bs" by simp
  with assms have "unat (word_of_nat i :: u64) = i"
    by (intro unat_word_of_nat_small) simp
  with i show "load (store m a bs) a (length bs) ! i = bs ! i"
    by (simp add: store_def)
qed simp

lemma load_u32_store_u32 [simp]: "load_u32 (store_u32 m a v) a = v"
  using load_store_same [of "le_bytes 4 v" m a]
  by (simp add: load_u32_def store_u32_def le_word_le_bytes_full)

lemma load_u64_store_u64 [simp]: "load_u64 (store_u64 m a v) a = v"
  using load_store_same [of "le_bytes 8 v" m a]
  by (simp add: load_u64_def store_u64_def le_word_le_bytes_full)

lemma store_outside:
  "length bs \<le> unat (x - a) \<Longrightarrow> store m a bs x = m x"
  by (simp add: store_def)

lemma store_append:
  assumes "length xs + length ys \<le> 2 ^ 64"
  shows "store (store m a xs) (a + word_of_nat (length xs)) ys = store m a (xs @ ys)"
proof (cases "ys = []")
  case False
  define k :: u64 where "k = word_of_nat (length xs)"
  have "length xs < 2 ^ 64" using assms False by (cases ys) auto
  then have k: "unat k = length xs" unfolding k_def by (intro unat_word_of_nat_small) simp
  show ?thesis
  proof (rule ext)
    fix x
    define d where "d = x - a"
    have d: "x - (a + k) = d - k" by (simp add: d_def)
    show "store (store m a xs) (a + word_of_nat (length xs)) ys x = store m a (xs @ ys) x"
    proof (cases "k \<le> d")
      case True
      then have "unat (d - k) = unat d - length xs" "length xs \<le> unat d"
        using k by (simp_all add: unat_sub word_le_nat_alt)
      then show ?thesis
        unfolding store_def k_def [symmetric] d d_def [symmetric] by (auto simp: nth_append)
    next
      case False
      then have lt: "unat d < length xs" using k by (simp add: word_le_nat_alt)
      have "unat (d - k) = 2 ^ 64 + unat d - length xs"
        using False k unat_bound [of d] by (simp add: unat_sub_if' word_le_nat_alt)
      then have "length ys \<le> unat (d - k)" using assms by simp
      with lt show ?thesis
        unfolding store_def k_def [symmetric] d d_def [symmetric] by (auto simp: nth_append)
    qed
  qed
qed (simp add: store_def)

lemma store_byte: "store m a [b] = m(a := b)"
  by (rule ext) (auto simp: store_def unat_eq_zero)

lemma store_snoc:
  "length xs < 2 ^ 64 \<Longrightarrow> (store m a xs)(a + word_of_nat (length xs) := b) = store m a (xs @ [b])"
  using store_append [of xs "[b]" m a] by (simp add: store_byte)

lemma load_append: "load m a (n + k) = load m a n @ load m (a + word_of_nat n) k"
  by (rule nth_equalityI) (auto simp: nth_append ac_simps of_nat_diff simp flip: of_nat_add)

end
