(* ===== verification/Pb_Common.thy ===== *)
theory Pb_Common
  imports Prelude
begin

text \<open>
  nanopb's message descriptors and the field iterator (\<^verbatim>\<open>pb.h\<close>, \<^verbatim>\<open>pb_common.c\<close>), in the
  configuration of the Xcode build settings of the pods: \<^verbatim>\<open>PB_FIELD_32BIT\<close>, so \<^verbatim>\<open>pb_size_t\<close>
  has 32 bits, and \<^verbatim>\<open>PB_ENABLE_MALLOC\<close>. A descriptor is the list of \<^verbatim>\<open>pb_field_t\<close> entries
  before the end of the array; reading past its end gives the terminator \<^verbatim>\<open>PB_LAST_FIELD\<close>.
\<close>

section \<open>Field descriptors\<close>

record pb_field =
  f_tag :: u32
  f_type :: u8
  f_data_offset :: u32
  f_size_offset :: u32
  f_data_size :: u32
  f_array_size :: u32
  f_ptr :: addr

definition PB_LAST_FIELD :: pb_field where
  "PB_LAST_FIELD = \<lparr>f_tag = 0, f_type = 0, f_data_offset = 0, f_size_offset = 0,
     f_data_size = 0, f_array_size = 0, f_ptr = 0\<rparr>"

definition PB_SIZE_MAX :: u32 where
  "PB_SIZE_MAX = - 1"

text \<open>The three parts of the type byte.\<close>

definition PB_LTYPE :: "u8 \<Rightarrow> u8" where "PB_LTYPE x = x AND 0x0F"
definition PB_HTYPE :: "u8 \<Rightarrow> u8" where "PB_HTYPE x = x AND 0x30"
definition PB_ATYPE :: "u8 \<Rightarrow> u8" where "PB_ATYPE x = x AND 0xC0"

abbreviation (input) "PB_LTYPE_BOOL \<equiv> 0x00 :: u8"
abbreviation (input) "PB_LTYPE_VARINT \<equiv> 0x01 :: u8"
abbreviation (input) "PB_LTYPE_UVARINT \<equiv> 0x02 :: u8"
abbreviation (input) "PB_LTYPE_SVARINT \<equiv> 0x03 :: u8"
abbreviation (input) "PB_LTYPE_FIXED32 \<equiv> 0x04 :: u8"
abbreviation (input) "PB_LTYPE_FIXED64 \<equiv> 0x05 :: u8"
abbreviation (input) "PB_LTYPE_LAST_PACKABLE \<equiv> 0x05 :: u8"
abbreviation (input) "PB_LTYPE_BYTES \<equiv> 0x06 :: u8"
abbreviation (input) "PB_LTYPE_STRING \<equiv> 0x07 :: u8"
abbreviation (input) "PB_LTYPE_SUBMESSAGE \<equiv> 0x08 :: u8"
abbreviation (input) "PB_LTYPE_EXTENSION \<equiv> 0x09 :: u8"
abbreviation (input) "PB_LTYPE_FIXED_LENGTH_BYTES \<equiv> 0x0A :: u8"

abbreviation (input) "PB_HTYPE_REQUIRED \<equiv> 0x00 :: u8"
abbreviation (input) "PB_HTYPE_OPTIONAL \<equiv> 0x10 :: u8"
abbreviation (input) "PB_HTYPE_REPEATED \<equiv> 0x20 :: u8"
abbreviation (input) "PB_HTYPE_ONEOF \<equiv> 0x30 :: u8"

abbreviation (input) "PB_ATYPE_STATIC \<equiv> 0x00 :: u8"
abbreviation (input) "PB_ATYPE_POINTER \<equiv> 0x80 :: u8"
abbreviation (input) "PB_ATYPE_CALLBACK \<equiv> 0x40 :: u8"

text \<open>Wire types (\<^verbatim>\<open>pb_wire_type_t\<close>).\<close>

abbreviation (input) "PB_WT_VARINT \<equiv> 0 :: u32"
abbreviation (input) "PB_WT_64BIT \<equiv> 1 :: u32"
abbreviation (input) "PB_WT_STRING \<equiv> 2 :: u32"
abbreviation (input) "PB_WT_32BIT \<equiv> 5 :: u32"

definition field_at :: "pb_field list \<Rightarrow> nat \<Rightarrow> pb_field" where
  "field_at fs i = (if i < length fs then fs ! i else PB_LAST_FIELD)"

section \<open>The field iterator\<close>

record pb_field_iter =
  it_start :: "pb_field list"
  it_pos :: nat
  it_required_field_index :: u32
  it_dest_struct :: addr
  it_pData :: addr
  it_pSize :: addr

definition it_field :: "pb_field_iter \<Rightarrow> pb_field" where
  "it_field it = field_at (it_start it) (it_pos it)"

definition pb_field_iter_begin :: "pb_field list \<Rightarrow> addr \<Rightarrow> bool \<times> pb_field_iter" where
  "pb_field_iter_begin fs dest_struct =
     (let pos = field_at fs 0;
          pData = dest_struct + ucast (f_data_offset pos)
      in (f_tag pos \<noteq> 0,
          \<lparr>it_start = fs, it_pos = 0, it_required_field_index = 0,
           it_dest_struct = dest_struct, it_pData = pData,
           it_pSize = pData + scast (f_size_offset pos)\<rparr>))"

definition pb_field_iter_next :: "pb_field_iter \<Rightarrow> bool \<times> pb_field_iter" where
  "pb_field_iter_next it =
     (let prev_field = it_field it in
      if f_tag prev_field = 0 then (False, it)
      else
        let pos = field_at (it_start it) (Suc (it_pos it)) in
        if f_tag pos = 0
        then (False, snd (pb_field_iter_begin (it_start it) (it_dest_struct it)))
        else if PB_HTYPE (f_type prev_field) = PB_HTYPE_ONEOF
                \<and> PB_HTYPE (f_type pos) = PB_HTYPE_ONEOF
                \<and> f_data_offset pos = PB_SIZE_MAX
        then (True, it\<lparr>it_pos := Suc (it_pos it)\<rparr>)
        else
          let prev_size = ucast (f_data_size prev_field) :: u64;
              prev_size =
                (if PB_ATYPE (f_type prev_field) = PB_ATYPE_STATIC
                    \<and> PB_HTYPE (f_type prev_field) = PB_HTYPE_REPEATED
                 then prev_size * ucast (f_array_size prev_field)
                 else if PB_ATYPE (f_type prev_field) = PB_ATYPE_POINTER then 8
                 else prev_size);
              index = (if PB_HTYPE (f_type prev_field) = PB_HTYPE_REQUIRED
                       then it_required_field_index it + 1
                       else it_required_field_index it);
              pData = it_pData it + prev_size + ucast (f_data_offset pos)
          in (True, it\<lparr>it_pos := Suc (it_pos it), it_required_field_index := index,
                       it_pData := pData, it_pSize := pData + scast (f_size_offset pos)\<rparr>))"

definition iter_matches :: "u32 \<Rightarrow> pb_field_iter \<Rightarrow> bool" where
  "iter_matches tag it \<longleftrightarrow> f_tag (it_field it) = tag
     \<and> PB_LTYPE (f_type (it_field it)) \<noteq> PB_LTYPE_EXTENSION"

text \<open>
  The do-while loop of \<^verbatim>\<open>pb_field_iter_find\<close>, with fuel. The loop goes at most once around
  the fields, so one unit per entry of the descriptor and one more is enough
  (\<open>pb_field_iter_find_correct\<close>).
\<close>

fun iter_find_loop :: "nat \<Rightarrow> nat \<Rightarrow> u32 \<Rightarrow> pb_field_iter \<Rightarrow> pb_field_iter cres" where
  "iter_find_loop 0 start tag it = None"
| "iter_find_loop (Suc n) start tag it =
     (if iter_matches tag it then ret_true it
      else let it' = snd (pb_field_iter_next it) in
        if it_pos it' \<noteq> start then iter_find_loop n start tag it' else ret_false it')"

definition pb_field_iter_find :: "pb_field_iter \<Rightarrow> u32 \<Rightarrow> pb_field_iter cres" where
  "pb_field_iter_find it tag = iter_find_loop (Suc (length (it_start it))) (it_pos it) tag it"

section \<open>The iterator walks the fields in order\<close>

text \<open>The entries before the first one whose tag is 0, and the iterator at the \<open>k\<close>-th of them.\<close>

definition num_fields :: "pb_field list \<Rightarrow> nat" where
  "num_fields fs = length (takeWhile (\<lambda>f. f_tag f \<noteq> 0) fs)"

fun iter_at :: "pb_field list \<Rightarrow> addr \<Rightarrow> nat \<Rightarrow> pb_field_iter" where
  "iter_at fs d 0 = snd (pb_field_iter_begin fs d)"
| "iter_at fs d (Suc k) = snd (pb_field_iter_next (iter_at fs d k))"

lemma field_at_tag_nonzero: "k < num_fields fs \<Longrightarrow> f_tag (field_at fs k) \<noteq> 0"
  unfolding num_fields_def field_at_def
  by (metis (mono_tags, lifting) length_takeWhile_le nth_mem order_less_le_trans set_takeWhileD takeWhile_nth)

lemma field_at_num_fields: "f_tag (field_at fs (num_fields fs)) = 0"
  unfolding num_fields_def field_at_def PB_LAST_FIELD_def
  using nth_length_takeWhile [of "\<lambda>f. f_tag f \<noteq> 0" fs] by auto

lemma num_fields_le: "num_fields fs \<le> length fs"
  by (simp add: num_fields_def length_takeWhile_le)

lemma iter_begin_simps [simp]:
  "fst (pb_field_iter_begin fs d) \<longleftrightarrow> 0 < num_fields fs"
  "it_start (snd (pb_field_iter_begin fs d)) = fs"
  "it_pos (snd (pb_field_iter_begin fs d)) = 0"
  "it_dest_struct (snd (pb_field_iter_begin fs d)) = d"
  using field_at_tag_nonzero [of 0 fs] field_at_num_fields [of fs]
  by (auto simp: pb_field_iter_begin_def Let_def intro: gr0I)

lemma iter_next_step:
  assumes "it_start it = fs" and "it_pos it = k" and "Suc k < num_fields fs"
  shows "fst (pb_field_iter_next it)"
    and "it_start (snd (pb_field_iter_next it)) = fs"
    and "it_pos (snd (pb_field_iter_next it)) = Suc k"
    and "it_dest_struct (snd (pb_field_iter_next it)) = it_dest_struct it"
  using assms field_at_tag_nonzero [of k fs] field_at_tag_nonzero [of "Suc k" fs]
  by (auto simp: pb_field_iter_next_def Let_def it_field_def)

lemma iter_at_simps:
  "k < num_fields fs \<or> k = 0 \<Longrightarrow>
     it_start (iter_at fs d k) = fs \<and> it_pos (iter_at fs d k) = k \<and> it_dest_struct (iter_at fs d k) = d"
  by (induction k) (auto simp: iter_next_step)

lemma iter_next_at:
  assumes "k < num_fields fs"
  shows "pb_field_iter_next (iter_at fs d k) =
    (Suc k < num_fields fs, iter_at fs d (if Suc k < num_fields fs then Suc k else 0))"
proof (cases "Suc k < num_fields fs")
  case True
  with assms iter_next_step [of "iter_at fs d k" fs k] iter_at_simps [of k fs d] show ?thesis
    by (simp add: prod_eq_iff)
next
  case False
  with assms have k: "Suc k = num_fields fs" by simp
  have "f_tag (field_at fs (Suc k)) = 0" by (simp add: k field_at_num_fields)
  with assms False iter_at_simps [of k fs d] field_at_tag_nonzero [of k fs] show ?thesis
    by (simp add: pb_field_iter_next_def Let_def it_field_def)
qed

lemma iter_field_at:
  "k < num_fields fs \<Longrightarrow> it_field (iter_at fs d k) = fs ! k"
  using iter_at_simps [of k fs d] num_fields_le [of fs] by (simp add: it_field_def field_at_def)

lemma iter_next_empty:
  "num_fields fs = 0 \<Longrightarrow> pb_field_iter_next (iter_at fs d 0) = (False, iter_at fs d 0)"
  using field_at_num_fields [of fs]
  by (simp add: pb_field_iter_next_def Let_def it_field_def pb_field_iter_begin_def)

section \<open>Finding a field\<close>

definition field_matches :: "u32 \<Rightarrow> pb_field \<Rightarrow> bool" where
  "field_matches tag f \<longleftrightarrow> f_tag f = tag \<and> PB_LTYPE (f_type f) \<noteq> PB_LTYPE_EXTENSION"

lemma iter_matches_at:
  "k < num_fields fs \<Longrightarrow> iter_matches tag (iter_at fs d k) = field_matches tag (fs ! k)"
  by (simp add: iter_matches_def field_matches_def iter_field_at)

text \<open>
  The loop, started at entry \<open>s\<close> and now at entry \<open>k\<close>: the entries between, in the cyclic
  order, do not match. First the part after \<open>s\<close>, then the part from entry 0.
\<close>

lemma iter_find_wrapped:
  assumes "k < s" and "s < num_fields fs" and "s - k \<le> n"
  shows "(\<exists>j. k \<le> j \<and> j < s \<and> field_matches tag (fs ! j) \<and>
            iter_find_loop n s tag (iter_at fs d k) = ret_true (iter_at fs d j))
       \<or> ((\<forall>j. k \<le> j \<and> j < s \<longrightarrow> \<not> field_matches tag (fs ! j)) \<and>
            iter_find_loop n s tag (iter_at fs d k) = ret_false (iter_at fs d s))"
  using assms
proof (induction n arbitrary: k)
  case 0
  then show ?case by simp
next
  case (Suc n)
  have next': "snd (pb_field_iter_next (iter_at fs d k)) = iter_at fs d (Suc k)"
    using Suc.prems iter_next_at [of k fs d] by simp
  have m: "iter_matches tag (iter_at fs d k) = field_matches tag (fs ! k)"
    using Suc.prems by (simp add: iter_matches_at)
  have pos: "it_pos (iter_at fs d (Suc k)) = Suc k"
    using Suc.prems iter_at_simps [of "Suc k" fs d] by simp
  show ?case
  proof (cases "field_matches tag (fs ! k)")
    case True
    with Suc.prems m show ?thesis by auto
  next
    case False
    note nomatch = False
    show ?thesis
    proof (cases "Suc k = s")
      case True
      have "\<forall>j. k \<le> j \<and> j < s \<longrightarrow> \<not> field_matches tag (fs ! j)"
        using True False by (auto simp: less_Suc_eq_le)
      with True False m next' pos show ?thesis by (simp del: iter_at.simps)
    next
      case False
      with Suc.prems have "Suc k < s" and "s - Suc k \<le> n" by simp_all
      note IH = Suc.IH [OF this(1) Suc.prems(2) this(2)]
      have eq: "iter_find_loop (Suc n) s tag (iter_at fs d k) = iter_find_loop n s tag (iter_at fs d (Suc k))"
        using False nomatch m next' pos by (simp del: iter_at.simps)
      have range: "\<forall>j. (k \<le> j \<and> j < s) = (j = k \<or> (Suc k \<le> j \<and> j < s))"
        using Suc.prems by auto
      from IH show ?thesis
      proof (elim disjE exE conjE)
        fix j assume "Suc k \<le> j" "j < s" "field_matches tag (fs ! j)"
          and "iter_find_loop n s tag (iter_at fs d (Suc k)) = ret_true (iter_at fs d j)"
        then show ?thesis unfolding eq by (intro disjI1 exI [of _ j]) simp
      next
        assume no: "\<forall>j. Suc k \<le> j \<and> j < s \<longrightarrow> \<not> field_matches tag (fs ! j)"
          and r: "iter_find_loop n s tag (iter_at fs d (Suc k)) = ret_false (iter_at fs d s)"
        from no nomatch range have "\<forall>j. k \<le> j \<and> j < s \<longrightarrow> \<not> field_matches tag (fs ! j)" by metis
        with r show ?thesis unfolding eq by (intro disjI2) simp
      qed
    qed
  qed
qed

lemma iter_find_unwrapped:
  assumes "s \<le> k" and "k < num_fields fs" and "num_fields fs - k + s \<le> n"
  shows "(\<exists>j < num_fields fs. field_matches tag (fs ! j) \<and>
            iter_find_loop n s tag (iter_at fs d k) = ret_true (iter_at fs d j))
       \<or> ((\<forall>j < num_fields fs. (j < s \<or> k \<le> j) \<longrightarrow> \<not> field_matches tag (fs ! j)) \<and>
            iter_find_loop n s tag (iter_at fs d k) = ret_false (iter_at fs d s))"
  using assms
proof (induction n arbitrary: k)
  case 0
  then show ?case by simp
next
  case (Suc n)
  note m = iter_matches_at [OF Suc.prems(2), of tag d]
  show ?case
  proof (cases "field_matches tag (fs ! k)")
    case True
    with Suc.prems m show ?thesis by auto
  next
    case False
    show ?thesis
    proof (cases "Suc k < num_fields fs")
      case True
      have pos: "it_pos (iter_at fs d (Suc k)) = Suc k"
        using True iter_at_simps [of "Suc k" fs d] by simp
      have nx: "snd (pb_field_iter_next (iter_at fs d k)) = iter_at fs d (Suc k)" by simp
      have eq: "iter_find_loop (Suc n) s tag (iter_at fs d k) = iter_find_loop n s tag (iter_at fs d (Suc k))"
        using Suc.prems(1) False m pos nx by (simp del: iter_at.simps)
      have range: "\<forall>j. (j < s \<or> k \<le> j) = (j < s \<or> j = k \<or> Suc k \<le> j)" by auto
      have n: "num_fields fs - Suc k + s \<le> n" and sk: "s \<le> Suc k" using Suc.prems True by simp_all
      from Suc.IH [OF sk True n] show ?thesis
      proof (elim disjE exE conjE)
        fix j assume "j < num_fields fs" "field_matches tag (fs ! j)"
          and "iter_find_loop n s tag (iter_at fs d (Suc k)) = ret_true (iter_at fs d j)"
        then show ?thesis unfolding eq by (intro disjI1 exI [of _ j]) simp
      next
        assume no: "\<forall>j < num_fields fs. j < s \<or> Suc k \<le> j \<longrightarrow> \<not> field_matches tag (fs ! j)"
          and r: "iter_find_loop n s tag (iter_at fs d (Suc k)) = ret_false (iter_at fs d s)"
        from no False range
        have "\<forall>j < num_fields fs. j < s \<or> k \<le> j \<longrightarrow> \<not> field_matches tag (fs ! j)" by metis
        with r show ?thesis unfolding eq by (intro disjI2) simp
      qed
    next
      case last: False
      with Suc.prems have N: "num_fields fs = Suc k" by simp
      have nx: "snd (pb_field_iter_next (iter_at fs d k)) = iter_at fs d 0"
        using iter_next_at [OF Suc.prems(2), of d] last by (simp del: iter_at.simps)
      have pos: "it_pos (iter_at fs d 0) = 0" using iter_at_simps [of 0 fs d] by simp
      show ?thesis
      proof (cases "s = 0")
        case True
        with False m nx pos N show ?thesis by (auto simp: less_Suc_eq_le simp del: iter_at.simps)
      next
        case s: False
        have eq: "iter_find_loop (Suc n) s tag (iter_at fs d k) = iter_find_loop n s tag (iter_at fs d 0)"
          using s False m nx pos by (simp del: iter_at.simps)
        have n: "0 < s" "s < num_fields fs" "s - 0 \<le> n" using s Suc.prems N by auto
        have range: "\<forall>j < num_fields fs. (j < s \<or> k \<le> j) = (0 \<le> j \<and> j < s \<or> j = k)"
          using N by auto
        have below: "\<forall>j < s. j < num_fields fs" using n by auto
        from iter_find_wrapped [OF n, of tag d] show ?thesis
        proof (elim disjE exE conjE)
          fix j assume "j < s" "field_matches tag (fs ! j)"
            and "iter_find_loop n s tag (iter_at fs d 0) = ret_true (iter_at fs d j)"
          then show ?thesis unfolding eq using below by (intro disjI1 exI [of _ j]) simp
        next
          assume no: "\<forall>j. 0 \<le> j \<and> j < s \<longrightarrow> \<not> field_matches tag (fs ! j)"
            and r: "iter_find_loop n s tag (iter_at fs d 0) = ret_false (iter_at fs d s)"
          from no False range
          have "\<forall>j < num_fields fs. j < s \<or> k \<le> j \<longrightarrow> \<not> field_matches tag (fs ! j)" by metis
          with r show ?thesis unfolding eq by (intro disjI2) simp
        qed
      qed
    qed
  qed
qed

lemma iter_find_empty:
  "num_fields fs = 0 \<Longrightarrow> tag \<noteq> 0 \<Longrightarrow>
     pb_field_iter_find (iter_at fs d 0) tag = ret_false (iter_at fs d 0)"
  using iter_next_empty [of fs d] field_at_num_fields [of fs] iter_at_simps [of 0 fs d]
  by (simp add: pb_field_iter_find_def iter_matches_def it_field_def del: iter_at.simps)

text \<open>A tag is found exactly when a field of the message has it.\<close>

definition has_field :: "pb_field list \<Rightarrow> u32 \<Rightarrow> bool" where
  "has_field fs tag \<longleftrightarrow> (\<exists>j < num_fields fs. field_matches tag (fs ! j))"

lemma iter_find_cases:
  assumes "k < num_fields fs \<or> k = 0" and "tag \<noteq> 0"
  obtains (found) j where "j < num_fields fs" and "field_matches tag (fs ! j)"
      and "pb_field_iter_find (iter_at fs d k) tag = ret_true (iter_at fs d j)"
    | (not_found) "\<not> has_field fs tag"
      and "pb_field_iter_find (iter_at fs d k) tag = ret_false (iter_at fs d k)"
proof (cases "num_fields fs = 0")
  case True
  with assms iter_find_empty [of fs tag d] show ?thesis
    by (intro not_found) (simp_all add: has_field_def)
next
  case False
  with assms have k: "k < num_fields fs" by auto
  have eq: "pb_field_iter_find (iter_at fs d k) tag = iter_find_loop (Suc (length fs)) k tag (iter_at fs d k)"
    using k iter_at_simps [of k fs d] by (simp add: pb_field_iter_find_def)
  have "num_fields fs - k + k \<le> Suc (length fs)" using k num_fields_le [of fs] by simp
  from iter_find_unwrapped [OF order_refl k this, of tag d] show ?thesis
    unfolding eq [symmetric] using found not_found
    by (meson has_field_def not_le_imp_less)
qed

section \<open>Loops over the fields\<close>

lemma iter_next_True:
  "pb_field_iter_next it = (True, it') \<Longrightarrow>
     it_start it' = it_start it \<and> it_pos it' = Suc (it_pos it) \<and> Suc (it_pos it) < length (it_start it)"
  by (auto simp: pb_field_iter_next_def Let_def it_field_def field_at_def PB_LAST_FIELD_def
      split: if_splits)

text \<open>
  The idiom \<^verbatim>\<open>do { body } while (pb_field_iter_next(&iter))\<close>, where the body may return
  early with \<^verbatim>\<open>false\<close>.
\<close>

function (sequential) iter_loop ::
  "(pb_field_iter \<Rightarrow> 's \<Rightarrow> 's cres) \<Rightarrow> pb_field_iter \<Rightarrow> 's \<Rightarrow> 's cres" where
  "iter_loop body it s = and_then (body it s)
     (\<lambda>s. case pb_field_iter_next it of
        (True, it') \<Rightarrow> iter_loop body it' s
      | (False, it') \<Rightarrow> ret_true s)"
  by pat_completeness auto
termination
  by (relation "measure (\<lambda>(body, it, s). length (it_start it) - it_pos it)")
     (auto dest!: sym [of "(_, _)"] iter_next_True)

declare iter_loop.simps [simp del]

lemma iter_loop_at:
  "k < num_fields fs \<Longrightarrow> iter_loop body (iter_at fs d k) s =
     and_then (body (iter_at fs d k) s)
       (\<lambda>s. if Suc k < num_fields fs then iter_loop body (iter_at fs d (Suc k)) s else ret_true s)"
  by (simp only: iter_loop.simps [of body "iter_at fs d k" s] iter_next_at)
     (simp add: and_then_def del: iter_at.simps split: option.split)

text \<open>
  A property of every body along the fields, in a form that composes: \<open>Q\<close> is a property of
  state transformers closed under sequencing and held by the empty one.
\<close>

lemma iter_loop_closed:
  assumes ret: "Q ret_true"
    and seq: "\<And>f g. Q f \<Longrightarrow> Q g \<Longrightarrow> Q (\<lambda>s. and_then (f s) g)"
    and body: "\<And>j. j < num_fields fs \<Longrightarrow> Q (body (iter_at fs d j))"
  shows "k < num_fields fs \<Longrightarrow> Q (\<lambda>s. iter_loop body (iter_at fs d k) s)"
proof (induction "num_fields fs - k" arbitrary: k)
  case 0
  then show ?case by simp
next
  case (Suc n)
  have step: "Q (\<lambda>s. if Suc k < num_fields fs then iter_loop body (iter_at fs d (Suc k)) s else ret_true s)"
  proof (cases "Suc k < num_fields fs")
    case True
    with Suc.hyps(1) [of "Suc k"] Suc.hyps(2) show ?thesis by (simp del: iter_at.simps)
  next
    case False
    with ret show ?thesis by simp
  qed
  have eq: "iter_loop body (iter_at fs d k) = (\<lambda>s. and_then (body (iter_at fs d k) s)
      (\<lambda>s. if Suc k < num_fields fs then iter_loop body (iter_at fs d (Suc k)) s else ret_true s))"
    by (rule ext) (rule iter_loop_at [OF Suc.prems])
  show ?case unfolding eq by (rule seq [OF body [OF Suc.prems] step])
qed

end
