(* ===== verification/Pb_Encode.thy ===== *)
theory Pb_Encode
  imports Pb_Common
begin

text \<open>
  The nanopb encoder (\<^verbatim>\<open>pb_encode.c\<close>). An output stream has a write callback (\<open>None\<close> for the
  null callback of a sizing stream) over a state of any type \<open>'s\<close>; \<open>buf_write\<close> is the callback
  of \<open>pb_ostream_from_buffer\<close>. The message lies in byte memory, which encoding only reads.
  Descriptors of submessages, user callbacks and extension encoders are reached through
  pointers; what they point to is the environment \<open>enc_env\<close>. \<open>pb_encode\<close> recurses
  through submessages, whose nesting depth is its fuel.
\<close>

section \<open>Output streams\<close>

record 's ostream =
  ocallback :: "('s option \<Rightarrow> u8 list \<Rightarrow> bool \<times> 's option) option"
  ostate :: "'s option"
  max_size :: u64
  bytes_written :: u64
  oerrmsg :: "string option"

definition PB_OSTREAM_SIZING :: "'s ostream" where
  "PB_OSTREAM_SIZING = \<lparr>ocallback = None, ostate = None, max_size = 0, bytes_written = 0,
     oerrmsg = None\<rparr>"

text \<open>\<^verbatim>\<open>PB_RETURN_ERROR\<close>: the first message stays.\<close>

definition out_error :: "'s ostream \<Rightarrow> string \<Rightarrow> 's ostream cres" where
  "out_error s msg = ret_false (s\<lparr>oerrmsg := (case oerrmsg s of None \<Rightarrow> Some msg | Some e \<Rightarrow> Some e)\<rparr>)"

text \<open>The state of a buffer stream: the object written to and the offset of the pointer.\<close>

record obuf =
  ob_bytes :: "u8 list"
  ob_pos :: nat

definition write_at :: "u8 list \<Rightarrow> nat \<Rightarrow> u8 list \<Rightarrow> u8 list" where
  "write_at xs i bs = take i xs @ bs @ drop (i + length bs) xs"

fun buf_write :: "obuf option \<Rightarrow> u8 list \<Rightarrow> bool \<times> obuf option" where
  "buf_write None buf = (False, None)"
| "buf_write (Some dest) buf =
     (True, Some (dest\<lparr>ob_bytes := write_at (ob_bytes dest) (ob_pos dest) buf,
                      ob_pos := ob_pos dest + length buf\<rparr>))"

definition pb_ostream_from_buffer :: "u8 list \<Rightarrow> u64 \<Rightarrow> obuf ostream" where
  "pb_ostream_from_buffer buf bufsize =
     \<lparr>ocallback = Some buf_write, ostate = Some \<lparr>ob_bytes = buf, ob_pos = 0\<rparr>,
      max_size = bufsize, bytes_written = 0, oerrmsg = None\<rparr>"

definition pb_write :: "'s ostream \<Rightarrow> u8 list \<Rightarrow> u64 \<Rightarrow> 's ostream cres" where
  "pb_write s buf count =
     (case (if 0 < count then ocallback s else None) of
        None \<Rightarrow> ret_true (s\<lparr>bytes_written := bytes_written s + count\<rparr>)
      | Some cb \<Rightarrow>
          if bytes_written s + count < bytes_written s \<or> max_size s < bytes_written s + count
          then out_error s ''stream full''
          else case cb (ostate s) (take (unat count) buf) of
            (ok, st) \<Rightarrow>
              let s = s\<lparr>ostate := st\<rparr> in
              if \<not> ok then out_error s ''io error''
              else ret_true (s\<lparr>bytes_written := bytes_written s + count\<rparr>))"

section \<open>The environment: memory and what pointers point to\<close>

record 's enc_env =
  e_mem :: mem
  e_fields :: "addr \<Rightarrow> pb_field list"
  e_encode :: "addr \<Rightarrow> 's ostream \<Rightarrow> pb_field \<Rightarrow> addr \<Rightarrow> 's ostream cres"
  e_ext_encode :: "addr \<Rightarrow> 's ostream \<Rightarrow> addr \<Rightarrow> 's ostream cres"

type_synonym 's encoder = "'s ostream \<Rightarrow> pb_field \<Rightarrow> addr \<Rightarrow> 's ostream cres"

definition safe_read_bool :: "mem \<Rightarrow> addr \<Rightarrow> bool" where
  "safe_read_bool m p \<longleftrightarrow> m p \<noteq> 0"

section \<open>Helper functions: varints, tags, fixed-width values\<close>

function varint_loop :: "u64 \<Rightarrow> u8 list" where
  "varint_loop val = (if val = 0 then []
     else (ucast (val AND 0x7F) OR 0x80) # varint_loop (drop_bit 7 val))"
  by pat_completeness auto
termination
  by (relation "measure unat") (auto intro: unat_drop_bit_less)

declare varint_loop.simps [simp del]

definition varint_bytes :: "u64 \<Rightarrow> u8 list" where
  "varint_bytes val = (if val \<le> 0x7F then [ucast val]
     else let buffer = varint_loop val in butlast buffer @ [last buffer AND 0x7F])"

definition pb_encode_varint :: "'s ostream \<Rightarrow> u64 \<Rightarrow> 's ostream cres" where
  "pb_encode_varint s val =
     (let buffer = varint_bytes val in pb_write s buffer (word_of_nat (length buffer)))"

definition zigzag :: "u64 \<Rightarrow> u64" where
  "zigzag val = (if val <s 0 then NOT (push_bit 1 val) else push_bit 1 val)"

definition pb_encode_svarint :: "'s ostream \<Rightarrow> u64 \<Rightarrow> 's ostream cres" where
  "pb_encode_svarint s val = pb_encode_varint s (zigzag val)"

definition pb_encode_fixed32 :: "'s ostream \<Rightarrow> u32 \<Rightarrow> 's ostream cres" where
  "pb_encode_fixed32 s val = pb_write s
     [ucast (val AND 0xFF), ucast (drop_bit 8 val AND 0xFF),
      ucast (drop_bit 16 val AND 0xFF), ucast (drop_bit 24 val AND 0xFF)] 4"

definition pb_encode_fixed64 :: "'s ostream \<Rightarrow> u64 \<Rightarrow> 's ostream cres" where
  "pb_encode_fixed64 s val = pb_write s
     [ucast (val AND 0xFF), ucast (drop_bit 8 val AND 0xFF),
      ucast (drop_bit 16 val AND 0xFF), ucast (drop_bit 24 val AND 0xFF),
      ucast (drop_bit 32 val AND 0xFF), ucast (drop_bit 40 val AND 0xFF),
      ucast (drop_bit 48 val AND 0xFF), ucast (drop_bit 56 val AND 0xFF)] 8"

definition pb_encode_tag :: "'s ostream \<Rightarrow> u32 \<Rightarrow> u32 \<Rightarrow> 's ostream cres" where
  "pb_encode_tag s wiretype field_number =
     pb_encode_varint s (push_bit 3 (ucast field_number) OR ucast wiretype)"

definition wiretype_of :: "u8 \<Rightarrow> u32 option" where
  "wiretype_of ltype =
     (if ltype \<in> {PB_LTYPE_BOOL, PB_LTYPE_VARINT, PB_LTYPE_UVARINT, PB_LTYPE_SVARINT}
      then Some PB_WT_VARINT
      else if ltype = PB_LTYPE_FIXED32 then Some PB_WT_32BIT
      else if ltype = PB_LTYPE_FIXED64 then Some PB_WT_64BIT
      else if ltype \<in> {PB_LTYPE_BYTES, PB_LTYPE_STRING, PB_LTYPE_SUBMESSAGE,
                        PB_LTYPE_FIXED_LENGTH_BYTES} then Some PB_WT_STRING
      else None)"

definition pb_encode_tag_for_field :: "'s ostream \<Rightarrow> pb_field \<Rightarrow> 's ostream cres" where
  "pb_encode_tag_for_field s field =
     (case wiretype_of (PB_LTYPE (f_type field)) of
        None \<Rightarrow> out_error s ''invalid field type''
      | Some wiretype \<Rightarrow> pb_encode_tag s wiretype (f_tag field))"

definition pb_encode_string :: "'s ostream \<Rightarrow> u8 list \<Rightarrow> u64 \<Rightarrow> 's ostream cres" where
  "pb_encode_string s buffer sz =
     and_then (pb_encode_varint s sz) (\<lambda>s. pb_write s buffer sz)"

section \<open>Submessages\<close>

text \<open>
  \<^verbatim>\<open>enc\<close> stands for the recursive call of \<open>pb_encode\<close> on the submessage. The first pass
  runs on a sizing stream, the second on a substream limited to the size found.
\<close>

definition pb_encode_submessage ::
  "('s ostream \<Rightarrow> 's ostream cres) \<Rightarrow> 's ostream \<Rightarrow> 's ostream cres" where
  "pb_encode_submessage enc s =
     (case enc PB_OSTREAM_SIZING of
        None \<Rightarrow> None
      | Some (False, substream) \<Rightarrow> ret_false (s\<lparr>oerrmsg := oerrmsg substream\<rparr>)
      | Some (True, substream) \<Rightarrow>
          let sz = bytes_written substream in
          and_then (pb_encode_varint s sz) (\<lambda>s.
            if ocallback s = None then pb_write s [] sz
            else if max_size s < bytes_written s + sz then out_error s ''stream full''
            else case enc \<lparr>ocallback = ocallback s, ostate = ostate s, max_size = sz,
                           bytes_written = 0, oerrmsg = None\<rparr> of
              None \<Rightarrow> None
            | Some (status, substream) \<Rightarrow>
                let s = s\<lparr>bytes_written := bytes_written s + bytes_written substream,
                          ostate := ostate substream, oerrmsg := oerrmsg substream\<rparr> in
                if bytes_written substream \<noteq> sz then out_error s ''submsg size changed''
                else Some (status, s)))"

section \<open>Encoders of single values\<close>

definition pb_enc_bool :: "mem \<Rightarrow> 's encoder" where
  "pb_enc_bool m s field src = pb_encode_varint s (if safe_read_bool m src then 1 else 0)"

definition read_int :: "mem \<Rightarrow> addr \<Rightarrow> u32 \<Rightarrow> u64 option" where
  "read_int m src sz =
     (if sz = 1 then Some (scast (m src))
      else if sz = 2 then Some (scast (le_word (load m src 2) :: u16))
      else if sz = 4 then Some (scast (load_u32 m src))
      else if sz = 8 then Some (load_u64 m src) else None)"

definition read_uint :: "mem \<Rightarrow> addr \<Rightarrow> u32 \<Rightarrow> u64 option" where
  "read_uint m src sz =
     (if sz = 1 then Some (ucast (m src))
      else if sz = 2 then Some (ucast (le_word (load m src 2) :: u16))
      else if sz = 4 then Some (ucast (load_u32 m src))
      else if sz = 8 then Some (load_u64 m src) else None)"

definition pb_enc_varint :: "mem \<Rightarrow> 's encoder" where
  "pb_enc_varint m s field src =
     (case read_int m src (f_data_size field) of
        None \<Rightarrow> out_error s ''invalid data_size''
      | Some val \<Rightarrow> pb_encode_varint s val)"

definition pb_enc_uvarint :: "mem \<Rightarrow> 's encoder" where
  "pb_enc_uvarint m s field src =
     (case read_uint m src (f_data_size field) of
        None \<Rightarrow> out_error s ''invalid data_size''
      | Some val \<Rightarrow> pb_encode_varint s val)"

definition pb_enc_svarint :: "mem \<Rightarrow> 's encoder" where
  "pb_enc_svarint m s field src =
     (case read_int m src (f_data_size field) of
        None \<Rightarrow> out_error s ''invalid data_size''
      | Some val \<Rightarrow> pb_encode_svarint s val)"

definition pb_enc_fixed32 :: "mem \<Rightarrow> 's encoder" where
  "pb_enc_fixed32 m s field src = pb_encode_fixed32 s (load_u32 m src)"

definition pb_enc_fixed64 :: "mem \<Rightarrow> 's encoder" where
  "pb_enc_fixed64 m s field src = pb_encode_fixed64 s (load_u64 m src)"

text \<open>The header of a \<^verbatim>\<open>pb_bytes_array_t\<close> is its 4-byte size.\<close>

definition PB_BYTES_ARRAY_T_ALLOCSIZE :: "u32 \<Rightarrow> u64" where
  "PB_BYTES_ARRAY_T_ALLOCSIZE n = ucast n + 4"

definition pb_enc_bytes :: "mem \<Rightarrow> 's encoder" where
  "pb_enc_bytes m s field src =
     (if src = 0 then pb_encode_string s [] 0
      else let sz = load_u32 m src; allocsize = PB_BYTES_ARRAY_T_ALLOCSIZE sz in
        if allocsize < ucast sz
           \<or> (PB_ATYPE (f_type field) = PB_ATYPE_STATIC \<and> ucast (f_data_size field) < allocsize)
        then out_error s ''bytes size exceeded''
        else pb_encode_string s (load m (src + 4) (unat sz)) (ucast sz))"

function strnlen_loop :: "mem \<Rightarrow> addr \<Rightarrow> u64 \<Rightarrow> u64 \<Rightarrow> u64" where
  "strnlen_loop m p sz maxsize =
     (if sz < maxsize \<and> m p \<noteq> 0 then strnlen_loop m (p + 1) (sz + 1) maxsize else sz)"
  by pat_completeness auto
termination
  by (relation "measure (\<lambda>(m, p, sz, maxsize). unat maxsize - unat sz)")
     (auto simp: unat_Suc_less word_less_nat_alt)

declare strnlen_loop.simps [simp del]

definition pb_enc_string :: "mem \<Rightarrow> 's encoder" where
  "pb_enc_string m s field src =
     (let maxsize = (if PB_ATYPE (f_type field) = PB_ATYPE_POINTER then - 1
                     else ucast (f_data_size field));
          sz = (if src = 0 then 0 else strnlen_loop m src 0 maxsize)
      in pb_encode_string s (load m src (unat sz)) sz)"

definition pb_enc_submessage ::
  "'s enc_env \<Rightarrow> ('s ostream \<Rightarrow> pb_field list \<Rightarrow> addr \<Rightarrow> 's ostream cres) \<Rightarrow> 's encoder" where
  "pb_enc_submessage env enc s field src =
     (if f_ptr field = 0 then out_error s ''invalid field descriptor''
      else pb_encode_submessage (\<lambda>s. enc s (e_fields env (f_ptr field)) src) s)"

definition pb_enc_fixed_length_bytes :: "mem \<Rightarrow> 's encoder" where
  "pb_enc_fixed_length_bytes m s field src =
     pb_encode_string s (load m src (unat (f_data_size field))) (ucast (f_data_size field))"

text \<open>The table of encoders; a call through its null entry or past its end does not return.\<close>

definition PB_ENCODERS ::
  "'s enc_env \<Rightarrow> ('s ostream \<Rightarrow> pb_field list \<Rightarrow> addr \<Rightarrow> 's ostream cres) \<Rightarrow> u8 \<Rightarrow> 's encoder" where
  "PB_ENCODERS env enc ltype s field src =
     (let m = e_mem env in
      if ltype = PB_LTYPE_BOOL then pb_enc_bool m s field src
      else if ltype = PB_LTYPE_VARINT then pb_enc_varint m s field src
      else if ltype = PB_LTYPE_UVARINT then pb_enc_uvarint m s field src
      else if ltype = PB_LTYPE_SVARINT then pb_enc_svarint m s field src
      else if ltype = PB_LTYPE_FIXED32 then pb_enc_fixed32 m s field src
      else if ltype = PB_LTYPE_FIXED64 then pb_enc_fixed64 m s field src
      else if ltype = PB_LTYPE_BYTES then pb_enc_bytes m s field src
      else if ltype = PB_LTYPE_STRING then pb_enc_string m s field src
      else if ltype = PB_LTYPE_SUBMESSAGE then pb_enc_submessage env enc s field src
      else if ltype = PB_LTYPE_FIXED_LENGTH_BYTES then pb_enc_fixed_length_bytes m s field src
      else None)"

section \<open>Encoding a single field\<close>

fun encode_items :: "'s encoder \<Rightarrow> 's ostream \<Rightarrow> pb_field \<Rightarrow> addr \<Rightarrow> nat \<Rightarrow> 's ostream cres" where
  "encode_items func s field p 0 = ret_true s"
| "encode_items func s field p (Suc n) =
     and_then (func s field p)
       (\<lambda>s. encode_items func s field (p + ucast (f_data_size field)) n)"

fun encode_unpacked :: "mem \<Rightarrow> 's encoder \<Rightarrow> 's ostream \<Rightarrow> pb_field \<Rightarrow> addr \<Rightarrow> nat \<Rightarrow> 's ostream cres" where
  "encode_unpacked m func s field p 0 = ret_true s"
| "encode_unpacked m func s field p (Suc n) =
     and_then (pb_encode_tag_for_field s field) (\<lambda>s.
       and_then
         (if PB_ATYPE (f_type field) = PB_ATYPE_POINTER
             \<and> (PB_LTYPE (f_type field) = PB_LTYPE_STRING
                \<or> PB_LTYPE (f_type field) = PB_LTYPE_BYTES)
          then func s field (load_u64 m p)
          else func s field p)
         (\<lambda>s. encode_unpacked m func s field (p + ucast (f_data_size field)) n))"

definition encode_array ::
  "mem \<Rightarrow> 's ostream \<Rightarrow> pb_field \<Rightarrow> addr \<Rightarrow> u64 \<Rightarrow> 's encoder \<Rightarrow> 's ostream cres" where
  "encode_array m s field pData count func =
     (if count = 0 then ret_true s
      else if PB_ATYPE (f_type field) \<noteq> PB_ATYPE_POINTER \<and> ucast (f_array_size field) < count
      then out_error s ''array max size exceeded''
      else if PB_LTYPE (f_type field) \<le> PB_LTYPE_LAST_PACKABLE then
        and_then (pb_encode_tag s PB_WT_STRING (f_tag field)) (\<lambda>s.
          let sizing =
            (if PB_LTYPE (f_type field) = PB_LTYPE_FIXED32
             then ret_true (PB_OSTREAM_SIZING\<lparr>bytes_written := 4 * count\<rparr>)
             else if PB_LTYPE (f_type field) = PB_LTYPE_FIXED64
             then ret_true (PB_OSTREAM_SIZING\<lparr>bytes_written := 8 * count\<rparr>)
             else encode_items func PB_OSTREAM_SIZING field pData (unat count))
          in case sizing of
               None \<Rightarrow> None
             | Some (False, _) \<Rightarrow> ret_false s
             | Some (True, sizestream) \<Rightarrow>
                 let sz = bytes_written sizestream in
                 and_then (pb_encode_varint s sz) (\<lambda>s.
                   if ocallback s = None then pb_write s [] sz
                   else encode_items func s field pData (unat count)))
      else encode_unpacked m func s field pData (unat count))"

fun pb_check_proto3_default_value :: "'s enc_env \<Rightarrow> nat \<Rightarrow> pb_field \<Rightarrow> addr \<Rightarrow> bool option" where
  "pb_check_proto3_default_value env 0 field pData = None"
| "pb_check_proto3_default_value env (Suc n) field pData =
     (let type = f_type field; m = e_mem env; pSize = pData + scast (f_size_offset field) in
      if PB_HTYPE type = PB_HTYPE_REQUIRED then Some False
      else if PB_HTYPE type = PB_HTYPE_REPEATED \<and> f_size_offset field \<noteq> 0
      then Some (load_u32 m pSize = 0)
      else if PB_HTYPE type = PB_HTYPE_REPEATED \<and> PB_ATYPE type = PB_ATYPE_STATIC then Some False
      else if PB_HTYPE type = PB_HTYPE_ONEOF then Some (load_u32 m pSize = 0)
      else if PB_HTYPE type = PB_HTYPE_OPTIONAL \<and> f_size_offset field \<noteq> 0
      then Some (safe_read_bool m pSize = False)
      else if PB_ATYPE type = PB_ATYPE_STATIC \<and> PB_LTYPE type = PB_LTYPE_BYTES
      then Some (load_u32 m pData = 0)
      else if PB_ATYPE type = PB_ATYPE_STATIC \<and> PB_LTYPE type = PB_LTYPE_STRING
      then Some (m pData = 0)
      else if PB_ATYPE type = PB_ATYPE_STATIC \<and> PB_LTYPE type = PB_LTYPE_FIXED_LENGTH_BYTES
      then Some (f_data_size field = 0)
      else if PB_ATYPE type = PB_ATYPE_STATIC \<and> PB_LTYPE type = PB_LTYPE_SUBMESSAGE
      then case pb_field_iter_begin (e_fields env (f_ptr field)) pData of
          (False, it) \<Rightarrow> Some True
        | (True, it) \<Rightarrow>
            map_option fst (iter_loop (\<lambda>it u. map_option (\<lambda>b. (b, u))
              (pb_check_proto3_default_value env n (it_field it) (it_pData it))) it ())
      else if PB_ATYPE type = PB_ATYPE_POINTER \<and> PB_LTYPE_LAST_PACKABLE < PB_LTYPE type
      then Some (load_u64 m pData = 0)
      else Some (list_all (\<lambda>b. b = 0) (load m pData (unat (f_data_size field)))))"

text \<open>
  \<open>pSize\<close> is \<open>None\<close> while it points to the local \<^verbatim>\<open>implicit_has\<close>; reading a 4-byte
  count from there is undefined in C, and has no result here.
\<close>

definition encode_basic_field ::
  "'s enc_env \<Rightarrow> nat \<Rightarrow> ('s ostream \<Rightarrow> pb_field list \<Rightarrow> addr \<Rightarrow> 's ostream cres) \<Rightarrow> 's encoder" where
  "encode_basic_field env n enc s field pData =
     (let m = e_mem env;
          func = PB_ENCODERS env enc (PB_LTYPE (f_type field));
          pSize = (if f_size_offset field \<noteq> 0 then Some (pData + scast (f_size_offset field)) else None)
      in case (if f_size_offset field \<noteq> 0 then Some True
               else if PB_HTYPE (f_type field) = PB_HTYPE_OPTIONAL
               then map_option Not (pb_check_proto3_default_value env n field pData)
               else Some True) of
        None \<Rightarrow> None
      | Some implicit_has \<Rightarrow>
          let pointer = (PB_ATYPE (f_type field) = PB_ATYPE_POINTER);
              pData = (if pointer then load_u64 m pData else pData);
              implicit_has = (if pointer then pData \<noteq> 0 else implicit_has);
              htype = PB_HTYPE (f_type field)
          in if htype = PB_HTYPE_REQUIRED then
               if pData = 0 then out_error s ''missing required field''
               else and_then (pb_encode_tag_for_field s field) (\<lambda>s. func s field pData)
             else if htype = PB_HTYPE_OPTIONAL then
               if (case pSize of Some a \<Rightarrow> safe_read_bool m a | None \<Rightarrow> implicit_has)
               then and_then (pb_encode_tag_for_field s field) (\<lambda>s. func s field pData)
               else ret_true s
             else if htype = PB_HTYPE_REPEATED then
               let count = (case pSize of Some a \<Rightarrow> load_u32 m a | None \<Rightarrow> f_array_size field)
               in encode_array m s field pData (ucast count) func
             else if htype = PB_HTYPE_ONEOF then
               (case pSize of None \<Rightarrow> None
                | Some a \<Rightarrow>
                    if load_u32 m a = f_tag field
                    then and_then (pb_encode_tag_for_field s field) (\<lambda>s. func s field pData)
                    else ret_true s)
             else out_error s ''invalid field type'')"

definition encode_callback_field :: "'s enc_env \<Rightarrow> 's encoder" where
  "encode_callback_field env s field pData =
     (let encode = load_u64 (e_mem env) pData; arg = pData + 8 in
      if encode \<noteq> 0 then
        case e_encode env encode s field arg of
          None \<Rightarrow> None
        | Some (ok, s) \<Rightarrow> if ok then ret_true s else out_error s ''callback error''
      else ret_true s)"

definition encode_field ::
  "'s enc_env \<Rightarrow> nat \<Rightarrow> ('s ostream \<Rightarrow> pb_field list \<Rightarrow> addr \<Rightarrow> 's ostream cres) \<Rightarrow> 's encoder" where
  "encode_field env n enc s field pData =
     (let atype = PB_ATYPE (f_type field) in
      if atype = PB_ATYPE_STATIC \<or> atype = PB_ATYPE_POINTER
      then encode_basic_field env n enc s field pData
      else if atype = PB_ATYPE_CALLBACK then encode_callback_field env s field pData
      else out_error s ''invalid field type'')"

text \<open>
  \<^verbatim>\<open>pb_extension_t\<close> is \<open>type\<close>, \<open>dest\<close>, \<open>next\<close>, \<open>found\<close> at offsets 0, 8, 16, 24;
  \<^verbatim>\<open>pb_extension_type_t\<close> is \<open>decode\<close>, \<open>encode\<close>, \<open>arg\<close> at 0, 8, 16.
\<close>

definition default_extension_encoder ::
  "'s enc_env \<Rightarrow> nat \<Rightarrow> ('s ostream \<Rightarrow> pb_field list \<Rightarrow> addr \<Rightarrow> 's ostream cres) \<Rightarrow>
   's ostream \<Rightarrow> addr \<Rightarrow> 's ostream cres" where
  "default_extension_encoder env n enc s extension =
     (let m = e_mem env;
          field = field_at (e_fields env (load_u64 m (load_u64 m extension + 16))) 0
      in if PB_ATYPE (f_type field) = PB_ATYPE_POINTER
         then encode_field env n enc s field (extension + 8)
         else encode_field env n enc s field (load_u64 m (extension + 8)))"

text \<open>The walk along the linked list of extensions, which has at most \<open>k\<close> nodes.\<close>

fun encode_extensions ::
  "'s enc_env \<Rightarrow> nat \<Rightarrow> ('s ostream \<Rightarrow> pb_field list \<Rightarrow> addr \<Rightarrow> 's ostream cres) \<Rightarrow> nat \<Rightarrow>
   's ostream \<Rightarrow> addr \<Rightarrow> 's ostream cres" where
  "encode_extensions env n enc 0 s extension = (if extension = 0 then ret_true s else None)"
| "encode_extensions env n enc (Suc k) s extension =
     (if extension = 0 then ret_true s
      else let m = e_mem env; encode = load_u64 m (load_u64 m extension + 8) in
        and_then
          (if encode \<noteq> 0 then e_ext_encode env encode s extension
           else default_extension_encoder env n enc s extension)
          (\<lambda>s. encode_extensions env n enc k s (load_u64 m (extension + 16))))"

definition encode_extension_field ::
  "'s enc_env \<Rightarrow> nat \<Rightarrow> ('s ostream \<Rightarrow> pb_field list \<Rightarrow> addr \<Rightarrow> 's ostream cres) \<Rightarrow> 's encoder" where
  "encode_extension_field env n enc s field pData =
     encode_extensions env n enc n s (load_u64 (e_mem env) pData)"

section \<open>Encoding all fields\<close>

fun pb_encode :: "'s enc_env \<Rightarrow> nat \<Rightarrow> 's ostream \<Rightarrow> pb_field list \<Rightarrow> addr \<Rightarrow> 's ostream cres" where
  "pb_encode env 0 s fs src_struct = None"
| "pb_encode env (Suc n) s fs src_struct =
     (case pb_field_iter_begin fs src_struct of
        (False, it) \<Rightarrow> ret_true s
      | (True, it) \<Rightarrow>
          iter_loop (\<lambda>it s.
            if PB_LTYPE (f_type (it_field it)) = PB_LTYPE_EXTENSION
            then encode_extension_field env (Suc n) (pb_encode env n) s (it_field it) (it_pData it)
            else encode_field env (Suc n) (pb_encode env n) s (it_field it) (it_pData it)) it s)"

definition pb_encode_delimited ::
  "'s enc_env \<Rightarrow> nat \<Rightarrow> 's ostream \<Rightarrow> pb_field list \<Rightarrow> addr \<Rightarrow> 's ostream cres" where
  "pb_encode_delimited env n s fs src_struct =
     pb_encode_submessage (\<lambda>s. pb_encode env n s fs src_struct) s"

definition pb_encode_nullterminated ::
  "'s enc_env \<Rightarrow> nat \<Rightarrow> 's ostream \<Rightarrow> pb_field list \<Rightarrow> addr \<Rightarrow> 's ostream cres" where
  "pb_encode_nullterminated env n s fs src_struct =
     and_then (pb_encode env n s fs src_struct) (\<lambda>s. pb_write s [0] 1)"

definition pb_get_encoded_size ::
  "'s enc_env \<Rightarrow> nat \<Rightarrow> pb_field list \<Rightarrow> addr \<Rightarrow> (bool \<times> u64 option) option" where
  "pb_get_encoded_size env n fs src_struct =
     (case pb_encode env n PB_OSTREAM_SIZING fs src_struct of
        None \<Rightarrow> None
      | Some (ok, stream) \<Rightarrow> Some (ok, if ok then Some (bytes_written stream) else None))"

end
