(* ===== verification/Pb_Wire.thy ===== *)
theory Pb_Wire
  imports Pb_Encode
begin

text \<open>
  The encoding of a message as a function of the memory it lies in: no streams, no sizing passes and no
  shared state, lengths from the bytes themselves. \<open>None\<close> is a message that has no encoding (a missing
  required field, a field too large for its storage, an unknown type). \<open>Pb_Encode_Correct\<close> proves that the encoder of
  \<^verbatim>\<open>pb_encode.c\<close> writes exactly these bytes.
\<close>

section \<open>Values\<close>

text \<open>Seven bits at a time, the lowest first, with the high bit on all but the last.\<close>

function spec_varint :: "nat \<Rightarrow> u8 list" where
  "spec_varint v = (if v < 128 then [word_of_nat v] else word_of_nat (128 + v mod 128) # spec_varint (v div 128))"
  by pat_completeness auto
termination
  by (relation "measure id") auto

declare spec_varint.simps [simp del]

definition spec_zigzag :: "u64 \<Rightarrow> nat" where
  "spec_zigzag v = (if 0 \<le> sint v then nat (2 * sint v) else nat (- 2 * sint v - 1))"

text \<open>The length is written in 64 bits.\<close>

definition spec_string :: "u8 list \<Rightarrow> u8 list" where
  "spec_string bs = spec_varint (length bs mod 2 ^ 64) @ bs"

definition spec_tag :: "u32 \<Rightarrow> u32 \<Rightarrow> u8 list" where
  "spec_tag wiretype number = spec_varint (8 * unat number + unat wiretype)"

fun spec_cstring :: "mem \<Rightarrow> addr \<Rightarrow> nat \<Rightarrow> u8 list" where
  "spec_cstring m p 0 = []"
| "spec_cstring m p (Suc n) = (if m p = 0 then [] else m p # spec_cstring m (p + 1) n)"

text \<open>One value at an address; \<open>msg\<close> is the encoding of a submessage.\<close>

definition spec_value ::
    "mem \<Rightarrow> (addr \<Rightarrow> pb_field list) \<Rightarrow> (pb_field list \<Rightarrow> addr \<Rightarrow> u8 list option) \<Rightarrow> pb_field \<Rightarrow> addr \<Rightarrow> u8 list option" where
  "spec_value m ds msg field p =
     (let l = PB_LTYPE (f_type field); n = f_data_size field in
      if l = PB_LTYPE_BOOL then Some (spec_varint (if m p = 0 then 0 else 1))
      else if l = PB_LTYPE_VARINT then map_option (\<lambda>v. spec_varint (unat v)) (read_int m p n)
      else if l = PB_LTYPE_UVARINT then map_option (\<lambda>v. spec_varint (unat v)) (read_uint m p n)
      else if l = PB_LTYPE_SVARINT then map_option (\<lambda>v. spec_varint (spec_zigzag v)) (read_int m p n)
      else if l = PB_LTYPE_FIXED32 then Some (load m p 4)
      else if l = PB_LTYPE_FIXED64 then Some (load m p 8)
      else if l = PB_LTYPE_BYTES then
        if p = 0 then Some (spec_string [])
        else if PB_ATYPE (f_type field) = PB_ATYPE_STATIC \<and> unat n < unat (load_u32 m p) + 4 then None
        else Some (spec_string (load m (p + 4) (unat (load_u32 m p))))
      else if l = PB_LTYPE_STRING then
        if p = 0 then Some (spec_string [])
        else Some (spec_string (spec_cstring m p
               (if PB_ATYPE (f_type field) = PB_ATYPE_POINTER then 2 ^ 64 - 1 else unat n)))
      else if l = PB_LTYPE_SUBMESSAGE then
        if f_ptr field = 0 then None else map_option spec_string (msg (ds (f_ptr field)) p)
      else if l = PB_LTYPE_FIXED_LENGTH_BYTES then Some (spec_string (load m p (unat n)))
      else None)"

section \<open>Fields\<close>

definition append_wire :: "u8 list option \<Rightarrow> u8 list option \<Rightarrow> u8 list option" where
  "append_wire a b = (case a of None \<Rightarrow> None | Some as \<Rightarrow> map_option (\<lambda>bs. as @ bs) b)"

definition concat_wire :: "u8 list option list \<Rightarrow> u8 list option" where
  "concat_wire ws = foldr append_wire ws (Some [])"

text \<open>The addresses of the items of an array.\<close>

definition item_addrs :: "pb_field \<Rightarrow> addr \<Rightarrow> nat \<Rightarrow> addr list" where
  "item_addrs field p count = map (\<lambda>i. p + word_of_nat i * ucast (f_data_size field)) [0..<count]"

definition spec_field_tag :: "pb_field \<Rightarrow> u8 list option" where
  "spec_field_tag field = map_option (\<lambda>wt. spec_tag wt (f_tag field)) (wiretype_of (PB_LTYPE (f_type field)))"

text \<open>\<open>val p\<close> is the encoding of the item at \<open>p\<close>. Repeated strings and bytes in allocated storage are arrays of pointers.\<close>

definition spec_array ::
    "mem \<Rightarrow> pb_field \<Rightarrow> addr \<Rightarrow> nat \<Rightarrow> (addr \<Rightarrow> u8 list option) \<Rightarrow> u8 list option" where
  "spec_array m field p count val =
     (let l = PB_LTYPE (f_type field); pointer = (PB_ATYPE (f_type field) = PB_ATYPE_POINTER);
          items = item_addrs field p count in
      if count = 0 then Some []
      else if \<not> pointer \<and> unat (f_array_size field) < count then None
      else if l \<le> PB_LTYPE_LAST_PACKABLE
      then append_wire (Some (spec_tag PB_WT_STRING (f_tag field))) (map_option spec_string (concat_wire (map val items)))
      else concat_wire (map (\<lambda>a. append_wire (spec_field_tag field)
             (val (if pointer \<and> (l = PB_LTYPE_STRING \<or> l = PB_LTYPE_BYTES) then load_u64 m a else a))) items))"

text \<open>
  A field in static or allocated storage; for an optional field without a has-flag \<open>pb_check_proto3_default_value\<close>
  says whether it is left out.
\<close>

definition spec_basic_field ::
    "'s enc_env \<Rightarrow> nat \<Rightarrow> (pb_field list \<Rightarrow> addr \<Rightarrow> u8 list option) \<Rightarrow> pb_field \<Rightarrow> addr \<Rightarrow> u8 list option" where
  "spec_basic_field env n msg field a =
     (let m = e_mem env; htype = PB_HTYPE (f_type field); counted = (f_size_offset field \<noteq> 0);
          pointer = (PB_ATYPE (f_type field) = PB_ATYPE_POINTER);
          p = (if pointer then load_u64 m a else a); size = a + scast (f_size_offset field);
          val = spec_value m (e_fields env) msg field;
          tagged = append_wire (spec_field_tag field) (val p)
      in case (if counted \<or> htype \<noteq> PB_HTYPE_OPTIONAL then Some True
               else map_option Not (pb_check_proto3_default_value env n field a)) of
           None \<Rightarrow> None
         | Some present \<Rightarrow>
             if htype = PB_HTYPE_REQUIRED then if p = 0 then None else tagged
             else if htype = PB_HTYPE_OPTIONAL then
               if (if counted then m size \<noteq> 0 else if pointer then p \<noteq> 0 else present) then tagged else Some []
             else if htype = PB_HTYPE_REPEATED then
               spec_array m field p (if counted then unat (load_u32 m size) else unat (f_array_size field)) val
             else if htype = PB_HTYPE_ONEOF then
               if \<not> counted then None else if load_u32 m size = f_tag field then tagged else Some []
             else None)"

text \<open>\<open>cb\<close> gives what each user callback writes.\<close>

definition spec_field ::
    "(addr \<Rightarrow> pb_field \<Rightarrow> addr \<Rightarrow> u8 list option) \<Rightarrow> 's enc_env \<Rightarrow> nat \<Rightarrow> (pb_field list \<Rightarrow> addr \<Rightarrow> u8 list option) \<Rightarrow>
     pb_field \<Rightarrow> addr \<Rightarrow> u8 list option" where
  "spec_field cb env n msg field a =
     (let atype = PB_ATYPE (f_type field); f = load_u64 (e_mem env) a in
      if atype = PB_ATYPE_STATIC \<or> atype = PB_ATYPE_POINTER then spec_basic_field env n msg field a
      else if atype = PB_ATYPE_CALLBACK then if f = 0 then Some [] else cb f field (a + 8)
      else None)"

text \<open>The linked list of extensions, of at most \<open>k\<close> nodes; \<open>ex\<close> gives what each extension encoder writes.\<close>

fun spec_extensions ::
    "(addr \<Rightarrow> pb_field \<Rightarrow> addr \<Rightarrow> u8 list option) \<Rightarrow> (addr \<Rightarrow> addr \<Rightarrow> u8 list option) \<Rightarrow> 's enc_env \<Rightarrow> nat \<Rightarrow>
     (pb_field list \<Rightarrow> addr \<Rightarrow> u8 list option) \<Rightarrow> nat \<Rightarrow> addr \<Rightarrow> u8 list option" where
  "spec_extensions cb ex env n msg 0 x = (if x = 0 then Some [] else None)"
| "spec_extensions cb ex env n msg (Suc k) x =
     (if x = 0 then Some []
      else let m = e_mem env; f = load_u64 m (load_u64 m x + 8);
               field = field_at (e_fields env (load_u64 m (load_u64 m x + 16))) 0 in
        append_wire
          (if f \<noteq> 0 then ex f x
           else spec_field cb env n msg field
             (if PB_ATYPE (f_type field) = PB_ATYPE_POINTER then x + 8 else load_u64 m (x + 8)))
          (spec_extensions cb ex env n msg k (load_u64 m (x + 16))))"

section \<open>Messages\<close>

text \<open>The fields one after the other, submessages at most \<open>n\<close> deep.\<close>

fun spec_message ::
    "(addr \<Rightarrow> pb_field \<Rightarrow> addr \<Rightarrow> u8 list option) \<Rightarrow> (addr \<Rightarrow> addr \<Rightarrow> u8 list option) \<Rightarrow> 's enc_env \<Rightarrow> nat \<Rightarrow>
     pb_field list \<Rightarrow> addr \<Rightarrow> u8 list option" where
  "spec_message cb ex env 0 fs src = None"
| "spec_message cb ex env (Suc n) fs src =
     concat_wire (map (\<lambda>i. let field = fs ! i; a = it_pData (iter_at fs src i) in
         if PB_LTYPE (f_type field) = PB_LTYPE_EXTENSION
         then spec_extensions cb ex env (Suc n) (spec_message cb ex env n) (Suc n) (load_u64 (e_mem env) a)
         else spec_field cb env (Suc n) (spec_message cb ex env n) field a)
       [0..<num_fields fs])"

lemma concat_wire_simps [simp]: "concat_wire [] = Some []" "concat_wire (w # ws) = append_wire w (concat_wire ws)"
  by (simp_all add: concat_wire_def)

lemma item_addrs_simps [simp]:
  "item_addrs field p 0 = []" "item_addrs field p (Suc n) = p # item_addrs field (p + ucast (f_data_size field)) n"
  by (simp_all add: item_addrs_def upt_conv_Cons algebra_simps flip: map_Suc_upt del: upt_Suc)

section \<open>The values of the specification and those of the code\<close>

lemma varint_loop_nonempty: "val \<noteq> 0 \<Longrightarrow> varint_loop val \<noteq> []"
  by (simp add: varint_loop.simps [of val])

text \<open>The bytes of a varint by recursion, without the loop that marks every byte first.\<close>

function vbytes :: "u64 \<Rightarrow> u8 list" where
  "vbytes v = (if v \<le> 0x7F then [ucast v]
     else (ucast (v AND 0x7F) OR 0x80) # vbytes (drop_bit 7 v))"
  by pat_completeness auto
termination
  by (relation "measure unat") (auto intro!: unat_drop_bit_less)

declare vbytes.simps [simp del]

lemma drop_bit_7_eq_0: "drop_bit 7 v = 0 \<longleftrightarrow> v \<le> (0x7F :: u64)"
proof -
  have "drop_bit 7 v = 0 \<longleftrightarrow> unat v div 128 = 0"
    by (simp add: unat_drop_bit flip: unat_eq_zero)
  also have "\<dots> \<longleftrightarrow> v \<le> 0x7F" by (auto simp: word_le_nat_alt div_eq_0_iff)
  finally show ?thesis .
qed

lemma drop_bit_0_bit:
  assumes "drop_bit k w = 0" and "bit (w :: 'a::len word) n"
  shows "n < k"
proof (rule ccontr)
  assume "\<not> n < k"
  with assms(2) have "bit (drop_bit k w) (n - k)" by (simp add: bit_drop_bit_eq)
  then show False unfolding assms(1) by simp
qed

lemma mask_7: "(0x7F :: 'a::len word) = mask 7"
  by (simp add: mask_eq_exp_minus_1)

lemma small_and_mask7: "v \<le> 0x7F \<Longrightarrow> v AND 0x7F = (v :: u64)"
  unfolding mask_7 drop_bit_7_eq_0 [unfolded mask_7, symmetric]
  by (rule bit_word_eqI) (auto simp: bit_and_iff bit_mask_iff dest: drop_bit_0_bit)

lemma marked_and_mask: "(ucast (v AND 0x7F) OR 0x80 :: u8) AND 0x7F = ucast (v AND 0x7F :: u64)"
proof (rule bit_word_eqI)
  fix n assume "n < LENGTH(8)"
  moreover have "bit (0x80 :: u8) n \<longleftrightarrow> n = 7" if "n < 8"
    using that bit_exp_iff [of 7 n, where 'a = u8] by auto
  ultimately show "bit ((ucast (v AND 0x7F) OR 0x80 :: u8) AND 0x7F) n = bit (ucast (v AND 0x7F) :: u8) n"
    by (auto simp: mask_7 bit_and_iff bit_or_iff bit_ucast_iff bit_mask_iff)
qed

lemma varint_bytes_vbytes: "varint_bytes v = vbytes v"
proof -
  have "v \<noteq> 0 \<Longrightarrow> butlast (varint_loop v) @ [last (varint_loop v) AND 0x7F] = vbytes v" for v
  proof (induction v rule: vbytes.induct)
    case (1 v)
    show ?case
    proof (cases "v \<le> 0x7F")
      case True
      then have d: "drop_bit 7 v = 0" by (simp add: drop_bit_7_eq_0)
      have "varint_loop v = [ucast (v AND 0x7F) OR 0x80]"
        using "1.prems" d by (simp add: varint_loop.simps [of v] varint_loop.simps [of 0])
      then show ?thesis using True small_and_mask7 [OF True] marked_and_mask [of v]
        by (simp add: vbytes.simps [of v])
    next
      case False
      then have d: "drop_bit 7 v \<noteq> 0" by (simp add: drop_bit_7_eq_0)
      have "varint_loop v = (ucast (v AND 0x7F) OR 0x80) # varint_loop (drop_bit 7 v)"
        using "1.prems" by (simp add: varint_loop.simps [of v])
      then show ?thesis using False "1.IH" [OF False d] varint_loop_nonempty [OF d]
        by (simp add: vbytes.simps [of v])
    qed
  qed
  note marked = this
  show ?thesis
  proof (cases "v \<le> 0x7F")
    case False
    then have "v \<noteq> 0" by auto
    from marked [OF this] False show ?thesis by (simp add: varint_bytes_def Let_def)
  qed (simp add: varint_bytes_def vbytes.simps [of v])
qed


lemma marked_byte_spec: "(ucast (v AND 0x7F) OR 0x80 :: u8) = word_of_nat (128 + unat v mod 128)" for v :: u64
proof -
  have "v AND 0x7F = take_bit 7 v" by (simp add: take_bit_eq_mask mask_7)
  then have a: "unat (v AND 0x7F) = unat v mod 128" by (simp add: unsigned_take_bit_eq take_bit_eq_mod unat_mod_distrib)
  have w: "(ucast (v AND 0x7F) :: u8) = word_of_nat (unat v mod 128)" by (simp flip: a)
  have "(ucast (v AND 0x7F) :: u8) AND 0x80 = 0"
    by (rule bit_word_eqI) (use bit_0x80 in \<open>auto simp: bit_and_iff bit_ucast_iff mask_7 bit_mask_iff\<close>)
  then have "(ucast (v AND 0x7F) OR 0x80 :: u8) = ucast (v AND 0x7F) + 0x80"
    by (simp add: disjunctive_add_eq_or)
  then show ?thesis by (simp add: w)
qed

lemma vbytes_spec: "vbytes v = spec_varint (unat v)"
proof (induction v rule: vbytes.induct)
  case (1 v)
  show ?case
  proof (cases "v \<le> 0x7F")
    case True
    then have "unat v < 128" by (simp add: word_le_nat_alt)
    with True show ?thesis by (simp add: vbytes.simps [of v] spec_varint.simps [of "unat v"])
  next
    case False
    then have v: "\<not> unat v < 128" by (simp add: word_le_nat_alt)
    with False 1 show ?thesis
      by (simp add: vbytes.simps [of v] spec_varint.simps [of "unat v"] unat_drop_bit marked_byte_spec)
  qed
qed

lemma varint_bytes_spec: "varint_bytes v = spec_varint (unat v)"
  by (simp add: varint_bytes_vbytes vbytes_spec)

lemma unat_of_int_small: "0 \<le> x \<Longrightarrow> x < 2 ^ 64 \<Longrightarrow> unat (word_of_int x :: u64) = nat x"
  by (simp add: uint_word_of_int flip: nat_uint_eq)

lemma zigzag_spec: "unat (zigzag v) = spec_zigzag v"
proof (cases "sint v < 0")
  case True
  then have "zigzag v = NOT (2 * v)" by (simp add: zigzag_def push_bit_eq_mult word_sless_alt)
  moreover have "NOT (2 * v) = - (2 * word_of_int (sint v)) - 1" by (simp add: not_eq_complement)
  ultimately have e: "zigzag v = word_of_int (- 2 * sint v - 1)" by simp
  have b: "0 \<le> - 2 * sint v - 1" "- 2 * sint v - 1 < 2 ^ 64" using sint_range_size [of v] True by (simp_all add: word_size)
  show ?thesis unfolding e unat_of_int_small [OF b] using True by (simp add: spec_zigzag_def)
next
  case False
  then have "zigzag v = 2 * word_of_int (sint v)" by (simp add: zigzag_def push_bit_eq_mult word_sless_alt)
  then have e: "zigzag v = word_of_int (2 * sint v)" by simp
  have b: "0 \<le> 2 * sint v" "2 * sint v < 2 ^ 64" using sint_range_size [of v] False by (simp_all add: word_size)
  show ?thesis unfolding e unat_of_int_small [OF b] using False by (simp add: spec_zigzag_def)
qed

lemma tag_spec:
  assumes "wiretype < 8"
  shows "varint_bytes (push_bit 3 (ucast n) OR ucast wiretype) = spec_tag wiretype n"
proof -
  have w: "unat wiretype < 8" using assms by (simp add: word_less_nat_alt)
  have t: "wiretype = take_bit 3 wiretype"
    by (rule word_unat_eq_iff [THEN iffD2]) (use w in \<open>simp add: unsigned_take_bit_eq take_bit_eq_mod unat_mod_distrib\<close>)
  have "push_bit 3 (ucast n) AND ucast wiretype = (0 :: u64)"
    by (rule bit_word_eqI, subst t) (auto simp: bit_and_iff bit_push_bit_iff bit_ucast_iff bit_take_bit_iff)
  then have "push_bit 3 (ucast n) OR ucast wiretype = (push_bit 3 (ucast n) + ucast wiretype :: u64)"
    by (simp add: disjunctive_add_eq_or)
  moreover have "unat (push_bit 3 (ucast n) + ucast wiretype :: u64) = 8 * unat n + unat wiretype"
  proof -
    have "unat (push_bit 3 (ucast n) :: u64) = 8 * unat n"
      using unat_bound [of n] by (simp add: push_bit_eq_mult unat_word_ariths)
    then show ?thesis using w unat_bound [of n] by (subst unat_plus_small) simp_all
  qed
  ultimately show ?thesis by (simp add: varint_bytes_spec spec_tag_def)
qed

lemma load_Suc: "load m p (Suc k) = m p # load m (p + 1) k"
  using load_append [of m p 1 k] by (simp add: load_def)

text \<open>The loop that looks for the terminator finds the length of the string.\<close>

lemma cstring_spec:
  "sz \<le> maxsize \<Longrightarrow> \<exists>k. strnlen_loop m p sz maxsize = sz + word_of_nat k \<and> k \<le> unat maxsize - unat sz
     \<and> load m p k = spec_cstring m p (unat maxsize - unat sz)"
proof (induction m p sz maxsize rule: strnlen_loop.induct)
  case (1 m p sz maxsize)
  show ?case
  proof (cases "sz < maxsize \<and> m p \<noteq> 0")
    case True
    then have lt: "unat sz < unat maxsize" by (simp add: word_less_nat_alt)
    then have s: "unat (sz + 1) = Suc (unat sz)" using unat_bound [of maxsize] by (subst unat_plus_small) simp_all
    with lt have le: "sz + 1 \<le> maxsize" by (simp add: word_le_nat_alt)
    from 1(1) [OF True le] obtain k where
      k: "strnlen_loop m (p + 1) (sz + 1) maxsize = sz + 1 + word_of_nat k" "k \<le> unat maxsize - Suc (unat sz)"
        "load m (p + 1) k = spec_cstring m (p + 1) (unat maxsize - Suc (unat sz))" unfolding s by blast
    have "unat maxsize - unat sz = Suc (unat maxsize - Suc (unat sz))" using lt by simp
    with k lt True show ?thesis
      by (intro exI [of _ "Suc k"]) (simp add: strnlen_loop.simps [of m p] load_Suc)
  next
    case False
    have "spec_cstring m p (unat maxsize - unat sz) = []"
    proof (cases "m p = 0")
      case True
      then show ?thesis by (cases "unat maxsize - unat sz") simp_all
    next
      case nz: False
      with False 1(2) have "sz = maxsize" by simp
      then show ?thesis by simp
    qed
    moreover have "strnlen_loop m p sz maxsize = sz" unfolding strnlen_loop.simps [of m p sz maxsize] by (rule if_not_P [OF False])
    ultimately show ?thesis by (intro exI [of _ 0]) (simp add: load_def)
  qed
qed

end
