(* ===== verification/Pb_Writer.thy ===== *)
theory Pb_Writer
  imports Pb_Wire
begin

text \<open>
  What the encoder writes. \<open>emits f bs\<close> says that the operation \<open>f\<close> writes exactly the
  bytes \<open>bs\<close>: it counts them on a sizing stream, appends them on a buffer stream with
  room for them, and fails on one without, never growing the buffer. \<open>writes f w\<close> says that \<open>f\<close> writes what the specification
  \<open>w\<close> says: its bytes, or that \<open>f\<close> never succeeds on a sizing stream if it has none.
  Both compose, so the agreement goes up from \<open>pb_write\<close> to \<open>pb_encode\<close>.
\<close>

section \<open>Buffer streams\<close>

definition ob_len :: "obuf ostream \<Rightarrow> nat" where
  "ob_len s = (case ostate s of None \<Rightarrow> 0 | Some b \<Rightarrow> length (ob_bytes b))"

definition room :: "'s ostream \<Rightarrow> nat" where
  "room s = unat (max_size s) - unat (bytes_written s)"

definition wf_out :: "obuf ostream \<Rightarrow> bool" where
  "wf_out s \<longleftrightarrow> ocallback s = Some buf_write \<and> oerrmsg s = None
     \<and> unat (bytes_written s) \<le> unat (max_size s) \<and> unat (max_size s) < 2 ^ 63
     \<and> (case ostate s of None \<Rightarrow> False | Some b \<Rightarrow> ob_pos b + room s \<le> length (ob_bytes b))"

definition put :: "obuf ostream \<Rightarrow> u8 list \<Rightarrow> obuf ostream" where
  "put s bs = s\<lparr>ostate := snd (buf_write (ostate s) bs),
     bytes_written := bytes_written s + word_of_nat (length bs)\<rparr>"

definition advance :: "'s ostream \<Rightarrow> nat \<Rightarrow> 's ostream" where
  "advance s n = s\<lparr>bytes_written := bytes_written s + word_of_nat n\<rparr>"

definition emits :: "(obuf ostream \<Rightarrow> obuf ostream cres) \<Rightarrow> u8 list \<Rightarrow> bool" where
  "emits f bs \<longleftrightarrow>
     (\<forall>s. ocallback s = None \<longrightarrow> f s = ret_true (advance s (length bs)))
   \<and> (\<forall>s. wf_out s \<and> length bs \<le> room s \<longrightarrow> f s = ret_true (put s bs))
   \<and> (\<forall>s. wf_out s \<and> room s < length bs \<and> length bs < 2 ^ 63 \<longrightarrow>
        (\<exists>s'. f s = ret_false s' \<and> ob_len s' = ob_len s))"

definition writes :: "(obuf ostream \<Rightarrow> obuf ostream cres) \<Rightarrow> u8 list option \<Rightarrow> bool" where
  "writes f w \<longleftrightarrow> (case w of
     None \<Rightarrow> \<forall>s s'. ocallback s = None \<longrightarrow> f s \<noteq> Some (True, s')
   | Some bs \<Rightarrow> emits f bs)"

lemma write_at_append:
  "i + length as + length bs \<le> length xs \<Longrightarrow>
     write_at (write_at xs i as) (i + length as) bs = write_at xs i (as @ bs)"
  by (cases as) (auto simp: write_at_def min_def ac_simps)

lemma length_write_at [simp]:
  "i + length bs \<le> length xs \<Longrightarrow> length (write_at xs i bs) = length xs"
  by (simp add: write_at_def)

lemma write_at_Nil [simp]: "i \<le> length xs \<Longrightarrow> write_at xs i [] = xs"
  by (simp add: write_at_def)

lemma put_Nil: "wf_out s \<Longrightarrow> put s [] = s"
  by (auto simp: put_def wf_out_def split: option.splits)

lemma unat_written_plus:
  assumes "wf_out s" and "n \<le> room s"
  shows "unat (bytes_written s + word_of_nat n) = unat (bytes_written s) + n"
proof -
  have "n < 2 ^ 63" and "unat (bytes_written s) + n < 2 ^ 63"
    using assms by (auto simp: wf_out_def room_def)
  then show ?thesis by (subst unat_plus_small) (simp_all add: unat_word_of_nat_small)
qed

lemma wf_out_put:
  assumes "wf_out s" and "length bs \<le> room s"
  shows "wf_out (put s bs)" and "room (put s bs) = room s - length bs"
    and "ob_len (put s bs) = ob_len s"
  using assms unat_written_plus [OF assms]
  by (auto simp: wf_out_def put_def room_def ob_len_def split: option.splits)

lemma put_put:
  assumes "wf_out s" and "length as + length bs \<le> room s"
  shows "put (put s as) bs = put s (as @ bs)"
  using assms
  by (auto simp: wf_out_def put_def write_at_append add.assoc split: option.splits)

section \<open>Operations that write fixed bytes compose\<close>

lemma emits_sizing: "emits f bs \<Longrightarrow> ocallback s = None \<Longrightarrow> f s = ret_true (advance s (length bs))"
  by (simp add: emits_def)

lemma emits_room: "emits f bs \<Longrightarrow> wf_out s \<Longrightarrow> length bs \<le> room s \<Longrightarrow> f s = ret_true (put s bs)"
  by (simp add: emits_def)

lemma emits_full:
  assumes "emits f bs" and "wf_out s" and "room s < length bs" and "length bs < 2 ^ 63"
  obtains s' where "f s = ret_false s'" and "ob_len s' = ob_len s"
  using assms by (auto simp: emits_def)

lemma emitsI:
  assumes "\<And>s. ocallback s = None \<Longrightarrow> f s = ret_true (advance s (length bs))"
    and "\<And>s. wf_out s \<Longrightarrow> length bs \<le> room s \<Longrightarrow> f s = ret_true (put s bs)"
    and "\<And>s. wf_out s \<Longrightarrow> room s < length bs \<Longrightarrow> length bs < 2 ^ 63 \<Longrightarrow>
           \<exists>s'. f s = ret_false s' \<and> ob_len s' = ob_len s"
  shows "emits f bs"
  using assms unfolding emits_def by blast

lemma emits_ret: "emits ret_true []"
  by (intro emitsI) (auto simp: advance_def put_Nil)

lemma emits_seq:
  assumes f: "emits f as" and g: "emits g bs"
  shows "emits (\<lambda>s. and_then (f s) g) (as @ bs)"
proof (rule emitsI)
  fix s :: "obuf ostream" assume "ocallback s = None"
  then show "and_then (f s) g = ret_true (advance s (length (as @ bs)))"
    by (simp add: emits_sizing [OF f] emits_sizing [OF g] advance_def add.assoc)
next
  fix s assume s: "wf_out s" "length (as @ bs) \<le> room s"
  then show "and_then (f s) g = ret_true (put s (as @ bs))"
    by (simp add: emits_room [OF f] emits_room [OF g] wf_out_put put_put)
next
  fix s assume s: "wf_out s" "room s < length (as @ bs)" and len: "length (as @ bs) < 2 ^ 63"
  show "\<exists>s'. and_then (f s) g = ret_false s' \<and> ob_len s' = ob_len s"
  proof (cases "length as \<le> room s")
    case True
    with s have "room (put s as) < length bs" by (simp add: wf_out_put)
    moreover have "length bs < 2 ^ 63" using len by simp
    ultimately obtain s' where "g (put s as) = ret_false s'" "ob_len s' = ob_len (put s as)"
      using emits_full [OF g wf_out_put(1) [OF s(1) True]] by blast
    with s True show ?thesis by (intro exI [of _ s']) (simp add: emits_room [OF f] wf_out_put)
  next
    case False
    with len obtain s' where "f s = ret_false s'" "ob_len s' = ob_len s"
      using emits_full [OF f s(1)] by auto
    then show ?thesis by simp
  qed
qed

lemma emits_write:
  assumes "length buf = unat count"
  shows "emits (\<lambda>s. pb_write s buf count) buf"
proof (rule emitsI)
  fix s :: "obuf ostream" assume "ocallback s = None"
  then show "pb_write s buf count = ret_true (advance s (length buf))"
    using assms by (simp add: pb_write_def advance_def)
next
  fix s assume s: "wf_out s" "length buf \<le> room s"
  have w: "unat (bytes_written s + count) = unat (bytes_written s) + unat count"
    using unat_written_plus [OF s] assms by simp
  show "pb_write s buf count = ret_true (put s buf)"
  proof (cases "count = 0")
    case True
    with s assms show ?thesis by (simp add: pb_write_def put_Nil)
  next
    case False
    then have "0 < unat count" by (simp add: unat_gt_0)
    with s w assms False show ?thesis
      by (auto simp: pb_write_def put_def wf_out_def room_def word_gt_0 word_less_nat_alt
          split: option.splits)
  qed
next
  fix s assume s: "wf_out s" "room s < length buf" and len: "length buf < 2 ^ 63"
  have "unat (bytes_written s) + unat count < 2 ^ 64"
    using s len assms by (auto simp: wf_out_def)
  then have "unat (bytes_written s + count) = unat (bytes_written s) + unat count"
    by (intro unat_plus_small) simp
  moreover have "0 < count" using s assms by (auto simp: word_gt_0)
  ultimately show "\<exists>s'. pb_write s buf count = ret_false s' \<and> ob_len s' = ob_len s"
    using s assms
    by (auto simp: pb_write_def wf_out_def room_def word_less_nat_alt out_error_def ob_len_def)
qed

text \<open>The two places where sizing takes a shortcut instead of writing.\<close>

lemma emits_shortcut:
  assumes g: "emits g bs" and "count = word_of_nat (length bs)"
  shows "emits (\<lambda>s. if ocallback s = None then pb_write s [] count else g s) bs"
proof (rule emitsI)
  fix s :: "obuf ostream" assume "ocallback s = None"
  then show "(if ocallback s = None then pb_write s [] count else g s) = ret_true (advance s (length bs))"
    using assms(2) by (simp add: pb_write_def advance_def)
next
  fix s assume "wf_out s" "length bs \<le> room s"
  then show "(if ocallback s = None then pb_write s [] count else g s) = ret_true (put s bs)"
    using emits_room [OF g] by (simp add: wf_out_def)
next
  fix s assume s: "wf_out s" "room s < length bs" "length bs < 2 ^ 63"
  then obtain s' where "g s = ret_false s'" "ob_len s' = ob_len s" using emits_full [OF g] by blast
  with s show "\<exists>s'. (if ocallback s = None then pb_write s [] count else g s) = ret_false s'
      \<and> ob_len s' = ob_len s"
    by (intro exI [of _ s']) (simp add: wf_out_def)
qed

section \<open>Specified writers compose\<close>

lemma writes_Some [simp]: "writes f (Some bs) = emits f bs"
  by (simp add: writes_def)

lemma writes_NoneI: "(\<And>s s'. ocallback s = None \<Longrightarrow> f s \<noteq> Some (True, s')) \<Longrightarrow> writes f None"
  by (simp add: writes_def)

lemma writesD: "writes f w \<Longrightarrow> ocallback s = None \<Longrightarrow> f s = Some (True, s') \<Longrightarrow> \<exists>bs. w = Some bs \<and> emits f bs"
  by (auto simp: writes_def split: option.splits)

lemma writes_ret: "writes ret_true (Some [])"
  by (simp add: emits_ret)

lemma writes_error: "writes (\<lambda>s. out_error s msg) None"
  by (rule writes_NoneI) (simp add: out_error_def ret_false_def)

lemma writes_None: "writes (\<lambda>s. None) None"
  by (rule writes_NoneI) simp

lemma writes_false: "writes ret_false None"
  by (rule writes_NoneI) (simp add: ret_false_def)

lemma writes_seq:
  assumes f: "writes f v" and g: "writes g w"
  shows "writes (\<lambda>s. and_then (f s) g) (append_wire v w)"
proof (cases v)
  case None
  show ?thesis unfolding append_wire_def None
    by (simp, rule writes_NoneI) (use f None in \<open>auto simp: writes_def and_then_True\<close>)
next
  case (Some as)
  with f have as: "emits f as" by simp
  show ?thesis
  proof (cases w)
    case None
    have "and_then (f s) g \<noteq> Some (True, s')" if "ocallback s = None" for s s'
      using emits_sizing [OF as that] g None that by (simp add: writes_def advance_def)
    then show ?thesis using Some None by (simp add: append_wire_def writes_NoneI)
  next
    case (Some bs)
    with g \<open>v = Some as\<close> emits_seq [OF as] show ?thesis by (simp add: append_wire_def)
  qed
qed

lemma writes_if: "(c \<Longrightarrow> writes f v) \<Longrightarrow> (\<not> c \<Longrightarrow> writes g w) \<Longrightarrow> writes (\<lambda>s. if c then f s else g s) (if c then v else w)"
  by (cases c) simp_all

lemma writes_case_option:
  "(x = None \<Longrightarrow> writes f v) \<Longrightarrow> (\<And>y. x = Some y \<Longrightarrow> writes (g y) (w y)) \<Longrightarrow>
     writes (\<lambda>s. case x of None \<Rightarrow> f s | Some y \<Rightarrow> g y s) (case x of None \<Rightarrow> v | Some y \<Rightarrow> w y)"
  by (cases x) simp_all

lemmas writes_intros = writes_ret writes_error writes_None writes_false writes_if writes_seq
  writes_case_option

end
