(* ===== verification/Pb_Encode_Correct.thy ===== *)
theory Pb_Encode_Correct
  imports Pb_Writer
begin

text \<open>
  Every encoder of \<^verbatim>\<open>pb_encode.c\<close> writes what \<open>Pb_Wire\<close> specifies, on a sizing stream and on a buffer
  stream. The user callbacks are an interface: \<open>encode_callbacks\<close> asks of them what
  nanopb's documentation does, that the second run writes what the first one counted.
\<close>

section \<open>Values\<close>

lemma length_varint_loop: "unat val < 2 ^ (7 * n) \<Longrightarrow> length (varint_loop val) \<le> n"
proof (induction n arbitrary: val)
  case 0
  then have "val = 0" by (simp add: unat_eq_zero)
  then show ?case by (simp add: varint_loop.simps [of 0])
next
  case (Suc n)
  have "unat (drop_bit 7 val) < 2 ^ (7 * n)"
    using Suc.prems by (simp add: unat_drop_bit div_less_iff_less_mult power_add)
  from Suc.IH [OF this] show ?case by (simp add: varint_loop.simps [of val])
qed

lemma length_varint_bytes: "0 < length (varint_bytes val)" "length (varint_bytes val) \<le> 10"
proof -
  have "unat val < 2 ^ (7 * 10)" using unat_bound [of val] by simp
  from length_varint_loop [OF this]
  show "0 < length (varint_bytes val)" "length (varint_bytes val) \<le> 10"
    using varint_loop_nonempty [of val]
    by (auto simp: varint_bytes_def Let_def)
qed

lemma emits_varint: "emits (\<lambda>s. pb_encode_varint s val) (varint_bytes val)"
proof -
  have "length (varint_bytes val) = unat (word_of_nat (length (varint_bytes val)) :: u64)"
    using length_varint_bytes(2) [of val] by (intro unat_word_of_nat_small [symmetric]) simp
  from emits_write [OF this] show ?thesis by (simp add: pb_encode_varint_def Let_def)
qed

lemma emits_svarint: "emits (\<lambda>s. pb_encode_svarint s val) (varint_bytes (zigzag val))"
  by (simp add: pb_encode_svarint_def emits_varint)

definition tag_bytes :: "u32 \<Rightarrow> u32 \<Rightarrow> u8 list" where
  "tag_bytes wiretype field_number = varint_bytes (push_bit 3 (ucast field_number) OR ucast wiretype)"

lemma emits_tag: "emits (\<lambda>s. pb_encode_tag s wiretype n) (tag_bytes wiretype n)"
  by (simp add: pb_encode_tag_def tag_bytes_def emits_varint)

lemma emits_string:
  "length buf = unat n \<Longrightarrow> emits (\<lambda>s. pb_encode_string s buf n) (varint_bytes n @ buf)"
  unfolding pb_encode_string_def by (intro emits_seq emits_varint emits_write)

lemma fixed32_bytes:
  "[ucast (val AND 0xFF), ucast (drop_bit 8 val AND 0xFF),
    ucast (drop_bit 16 val AND 0xFF), ucast (drop_bit 24 val AND 0xFF)] = le_bytes 4 (val :: u32)"
  by (simp add: le_bytes_def upt_0_4 ucast_and_255 byte_at_def)

lemma fixed64_bytes:
  "[ucast (val AND 0xFF), ucast (drop_bit 8 val AND 0xFF),
    ucast (drop_bit 16 val AND 0xFF), ucast (drop_bit 24 val AND 0xFF),
    ucast (drop_bit 32 val AND 0xFF), ucast (drop_bit 40 val AND 0xFF),
    ucast (drop_bit 48 val AND 0xFF), ucast (drop_bit 56 val AND 0xFF)] = le_bytes 8 (val :: u64)"
  by (simp add: le_bytes_def upt_0_8 ucast_and_255 byte_at_def)

lemma emits_fixed32: "emits (\<lambda>s. pb_encode_fixed32 s val) (le_bytes 4 val)"
  unfolding pb_encode_fixed32_def fixed32_bytes by (rule emits_write) simp

lemma emits_fixed64: "emits (\<lambda>s. pb_encode_fixed64 s val) (le_bytes 8 val)"
  unfolding pb_encode_fixed64_def fixed64_bytes by (rule emits_write) simp

text \<open>The same in the terms of the specification.\<close>

lemma writes_varint: "unat val = v \<Longrightarrow> writes (\<lambda>s. pb_encode_varint s val) (Some (spec_varint v))"
  using emits_varint [of val] by (simp add: varint_bytes_spec)

lemma writes_tag: "wiretype < 8 \<Longrightarrow> writes (\<lambda>s. pb_encode_tag s wiretype n) (Some (spec_tag wiretype n))"
  using emits_tag [of wiretype n] by (simp add: tag_bytes_def tag_spec)

lemma writes_tag_for_field: "writes (\<lambda>s. pb_encode_tag_for_field s field) (spec_field_tag field)"
  unfolding pb_encode_tag_for_field_def spec_field_tag_def map_option_case
  by (intro writes_case_option writes_error writes_tag) (auto simp: wiretype_of_def split: if_splits)

lemma writes_string: "length buf = unat n \<Longrightarrow> writes (\<lambda>s. pb_encode_string s buf n) (Some (spec_string buf))"
  using emits_string [of buf n] unat_bound [of n] by (simp add: spec_string_def varint_bytes_spec)

lemma writes_fixed:
  "writes (\<lambda>s. pb_encode_fixed32 s (load_u32 m p)) (Some (load m p 4))"
  "writes (\<lambda>s. pb_encode_fixed64 s (load_u64 m p)) (Some (load m p 8))"
  using emits_fixed32 [of "load_u32 m p"] emits_fixed64 [of "load_u64 m p"]
  by (simp_all add: load_u32_def load_u64_def le_bytes_le_word)

section \<open>Submessages: two passes agree\<close>

lemma emits_submessage:
  assumes enc: "emits enc bs"
  shows "emits (pb_encode_submessage enc) (varint_bytes (word_of_nat (length bs)) @ bs)"
proof -
  define n :: u64 where "n = word_of_nat (length bs)"
  define g where "g s = (if ocallback s = None then pb_write s [] n
            else if max_size s < bytes_written s + n then out_error s ''stream full''
            else case enc \<lparr>ocallback = ocallback s, ostate = ostate s, max_size = n,
                           bytes_written = 0, oerrmsg = None\<rparr> of
              None \<Rightarrow> None
            | Some (status, substream) \<Rightarrow>
                let s = s\<lparr>bytes_written := bytes_written s + bytes_written substream,
                          ostate := ostate substream, oerrmsg := oerrmsg substream\<rparr> in
                if bytes_written substream \<noteq> n then out_error s ''submsg size changed''
                else Some (status, s))" for s :: "obuf ostream"
  have sz: "enc PB_OSTREAM_SIZING = Some (True, advance PB_OSTREAM_SIZING (length bs))"
    using emits_sizing [OF enc, of PB_OSTREAM_SIZING] by (simp add: ret_true_def PB_OSTREAM_SIZING_def)
  have bw: "bytes_written (advance PB_OSTREAM_SIZING (length bs) :: obuf ostream) = n"
    by (simp add: n_def advance_def PB_OSTREAM_SIZING_def)
  have eq: "pb_encode_submessage enc = (\<lambda>s. and_then (pb_encode_varint s n) g)"
    by (rule ext)
      (unfold pb_encode_submessage_def sz g_def option.case prod.case bool.case Let_def bw, rule refl)
  have "emits g bs"
  proof (rule emitsI)
    fix s :: "obuf ostream" assume "ocallback s = None"
    then show "g s = ret_true (advance s (length bs))"
      by (simp add: g_def n_def pb_write_def advance_def)
  next
    fix s assume s: "wf_out s" "length bs \<le> room s"
    define sub :: "obuf ostream" where "sub = \<lparr>ocallback = ocallback s, ostate = ostate s,
        max_size = n, bytes_written = 0, oerrmsg = None\<rparr>"
    have len: "length bs < 2 ^ 63" using s by (auto simp: wf_out_def room_def)
    then have n: "unat n = length bs" unfolding n_def by (intro unat_word_of_nat_small) simp
    have sub: "wf_out sub" "length bs \<le> room sub"
      using s len n by (auto simp: sub_def wf_out_def room_def split: option.splits)
    have "\<not> max_size s < bytes_written s + n"
      using unat_written_plus [OF s] s by (auto simp: word_less_nat_alt n_def room_def wf_out_def)
    then show "g s = ret_true (put s bs)"
      using s(1) emits_room [OF enc sub]
      by (auto simp: g_def wf_out_def put_def n_def sub_def ret_true_def Let_def)
  next
    fix s assume s: "wf_out s" "room s < length bs" and len: "length bs < 2 ^ 63"
    then have n: "unat n = length bs" unfolding n_def by (intro unat_word_of_nat_small) simp
    have "unat (bytes_written s + n) = unat (bytes_written s) + length bs"
      using s len n by (subst unat_plus_small) (auto simp: wf_out_def)
    then have "max_size s < bytes_written s + n"
      using s by (auto simp: word_less_nat_alt room_def wf_out_def)
    then show "\<exists>s'. g s = ret_false s' \<and> ob_len s' = ob_len s"
      using s by (auto simp: g_def wf_out_def out_error_def ob_len_def)
  qed
  then show ?thesis unfolding eq n_def [symmetric] by (intro emits_seq emits_varint)
qed

lemma writes_submessage:
  assumes "writes enc w"
  shows "writes (pb_encode_submessage enc) (map_option spec_string w)"
proof (cases w)
  case None
  have "enc PB_OSTREAM_SIZING \<noteq> Some (True, t)" for t
    using assms None by (simp add: writes_def PB_OSTREAM_SIZING_def)
  then have "pb_encode_submessage enc s \<noteq> Some (True, s')" for s s'
    by (auto simp: pb_encode_submessage_def ret_false_def split: option.splits bool.splits)
  then show ?thesis using None by (simp add: writes_NoneI)
next
  case (Some bs)
  then have "emits enc bs" using assms by simp
  from emits_submessage [OF this] Some show ?thesis
    by (simp add: spec_string_def varint_bytes_spec unsigned_of_nat take_bit_eq_mod)
qed

section \<open>The table of encoders\<close>

lemma writes_ints:
  "writes (\<lambda>s. pb_enc_varint m s field p) (map_option (\<lambda>v. spec_varint (unat v)) (read_int m p (f_data_size field)))"
  "writes (\<lambda>s. pb_enc_uvarint m s field p) (map_option (\<lambda>v. spec_varint (unat v)) (read_uint m p (f_data_size field)))"
  "writes (\<lambda>s. pb_enc_svarint m s field p) (map_option (\<lambda>v. spec_varint (spec_zigzag v)) (read_int m p (f_data_size field)))"
  unfolding pb_enc_varint_def pb_enc_uvarint_def pb_enc_svarint_def pb_encode_svarint_def map_option_case
  by (intro writes_case_option writes_error writes_varint zigzag_spec refl)+

lemma writes_bytes:
  "writes (\<lambda>s. pb_enc_bytes m s field p)
     (if p = 0 then Some (spec_string [])
      else if PB_ATYPE (f_type field) = PB_ATYPE_STATIC \<and> unat (f_data_size field) < unat (load_u32 m p) + 4 then None
      else Some (spec_string (load m (p + 4) (unat (load_u32 m p)))))"
proof -
  have a: "unat (PB_BYTES_ARRAY_T_ALLOCSIZE n) = unat n + 4" for n
    using unat_bound [of n] unfolding PB_BYTES_ARRAY_T_ALLOCSIZE_def by (subst unat_plus_small) simp_all
  have c: "(PB_BYTES_ARRAY_T_ALLOCSIZE n < ucast n \<or> PB_ATYPE (f_type field) = PB_ATYPE_STATIC
      \<and> ucast (f_data_size field) < PB_BYTES_ARRAY_T_ALLOCSIZE n)
    \<longleftrightarrow> PB_ATYPE (f_type field) = PB_ATYPE_STATIC \<and> unat (f_data_size field) < unat n + 4" for n
    by (simp add: word_less_nat_alt a)
  show ?thesis
    unfolding pb_enc_bytes_def Let_def c by (intro writes_if writes_error writes_string) simp_all
qed

lemma writes_cstring:
  "writes (\<lambda>s. pb_enc_string m s field p)
     (if p = 0 then Some (spec_string [])
      else Some (spec_string (spec_cstring m p
             (if PB_ATYPE (f_type field) = PB_ATYPE_POINTER then 2 ^ 64 - 1 else unat (f_data_size field)))))"
proof (cases "p = 0")
  case True
  then show ?thesis by (simp add: pb_enc_string_def load_def writes_string [of "[]" 0, simplified])
next
  case False
  define max :: u64 where "max = (if PB_ATYPE (f_type field) = PB_ATYPE_POINTER then - 1 else ucast (f_data_size field))"
  define str where "str = spec_cstring m p (unat max)"
  obtain k where k: "strnlen_loop m p 0 max = word_of_nat k" "k \<le> unat max" "load m p k = str"
    using cstring_spec [of 0 max m p] by (auto simp: str_def)
  have u: "unat (word_of_nat k :: u64) = k" using k(2) unat_bound [of max] by (intro unat_word_of_nat_small) simp
  have e: "(\<lambda>s. pb_enc_string m s field p) = (\<lambda>s. pb_encode_string s str (word_of_nat k))"
    using False k u by (simp add: pb_enc_string_def Let_def flip: max_def)
  have "length str = unat (word_of_nat k :: u64)" using u by (simp flip: k(3))
  then have w: "writes (\<lambda>s. pb_enc_string m s field p) (Some (spec_string str))"
    unfolding e by (rule writes_string)
  have "unat max = (if PB_ATYPE (f_type field) = PB_ATYPE_POINTER then 2 ^ 64 - 1 else unat (f_data_size field))"
    by (simp add: max_def unsigned_minus_1_eq_mask mask_eq_exp_minus_1)
  with w False show ?thesis unfolding str_def by (simp only: if_False)
qed

lemma writes_value:
  assumes "\<And>fs a. writes (\<lambda>s. enc s fs a) (msg fs a)"
  shows "writes (\<lambda>s. PB_ENCODERS env enc (PB_LTYPE (f_type field)) s field p)
    (spec_value (e_mem env) (e_fields env) msg field p)"
proof -
  have bool: "writes (\<lambda>s. pb_enc_bool m s field p) (Some (spec_varint (if m p = 0 then 0 else 1)))" for m
    unfolding pb_enc_bool_def by (rule writes_varint) (simp add: safe_read_bool_def)
  have fixed: "writes (\<lambda>s. pb_enc_fixed32 m s field p) (Some (load m p 4))"
      "writes (\<lambda>s. pb_enc_fixed64 m s field p) (Some (load m p 8))" for m
    unfolding pb_enc_fixed32_def pb_enc_fixed64_def by (rule writes_fixed)+
  have sub: "writes (\<lambda>s. pb_enc_submessage env enc s field p)
      (if f_ptr field = 0 then None else map_option spec_string (msg (e_fields env (f_ptr field)) p))"
    unfolding pb_enc_submessage_def by (intro writes_if writes_error writes_submessage assms)
  have flb: "writes (\<lambda>s. pb_enc_fixed_length_bytes m s field p) (Some (spec_string (load m p (unat (f_data_size field)))))" for m
    unfolding pb_enc_fixed_length_bytes_def by (rule writes_string) simp
  show ?thesis
    unfolding PB_ENCODERS_def spec_value_def Let_def
    by (intro writes_if bool writes_ints fixed writes_bytes writes_cstring sub flb writes_None)
qed

section \<open>Arrays\<close>

lemma writes_items:
  "(\<And>p. writes (\<lambda>s. func s field p) (val p)) \<Longrightarrow>
     writes (\<lambda>s. encode_items func s field p n) (concat_wire (map val (item_addrs field p n)))"
  by (induction n arbitrary: p) (simp_all add: emits_ret writes_seq)

lemma fixed_items:
  assumes "\<And>p. \<exists>bs. length bs = w \<and> val p = Some bs"
  shows "\<exists>bs. length bs = w * n \<and> concat_wire (map val (item_addrs field p n)) = Some bs"
proof (induction n arbitrary: p)
  case (Suc n)
  from assms [of p] obtain as where as: "length as = w" "val p = Some as" by blast
  from Suc.IH obtain bs where "length bs = w * n"
    "concat_wire (map val (item_addrs field (p + ucast (f_data_size field)) n)) = Some bs" by blast
  with as show ?case by (simp add: append_wire_def)
qed simp

lemma writes_unpacked:
  assumes func: "\<And>p. writes (\<lambda>s. func s field p) (val p)"
  shows "writes (\<lambda>s. encode_unpacked m func s field p n)
    (concat_wire (map (\<lambda>a. append_wire (spec_field_tag field)
       (val (if PB_ATYPE (f_type field) = PB_ATYPE_POINTER \<and> (PB_LTYPE (f_type field) = PB_LTYPE_STRING
             \<or> PB_LTYPE (f_type field) = PB_LTYPE_BYTES) then load_u64 m a else a))) (item_addrs field p n)))"
proof (induction n arbitrary: p)
  case 0
  show ?case by (simp add: emits_ret)
next
  case (Suc n)
  let ?ptr = "PB_ATYPE (f_type field) = PB_ATYPE_POINTER \<and> (PB_LTYPE (f_type field) = PB_LTYPE_STRING
             \<or> PB_LTYPE (f_type field) = PB_LTYPE_BYTES)"
  have item: "writes (\<lambda>s. if c then func s field a else func s field b) (val (if c then a else b))" for c a b
    by (cases c) (simp_all add: func)
  have assoc: "append_wire (append_wire u v) w = append_wire u (append_wire v w)" for u v w
    by (cases u; cases v; cases w) (simp_all add: append_wire_def)
  show ?case
    unfolding encode_unpacked.simps item_addrs_simps list.map concat_wire_simps assoc
    by (intro writes_seq writes_tag_for_field item Suc.IH)
qed

text \<open>The packed form: a tag, the size found by sizing the items, and the items.\<close>

lemma writes_packed:
  assumes items: "writes (\<lambda>s. encode_items func s field p n) w"
    and sizing: "sizing = encode_items func PB_OSTREAM_SIZING field p n \<or>
      (\<exists>bs. w = Some bs \<and> sizing = ret_true (PB_OSTREAM_SIZING\<lparr>bytes_written := word_of_nat (length bs)\<rparr>))"
  shows "writes (\<lambda>s. case sizing of
               None \<Rightarrow> None
             | Some (False, _) \<Rightarrow> ret_false s
             | Some (True, sizestream) \<Rightarrow>
                 let sz = bytes_written sizestream in
                 and_then (pb_encode_varint s sz) (\<lambda>s.
                   if ocallback s = None then pb_write s [] sz
                   else encode_items func s field p n)) (map_option spec_string w)"
proof (cases w)
  case None
  with items sizing have "sizing \<noteq> Some (True, t)" for t
    by (auto simp: writes_def PB_OSTREAM_SIZING_def)
  then have "(case sizing of None \<Rightarrow> None | Some (False, _) \<Rightarrow> ret_false s
      | Some (True, sizestream) \<Rightarrow> let sz = bytes_written sizestream in
           and_then (pb_encode_varint s sz) (\<lambda>s. if ocallback s = None then pb_write s [] sz
             else encode_items func s field p n)) \<noteq> Some (True, s')" for s s'
    by (auto simp: ret_false_def split: option.split bool.split)
  then show ?thesis using None by (simp add: writes_NoneI)
next
  case (Some bs)
  with items have bs: "emits (\<lambda>s. encode_items func s field p n) bs" by simp
  have cb: "ocallback (PB_OSTREAM_SIZING :: obuf ostream) = None" by (simp add: PB_OSTREAM_SIZING_def)
  obtain t where t: "sizing = Some (True, t)" "bytes_written t = word_of_nat (length bs)"
    using sizing emits_sizing [OF bs cb] Some by (auto simp: ret_true_def advance_def PB_OSTREAM_SIZING_def)
  have "emits (\<lambda>s. and_then (pb_encode_varint s (bytes_written t)) (\<lambda>s.
      if ocallback s = None then pb_write s [] (bytes_written t) else encode_items func s field p n)) (spec_string bs)"
    using emits_seq [OF emits_varint emits_shortcut [OF bs t(2)], of "bytes_written t"]
    by (simp add: t(2) varint_bytes_spec spec_string_def unsigned_of_nat take_bit_eq_mod)
  with Some t(1) show ?thesis by (simp add: Let_def)
qed

lemma writes_array:
  assumes func: "\<And>p. writes (\<lambda>s. func s field p) (val p)"
    and f32: "\<And>p. PB_LTYPE (f_type field) = PB_LTYPE_FIXED32 \<Longrightarrow> \<exists>bs. length bs = 4 \<and> val p = Some bs"
    and f64: "\<And>p. PB_LTYPE (f_type field) = PB_LTYPE_FIXED64 \<Longrightarrow> \<exists>bs. length bs = 8 \<and> val p = Some bs"
    and n: "unat count = n"
  shows "writes (\<lambda>s. encode_array m s field p count func) (spec_array m field p n val)"
proof -
  define l where "l = PB_LTYPE (f_type field)"
  let ?w = "concat_wire (map val (item_addrs field p n))"
  have items: "writes (\<lambda>s. encode_items func s field p (unat count)) ?w"
    unfolding n by (rule writes_items) (rule func)
  define sizing where "sizing =
            (if l = PB_LTYPE_FIXED32
             then ret_true (PB_OSTREAM_SIZING\<lparr>bytes_written := 4 * count\<rparr>)
             else if l = PB_LTYPE_FIXED64
             then ret_true (PB_OSTREAM_SIZING\<lparr>bytes_written := 8 * count\<rparr>)
             else encode_items func PB_OSTREAM_SIZING field p (unat count))"
  have packed: "writes (\<lambda>s. case sizing of
               None \<Rightarrow> None
             | Some (False, _) \<Rightarrow> ret_false s
             | Some (True, sizestream) \<Rightarrow>
                 let sz = bytes_written sizestream in
                 and_then (pb_encode_varint s sz) (\<lambda>s.
                   if ocallback s = None then pb_write s [] sz
                   else encode_items func s field p (unat count))) (map_option spec_string ?w)"
  proof (rule writes_packed [OF items])
    have len: "\<exists>bs. ?w = Some bs \<and> word_of_nat (length bs) = word_of_nat k * count"
      if "\<And>p. \<exists>bs. length bs = k \<and> val p = Some bs" for k
    proof -
      from fixed_items [where val = val and n = n and p = p and field = field, OF that] obtain bs where "length bs = k * n" "?w = Some bs" by blast
      moreover have "word_of_nat n = count" using n by auto
      ultimately show ?thesis by simp
    qed
    show "sizing = encode_items func PB_OSTREAM_SIZING field p (unat count) \<or>
      (\<exists>bs. ?w = Some bs \<and> sizing = ret_true (PB_OSTREAM_SIZING\<lparr>bytes_written := word_of_nat (length bs)\<rparr>))"
      using len [of 4] len [of 8] f32 f64 by (auto simp: sizing_def l_def)
  qed
  have c: "(count = 0) = (n = 0)" "(ucast (f_array_size field) < count) = (unat (f_array_size field) < n)"
    using n by (auto simp: unat_eq_zero word_less_nat_alt)
  show ?thesis
    unfolding encode_array_def spec_array_def Let_def c
    by (intro writes_if writes_ret writes_error writes_seq writes_tag packed [unfolded sizing_def Let_def l_def]
        writes_unpacked [where n = n, folded n] func) (simp_all add: n [symmetric] writes_unpacked func)
qed

section \<open>Fields\<close>

text \<open>The interface to the user: each encode callback writes the bytes \<open>cb\<close> and \<open>ex\<close> say, on both passes.\<close>

locale encode_callbacks =
  fixes env :: "obuf enc_env"
    and cb :: "addr \<Rightarrow> pb_field \<Rightarrow> addr \<Rightarrow> u8 list option" and ex :: "addr \<Rightarrow> addr \<Rightarrow> u8 list option"
  assumes callback_writes: "writes (\<lambda>s. e_encode env f s field arg) (cb f field arg)"
    and ext_writes: "writes (\<lambda>s. e_ext_encode env f s extension) (ex f extension)"
begin

lemma writes_basic_field:
  assumes enc: "\<And>fs a. writes (\<lambda>s. enc s fs a) (msg fs a)"
  shows "writes (\<lambda>s. encode_basic_field env n enc s field a) (spec_basic_field env n msg field a)"
proof -
  let ?m = "e_mem env" and ?val = "spec_value (e_mem env) (e_fields env) msg field"
  note func = writes_value [OF enc, of env]
  have tagged: "writes (\<lambda>s. and_then (pb_encode_tag_for_field s field)
      (\<lambda>s. PB_ENCODERS env enc (PB_LTYPE (f_type field)) s field p)) (append_wire (spec_field_tag field) (?val p))" for p
    by (rule writes_seq [OF writes_tag_for_field func])
  have array: "writes (\<lambda>s. encode_array ?m s field p count (PB_ENCODERS env enc (PB_LTYPE (f_type field))))
      (spec_array ?m field p n ?val)" if "unat count = n" for p count n
    by (rule writes_array [OF func _ _ that]) (simp_all add: spec_value_def)
  note defs = encode_basic_field_def spec_basic_field_def Let_def
  consider (counted) "f_size_offset field \<noteq> 0"
    | (default) "f_size_offset field = 0" "PB_HTYPE (f_type field) = PB_HTYPE_OPTIONAL"
    | (other) "f_size_offset field = 0" "PB_HTYPE (f_type field) \<noteq> PB_HTYPE_OPTIONAL" by blast
  then show ?thesis
  proof cases
    case counted
    show ?thesis
      unfolding defs by (simp only: counted simp_thms if_True if_False option.case safe_read_bool_def)
        (intro writes_if writes_ret writes_error writes_None tagged array; simp)
  next
    case default
    show ?thesis
      unfolding defs by (simp only: default simp_thms if_True if_False option.case)
        (intro writes_case_option writes_if writes_ret writes_error writes_None tagged; simp)
  next
    case other
    show ?thesis
      unfolding defs by (simp only: other simp_thms if_True if_False option.case)
        (intro writes_if writes_ret writes_error writes_None tagged array; simp)
  qed
qed

lemma writes_callback_field:
  "writes (\<lambda>s. encode_callback_field env s field a)
    (if load_u64 (e_mem env) a = 0 then Some [] else cb (load_u64 (e_mem env) a) field (a + 8))"
proof -
  define f where "f s = e_encode env (load_u64 (e_mem env) a) s field (a + 8)" for s
  let ?w = "cb (load_u64 (e_mem env) a) field (a + 8)"
  have f: "writes f ?w" using callback_writes unfolding f_def [abs_def] .
  have "writes (\<lambda>s. case f s of None \<Rightarrow> None
      | Some (ok, s) \<Rightarrow> if ok then ret_true s else out_error s ''callback error'') ?w"
  proof (cases ?w)
    case None
    show ?thesis
      unfolding None by (rule writes_NoneI)
        (use f None in \<open>auto simp: writes_def out_error_def ret_false_def ret_true_def split: option.split\<close>)
  next
    case (Some bs)
    with f have bs: "emits f bs" by simp
    have "emits (\<lambda>s. case f s of None \<Rightarrow> None
      | Some (ok, s) \<Rightarrow> if ok then ret_true s else out_error s ''callback error'') bs"
    proof (rule emitsI)
      fix s assume s: "wf_out s" "room s < length bs" "length bs < 2 ^ 63"
      obtain t where "f s = ret_false t" "ob_len t = ob_len s" using emits_full [OF bs s] .
      then show "\<exists>s'. (case f s of None \<Rightarrow> None
          | Some (ok, s) \<Rightarrow> if ok then ret_true s else out_error s ''callback error'') = ret_false s'
          \<and> ob_len s' = ob_len s"
        by (simp add: ret_false_def out_error_def ob_len_def)
    qed (simp_all add: emits_sizing [OF bs] emits_room [OF bs] ret_true_def)
    with Some show ?thesis by simp
  qed
  then show ?thesis
    by (cases "load_u64 (e_mem env) a = 0") (simp_all add: encode_callback_field_def Let_def f_def emits_ret)
qed

lemma writes_field:
  "(\<And>fs a. writes (\<lambda>s. enc s fs a) (msg fs a)) \<Longrightarrow>
     writes (\<lambda>s. encode_field env n enc s field a) (spec_field cb env n msg field a)"
  unfolding encode_field_def spec_field_def Let_def
  by (intro writes_if writes_error writes_basic_field writes_callback_field)

lemma writes_extensions:
  assumes enc: "\<And>fs a. writes (\<lambda>s. enc s fs a) (msg fs a)"
  shows "writes (\<lambda>s. encode_extensions env n enc k s x) (spec_extensions cb ex env n msg k x)"
proof (induction k arbitrary: x)
  case 0
  show ?case unfolding encode_extensions.simps spec_extensions.simps by (intro writes_intros)
next
  case (Suc k)
  have item: "writes (\<lambda>s. if c then encode_field env n enc s field p else encode_field env n enc s field q)
      (spec_field cb env n msg field (if c then p else q))" for c field p q
    by (cases c) (simp_all add: writes_field [OF enc])
  show ?case
    unfolding encode_extensions.simps spec_extensions.simps Let_def default_extension_encoder_def
    by (intro writes_intros ext_writes item Suc.IH)
qed

section \<open>Messages\<close>

lemma writes_iter_loop:
  assumes "\<And>j. j < num_fields fs \<Longrightarrow> writes (body (iter_at fs d j)) (w j)"
  shows "k < num_fields fs \<Longrightarrow>
    writes (\<lambda>s. iter_loop body (iter_at fs d k) s) (concat_wire (map w [k..<num_fields fs]))"
proof (induction "num_fields fs - k" arbitrary: k)
  case (Suc n)
  have step: "writes (\<lambda>s. if Suc k < num_fields fs then iter_loop body (iter_at fs d (Suc k)) s else ret_true s)
      (concat_wire (map w [Suc k..<num_fields fs]))"
  proof (cases "Suc k < num_fields fs")
    case True
    with Suc.hyps(1) [of "Suc k"] Suc.hyps(2) show ?thesis by (simp del: iter_at.simps)
  qed (simp add: emits_ret)
  have eq: "iter_loop body (iter_at fs d k) = (\<lambda>s. and_then (body (iter_at fs d k) s)
      (\<lambda>s. if Suc k < num_fields fs then iter_loop body (iter_at fs d (Suc k)) s else ret_true s))"
    by (rule ext) (rule iter_loop_at [OF Suc.prems])
  show ?case
    unfolding eq upt_conv_Cons [OF Suc.prems] list.map concat_wire_simps
    by (rule writes_seq [OF assms [OF Suc.prems] step])
qed simp

lemma writes_pb_encode: "writes (\<lambda>s. pb_encode env n s fs src) (spec_message cb ex env n fs src)"
proof (induction n arbitrary: fs src)
  case 0
  show ?case by (simp add: writes_None)
next
  case (Suc n)
  define body where "body it s =
      (if PB_LTYPE (f_type (it_field it)) = PB_LTYPE_EXTENSION
       then encode_extension_field env (Suc n) (pb_encode env n) s (it_field it) (it_pData it)
       else encode_field env (Suc n) (pb_encode env n) s (it_field it) (it_pData it))" for it s
  define w where "w i = (let field = fs ! i; a = it_pData (iter_at fs src i) in
      if PB_LTYPE (f_type field) = PB_LTYPE_EXTENSION
      then spec_extensions cb ex env (Suc n) (spec_message cb ex env n) (Suc n) (load_u64 (e_mem env) a)
      else spec_field cb env (Suc n) (spec_message cb ex env n) field a)" for i
  have body: "writes (body (iter_at fs src i)) (w i)" if "i < num_fields fs" for i
    unfolding body_def [abs_def] w_def Let_def encode_extension_field_def iter_field_at [OF that]
    by (intro writes_if writes_extensions writes_field Suc.IH)
  have spec: "spec_message cb ex env (Suc n) fs src = concat_wire (map w [0..<num_fields fs])"
    by (simp add: w_def [abs_def] del: iter_at.simps)
  show ?case
  proof (cases "num_fields fs = 0")
    case True
    then have "pb_field_iter_begin fs src = (False, iter_at fs src 0)" by (simp add: prod_eq_iff)
    with True show ?thesis by (simp add: emits_ret del: iter_at.simps)
  next
    case False
    then have "pb_field_iter_begin fs src = (True, iter_at fs src 0)" by (simp add: prod_eq_iff)
    moreover from False have pos: "0 < num_fields fs" by simp
    ultimately show ?thesis
      unfolding spec using writes_iter_loop [where body = body and w = w and d = src, OF body pos] by (simp add: body_def [abs_def] del: iter_at.simps)
  qed
qed

text \<open>
  The size that \<open>pb_get_encoded_size\<close> computes is the length of the encoding, and there is none
  if the message has no encoding.
\<close>

lemma encoded_size:
  "spec_message cb ex env n fs src = Some bs \<Longrightarrow>
     pb_get_encoded_size env n fs src = Some (True, Some (word_of_nat (length bs)))"
  "spec_message cb ex env n fs src = None \<Longrightarrow> pb_get_encoded_size env n fs src \<noteq> Some (True, sz)"
proof -
  have cb: "ocallback (PB_OSTREAM_SIZING :: obuf ostream) = None" by (simp add: PB_OSTREAM_SIZING_def)
  note w = writes_pb_encode [of n fs src]
  show "spec_message cb ex env n fs src = Some bs \<Longrightarrow>
     pb_get_encoded_size env n fs src = Some (True, Some (word_of_nat (length bs)))"
    using w emits_sizing [OF _ cb, of "\<lambda>s. pb_encode env n s fs src" bs]
    by (simp add: pb_get_encoded_size_def ret_true_def advance_def PB_OSTREAM_SIZING_def)
  show "spec_message cb ex env n fs src = None \<Longrightarrow> pb_get_encoded_size env n fs src \<noteq> Some (True, sz)"
    using w cb by (auto simp: writes_def pb_get_encoded_size_def split: option.splits if_splits)
qed

end

lemma wf_out_from_buffer:
  assumes "unat bufsize \<le> length buf" and "length buf < 2 ^ 63"
  shows "wf_out (pb_ostream_from_buffer buf bufsize)"
    and "room (pb_ostream_from_buffer buf bufsize) = unat bufsize"
  using assms by (auto simp: wf_out_def pb_ostream_from_buffer_def room_def)

end
