(* ===== verification/Pb_Istream.thy ===== *)
theory Pb_Istream
  imports Pb_Common
begin

text \<open>
  nanopb's input streams and the decoders that touch nothing but the stream
  (\<^verbatim>\<open>pb_decode.c\<close>, first part): reading, varints, tags, skipping, substreams and fixed-width
  values. \<open>buf_read\<close> is the callback of a buffer stream, whose state is what is left of the
  buffer; a read past the end of that object has no result, as it is undefined in C. A user
  callback works on a state of its own, of type \<open>'s\<close>.
\<close>

section \<open>Streams\<close>

text \<open>
  A user callback is told whether it has a buffer to fill and how many bytes; it gives
  its verdict, the bytes, and its next state.
\<close>

datatype 's icallback =
    is_buf_read: Buf_read
  | User_read "'s \<Rightarrow> nat \<Rightarrow> bool \<times> u8 list \<times> 's"

datatype 's istate = Buf_state "u8 list" | User_state 's

record 's istream =
  icallback :: "'s icallback"
  istate :: "'s istate"
  bytes_left :: u64
  ierrmsg :: "string option"

text \<open>
  The result of a function that reads a value: \<open>None\<close> if it does not return, and otherwise
  the value, if the C function returned \<^verbatim>\<open>true\<close>, and the stream.
\<close>

type_synonym ('a, 's) rd = "('a option \<times> 's istream) option"

definition rd_ok :: "'a \<Rightarrow> 's istream \<Rightarrow> ('a, 's) rd" where
  "rd_ok a s = Some (Some a, s)"

definition rd_fail :: "'s istream \<Rightarrow> ('a, 's) rd" where
  "rd_fail s = Some (None, s)"

definition rd_bind :: "('a, 's) rd \<Rightarrow> ('a \<Rightarrow> 's istream \<Rightarrow> ('b, 's) rd) \<Rightarrow> ('b, 's) rd" where
  "rd_bind r f = (case r of None \<Rightarrow> None | Some (None, s) \<Rightarrow> Some (None, s)
     | Some (Some a, s) \<Rightarrow> f a s)"

definition with_error :: "string \<Rightarrow> 's istream \<Rightarrow> 's istream" where
  "with_error msg s = s\<lparr>ierrmsg := (case ierrmsg s of None \<Rightarrow> Some msg | Some e \<Rightarrow> Some e)\<rparr>"

definition rd_error :: "string \<Rightarrow> 's istream \<Rightarrow> ('a, 's) rd" where
  "rd_error msg s = rd_fail (with_error msg s)"

lemma rd_bind_simps [simp]:
  "rd_bind None f = None"
  "rd_bind (Some (None, s)) f = Some (None, s)"
  "rd_bind (Some (Some a, s)) f = f a s"
  "rd_bind (rd_ok a s) f = f a s"
  "rd_bind (rd_fail s) f = rd_fail s"
  "rd_bind (rd_error msg s) f = rd_error msg s"
  by (simp_all add: rd_bind_def rd_ok_def rd_fail_def rd_error_def)

lemma rd_simps [simp]:
  "rd_ok a s = rd_ok b t \<longleftrightarrow> a = b \<and> s = t"
  "rd_fail s = rd_fail t \<longleftrightarrow> s = t"
  "rd_ok a s \<noteq> rd_fail t" "rd_fail t \<noteq> rd_ok a s"
  "rd_ok a s \<noteq> rd_error msg t" "rd_error msg t \<noteq> rd_ok a s"
  by (simp_all add: rd_ok_def rd_fail_def rd_error_def)

lemma rd_bind_cong [fundef_cong]:
  "r = r' \<Longrightarrow> (\<And>a s. r' = Some (Some a, s) \<Longrightarrow> f a s = f' a s) \<Longrightarrow> rd_bind r f = rd_bind r' f'"
  by (auto simp: rd_bind_def split: option.splits prod.splits)

lemma rd_bind_ok:
  "rd_bind r f = Some (Some b, t) \<longleftrightarrow> (\<exists>a s. r = Some (Some a, s) \<and> f a s = Some (Some b, t))"
  by (auto simp: rd_bind_def split: option.splits prod.splits)

lemma rd_bind_cases:
  assumes "rd_bind r f = Some (v, t)"
  obtains "r = Some (None, t)" and "v = None" | a s where "r = Some (Some a, s)" and "f a s = Some (v, t)"
  using assms by (auto simp: rd_bind_def split: option.splits prod.splits)

section \<open>Reading\<close>

fun buf_read :: "'s istate \<Rightarrow> nat \<Rightarrow> (u8 list \<times> 's istate) option" where
  "buf_read (Buf_state src) count =
     (if count \<le> length src then Some (take count src, Buf_state (drop count src)) else None)"
| "buf_read (User_state _) count = None"

definition run_callback :: "'s istream \<Rightarrow> nat \<Rightarrow> (u8 list, 's) rd" where
  "run_callback s count =
     (case icallback s of
        Buf_read \<Rightarrow>
          (case buf_read (istate s) count of None \<Rightarrow> None
           | Some (bs, st) \<Rightarrow> rd_ok bs (s\<lparr>istate := st\<rparr>))
      | User_read cb \<Rightarrow>
          (case istate s of Buf_state _ \<Rightarrow> None
           | User_state st \<Rightarrow> (case cb st count of
               (ok, bs, st) \<Rightarrow> if ok then rd_ok bs (s\<lparr>istate := User_state st\<rparr>)
                               else rd_fail (s\<lparr>istate := User_state st\<rparr>))))"

text \<open>The part of \<^verbatim>\<open>pb_read\<close> after the branch that skips bytes of a user stream.\<close>

definition read_bytes :: "'s istream \<Rightarrow> u64 \<Rightarrow> (u8 list, 's) rd" where
  "read_bytes s count =
     (if count = 0 then rd_ok [] s
      else if bytes_left s < count then rd_error ''end-of-stream'' s
      else case run_callback s (unat count) of
        None \<Rightarrow> None
      | Some (None, s) \<Rightarrow> rd_error ''io error'' s
      | Some (Some bs, s) \<Rightarrow> rd_ok bs (s\<lparr>bytes_left := bytes_left s - count\<rparr>))"

text \<open>Skipping bytes of a user stream reads them into a scratch buffer, 16 at a time.\<close>

function skip_user :: "'s istream \<Rightarrow> u64 \<Rightarrow> (u8 list, 's) rd" where
  "skip_user s count =
     (if 16 < count then rd_bind (read_bytes s 16) (\<lambda>_ s. skip_user s (count - 16))
      else rd_bind (read_bytes s count) (\<lambda>_ s. rd_ok [] s))"
  by pat_completeness auto
termination
  by (relation "measure (\<lambda>(s, count). unat count)")
     (auto simp: word_less_nat_alt unat_sub word_le_nat_alt)

declare skip_user.simps [simp del]

text \<open>\<open>has_buf\<close> is \<^verbatim>\<open>buf != NULL\<close>.\<close>

definition pb_read :: "'s istream \<Rightarrow> bool \<Rightarrow> u64 \<Rightarrow> (u8 list, 's) rd" where
  "pb_read s has_buf count =
     (if count = 0 then rd_ok [] s
      else if \<not> has_buf \<and> \<not> is_buf_read (icallback s) then skip_user s count
      else read_bytes s count)"

definition pb_readbyte :: "'s istream \<Rightarrow> (u8, 's) rd" where
  "pb_readbyte s =
     (if bytes_left s = 0 then rd_error ''end-of-stream'' s
      else case run_callback s 1 of
        None \<Rightarrow> None
      | Some (None, s) \<Rightarrow> rd_error ''io error'' s
      | Some (Some bs, s) \<Rightarrow> rd_ok (hd (bs @ [0])) (s\<lparr>bytes_left := bytes_left s - 1\<rparr>))"

definition pb_istream_from_buffer :: "u8 list \<Rightarrow> u64 \<Rightarrow> 's istream" where
  "pb_istream_from_buffer buf bufsize =
     \<lparr>icallback = Buf_read, istate = Buf_state buf, bytes_left = bufsize, ierrmsg = None\<rparr>"

lemma run_callback_bytes_left:
  "run_callback s n = Some (v, t) \<Longrightarrow> bytes_left t = bytes_left s \<and> icallback t = icallback s"
  by (auto simp: run_callback_def rd_ok_def rd_fail_def
      split: icallback.splits istate.splits option.splits prod.splits if_splits)

lemma pb_readbyte_less:
  assumes "pb_readbyte s = Some (Some b, t)"
  shows "unat (bytes_left t) < unat (bytes_left s)"
proof -
  have "bytes_left s \<noteq> 0" using assms by (auto simp: pb_readbyte_def rd_error_def rd_fail_def)
  moreover have "bytes_left t = bytes_left s - 1"
    using assms by (auto simp: pb_readbyte_def rd_error_def rd_fail_def rd_ok_def
        dest!: run_callback_bytes_left split: if_splits option.splits)
  ultimately show ?thesis by (simp add: unat_minus_one unat_gt_0)
qed

lemma pb_read_byte_less:
  assumes "pb_read s True 1 = Some (Some bs, t)"
  shows "unat (bytes_left t) < unat (bytes_left s)"
proof -
  have "bytes_left s \<noteq> 0" and t: "bytes_left t = bytes_left s - 1"
    using assms by (auto simp: pb_read_def read_bytes_def rd_error_def rd_fail_def rd_ok_def
        dest!: run_callback_bytes_left split: if_splits option.splits)
  then show ?thesis by (simp add: unat_minus_one unat_gt_0)
qed

section \<open>Varints\<close>

text \<open>
  \<^verbatim>\<open>bitpos\<close> is a \<^verbatim>\<open>uint_fast8_t\<close>, an 8-bit type on the platforms of the application, and
  wraps around.
\<close>

function varint32_loop :: "'s istream \<Rightarrow> u32 \<Rightarrow> u8 \<Rightarrow> (u32 \<times> u8 \<times> u8, 's) rd" where
  "varint32_loop s result bitpos = rd_bind (pb_readbyte s) (\<lambda>byte s.
     if 32 \<le> bitpos then
       let sign_extension = (if bitpos < 63 then 0xFF else 0x01) in
       if byte AND 0x7F \<noteq> 0 \<and> (drop_bit 31 result = 0 \<or> byte \<noteq> sign_extension)
       then rd_error ''varint overflow'' s
       else if byte AND 0x80 \<noteq> 0 then varint32_loop s result (bitpos + 7)
       else rd_ok (result, bitpos + 7, byte) s
     else
       let result = result OR push_bit (unat bitpos) (ucast (byte AND 0x7F)) in
       if byte AND 0x80 \<noteq> 0 then varint32_loop s result (bitpos + 7)
       else rd_ok (result, bitpos + 7, byte) s)"
  by pat_completeness auto
termination
  by (relation "measure (\<lambda>(s, result, bitpos). unat (bytes_left s))") (auto dest: pb_readbyte_less)

declare varint32_loop.simps [simp del]

text \<open>The result carries the value, or says whether \<^verbatim>\<open>*eof\<close> is set.\<close>

definition pb_decode_varint32_eof :: "'s istream \<Rightarrow> ((u32 option \<times> bool) \<times> 's istream) option" where
  "pb_decode_varint32_eof s =
     (case pb_readbyte s of
        None \<Rightarrow> None
      | Some (None, s) \<Rightarrow> Some ((None, bytes_left s = 0), s)
      | Some (Some byte, s) \<Rightarrow>
          if byte AND 0x80 = 0 then Some ((Some (ucast byte), False), s)
          else case varint32_loop s (ucast (byte AND 0x7F)) 7 of
            None \<Rightarrow> None
          | Some (None, s) \<Rightarrow> Some ((None, False), s)
          | Some (Some (result, bitpos, byte), s) \<Rightarrow>
              if bitpos = 35 \<and> byte AND 0x70 \<noteq> 0
              then Some ((None, False), with_error ''varint overflow'' s)
              else Some ((Some result, False), s))"

definition pb_decode_varint32 :: "'s istream \<Rightarrow> (u32, 's) rd" where
  "pb_decode_varint32 s = map_option (\<lambda>((v, eof), s). (v, s)) (pb_decode_varint32_eof s)"

function varint64_loop :: "'s istream \<Rightarrow> u64 \<Rightarrow> u8 \<Rightarrow> (u64, 's) rd" where
  "varint64_loop s result bitpos =
     (if 64 \<le> bitpos then rd_error ''varint overflow'' s
      else rd_bind (pb_readbyte s) (\<lambda>byte s.
        let result = result OR push_bit (unat bitpos) (ucast (byte AND 0x7F)) in
        if byte AND 0x80 \<noteq> 0 then varint64_loop s result (bitpos + 7) else rd_ok result s))"
  by pat_completeness auto
termination
  by (relation "measure (\<lambda>(s, result, bitpos). unat (bytes_left s))") (auto dest: pb_readbyte_less)

declare varint64_loop.simps [simp del]

definition pb_decode_varint :: "'s istream \<Rightarrow> (u64, 's) rd" where
  "pb_decode_varint s = varint64_loop s 0 0"

definition unzigzag :: "u64 \<Rightarrow> u64" where
  "unzigzag val = (if val AND 1 \<noteq> 0 then NOT (drop_bit 1 val) else drop_bit 1 val)"

definition pb_decode_svarint :: "'s istream \<Rightarrow> (u64, 's) rd" where
  "pb_decode_svarint s = rd_bind (pb_decode_varint s) (\<lambda>val s. rd_ok (unzigzag val) s)"

section \<open>Skipping, tags, substreams\<close>

function pb_skip_varint :: "'s istream \<Rightarrow> (unit, 's) rd" where
  "pb_skip_varint s = rd_bind (pb_read s True 1) (\<lambda>bs s.
     if hd (bs @ [0]) AND 0x80 \<noteq> 0 then pb_skip_varint s else rd_ok () s)"
  by pat_completeness auto
termination
  by (relation "measure (\<lambda>s. unat (bytes_left s))") (auto dest: pb_read_byte_less)

declare pb_skip_varint.simps [simp del]

definition pb_skip_string :: "'s istream \<Rightarrow> (unit, 's) rd" where
  "pb_skip_string s = rd_bind (pb_decode_varint32 s) (\<lambda>len s.
     rd_bind (pb_read s False (ucast len)) (\<lambda>_ s. rd_ok () s))"

text \<open>The tag and wire type, or \<^verbatim>\<open>false\<close> and whether this is the end of the message.\<close>

definition pb_decode_tag ::
  "'s istream \<Rightarrow> (((u32 \<times> u32) option \<times> bool) \<times> 's istream) option" where
  "pb_decode_tag s =
     (case pb_decode_varint32_eof s of
        None \<Rightarrow> None
      | Some ((None, eof), s) \<Rightarrow> Some ((None, eof), s)
      | Some ((Some temp, eof), s) \<Rightarrow>
          if temp = 0 then Some ((None, True), s)
          else Some ((Some (drop_bit 3 temp, temp AND 7), eof), s))"

definition pb_skip_field :: "'s istream \<Rightarrow> u32 \<Rightarrow> (unit, 's) rd" where
  "pb_skip_field s wire_type =
     (if wire_type = PB_WT_VARINT then pb_skip_varint s
      else if wire_type = PB_WT_64BIT then rd_bind (pb_read s False 8) (\<lambda>_ s. rd_ok () s)
      else if wire_type = PB_WT_STRING then pb_skip_string s
      else if wire_type = PB_WT_32BIT then rd_bind (pb_read s False 4) (\<lambda>_ s. rd_ok () s)
      else rd_error ''invalid wire_type'' s)"

text \<open>The loop of \<^verbatim>\<open>read_raw_value\<close> for varints: \<open>n\<close> more bytes fit into the buffer.\<close>

fun raw_varint :: "nat \<Rightarrow> 's istream \<Rightarrow> (u8 list, 's) rd" where
  "raw_varint 0 s = rd_fail s"
| "raw_varint (Suc n) s = rd_bind (pb_read s True 1) (\<lambda>bs s.
     if hd (bs @ [0]) AND 0x80 \<noteq> 0
     then rd_bind (raw_varint n s) (\<lambda>cs s. rd_ok (hd (bs @ [0]) # cs) s)
     else rd_ok [hd (bs @ [0])] s)"

definition read_raw_value :: "'s istream \<Rightarrow> u32 \<Rightarrow> nat \<Rightarrow> (u8 list, 's) rd" where
  "read_raw_value s wire_type bufsize =
     (if wire_type = PB_WT_VARINT then raw_varint bufsize s
      else if wire_type = PB_WT_64BIT then pb_read s True 8
      else if wire_type = PB_WT_32BIT then pb_read s True 4
      else rd_error ''invalid wire_type'' s)"

definition pb_make_string_substream :: "'s istream \<Rightarrow> ('s istream, 's) rd" where
  "pb_make_string_substream s = rd_bind (pb_decode_varint32 s) (\<lambda>len s.
     if bytes_left s < ucast len then rd_error ''parent stream too short'' s
     else rd_ok (s\<lparr>bytes_left := ucast len\<rparr>) (s\<lparr>bytes_left := bytes_left s - ucast len\<rparr>))"

text \<open>\<open>close\<close> works on the parent; the substream is a local of the caller and dies with it.\<close>

definition pb_close_string_substream :: "'s istream \<Rightarrow> 's istream \<Rightarrow> (unit, 's) rd" where
  "pb_close_string_substream s substream =
     (let finish = (\<lambda>substream. rd_ok () (s\<lparr>istate := istate substream, ierrmsg := ierrmsg substream\<rparr>)) in
      if bytes_left substream \<noteq> 0 then
        (case pb_read substream False (bytes_left substream) of
           None \<Rightarrow> None
         | Some (None, substream) \<Rightarrow> rd_fail s
         | Some (Some _, substream) \<Rightarrow> finish substream)
      else finish substream)"

section \<open>Fixed-width values\<close>

definition pb_decode_fixed32 :: "'s istream \<Rightarrow> (u32, 's) rd" where
  "pb_decode_fixed32 s = rd_bind (pb_read s True 4) (\<lambda>bytes s.
     rd_ok (ucast (bytes ! 0) OR push_bit 8 (ucast (bytes ! 1)) OR
            push_bit 16 (ucast (bytes ! 2)) OR push_bit 24 (ucast (bytes ! 3))) s)"

definition pb_decode_fixed64 :: "'s istream \<Rightarrow> (u64, 's) rd" where
  "pb_decode_fixed64 s = rd_bind (pb_read s True 8) (\<lambda>bytes s.
     rd_ok (ucast (bytes ! 0) OR push_bit 8 (ucast (bytes ! 1)) OR
            push_bit 16 (ucast (bytes ! 2)) OR push_bit 24 (ucast (bytes ! 3)) OR
            push_bit 32 (ucast (bytes ! 4)) OR push_bit 40 (ucast (bytes ! 5)) OR
            push_bit 48 (ucast (bytes ! 6)) OR push_bit 56 (ucast (bytes ! 7))) s)"

definition pb_decode_bool :: "'s istream \<Rightarrow> (bool, 's) rd" where
  "pb_decode_bool s = rd_bind (pb_decode_varint32 s) (\<lambda>val s. rd_ok (val \<noteq> 0) s)"

end
