(* ===== verification/Pb_Codec.thy ===== *)
theory Pb_Codec
  imports Pb_Encode_Correct Pb_Istream
begin

text \<open>
  What the decoder reads is what the encoder wrote: buffer streams as byte lists, and the round
  trips of varints, zigzag varints, tags, fixed-width values and length-delimited values.
\<close>

section \<open>Buffer streams as byte lists\<close>

definition source :: "'s istream \<Rightarrow> u8 list" where
  "source s = (case istate s of Buf_state src \<Rightarrow> src | User_state _ \<Rightarrow> [])"

definition input :: "'s istream \<Rightarrow> u8 list" where
  "input s = take (unat (bytes_left s)) (source s)"

definition wf_in :: "'s istream \<Rightarrow> bool" where
  "wf_in s \<longleftrightarrow> icallback s = Buf_read \<and> (\<exists>src. istate s = Buf_state src)
     \<and> unat (bytes_left s) \<le> length (source s)"

definition eat :: "nat \<Rightarrow> 's istream \<Rightarrow> 's istream" where
  "eat n s = s\<lparr>istate := Buf_state (drop n (source s)), bytes_left := bytes_left s - word_of_nat n\<rparr>"

lemma length_input: "wf_in s \<Longrightarrow> length (input s) = unat (bytes_left s)"
  by (simp add: wf_in_def input_def)

lemma unat_minus_nat:
  assumes "n \<le> unat (w :: u64)"
  shows "unat (w - word_of_nat n) = unat w - n"
proof -
  have "unat (word_of_nat n :: u64) = n"
    using assms unat_bound [of w] by (intro unat_word_of_nat_small) simp
  with assms show ?thesis by (simp add: unat_sub word_le_nat_alt)
qed

lemma eat_wf:
  assumes "wf_in s" and "n \<le> length (input s)"
  shows "wf_in (eat n s)" and "input (eat n s) = drop n (input s)"
  using assms length_input [OF assms(1)]
  by (auto simp: wf_in_def eat_def input_def source_def unat_minus_nat drop_take)

lemma eat_eat:
  assumes "wf_in s"
  shows "eat n (eat m s) = eat (m + n) s"
  using assms by (auto simp: eat_def wf_in_def source_def add.commute)

lemma eat_0 [simp]: "wf_in s \<Longrightarrow> eat 0 s = s"
  by (auto simp: eat_def wf_in_def source_def)

lemma read_bytes_ok:
  assumes "wf_in s" and "unat count \<le> length (input s)"
  shows "read_bytes s count = rd_ok (take (unat count) (input s)) (eat (unat count) s)"
  using assms length_input [OF assms(1)]
  by (auto simp: read_bytes_def wf_in_def run_callback_def rd_ok_def eat_def source_def input_def
      word_less_nat_alt min_def split: option.splits)

lemma read_bytes_short:
  assumes "wf_in s" and "length (input s) < unat count"
  shows "read_bytes s count = rd_error ''end-of-stream'' s"
  using assms length_input [OF assms(1)]
  by (auto simp: read_bytes_def word_less_nat_alt)

lemma pb_read_ok:
  assumes "wf_in s" and "unat count \<le> length (input s)"
  shows "pb_read s b count = rd_ok (take (unat count) (input s)) (eat (unat count) s)"
  using read_bytes_ok [OF assms] assms by (simp add: pb_read_def wf_in_def)

lemma pb_read_short:
  assumes "wf_in s" and "length (input s) < unat count"
  shows "pb_read s b count = rd_error ''end-of-stream'' s"
  using read_bytes_short [OF assms] assms by (auto simp: pb_read_def wf_in_def)

lemma pb_readbyte_ok:
  assumes "wf_in s" and "input s = b # bs"
  shows "pb_readbyte s = rd_ok b (eat 1 s)"
proof -
  obtain src where src: "istate s = Buf_state src" using assms(1) by (auto simp: wf_in_def)
  have bl: "bytes_left s \<noteq> 0" using assms(2) by (auto simp: input_def)
  obtain src' where "src = b # src'" using assms(2) src by (cases src) (auto simp: input_def source_def take_Cons' split: if_splits)
  with src bl assms show ?thesis
    by (simp add: pb_readbyte_def run_callback_def wf_in_def rd_ok_def eat_def source_def)
qed

lemma pb_readbyte_empty:
  assumes "wf_in s" and "input s = []"
  shows "pb_readbyte s = rd_error ''end-of-stream'' s"
  using assms length_input [OF assms(1)] by (simp add: pb_readbyte_def unat_eq_zero)

section \<open>Varints\<close>

lemma last_byte:
  assumes "v \<le> (0x7F :: u64)"
  shows "(ucast v :: u8) AND 0x80 = 0" and "(ucast v :: u8) AND 0x7F = ucast v"
    and "ucast (ucast v :: u8) = v"
proof -
  have b: "n < 7" if "bit v n" for n
    using assms that by (auto simp flip: drop_bit_7_eq_0 dest: drop_bit_0_bit)
  show "(ucast v :: u8) AND 0x80 = 0"
    by (rule bit_word_eqI) (use b bit_0x80 in \<open>fastforce simp: bit_and_iff bit_ucast_iff\<close>)
  show "(ucast v :: u8) AND 0x7F = ucast v"
    by (rule bit_word_eqI) (auto simp: mask_7 bit_and_iff bit_ucast_iff bit_mask_iff dest: b)
  show "ucast (ucast v :: u8) = v"
    by (rule bit_word_eqI) (use b in \<open>fastforce simp: bit_ucast_iff\<close>)
qed

lemma marked_byte: "(x OR 0x80 :: u8) AND 0x80 \<noteq> 0"
proof
  assume "(x OR 0x80 :: u8) AND 0x80 = 0"
  then have "bit ((x OR 0x80 :: u8) AND 0x80) 7 \<longleftrightarrow> False" by simp
  then show False by (simp add: bit_and_iff bit_or_iff bit_0x80)
qed

lemma ucast_and_mask7: "ucast (ucast (v AND 0x7F) :: u8) = (v AND 0x7F :: u64)"
  by (rule bit_word_eqI) (auto simp: mask_7 bit_and_iff bit_ucast_iff bit_mask_iff)

lemma join_7:
  "push_bit a (v AND 0x7F) OR push_bit (a + 7) (drop_bit 7 v) = push_bit a (v :: 'a::len word)"
proof (rule bit_word_eqI)
  fix n assume "n < LENGTH('a)"
  show "bit (push_bit a (v AND 0x7F) OR push_bit (a + 7) (drop_bit 7 v)) n = bit (push_bit a v) n"
  proof (cases "n < a + 7")
    case True
    then show ?thesis
      by (auto simp: mask_7 bit_or_iff bit_and_iff bit_push_bit_iff bit_mask_iff bit_drop_bit_eq)
  next
    case False
    then have "7 + (n - (a + 7)) = n - a" by simp
    with False \<open>n < LENGTH('a)\<close> show ?thesis
      by (auto simp: mask_7 bit_or_iff bit_and_iff bit_push_bit_iff bit_mask_iff bit_drop_bit_eq)
  qed
qed

lemma vbytes_cases:
  obtains (last) "v \<le> 0x7F" and "vbytes v = [ucast v]"
  | (more) "\<not> v \<le> 0x7F" and "vbytes v = (ucast (v AND 0x7F) OR 0x80) # vbytes (drop_bit 7 v)"
  using vbytes.simps [of v] by (cases "v \<le> 0x7F") auto

lemma varint64_loop_vbytes:
  assumes "wf_in s" and "input s = vbytes v @ rest" and "7 * k < 64" and "unat v < 2 ^ (64 - 7 * k)"
  shows "varint64_loop s r (word_of_nat (7 * k)) =
    rd_ok (r OR push_bit (7 * k) v) (eat (length (vbytes v)) s)"
  using assms
proof (induction v arbitrary: s k r rule: vbytes.induct)
  case (1 v)
  have k: "unat (word_of_nat (7 * k) :: u8) = 7 * k"
    using "1.prems" by (intro unat_word_of_nat_small) simp
  then have guard: "\<not> (64 :: u8) \<le> word_of_nat (7 * k)" using "1.prems" by (simp add: word_le_nat_alt)
  show ?case
  proof (cases rule: vbytes_cases [of v])
    case last
    with "1.prems" have "pb_readbyte s = rd_ok (ucast v) (eat 1 s)" by (simp add: pb_readbyte_ok)
    then show ?thesis
      using last last_byte [OF last(1)] guard k by (simp add: varint64_loop.simps [of s])
  next
    case more
    define b :: u8 where "b = ucast (v AND 0x7F) OR 0x80"
    have rb: "pb_readbyte s = rd_ok b (eat 1 s)"
      using "1.prems" more by (simp add: pb_readbyte_ok b_def)
    have b: "b AND 0x80 \<noteq> 0" "ucast (b AND 0x7F) = (v AND 0x7F :: u64)"
      using marked_byte marked_and_mask [of v] ucast_and_mask7 [of v] by (auto simp: b_def)
    have len: "1 \<le> length (input s)" using "1.prems" more by simp
    have in1: "wf_in (eat 1 s)" "input (eat 1 s) = vbytes (drop_bit 7 v) @ rest"
      using eat_wf [OF "1.prems"(1) len] "1.prems" more by simp_all
    have v7: "7 \<le> 64 - 7 * k"
    proof (rule ccontr)
      assume "\<not> 7 \<le> 64 - 7 * k"
      then have "(2::nat) ^ (64 - 7 * k) \<le> 2 ^ 7" by (intro power_increasing) simp_all
      with "1.prems" more show False by (simp add: word_le_nat_alt)
    qed
    have nk: "7 * Suc k < 64"
    proof -
      from v7 have "7 * Suc k \<le> 64" by simp
      moreover have "7 * Suc k \<noteq> 64" by presburger
      ultimately show ?thesis by simp
    qed
    have "unat (drop_bit 7 v) < 2 ^ (64 - 7 * Suc k)"
    proof -
      have "64 - 7 * k = 7 + (64 - 7 * Suc k)" using nk by simp
      then have "(2::nat) ^ (64 - 7 * k) = 2 ^ 7 * 2 ^ (64 - 7 * Suc k)"
        by (simp only: power_add)
      with "1.prems" show ?thesis by (simp add: unat_drop_bit div_less_iff_less_mult mult.commute)
    qed
    note IH = "1.IH" [OF more(1) in1 nk this, of "r OR push_bit (7 * k) (v AND 0x7F)"]
    have next_k: "word_of_nat (7 * k) + 7 = (word_of_nat (7 * Suc k) :: u8)" by simp
    have "varint64_loop s r (word_of_nat (7 * k)) =
        varint64_loop (eat 1 s) (r OR push_bit (7 * k) (v AND 0x7F)) (word_of_nat (7 * Suc k))"
      by (subst varint64_loop.simps) (simp add: guard rb b k next_k del: of_nat_Suc of_nat_mult)
    also have "\<dots> = rd_ok (r OR push_bit (7 * k) v) (eat (length (vbytes v)) s)"
      unfolding IH using join_7 [of "7 * k" v] more "1.prems"(1)
      by (simp add: eat_eat or.assoc add.commute)
    finally show ?thesis .
  qed
qed

theorem decode_varint_vbytes:
  assumes "wf_in s" and "input s = vbytes v @ rest"
  shows "pb_decode_varint s = rd_ok v (eat (length (vbytes v)) s)"
  using varint64_loop_vbytes [OF assms, of 0 0] unat_bound [of v]
  by (simp add: pb_decode_varint_def)

section \<open>Zigzag\<close>

lemma sless_0_bit: "v <s 0 \<longleftrightarrow> bit (v :: u64) 63"
  using bit_last_iff [of v] by (simp add: word_sless_alt)

lemma unzigzag_zigzag: "unzigzag (zigzag v) = v"
proof -
  define p where "p = push_bit 1 v"
  have p: "bit p n \<longleftrightarrow> 0 < n \<and> n < 64 \<and> bit v (n - 1)" for n
    unfolding p_def bit_push_bit_iff by auto
  have odd_iff: "z AND 1 \<noteq> 0 \<longleftrightarrow> bit z 0" for z :: u64
    by (auto simp: and_one_eq mod_2_eq_odd bit_0)
  have d: "bit (drop_bit 1 z) n \<longleftrightarrow> bit z (Suc n)" for z :: u64 and n
    by (simp add: bit_drop_bit_eq)
  show ?thesis
  proof (rule bit_word_eqI)
    fix n assume "n < LENGTH(64)"
    then consider "n = 63" | "n < 63" by fastforce
    then show "bit (unzigzag (zigzag v)) n = bit v n"
    proof cases
      case 1
      have "\<not> bit z 64" for z :: u64 using bit_imp_le_length [of z 64] by auto
      with 1 show ?thesis
        unfolding unzigzag_def zigzag_def p_def [symmetric] sless_0_bit odd_iff
        by (auto simp: bit_not_iff bit_drop_bit_eq p)
    next
      case 2
      then show ?thesis
        unfolding unzigzag_def zigzag_def p_def [symmetric] sless_0_bit odd_iff
        by (auto simp: bit_not_iff bit_drop_bit_eq p)
    qed
  qed
qed

theorem decode_svarint_vbytes:
  assumes "wf_in s" and "input s = vbytes (zigzag v) @ rest"
  shows "pb_decode_svarint s = rd_ok v (eat (length (vbytes (zigzag v))) s)"
  using decode_varint_vbytes [OF assms] by (simp add: pb_decode_svarint_def unzigzag_zigzag)

section \<open>32-bit varints\<close>

lemma ucast_byte_32: "ucast (ucast (v AND 0x7F) :: u8) = (ucast (v AND 0x7F :: u64) :: u32)"
  by (rule bit_word_eqI) (auto simp: mask_7 bit_and_iff bit_ucast_iff bit_mask_iff)

lemma join_7_32:
  "push_bit a (ucast (v AND 0x7F)) OR push_bit (a + 7) (ucast (drop_bit 7 v)) =
     push_bit a (ucast (v :: u64) :: u32)"
proof (rule bit_word_eqI)
  fix n assume "n < LENGTH(32)"
  show "bit (push_bit a (ucast (v AND 0x7F)) OR push_bit (a + 7) (ucast (drop_bit 7 v)) :: u32) n =
      bit (push_bit a (ucast v) :: u32) n"
  proof (cases "n < a + 7")
    case True
    then show ?thesis
      by (auto simp: mask_7 bit_or_iff bit_and_iff bit_push_bit_iff bit_mask_iff bit_drop_bit_eq bit_ucast_iff)
  next
    case False
    then have "7 + (n - (a + 7)) = n - a" by simp
    with False \<open>n < LENGTH(32)\<close> show ?thesis
      by (auto simp: mask_7 bit_or_iff bit_and_iff bit_push_bit_iff bit_mask_iff bit_drop_bit_eq bit_ucast_iff)
  qed
qed

lemma varint32_loop_step:
  fixes v :: u64
  assumes "wf_in s" and "input s = (ucast (v AND 0x7F) OR 0x80) # bs" and "7 * k < 32"
  shows "varint32_loop s r (word_of_nat (7 * k)) =
    varint32_loop (eat 1 s) (r OR push_bit (7 * k) (ucast (v AND 0x7F))) (word_of_nat (7 * Suc k))"
proof -
  have k: "unat (word_of_nat (7 * k) :: u8) = 7 * k"
    using assms by (intro unat_word_of_nat_small) simp
  then have "\<not> (32 :: u8) \<le> word_of_nat (7 * k)" using assms by (simp add: word_le_nat_alt)
  then show ?thesis
    using k marked_byte marked_and_mask [of v] ucast_byte_32 [of v] pb_readbyte_ok [OF assms(1,2)]
    by (subst varint32_loop.simps) (simp add: add.commute)
qed

lemma varint32_loop_last:
  fixes v :: u64
  assumes "wf_in s" and "input s = ucast v # bs" and "v \<le> 0x7F" and "7 * k < 32"
  shows "varint32_loop s r (word_of_nat (7 * k)) =
    rd_ok (r OR push_bit (7 * k) (ucast v), word_of_nat (7 * Suc k), ucast v) (eat 1 s)"
proof -
  have k: "unat (word_of_nat (7 * k) :: u8) = 7 * k"
    using assms by (intro unat_word_of_nat_small) simp
  then have "\<not> (32 :: u8) \<le> word_of_nat (7 * k)" using assms by (simp add: word_le_nat_alt)
  moreover have "ucast (ucast v :: u8) = (ucast v :: u32)"
    using ucast_byte_32 [of v] small_and_mask7 [OF assms(3)] by simp
  ultimately show ?thesis
    using k last_byte [OF assms(3)] pb_readbyte_ok [OF assms(1,2)]
    by (subst varint32_loop.simps) simp
qed

lemma varint32_loop_vbytes:
  assumes "wf_in s" and "input s = vbytes v @ rest" and "7 * k < 32" and "unat v < 2 ^ (32 - 7 * k)"
  shows "\<exists>byte. varint32_loop s r (word_of_nat (7 * k)) =
      rd_ok (r OR push_bit (7 * k) (ucast v), word_of_nat (7 * (k + length (vbytes v))), byte)
        (eat (length (vbytes v)) s)
    \<and> (k + length (vbytes v) = 5 \<longrightarrow> byte AND 0x70 = 0) \<and> k + length (vbytes v) \<le> 5"
  using assms
proof (induction v arbitrary: s k r rule: vbytes.induct)
  case (1 v)
  show ?case
  proof (cases rule: vbytes_cases [of v])
    case last
    have "(ucast v :: u8) AND 0x70 = 0" if "k = 4"
    proof -
      have "unat v < 2 ^ 4" using "1.prems"(4) that by simp
      then have "drop_bit 4 v = 0" by (simp add: unat_drop_bit flip: unat_eq_zero)
      then have b: "n < 4" if "bit v n" for n using that by (rule drop_bit_0_bit)
      have "(0x70 :: u8) = push_bit 4 7" by simp
      then have h: "4 \<le> n" if "bit (0x70 :: u8) n" for n
        using that by (simp only: bit_push_bit_iff)
      show ?thesis
        by (rule bit_word_eqI) (use b h in \<open>fastforce simp: bit_and_iff bit_ucast_iff\<close>)
    qed
    moreover have "k \<le> 4" using "1.prems"(3) by simp
    ultimately show ?thesis
      using varint32_loop_last [OF "1.prems"(1) _ last(1) "1.prems"(3), of rest r] "1.prems"(2) last
      by simp
  next
    case more
    have len: "1 \<le> length (input s)" using "1.prems" more by simp
    have in1: "wf_in (eat 1 s)" "input (eat 1 s) = vbytes (drop_bit 7 v) @ rest"
      using eat_wf [OF "1.prems"(1) len] "1.prems" more by simp_all
    have k3: "k \<le> 3"
    proof (rule ccontr)
      assume "\<not> k \<le> 3"
      then have "(2::nat) ^ (32 - 7 * k) \<le> 2 ^ 7" by (intro power_increasing) simp_all
      with "1.prems" more show False by (simp add: word_le_nat_alt)
    qed
    then have nk: "7 * Suc k < 32" and e: "32 - 7 * k = 7 + (32 - 7 * Suc k)" by simp_all
    have "unat (drop_bit 7 v) < 2 ^ (32 - 7 * Suc k)"
      using "1.prems"(4) unfolding e power_add
      by (simp add: unat_drop_bit div_less_iff_less_mult mult.commute)
    note IH = "1.IH" [OF more(1) in1 nk this, of "r OR push_bit (7 * k) (ucast (v AND 0x7F))"]
    have "varint32_loop s r (word_of_nat (7 * k)) =
      varint32_loop (eat 1 s) (r OR push_bit (7 * k) (ucast (v AND 0x7F))) (word_of_nat (7 * Suc k))"
      by (rule varint32_loop_step [OF "1.prems"(1) _ "1.prems"(3)]) (use "1.prems"(2) more in simp)
    then show ?thesis
      using IH join_7_32 [of "7 * k" v] more "1.prems"(1)
      by (simp add: eat_eat or.assoc add.commute)
  qed
qed

lemma decode_varint32_eof_vbytes:
  assumes "wf_in s" and "input s = vbytes v @ rest" and "unat v < 2 ^ 32"
  shows "pb_decode_varint32_eof s = Some ((Some (ucast v), False), eat (length (vbytes v)) s)"
proof (cases rule: vbytes_cases [of v])
  case last
  have "ucast (ucast v :: u8) = (ucast v :: u32)"
    using ucast_byte_32 [of v] small_and_mask7 [OF last(1)] by simp
  with last last_byte [OF last(1)] pb_readbyte_ok [OF assms(1), of "ucast v" rest] assms(2)
  show ?thesis by (simp add: pb_decode_varint32_eof_def rd_ok_def)
next
  case more
  have len: "1 \<le> length (input s)" using assms more by simp
  have in1: "wf_in (eat 1 s)" "input (eat 1 s) = vbytes (drop_bit 7 v) @ rest"
    using eat_wf [OF assms(1) len] assms more by simp_all
  have "unat (drop_bit 7 v) < 2 ^ (32 - 7 * 1)"
    using assms(3) by (simp add: unat_drop_bit div_less_iff_less_mult)
  from varint32_loop_vbytes [OF in1 _ this, of "ucast (v AND 0x7F)"] obtain byte where
    l: "varint32_loop (eat 1 s) (ucast (v AND 0x7F)) 7 =
      rd_ok (ucast (v AND 0x7F) OR push_bit 7 (ucast (drop_bit 7 v)),
             word_of_nat (7 * (1 + length (vbytes (drop_bit 7 v)))), byte)
        (eat (length (vbytes (drop_bit 7 v))) (eat 1 s))"
    and b: "1 + length (vbytes (drop_bit 7 v)) = 5 \<longrightarrow> byte AND 0x70 = 0"
    and n: "1 + length (vbytes (drop_bit 7 v)) \<le> 5"
    by auto
  have "\<not> (word_of_nat (7 * (1 + length (vbytes (drop_bit 7 v)))) = (35 :: u8) \<and> byte AND 0x70 \<noteq> 0)"
  proof (cases "1 + length (vbytes (drop_bit 7 v)) = 5")
    case False
    then have "unat (word_of_nat (7 * (1 + length (vbytes (drop_bit 7 v)))) :: u8) \<noteq> unat (35 :: u8)"
      using n by (subst unat_word_of_nat_small) simp_all
    then show ?thesis by force
  qed (use b in simp)
  moreover have "ucast (v AND 0x7F) OR push_bit 7 (ucast (drop_bit 7 v)) = (ucast v :: u32)"
    using join_7_32 [of 0 v] by simp
  moreover have "pb_readbyte s = rd_ok (ucast (v AND 0x7F) OR 0x80) (eat 1 s)"
    using assms(2) more by (intro pb_readbyte_ok [OF assms(1)]) simp
  ultimately show ?thesis
    using l more assms(1) marked_byte marked_and_mask [of v] ucast_byte_32 [of v]
    by (simp add: pb_decode_varint32_eof_def rd_ok_def eat_eat)
qed

theorem decode_varint32_vbytes:
  assumes "wf_in s" and "input s = vbytes (ucast v) @ rest"
  shows "pb_decode_varint32 s = rd_ok v (eat (length (vbytes (ucast v))) s)"
proof -
  have "unat (ucast v :: u64) < 2 ^ 32" using unat_bound [of v] by simp
  from decode_varint32_eof_vbytes [OF assms this] show ?thesis
    by (simp add: pb_decode_varint32_def rd_ok_def)
qed

section \<open>Tags, fixed-width and length-delimited values\<close>

lemma tag_value:
  fixes n wt :: u32
  assumes "unat n < 2 ^ 29" and "wt < 8"
  shows "unat (push_bit 3 (ucast n) OR ucast wt :: u64) < 2 ^ 32"
    and "drop_bit 3 (ucast (push_bit 3 (ucast n) OR ucast wt :: u64)) = n"
    and "ucast (push_bit 3 (ucast n) OR ucast wt :: u64) AND 7 = wt"
proof -
  have "drop_bit 29 n = 0" using assms(1) by (simp add: unat_drop_bit flip: unat_eq_zero)
  then have n: "i < 29" if "bit n i" for i using that by (rule drop_bit_0_bit)
  have "unat wt < 8" using assms(2) by (simp add: word_less_nat_alt)
  then have "drop_bit 3 wt = 0" by (simp add: unat_drop_bit flip: unat_eq_zero)
  then have w: "i < 3" if "bit wt i" for i using that by (rule drop_bit_0_bit)
  have b: "bit (push_bit 3 (ucast n) OR ucast wt :: u64) i \<longleftrightarrow> 3 \<le> i \<and> bit n (i - 3) \<or> bit wt i" for i
    using n [of "i - 3"] w [of i] by (auto simp: bit_or_iff bit_push_bit_iff bit_ucast_iff)
  have "drop_bit 32 (push_bit 3 (ucast n) OR ucast wt :: u64) = 0"
  proof (rule bit_word_eqI)
    fix i :: nat
    show "bit (drop_bit 32 (push_bit 3 (ucast n) OR ucast wt :: u64)) i = bit 0 i"
      using n [of "32 + i - 3"] w [of "32 + i"] unfolding bit_drop_bit_eq o_def b by auto
  qed
  then have "unat (push_bit 3 (ucast n) OR ucast wt :: u64) div 2 ^ 32 = 0"
    by (simp only: flip: unat_drop_bit) simp
  then show "unat (push_bit 3 (ucast n) OR ucast wt :: u64) < 2 ^ 32" by (simp add: div_eq_0_iff)
  show "drop_bit 3 (ucast (push_bit 3 (ucast n) OR ucast wt :: u64)) = n"
  proof (rule bit_word_eqI)
    fix i assume "i < LENGTH(32)"
    show "bit (drop_bit 3 (ucast (push_bit 3 (ucast n) OR ucast wt :: u64) :: u32)) i = bit n i"
      using n [of i] w [of "3 + i"] unfolding bit_drop_bit_eq o_def bit_ucast_iff b by auto
  qed
  show "ucast (push_bit 3 (ucast n) OR ucast wt :: u64) AND 7 = wt"
  proof (rule bit_word_eqI)
    fix i assume "i < LENGTH(32)"
    have "bit (7 :: u32) i \<longleftrightarrow> i < 3"
    proof -
      have m: "(7 :: u32) = mask 3" by (simp add: mask_eq_exp_minus_1)
      show ?thesis unfolding m by (auto simp: bit_mask_iff)
    qed
    then show "bit (ucast (push_bit 3 (ucast n) OR ucast wt :: u64) AND 7 :: u32) i = bit wt i"
      using w [of i] \<open>i < LENGTH(32)\<close> unfolding bit_and_iff bit_ucast_iff b by auto
  qed
qed

lemma decode_tag_bytes:
  fixes n wt :: u32
  assumes "wf_in s" and "input s = tag_bytes wt n @ rest"
    and "0 < n" and "unat n < 2 ^ 29" and "wt < 8"
  shows "pb_decode_tag s = Some ((Some (n, wt), False), eat (length (tag_bytes wt n)) s)"
proof -
  let ?v = "push_bit 3 (ucast n) OR ucast wt :: u64"
  have tv: "unat ?v < 2 ^ 32" "drop_bit 3 (ucast ?v) = n" "ucast ?v AND 7 = wt"
    using tag_value [OF assms(4,5)] by auto
  have "(ucast ?v :: u32) \<noteq> 0"
  proof
    assume "(ucast ?v :: u32) = 0"
    with tv(2) have "n = drop_bit 3 0" by metis
    with assms(3) show False by simp
  qed
  with decode_varint32_eof_vbytes [OF assms(1) _ tv(1), of rest] assms(2) tv(2,3)
  show ?thesis by (simp add: pb_decode_tag_def tag_bytes_def varint_bytes_vbytes)
qed

lemma le_word_4: "length bs = 4 \<Longrightarrow>
  ucast (bs ! 0) OR push_bit 8 (ucast (bs ! 1)) OR push_bit 16 (ucast (bs ! 2)) OR
    push_bit 24 (ucast (bs ! 3)) = (le_word bs :: u32)"
  by (auto simp: length_Suc_conv eval_nat_numeral(2,3) push_bit_or push_bit_push_bit or.assoc)

lemma decode_fixed32_bytes:
  assumes "wf_in s" and "input s = le_bytes 4 v @ rest"
  shows "pb_decode_fixed32 s = rd_ok v (eat 4 s)"
proof -
  have "pb_read s True 4 = rd_ok (le_bytes 4 v) (eat 4 s)"
    using pb_read_ok [OF assms(1), of 4 True] assms(2) by simp
  then show ?thesis
    using le_word_4 [of "le_bytes 4 v"]
    by (simp add: pb_decode_fixed32_def le_word_le_bytes_full)
qed

lemma le_word_8: "length bs = 8 \<Longrightarrow>
  ucast (bs ! 0) OR push_bit 8 (ucast (bs ! 1)) OR push_bit 16 (ucast (bs ! 2)) OR
    push_bit 24 (ucast (bs ! 3)) OR push_bit 32 (ucast (bs ! 4)) OR
    push_bit 40 (ucast (bs ! 5)) OR push_bit 48 (ucast (bs ! 6)) OR
    push_bit 56 (ucast (bs ! 7)) = (le_word bs :: u64)"
  by (auto simp: length_Suc_conv eval_nat_numeral(2,3) push_bit_or push_bit_push_bit or.assoc)

lemma decode_fixed64_bytes:
  assumes "wf_in s" and "input s = le_bytes 8 v @ rest"
  shows "pb_decode_fixed64 s = rd_ok v (eat 8 s)"
proof -
  have "pb_read s True 8 = rd_ok (le_bytes 8 v) (eat 8 s)"
    using pb_read_ok [OF assms(1), of 8 True] assms(2) by simp
  then show ?thesis
    using le_word_8 [of "le_bytes 8 v"]
    by (simp add: pb_decode_fixed64_def le_word_le_bytes_full)
qed

section \<open>Skipping\<close>

text \<open>The bytes of a value of each wire type, as the format defines them.\<close>

definition marked :: "u8 \<Rightarrow> bool" where
  "marked b \<longleftrightarrow> b AND 0x80 \<noteq> 0"

definition wire_value :: "u32 \<Rightarrow> u8 list \<Rightarrow> bool" where
  "wire_value wt bs \<longleftrightarrow>
     (if wt = PB_WT_VARINT then bs \<noteq> [] \<and> list_all marked (butlast bs) \<and> \<not> marked (last bs)
      else if wt = PB_WT_64BIT then length bs = 8
      else if wt = PB_WT_32BIT then length bs = 4
      else if wt = PB_WT_STRING then
        \<exists>payload. length payload < 2 ^ 32 \<and> bs = vbytes (word_of_nat (length payload)) @ payload
      else False)"

lemma vbytes_wire_value: "wire_value PB_WT_VARINT (vbytes v)"
proof -
  have "vbytes v \<noteq> [] \<and> list_all marked (butlast (vbytes v)) \<and> \<not> marked (last (vbytes v))"
  proof (induction v rule: vbytes.induct)
    case (1 v)
    show ?case
    proof (cases rule: vbytes_cases [of v])
      case last
      with last_byte [OF last(1)] show ?thesis by (simp add: marked_def)
    next
      case more
      with 1 marked_byte show ?thesis by (simp add: marked_def)
    qed
  qed
  then show ?thesis by (simp add: wire_value_def)
qed

lemma skip_varint_bytes:
  assumes "wf_in s" and "input s = bs @ rest"
    and "bs \<noteq> []" and "list_all marked (butlast bs)" and "\<not> marked (last bs)"
  shows "pb_skip_varint s = rd_ok () (eat (length bs) s)"
  using assms
proof (induction bs arbitrary: s)
  case Nil
  then show ?case by simp
next
  case (Cons b bs)
  have r: "pb_read s True 1 = rd_ok [b] (eat 1 s)"
    using pb_read_ok [OF Cons.prems(1), of 1 True] Cons.prems(2) by simp
  show ?case
  proof (cases "bs = []")
    case True
    with r Cons.prems(5) show ?thesis by (simp add: pb_skip_varint.simps [of s] marked_def)
  next
    case False
    have in1: "wf_in (eat 1 s)" "input (eat 1 s) = bs @ rest"
      using eat_wf [OF Cons.prems(1), of 1] Cons.prems(2) by simp_all
    from Cons.IH [OF in1] False Cons.prems
    have "pb_skip_varint (eat 1 s) = rd_ok () (eat (length bs) (eat 1 s))" by simp
    with r False Cons.prems(1,4) show ?thesis
      by (simp add: pb_skip_varint.simps [of s] marked_def eat_eat)
  qed
qed

lemma read_and_drop:
  assumes "wf_in s" and "input s = bs @ rest" and "length bs = unat count"
  shows "rd_bind (pb_read s b count) (\<lambda>_ s. rd_ok () s) = rd_ok () (eat (length bs) s)"
  using pb_read_ok [OF assms(1), of count b] assms(2,3) by simp

lemma skip_wire_value:
  assumes "wf_in s" and "input s = bs @ rest" and "wire_value wt bs"
  shows "pb_skip_field s wt = rd_ok () (eat (length bs) s)"
proof -
  consider (varint) "wt = PB_WT_VARINT" | (fixed64) "wt = PB_WT_64BIT" | (fixed32) "wt = PB_WT_32BIT"
    | (str) "wt = PB_WT_STRING"
    using assms(3) by (auto simp: wire_value_def split: if_splits)
  then show ?thesis
  proof cases
    case varint
    with assms skip_varint_bytes [OF assms(1,2)] show ?thesis
      by (simp add: wire_value_def pb_skip_field_def)
  next
    case fixed64
    with assms read_and_drop [OF assms(1,2), of 8 False] show ?thesis
      by (simp add: wire_value_def pb_skip_field_def)
  next
    case fixed32
    with assms read_and_drop [OF assms(1,2), of 4 False] show ?thesis
      by (simp add: wire_value_def pb_skip_field_def)
  next
    case str
    then obtain payload where len: "length payload < 2 ^ 32"
      and bs: "bs = vbytes (word_of_nat (length payload)) @ payload"
      using assms(3) by (auto simp: wire_value_def)
    define n :: u32 where "n = word_of_nat (length payload)"
    have n: "unat n = length payload" unfolding n_def using len by (intro unat_word_of_nat_small) simp
    have vn: "(word_of_nat (length payload) :: u64) = ucast n"
      by (rule word_unat_eq_iff [THEN iffD2], subst unat_word_of_nat_small) (use len n in simp_all)
    have ins: "input s = vbytes (ucast n) @ (payload @ rest)" using assms(2) bs vn by simp
    have in1: "wf_in (eat (length (vbytes (ucast n))) s)"
      "input (eat (length (vbytes (ucast n))) s) = payload @ rest"
      using eat_wf [OF assms(1), of "length (vbytes (ucast n))"] ins by simp_all
    from decode_varint32_vbytes [OF assms(1) ins] read_and_drop [OF in1, of "ucast n" False] n str assms(1)
    show ?thesis by (simp add: pb_skip_field_def pb_skip_string_def bs vn eat_eat)
  qed
qed

section \<open>Substreams\<close>

text \<open>Opening a substream on an encoded payload, and closing it wherever the reader stopped.\<close>

lemma make_substream:
  fixes n :: u32
  assumes "wf_in s" and "input s = vbytes (ucast n) @ payload @ rest" and "length payload = unat n"
  defines "t \<equiv> eat (length (vbytes (ucast n))) s"
  shows "pb_make_string_substream s =
    rd_ok (t\<lparr>bytes_left := ucast n\<rparr>) (t\<lparr>bytes_left := bytes_left t - ucast n\<rparr>)"
proof -
  have in1: "wf_in t" "input t = payload @ rest"
    unfolding t_def using eat_wf [OF assms(1), of "length (vbytes (ucast n))"] assms(2) by simp_all
  have "unat n \<le> unat (bytes_left t)"
    using length_input [OF in1(1)] in1(2) assms(3) by simp
  then have "\<not> bytes_left t < ucast n" by (simp add: word_less_nat_alt)
  with decode_varint32_vbytes [OF assms(1,2)] show ?thesis
    by (simp add: pb_make_string_substream_def t_def)
qed

lemma substream_input:
  assumes "wf_in t" and "input t = payload @ rest" and "length payload = unat (n :: u32)"
  shows "wf_in (t\<lparr>bytes_left := ucast n\<rparr>)" and "input (t\<lparr>bytes_left := ucast n\<rparr>) = payload"
proof -
  have le: "unat n \<le> unat (bytes_left t)"
    using length_input [OF assms(1)] assms(2,3) by simp
  with assms(1) show "wf_in (t\<lparr>bytes_left := ucast n\<rparr>)"
    by (auto simp: wf_in_def source_def)
  have "take (unat n) (input t) = payload" using assms(2,3) by simp
  with le show "input (t\<lparr>bytes_left := ucast n\<rparr>) = payload"
    by (simp add: input_def source_def min_def)
qed

lemma close_substream:
  assumes t: "wf_in t" "input t = payload @ rest" "length payload = unat (n :: u32)"
    and k: "k \<le> length payload"
  shows "pb_close_string_substream (t\<lparr>bytes_left := bytes_left t - ucast n\<rparr>)
           (eat k (t\<lparr>bytes_left := ucast n\<rparr>)) = rd_ok () (eat (unat n) t)"
proof -
  let ?sub = "t\<lparr>bytes_left := ucast n\<rparr>"
  note sub = substream_input [OF t]
  have subk: "wf_in (eat k ?sub)" "input (eat k ?sub) = drop k payload"
    using eat_wf [OF sub(1), of k] sub(2) k by simp_all
  have left: "unat (bytes_left (eat k ?sub)) = unat n - k"
    using length_input [OF subk(1)] subk(2) t(3) by simp
  have read: "pb_read (eat k ?sub) False (bytes_left (eat k ?sub)) =
      rd_ok (input (eat k ?sub)) (eat (unat n) ?sub)"
    using pb_read_ok [OF subk(1), of "bytes_left (eat k ?sub)" False] left subk(2) t(3) k
      eat_eat [OF sub(1), of "unat n - k" k] by simp
  have fin: "(t\<lparr>bytes_left := bytes_left t - ucast n\<rparr>)
      \<lparr>istate := istate (eat (unat n) ?sub), ierrmsg := ierrmsg (eat (unat n) ?sub)\<rparr> = eat (unat n) t"
  proof -
    have "(word_of_nat (unat n) :: u64) = ucast n"
      by (rule word_unat_eq_iff [THEN iffD2], subst unat_word_of_nat_small)
        (use unat_bound [of n] in simp_all)
    then show ?thesis by (simp add: eat_def source_def)
  qed
  show ?thesis
  proof (cases "bytes_left (eat k ?sub) = 0")
    case True
    with left k t(3) have "k = unat n" by simp
    with True fin show ?thesis by (simp add: pb_close_string_substream_def)
  next
    case False
    with read fin show ?thesis by (simp add: pb_close_string_substream_def rd_ok_def)
  qed
qed

end
