(* ===== verification/Pb_Decode.thy ===== *)
theory Pb_Decode
  imports Pb_Istream
begin

text \<open>
  The part of the nanopb decoder (\<^verbatim>\<open>pb_decode.c\<close>) that stores into the message structure.
  The state of a decoding function is the stream, the byte memory and the state of the
  allocator. What is reached through pointers to code or to constant descriptors, the
  allocator (\<^verbatim>\<open>pb_realloc\<close> and \<^verbatim>\<open>pb_free\<close>), the stack slot of the local
  \<^verbatim>\<open>fixed_count_size\<close> of each nested call, and a bound on the nesting of defaults, extensions
  and released messages are the environment \<open>dec_env\<close>. What a user callback that fails
  leaves in a buffer is not modelled.
\<close>

section \<open>State and environment\<close>

record ('s, 'h) dec =
  d_str :: "'s istream"
  d_mem :: mem
  d_heap :: 'h

type_synonym ('s, 'h) action = "('s, 'h) dec \<Rightarrow> ('s, 'h) dec cres"

record ('s, 'h) dec_env =
  d_fields :: "addr \<Rightarrow> pb_field list"
  d_callback :: "addr \<Rightarrow> pb_field \<Rightarrow> addr \<Rightarrow> ('s, 'h) action"
  d_ext_decode :: "addr \<Rightarrow> addr \<Rightarrow> u32 \<Rightarrow> u32 \<Rightarrow> ('s, 'h) action"
  d_realloc :: "mem \<Rightarrow> 'h \<Rightarrow> addr \<Rightarrow> u64 \<Rightarrow> addr \<times> mem \<times> 'h"
  d_free :: "mem \<Rightarrow> 'h \<Rightarrow> addr \<Rightarrow> mem \<times> 'h"
  d_local :: "nat \<Rightarrow> addr"
  d_depth :: nat

type_synonym ('s, 'h) decoder = "pb_field \<Rightarrow> addr \<Rightarrow> ('s, 'h) action"

definition dec_error :: "string \<Rightarrow> ('s, 'h) action" where
  "dec_error msg st = ret_false (st\<lparr>d_str := with_error msg (d_str st)\<rparr>)"

definition rd_then ::
  "('s, 'h) dec \<Rightarrow> ('s istream \<Rightarrow> ('a, 's) rd) \<Rightarrow> ('a \<Rightarrow> ('s, 'h) action) \<Rightarrow> ('s, 'h) dec cres" where
  "rd_then st r k =
     (case r (d_str st) of
        None \<Rightarrow> None
      | Some (None, s) \<Rightarrow> ret_false (st\<lparr>d_str := s\<rparr>)
      | Some (Some a, s) \<Rightarrow> k a (st\<lparr>d_str := s\<rparr>))"

definition set_mem :: "('s, 'h) dec \<Rightarrow> mem \<Rightarrow> ('s, 'h) dec" where
  "set_mem st m = st\<lparr>d_mem := m\<rparr>"

definition memset0 :: "mem \<Rightarrow> addr \<Rightarrow> nat \<Rightarrow> mem" where
  "memset0 m a n = store m a (replicate n 0)"

text \<open>Run \<open>f\<close> on the substream of a length-delimited field, then close the substream.\<close>

definition on_substream :: "('s, 'h) dec \<Rightarrow> 's istream \<Rightarrow> ('s, 'h) action \<Rightarrow> ('s, 'h) dec cres" where
  "on_substream st substream f =
     (case f (st\<lparr>d_str := substream\<rparr>) of
        None \<Rightarrow> None
      | Some (status, st') \<Rightarrow>
          (case pb_close_string_substream (d_str st) (d_str st') of
             None \<Rightarrow> None
           | Some (None, s) \<Rightarrow> ret_false (st'\<lparr>d_str := s\<rparr>)
           | Some (Some _, s) \<Rightarrow> Some (status, st'\<lparr>d_str := s\<rparr>)))"

text \<open>The walk along a linked list of \<^verbatim>\<open>pb_extension_t\<close>.\<close>

fun ext_walk :: "nat \<Rightarrow> (addr \<Rightarrow> ('s, 'h) action) \<Rightarrow> addr \<Rightarrow> ('s, 'h) action" where
  "ext_walk 0 body ext st = (if ext = 0 then ret_true st else None)"
| "ext_walk (Suc k) body ext st =
     (if ext = 0 then ret_true st
      else and_then (body ext st) (\<lambda>st. ext_walk k body (load_u64 (d_mem st) (ext + 16)) st))"

definition iter_from_extension :: "('s, 'h) dec_env \<Rightarrow> mem \<Rightarrow> addr \<Rightarrow> pb_field_iter" where
  "iter_from_extension env m extension =
     (let field = d_fields env (load_u64 m (load_u64 m extension + 16));
          dest = load_u64 m (extension + 8);
          it = snd (pb_field_iter_begin field dest)
      in it\<lparr>it_pData := (if PB_ATYPE (f_type (field_at field 0)) = PB_ATYPE_POINTER
                          then extension + 8 else dest),
            it_pSize := extension + 24\<rparr>)"

section \<open>Default values\<close>

fun pb_field_set_to_default :: "('s, 'h) dec_env \<Rightarrow> nat \<Rightarrow> pb_field_iter \<Rightarrow> ('s, 'h) action"
and pb_message_set_to_defaults ::
  "('s, 'h) dec_env \<Rightarrow> nat \<Rightarrow> pb_field list \<Rightarrow> addr \<Rightarrow> ('s, 'h) action" where
  "pb_field_set_to_default env 0 it st = None"
| "pb_field_set_to_default env (Suc n) it st =
     (let field = it_field it; type = f_type field; m = d_mem st;
          pData = it_pData it; pSize = it_pSize it in
      if PB_LTYPE type = PB_LTYPE_EXTENSION then
        ext_walk (d_depth env) (\<lambda>ext st.
          let m = (d_mem st)(ext + 24 := 0) in
          pb_field_set_to_default env n (iter_from_extension env m ext) (set_mem st m))
          (load_u64 m pData) st
      else if PB_ATYPE type = PB_ATYPE_STATIC then
        let optional = (PB_HTYPE type = PB_HTYPE_OPTIONAL \<and> pSize \<noteq> pData);
            counted = (PB_HTYPE type = PB_HTYPE_REPEATED \<or> PB_HTYPE type = PB_HTYPE_ONEOF);
            m = (if optional then m(pSize := 0) else if counted then store_u32 m pSize 0 else m);
            st = set_mem st m
        in if \<not> optional \<and> counted then ret_true st
           else if PB_LTYPE type = PB_LTYPE_SUBMESSAGE
           then pb_message_set_to_defaults env n (d_fields env (f_ptr field)) pData st
           else if f_ptr field \<noteq> 0
           then ret_true (set_mem st (store m pData (load m (f_ptr field) (unat (f_data_size field)))))
           else ret_true (set_mem st (memset0 m pData (unat (f_data_size field))))
      else if PB_ATYPE type = PB_ATYPE_POINTER then
        let m = store_u64 m pData 0 in
        ret_true (set_mem st
          (if PB_HTYPE type = PB_HTYPE_REPEATED \<or> PB_HTYPE type = PB_HTYPE_ONEOF
           then store_u32 m pSize 0 else m))
      else ret_true st)"
| "pb_message_set_to_defaults env 0 fs dest_struct st = None"
| "pb_message_set_to_defaults env (Suc n) fs dest_struct st =
     (case pb_field_iter_begin fs dest_struct of
        (False, it) \<Rightarrow> ret_true st
      | (True, it) \<Rightarrow> iter_loop (\<lambda>it st. pb_field_set_to_default env n it st) it st)"

section \<open>Allocation and release\<close>

definition allocate_field ::
  "('s, 'h) dec_env \<Rightarrow> addr \<Rightarrow> u64 \<Rightarrow> u64 \<Rightarrow> ('s, 'h) action" where
  "allocate_field env pData data_size array_size st =
     (let ptr = load_u64 (d_mem st) pData; check_limit = push_bit 32 1 :: u64 in
      if data_size = 0 \<or> array_size = 0 then dec_error ''invalid size'' st
      else if (check_limit \<le> data_size \<or> check_limit \<le> array_size) \<and> - 1 div array_size < data_size
      then dec_error ''size too large'' st
      else case d_realloc env (d_mem st) (d_heap st) ptr (array_size * data_size) of
        (ptr, m, h) \<Rightarrow>
          let st = st\<lparr>d_mem := m, d_heap := h\<rparr> in
          if ptr = 0 then dec_error ''realloc failed'' st
          else ret_true (set_mem st (store_u64 m pData ptr)))"

definition free_at :: "('s, 'h) dec_env \<Rightarrow> addr \<Rightarrow> ('s, 'h) dec \<Rightarrow> ('s, 'h) dec" where
  "free_at env ptr st = (case d_free env (d_mem st) (d_heap st) ptr of
     (m, h) \<Rightarrow> st\<lparr>d_mem := m, d_heap := h\<rparr>)"

fun release_items :: "(addr \<Rightarrow> ('s, 'h) action) \<Rightarrow> u64 \<Rightarrow> addr \<Rightarrow> nat \<Rightarrow> ('s, 'h) action" where
  "release_items body stride pItem 0 st = ret_true st"
| "release_items body stride pItem (Suc count) st =
     and_then (body pItem st) (\<lambda>st. release_items body stride (pItem + stride) count st)"

text \<open>\<^verbatim>\<open>pb_free(*pItem); *pItem++ = NULL\<close> for each entry of a repeated string or bytes field.\<close>

definition release_entry :: "('s, 'h) dec_env \<Rightarrow> addr \<Rightarrow> ('s, 'h) action" where
  "release_entry env pItem st =
     (let st = free_at env (load_u64 (d_mem st) pItem) st
      in ret_true (set_mem st (store_u64 (d_mem st) pItem 0)))"

fun pb_release_single_field :: "('s, 'h) dec_env \<Rightarrow> nat \<Rightarrow> pb_field_iter \<Rightarrow> ('s, 'h) action"
and pb_release :: "('s, 'h) dec_env \<Rightarrow> nat \<Rightarrow> pb_field list \<Rightarrow> addr \<Rightarrow> ('s, 'h) action" where
  "pb_release_single_field env 0 it st = None"
| "pb_release_single_field env (Suc n) it st =
     (let field = it_field it; type = f_type field; pData = it_pData it; pSize = it_pSize it;
          pointer = (PB_ATYPE type = PB_ATYPE_POINTER);
          repeated = (PB_HTYPE type = PB_HTYPE_REPEATED) in
      if PB_HTYPE type = PB_HTYPE_ONEOF \<and> load_u32 (d_mem st) pSize \<noteq> f_tag field
      then ret_true st
      else
        and_then
          (if PB_LTYPE type = PB_LTYPE_EXTENSION then
             ext_walk (d_depth env) (\<lambda>ext st.
               pb_release_single_field env n (iter_from_extension env (d_mem st) ext) st)
               (load_u64 (d_mem st) pData) st
           else if PB_LTYPE type = PB_LTYPE_SUBMESSAGE \<and> PB_ATYPE type \<noteq> PB_ATYPE_CALLBACK then
             let m = d_mem st;
                 pItem = (if pointer then load_u64 m pData else pData);
                 count = (if repeated
                          then if PB_ATYPE type = PB_ATYPE_STATIC \<and> pSize = pData
                               then f_array_size field else load_u32 m pSize
                          else 1);
                 count = (if repeated \<and> PB_ATYPE type = PB_ATYPE_STATIC \<and> f_array_size field < count
                          then f_array_size field else count)
             in if pItem \<noteq> 0
                then release_items (\<lambda>pItem st. pb_release env n (d_fields env (f_ptr field)) pItem st)
                       (ucast (f_data_size field)) pItem (unat count) st
                else ret_true st
           else ret_true st)
          (\<lambda>st. if pointer then
             and_then
               (if repeated \<and> (PB_LTYPE type = PB_LTYPE_STRING \<or> PB_LTYPE type = PB_LTYPE_BYTES)
                then release_items (release_entry env) 8 (load_u64 (d_mem st) pData)
                       (unat (load_u32 (d_mem st) pSize)) st
                else ret_true st)
               (\<lambda>st.
                 let st = (if repeated then set_mem st (store_u32 (d_mem st) pSize 0) else st);
                     st = free_at env (load_u64 (d_mem st) pData) st
                 in ret_true (set_mem st (store_u64 (d_mem st) pData 0)))
           else ret_true st))"
| "pb_release env 0 fs dest_struct st = None"
| "pb_release env (Suc n) fs dest_struct st =
     (if dest_struct = 0 then ret_true st
      else case pb_field_iter_begin fs dest_struct of
        (False, it) \<Rightarrow> ret_true st
      | (True, it) \<Rightarrow> iter_loop (\<lambda>it st. pb_release_single_field env n it st) it st)"

text \<open>The iterator comes back as well, as \<^verbatim>\<open>pb_field_iter_find\<close> moves it.\<close>

definition pb_release_union_field ::
  "('s, 'h) dec_env \<Rightarrow> pb_field_iter \<Rightarrow> ('s, 'h) dec \<Rightarrow> (pb_field_iter \<times> bool \<times> ('s, 'h) dec) option" where
  "pb_release_union_field env it st =
     (let old_tag = load_u32 (d_mem st) (it_pSize it); new_tag = f_tag (it_field it);
          fail = (\<lambda>msg it st. Some (it, False, st\<lparr>d_str := with_error msg (d_str st)\<rparr>)) in
      if old_tag = 0 \<or> old_tag = new_tag then Some (it, True, st)
      else case pb_field_iter_find it old_tag of
        None \<Rightarrow> None
      | Some (False, it) \<Rightarrow> fail ''invalid union tag'' it st
      | Some (True, it) \<Rightarrow>
          (case pb_release_single_field env (d_depth env) it st of
             None \<Rightarrow> None
           | Some (_, st) \<Rightarrow>
               (case pb_field_iter_find it new_tag of
                  None \<Rightarrow> None
                | Some (False, it) \<Rightarrow> fail ''iterator error'' it st
                | Some (True, it) \<Rightarrow> Some (it, True, st))))"

definition initialize_pointer_field ::
  "('s, 'h) dec_env \<Rightarrow> pb_field \<Rightarrow> addr \<Rightarrow> ('s, 'h) action" where
  "initialize_pointer_field env field pItem st =
     (let ltype = PB_LTYPE (f_type field) in
      if ltype = PB_LTYPE_STRING \<or> ltype = PB_LTYPE_BYTES
      then ret_true (set_mem st (store_u64 (d_mem st) pItem 0))
      else if ltype = PB_LTYPE_SUBMESSAGE
      then pb_message_set_to_defaults env (d_depth env) (d_fields env (f_ptr field)) pItem
             (set_mem st (memset0 (d_mem st) pItem (unat (f_data_size field))))
      else ret_true st)"

section \<open>Decoders of single values\<close>

definition pb_dec_bool :: "('s, 'h) decoder" where
  "pb_dec_bool field dest st = rd_then st pb_decode_bool (\<lambda>b st.
     ret_true (set_mem st ((d_mem st)(dest := (if b then 1 else 0)))))"

text \<open>
  Store the low bytes of a value; the second result is the value that the C expression
  reads back (\<^verbatim>\<open>clamped\<close>), sign-extended or zero-extended to 64 bits.
\<close>

definition write_int :: "mem \<Rightarrow> addr \<Rightarrow> u32 \<Rightarrow> u64 \<Rightarrow> (mem \<times> u64) option" where
  "write_int m dest data_size v =
     (if data_size = 8 then Some (store_u64 m dest v, v)
      else if data_size = 4 then Some (store m dest (le_bytes 4 v), scast (ucast v :: u32))
      else if data_size = 2 then Some (store m dest (le_bytes 2 v), scast (ucast v :: u16))
      else if data_size = 1 then Some (store m dest (le_bytes 1 v), scast (ucast v :: u8))
      else None)"

definition write_uint :: "mem \<Rightarrow> addr \<Rightarrow> u32 \<Rightarrow> u64 \<Rightarrow> (mem \<times> u64) option" where
  "write_uint m dest data_size v =
     (if data_size = 8 then Some (store_u64 m dest v, v)
      else if data_size = 4 then Some (store m dest (le_bytes 4 v), ucast (ucast v :: u32))
      else if data_size = 2 then Some (store m dest (le_bytes 2 v), ucast (ucast v :: u16))
      else if data_size = 1 then Some (store m dest (le_bytes 1 v), ucast (ucast v :: u8))
      else None)"

definition finish_write :: "(mem \<times> u64) option \<Rightarrow> u64 \<Rightarrow> ('s, 'h) action" where
  "finish_write w v st =
     (case w of
        None \<Rightarrow> dec_error ''invalid data_size'' st
      | Some (m, clamped) \<Rightarrow>
          if clamped \<noteq> v then dec_error ''integer too large'' (set_mem st m)
          else ret_true (set_mem st m))"

definition pb_dec_varint :: "('s, 'h) decoder" where
  "pb_dec_varint field dest st = rd_then st pb_decode_varint (\<lambda>val st.
     let svalue = (if f_data_size field = 8 then val else scast (ucast val :: u32))
     in finish_write (write_int (d_mem st) dest (f_data_size field) svalue) svalue st)"

definition pb_dec_uvarint :: "('s, 'h) decoder" where
  "pb_dec_uvarint field dest st = rd_then st pb_decode_varint (\<lambda>val st.
     finish_write (write_uint (d_mem st) dest (f_data_size field) val) val st)"

definition pb_dec_svarint :: "('s, 'h) decoder" where
  "pb_dec_svarint field dest st = rd_then st pb_decode_svarint (\<lambda>val st.
     finish_write (write_int (d_mem st) dest (f_data_size field) val) val st)"

definition pb_dec_fixed32 :: "('s, 'h) decoder" where
  "pb_dec_fixed32 field dest st = rd_then st pb_decode_fixed32 (\<lambda>v st.
     ret_true (set_mem st (store_u32 (d_mem st) dest v)))"

definition pb_dec_fixed64 :: "('s, 'h) decoder" where
  "pb_dec_fixed64 field dest st = rd_then st pb_decode_fixed64 (\<lambda>v st.
     ret_true (set_mem st (store_u64 (d_mem st) dest v)))"

definition read_to :: "('s, 'h) dec \<Rightarrow> addr \<Rightarrow> u64 \<Rightarrow> ('s, 'h) dec cres" where
  "read_to st dest count = rd_then st (\<lambda>s. pb_read s True count) (\<lambda>bs st.
     ret_true (set_mem st (store (d_mem st) dest bs)))"

definition pb_dec_bytes :: "('s, 'h) dec_env \<Rightarrow> ('s, 'h) decoder" where
  "pb_dec_bytes env field dest st = rd_then st pb_decode_varint32 (\<lambda>sz st.
     let alloc_size = ucast sz + 4 :: u64;
         fill = (\<lambda>bdest st. read_to (set_mem st (store_u32 (d_mem st) bdest sz)) (bdest + 4) (ucast sz))
     in if PB_SIZE_MAX < sz then dec_error ''bytes overflow'' st
        else if alloc_size < ucast sz then dec_error ''size too large'' st
        else if PB_ATYPE (f_type field) = PB_ATYPE_POINTER
        then and_then (allocate_field env dest alloc_size 1 st)
               (\<lambda>st. fill (load_u64 (d_mem st) dest) st)
        else if ucast (f_data_size field) < alloc_size then dec_error ''bytes overflow'' st
        else fill dest st)"

text \<open>\<^verbatim>\<open>size + 1\<close> is computed in 32 bits. The terminator is stored even when the read fails.\<close>

definition pb_dec_string :: "('s, 'h) dec_env \<Rightarrow> ('s, 'h) decoder" where
  "pb_dec_string env field dest st = rd_then st pb_decode_varint32 (\<lambda>sz st.
     let alloc_size = ucast (sz + 1) :: u64;
         fill = (\<lambda>dest st.
           case read_to st dest (ucast sz) of
             None \<Rightarrow> None
           | Some (status, st) \<Rightarrow> Some (status, set_mem st ((d_mem st)(dest + ucast sz := 0))))
     in if alloc_size < ucast sz then dec_error ''size too large'' st
        else if PB_ATYPE (f_type field) = PB_ATYPE_POINTER
        then and_then (allocate_field env dest alloc_size 1 st)
               (\<lambda>st. fill (load_u64 (d_mem st) dest) st)
        else if ucast (f_data_size field) < alloc_size then dec_error ''string overflow'' st
        else fill dest st)"

text \<open>\<open>dm init\<close> is the recursive call: \<open>pb_decode\<close> if \<open>init\<close> holds, else \<open>pb_decode_noinit\<close>.\<close>

definition pb_dec_submessage ::
  "('s, 'h) dec_env \<Rightarrow> (bool \<Rightarrow> pb_field list \<Rightarrow> addr \<Rightarrow> ('s, 'h) action) \<Rightarrow> ('s, 'h) decoder" where
  "pb_dec_submessage env dm field dest st =
     rd_then st pb_make_string_substream (\<lambda>substream st.
       if f_ptr field = 0 then dec_error ''invalid field descriptor'' st
       else on_substream st substream
              (dm (PB_HTYPE (f_type field) = PB_HTYPE_REPEATED) (d_fields env (f_ptr field)) dest))"

definition pb_dec_fixed_length_bytes :: "('s, 'h) decoder" where
  "pb_dec_fixed_length_bytes field dest st = rd_then st pb_decode_varint32 (\<lambda>sz st.
     if PB_SIZE_MAX < sz then dec_error ''bytes overflow'' st
     else if sz = 0 then ret_true (set_mem st (memset0 (d_mem st) dest (unat (f_data_size field))))
     else if sz \<noteq> f_data_size field then dec_error ''incorrect fixed length bytes size'' st
     else read_to st dest (ucast (f_data_size field)))"

definition PB_DECODERS ::
  "('s, 'h) dec_env \<Rightarrow> (bool \<Rightarrow> pb_field list \<Rightarrow> addr \<Rightarrow> ('s, 'h) action) \<Rightarrow> u8 \<Rightarrow> ('s, 'h) decoder" where
  "PB_DECODERS env dm ltype field dest st =
     (if ltype = PB_LTYPE_BOOL then pb_dec_bool field dest st
      else if ltype = PB_LTYPE_VARINT then pb_dec_varint field dest st
      else if ltype = PB_LTYPE_UVARINT then pb_dec_uvarint field dest st
      else if ltype = PB_LTYPE_SVARINT then pb_dec_svarint field dest st
      else if ltype = PB_LTYPE_FIXED32 then pb_dec_fixed32 field dest st
      else if ltype = PB_LTYPE_FIXED64 then pb_dec_fixed64 field dest st
      else if ltype = PB_LTYPE_BYTES then pb_dec_bytes env field dest st
      else if ltype = PB_LTYPE_STRING then pb_dec_string env field dest st
      else if ltype = PB_LTYPE_SUBMESSAGE then pb_dec_submessage env dm field dest st
      else if ltype = PB_LTYPE_FIXED_LENGTH_BYTES then pb_dec_fixed_length_bytes field dest st
      else None)"

end
