(* ===== verification/Pb_Message.thy ===== *)
theory Pb_Message
  imports Pb_Decode
begin

text \<open>
  Decoding of fields and messages (\<^verbatim>\<open>pb_decode.c\<close>, \<^verbatim>\<open>decode_static_field\<close> to
  \<^verbatim>\<open>pb_decode_nullterminated\<close>). Three loops have fuel, each started with what their input
  bounds: the items of a packed array, the callback loop and the loop over the fields of a
  message by the bytes left. Nested messages have the depth as fuel.
\<close>

section \<open>Decoding a single field\<close>

text \<open>\<^verbatim>\<open>data_size\<close> and the count are both \<^verbatim>\<open>pb_size_t\<close>: their product wraps at 32 bits before it is added to the pointer.\<close>

definition pItem_at :: "addr \<Rightarrow> pb_field \<Rightarrow> u32 \<Rightarrow> addr" where
  "pItem_at base field n = base + ucast (f_data_size field * n)"

text \<open>The loop over a packed array with static storage.\<close>

fun packed_static :: "nat \<Rightarrow> ('s, 'h) decoder \<Rightarrow> pb_field \<Rightarrow> addr \<Rightarrow> addr \<Rightarrow> ('s, 'h) action" where
  "packed_static 0 func field pData pSize st = None"
| "packed_static (Suc k) func field pData pSize st =
     (let sz = load_u32 (d_mem st) pSize in
      if 0 < bytes_left (d_str st) \<and> sz < f_array_size field then
        and_then (func field (pItem_at pData field sz) st) (\<lambda>st.
          packed_static k func field pData pSize
            (set_mem st (store_u32 (d_mem st) pSize (load_u32 (d_mem st) pSize + 1))))
      else ret_true st)"

definition decode_static_field ::
  "('s, 'h) dec_env \<Rightarrow> (bool \<Rightarrow> pb_field list \<Rightarrow> addr \<Rightarrow> ('s, 'h) action) \<Rightarrow> u32 \<Rightarrow>
   pb_field_iter \<Rightarrow> ('s, 'h) action" where
  "decode_static_field env dm wire_type it st =
     (let field = it_field it; type = f_type field; htype = PB_HTYPE type;
          func = PB_DECODERS env dm (PB_LTYPE type); pData = it_pData it; pSize = it_pSize it in
      if htype = PB_HTYPE_REQUIRED then func field pData st
      else if htype = PB_HTYPE_OPTIONAL then
        func field pData (if pSize \<noteq> pData then set_mem st ((d_mem st)(pSize := 1)) else st)
      else if htype = PB_HTYPE_REPEATED then
        if wire_type = PB_WT_STRING \<and> PB_LTYPE type \<le> PB_LTYPE_LAST_PACKABLE then
          rd_then st pb_make_string_substream (\<lambda>substream st.
            case packed_static (Suc (unat (bytes_left substream))) func field pData pSize
                   (st\<lparr>d_str := substream\<rparr>) of
              None \<Rightarrow> None
            | Some (status, st') \<Rightarrow>
                if bytes_left (d_str st') \<noteq> 0
                then dec_error ''array overflow'' (st'\<lparr>d_str := d_str st\<rparr>)
                else (case pb_close_string_substream (d_str st) (d_str st') of
                   None \<Rightarrow> None
                 | Some (None, s) \<Rightarrow> ret_false (st'\<lparr>d_str := s\<rparr>)
                 | Some (Some _, s) \<Rightarrow> Some (status, st'\<lparr>d_str := s\<rparr>)))
        else
          let sz = load_u32 (d_mem st) pSize;
              st = set_mem st (store_u32 (d_mem st) pSize (sz + 1))
          in if f_array_size field \<le> sz then dec_error ''array overflow'' st
             else func field (pItem_at pData field sz) st
      else if htype = PB_HTYPE_ONEOF then
        and_then
          (if PB_LTYPE type = PB_LTYPE_SUBMESSAGE \<and> load_u32 (d_mem st) pSize \<noteq> f_tag field
           then pb_message_set_to_defaults env (d_depth env) (d_fields env (f_ptr field)) pData
                  (set_mem st (memset0 (d_mem st) pData (unat (f_data_size field))))
           else ret_true st)
          (\<lambda>st. func field pData (set_mem st (store_u32 (d_mem st) pSize (f_tag field))))
      else dec_error ''invalid field type'' st)"

text \<open>
  The loop over a packed array in allocated storage. The division by \<^verbatim>\<open>data_size\<close> is undefined
  for size 0. Running out of the 32-bit count stops the loop with \<open>false\<close>.
\<close>

fun packed_pointer ::
  "nat \<Rightarrow> ('s, 'h) dec_env \<Rightarrow> ('s, 'h) decoder \<Rightarrow> pb_field \<Rightarrow> addr \<Rightarrow> addr \<Rightarrow> u64 \<Rightarrow>
   's istream \<Rightarrow> ('s, 'h) dec \<Rightarrow> (bool \<times> 's istream \<times> ('s, 'h) dec) option" where
  "packed_pointer 0 env func field pData pSize allocated_size s st = None"
| "packed_pointer (Suc k) env func field pData pSize allocated_size s st =
     (let sz = load_u32 (d_mem st) pSize in
      if bytes_left (d_str st) = 0 then Some (True, s, st)
      else if sz = PB_SIZE_MAX
      then Some (False, s\<lparr>ierrmsg := Some ''too many array entries''\<rparr>, st)
      else if f_data_size field = 0 then None
      else
        let grow = (allocated_size < ucast sz + 1);
            remain = (bytes_left (d_str st) - 1) div ucast (f_data_size field) + 1;
            allocated_size =
              (if grow
               then if remain < ucast PB_SIZE_MAX - allocated_size
                    then allocated_size + remain else allocated_size + 1
               else allocated_size)
        in case and_then
            (if grow then allocate_field env pData (ucast (f_data_size field)) allocated_size st
             else ret_true st)
            (\<lambda>st. let pItem = pItem_at (load_u64 (d_mem st) pData) field (load_u32 (d_mem st) pSize) in
              and_then (initialize_pointer_field env field pItem st) (func field pItem)) of
           None \<Rightarrow> None
         | Some (False, st) \<Rightarrow> Some (False, s, st)
         | Some (True, st) \<Rightarrow>
             packed_pointer k env func field pData pSize allocated_size s
               (set_mem st (store_u32 (d_mem st) pSize (load_u32 (d_mem st) pSize + 1))))"

definition decode_pointer_field ::
  "('s, 'h) dec_env \<Rightarrow> (bool \<Rightarrow> pb_field list \<Rightarrow> addr \<Rightarrow> ('s, 'h) action) \<Rightarrow> u32 \<Rightarrow>
   pb_field_iter \<Rightarrow> ('s, 'h) action" where
  "decode_pointer_field env dm wire_type it st =
     (let field = it_field it; type = f_type field; htype = PB_HTYPE type; ltype = PB_LTYPE type;
          func = PB_DECODERS env dm ltype; pData = it_pData it; pSize = it_pSize it in
      if htype = PB_HTYPE_REQUIRED \<or> htype = PB_HTYPE_OPTIONAL \<or> htype = PB_HTYPE_ONEOF then
        and_then
          (if ltype = PB_LTYPE_SUBMESSAGE \<and> load_u64 (d_mem st) pData \<noteq> 0
           then pb_release_single_field env (d_depth env) it st else ret_true st)
          (\<lambda>st.
            let st = (if htype = PB_HTYPE_ONEOF
                      then set_mem st (store_u32 (d_mem st) pSize (f_tag field)) else st)
            in if ltype = PB_LTYPE_STRING \<or> ltype = PB_LTYPE_BYTES then func field pData st
               else and_then (allocate_field env pData (ucast (f_data_size field)) 1 st) (\<lambda>st.
                 let p = load_u64 (d_mem st) pData in
                 and_then (initialize_pointer_field env field p st)
                   (\<lambda>st. func field (load_u64 (d_mem st) pData) st)))
      else if htype = PB_HTYPE_REPEATED then
        if wire_type = PB_WT_STRING \<and> ltype \<le> PB_LTYPE_LAST_PACKABLE then
          let allocated_size = ucast (load_u32 (d_mem st) pSize) in
          rd_then st pb_make_string_substream (\<lambda>substream st.
            case packed_pointer (Suc (unat (bytes_left substream))) env func field pData pSize
                   allocated_size (d_str st) (st\<lparr>d_str := substream\<rparr>) of
              None \<Rightarrow> None
            | Some (status, s, st') \<Rightarrow>
                (case pb_close_string_substream s (d_str st') of
                   None \<Rightarrow> None
                 | Some (None, s) \<Rightarrow> ret_false (st'\<lparr>d_str := s\<rparr>)
                 | Some (Some _, s) \<Rightarrow> Some (status, st'\<lparr>d_str := s\<rparr>)))
        else
          let sz = load_u32 (d_mem st) pSize in
          if sz = PB_SIZE_MAX then dec_error ''too many array entries'' st
          else and_then (allocate_field env pData (ucast (f_data_size field)) (ucast (sz + 1)) st) (\<lambda>st.
            let n = load_u32 (d_mem st) pSize;
                pItem = pItem_at (load_u64 (d_mem st) pData) field n;
                st = set_mem st (store_u32 (d_mem st) pSize (n + 1))
            in and_then (initialize_pointer_field env field pItem st) (func field pItem))
      else dec_error ''invalid field type'' st)"

text \<open>\<^verbatim>\<open>do { callback } while (substream.bytes_left)\<close>: \<open>None\<close> if the callback stops reading.\<close>

fun callback_loop :: "nat \<Rightarrow> ('s, 'h) action \<Rightarrow> ('s, 'h) action" where
  "callback_loop 0 cb st = None"
| "callback_loop (Suc k) cb st = and_then (cb st) (\<lambda>st.
     if bytes_left (d_str st) \<noteq> 0 then callback_loop k cb st else ret_true st)"

definition decode_callback_field ::
  "('s, 'h) dec_env \<Rightarrow> u32 \<Rightarrow> pb_field_iter \<Rightarrow> ('s, 'h) action" where
  "decode_callback_field env wire_type it st =
     (let pCallback = it_pData it; decode = load_u64 (d_mem st) pCallback;
          cb = d_callback env decode (it_field it) (pCallback + 8) in
      if pCallback = 0 \<or> decode = 0
      then rd_then st (\<lambda>s. pb_skip_field s wire_type) (\<lambda>_ st. ret_true st)
      else if wire_type = PB_WT_STRING then
        rd_then st pb_make_string_substream (\<lambda>substream st.
          case callback_loop (Suc (unat (bytes_left substream))) cb (st\<lparr>d_str := substream\<rparr>) of
            None \<Rightarrow> None
          | Some (False, st') \<Rightarrow> dec_error ''callback failed'' (st'\<lparr>d_str := d_str st\<rparr>)
          | Some (True, st') \<Rightarrow>
              (case pb_close_string_substream (d_str st) (d_str st') of
                 None \<Rightarrow> None
               | Some (None, s) \<Rightarrow> ret_false (st'\<lparr>d_str := s\<rparr>)
               | Some (Some _, s) \<Rightarrow> ret_true (st'\<lparr>d_str := s\<rparr>)))
      else
        rd_then st (\<lambda>s. read_raw_value s wire_type 10) (\<lambda>bs st.
          case cb (st\<lparr>d_str := pb_istream_from_buffer bs (word_of_nat (length bs))\<rparr>) of
            None \<Rightarrow> None
          | Some (ok, st') \<Rightarrow> Some (ok, st'\<lparr>d_str := d_str st\<rparr>)))"

text \<open>The iterator comes back as well: releasing an old union member moves it.\<close>

definition decode_field ::
  "('s, 'h) dec_env \<Rightarrow> (bool \<Rightarrow> pb_field list \<Rightarrow> addr \<Rightarrow> ('s, 'h) action) \<Rightarrow> u32 \<Rightarrow>
   pb_field_iter \<Rightarrow> ('s, 'h) dec \<Rightarrow> (pb_field_iter \<times> bool \<times> ('s, 'h) dec) option" where
  "decode_field env dm wire_type it st =
     (case (if PB_HTYPE (f_type (it_field it)) = PB_HTYPE_ONEOF
            then pb_release_union_field env it st else Some (it, True, st)) of
        None \<Rightarrow> None
      | Some (it, False, st) \<Rightarrow> Some (it, False, st)
      | Some (it, True, st) \<Rightarrow>
          let atype = PB_ATYPE (f_type (it_field it)) in
          map_option (Pair it)
            (if atype = PB_ATYPE_STATIC then decode_static_field env dm wire_type it st
             else if atype = PB_ATYPE_POINTER then decode_pointer_field env dm wire_type it st
             else if atype = PB_ATYPE_CALLBACK then decode_callback_field env wire_type it st
             else dec_error ''invalid field type'' st))"

section \<open>Extensions\<close>

definition default_extension_decoder ::
  "('s, 'h) dec_env \<Rightarrow> (bool \<Rightarrow> pb_field list \<Rightarrow> addr \<Rightarrow> ('s, 'h) action) \<Rightarrow> addr \<Rightarrow> u32 \<Rightarrow> u32 \<Rightarrow>
   ('s, 'h) action" where
  "default_extension_decoder env dm extension tag wire_type st =
     (let m = d_mem st; field = field_at (d_fields env (load_u64 m (load_u64 m extension + 16))) 0 in
      if f_tag field \<noteq> tag then ret_true st
      else map_option snd (decode_field env dm wire_type (iter_from_extension env m extension)
             (set_mem st (m(extension + 24 := 1)))))"

fun decode_extension_loop ::
  "nat \<Rightarrow> ('s, 'h) dec_env \<Rightarrow> (bool \<Rightarrow> pb_field list \<Rightarrow> addr \<Rightarrow> ('s, 'h) action) \<Rightarrow> u64 \<Rightarrow> u32 \<Rightarrow> u32 \<Rightarrow>
   addr \<Rightarrow> ('s, 'h) action" where
  "decode_extension_loop 0 env dm pos tag wire_type ext st =
     (if ext \<noteq> 0 \<and> pos = bytes_left (d_str st) then None else ret_true st)"
| "decode_extension_loop (Suc k) env dm pos tag wire_type ext st =
     (if ext \<noteq> 0 \<and> pos = bytes_left (d_str st) then
        let decode = load_u64 (d_mem st) (load_u64 (d_mem st) ext) in
        and_then
          (if decode \<noteq> 0 then d_ext_decode env decode ext tag wire_type st
           else default_extension_decoder env dm ext tag wire_type st)
          (\<lambda>st. decode_extension_loop k env dm pos tag wire_type (load_u64 (d_mem st) (ext + 16)) st)
      else ret_true st)"

definition decode_extension ::
  "('s, 'h) dec_env \<Rightarrow> (bool \<Rightarrow> pb_field list \<Rightarrow> addr \<Rightarrow> ('s, 'h) action) \<Rightarrow> u32 \<Rightarrow> u32 \<Rightarrow>
   pb_field_iter \<Rightarrow> ('s, 'h) action" where
  "decode_extension env dm tag wire_type it st =
     decode_extension_loop (d_depth env) env dm (bytes_left (d_str st)) tag wire_type
       (load_u64 (d_mem st) (it_pData it)) st"

fun find_extension_loop :: "nat \<Rightarrow> nat \<Rightarrow> pb_field_iter \<Rightarrow> pb_field_iter cres" where
  "find_extension_loop 0 start it = None"
| "find_extension_loop (Suc n) start it =
     (if PB_LTYPE (f_type (it_field it)) = PB_LTYPE_EXTENSION then ret_true it
      else let it' = snd (pb_field_iter_next it) in
        if it_pos it' \<noteq> start then find_extension_loop n start it' else ret_false it')"

definition find_extension_field :: "pb_field_iter \<Rightarrow> pb_field_iter cres" where
  "find_extension_field it = find_extension_loop (Suc (length (it_start it))) (it_pos it) it"

section \<open>Decoding all fields\<close>

text \<open>
  The locals of \<^verbatim>\<open>pb_decode_noinit\<close> that change in its loop. The stack slot of
  \<^verbatim>\<open>fixed_count_size\<close> lies in memory, as the iterator points to it.
\<close>

record noinit =
  n_iter :: pb_field_iter
  n_ext_start :: u32
  n_seen :: "u32 list"
  n_fixed :: "nat option"

definition PB_MAX_REQUIRED_FIELDS :: u32 where
  "PB_MAX_REQUIRED_FIELDS = 64"

definition noinit_init :: "pb_field list \<Rightarrow> addr \<Rightarrow> noinit" where
  "noinit_init fs dest_struct =
     \<lparr>n_iter = snd (pb_field_iter_begin fs dest_struct), n_ext_start = 0, n_seen = [0, 0],
      n_fixed = None\<rparr>"

text \<open>An unknown field: offered to the extensions, and skipped if they leave it.\<close>

definition decode_unknown ::
  "('s, 'h) dec_env \<Rightarrow> (bool \<Rightarrow> pb_field list \<Rightarrow> addr \<Rightarrow> ('s, 'h) action) \<Rightarrow> u32 \<Rightarrow> u32 \<Rightarrow>
   noinit \<Rightarrow> ('s, 'h) dec \<Rightarrow> (bool \<times> noinit \<times> ('s, 'h) dec) option" where
  "decode_unknown env dm tag wire_type v st =
     (let skip = (\<lambda>v st. map_option (\<lambda>(ok, st). (ok, v, st))
            (rd_then st (\<lambda>s. pb_skip_field s wire_type) (\<lambda>_ st. ret_true st))) in
      if n_ext_start v \<le> tag then
        (case find_extension_field (n_iter v) of
           None \<Rightarrow> None
         | Some (found, it) \<Rightarrow>
             let start = (if found then f_tag (it_field it) else - 1);
                 v = v\<lparr>n_iter := it, n_ext_start := start\<rparr>
             in if start \<le> tag then
                  let pos = bytes_left (d_str st) in
                  (case decode_extension env dm tag wire_type it st of
                     None \<Rightarrow> None
                   | Some (False, st) \<Rightarrow> Some (False, v, st)
                   | Some (True, st) \<Rightarrow>
                       if pos \<noteq> bytes_left (d_str st) then Some (True, v, st) else skip v st)
                else skip v st)
      else skip v st)"

text \<open>A fixed count field: its count is the local \<^verbatim>\<open>fixed_count_size\<close>.\<close>

definition enter_fixed_count ::
  "addr \<Rightarrow> noinit \<Rightarrow> ('s, 'h) dec \<Rightarrow> (bool \<times> noinit \<times> ('s, 'h) dec)" where
  "enter_fixed_count slot v st =
     (let it = n_iter v; pos = it_pos it in
      if PB_HTYPE (f_type (it_field it)) = PB_HTYPE_REPEATED \<and> it_pSize it = it_pData it then
        if n_fixed v \<noteq> Some pos then
          (case n_fixed v of
             Some old \<Rightarrow>
               if load_u32 (d_mem st) slot \<noteq> f_array_size (field_at (it_start it) old)
               then (False, v, st\<lparr>d_str := with_error ''wrong size for fixed count field'' (d_str st)\<rparr>)
               else (True, v\<lparr>n_fixed := Some pos, n_iter := it\<lparr>it_pSize := slot\<rparr>\<rparr>,
                     set_mem st (store_u32 (d_mem st) slot 0))
           | None \<Rightarrow> (True, v\<lparr>n_fixed := Some pos, n_iter := it\<lparr>it_pSize := slot\<rparr>\<rparr>,
                     set_mem st (store_u32 (d_mem st) slot 0)))
        else (True, v\<lparr>n_iter := it\<lparr>it_pSize := slot\<rparr>\<rparr>, st)
      else (True, v, st))"

definition mark_seen :: "noinit \<Rightarrow> noinit" where
  "mark_seen v =
     (let it = n_iter v; i = it_required_field_index it in
      if PB_HTYPE (f_type (it_field it)) = PB_HTYPE_REQUIRED \<and> i < PB_MAX_REQUIRED_FIELDS
      then v\<lparr>n_seen := (n_seen v)[unat (drop_bit 5 i) :=
             n_seen v ! unat (drop_bit 5 i) OR push_bit (unat (i AND 31)) 1]\<rparr>
      else v)"

text \<open>One round of the loop, after the tag.\<close>

definition decode_one ::
  "('s, 'h) dec_env \<Rightarrow> addr \<Rightarrow> (bool \<Rightarrow> pb_field list \<Rightarrow> addr \<Rightarrow> ('s, 'h) action) \<Rightarrow> u32 \<Rightarrow> u32 \<Rightarrow>
   noinit \<Rightarrow> ('s, 'h) dec \<Rightarrow> (bool \<times> noinit \<times> ('s, 'h) dec) option" where
  "decode_one env slot dm tag wire_type v st =
     (case pb_field_iter_find (n_iter v) tag of
        None \<Rightarrow> None
      | Some (False, it) \<Rightarrow> decode_unknown env dm tag wire_type (v\<lparr>n_iter := it\<rparr>) st
      | Some (True, it) \<Rightarrow>
          (case enter_fixed_count slot (v\<lparr>n_iter := it\<rparr>) st of
             (False, v, st) \<Rightarrow> Some (False, v, st)
           | (True, v, st) \<Rightarrow>
               let v = mark_seen v in
               map_option (\<lambda>(it, ok, st). (ok, v\<lparr>n_iter := it\<rparr>, st))
                 (decode_field env dm wire_type (n_iter v) st)))"

fun decode_loop ::
  "nat \<Rightarrow> ('s, 'h) dec_env \<Rightarrow> addr \<Rightarrow> (bool \<Rightarrow> pb_field list \<Rightarrow> addr \<Rightarrow> ('s, 'h) action) \<Rightarrow>
   noinit \<Rightarrow> ('s, 'h) dec \<Rightarrow> (bool \<times> noinit \<times> ('s, 'h) dec) option" where
  "decode_loop 0 env slot dm v st = None"
| "decode_loop (Suc k) env slot dm v st =
     (if bytes_left (d_str st) = 0 then Some (True, v, st)
      else case pb_decode_tag (d_str st) of
        None \<Rightarrow> None
      | Some ((None, eof), s) \<Rightarrow> Some (eof, v, st\<lparr>d_str := s\<rparr>)
      | Some ((Some (tag, wire_type), _), s) \<Rightarrow>
          (case decode_one env slot dm tag wire_type v (st\<lparr>d_str := s\<rparr>) of
             None \<Rightarrow> None
           | Some (False, v, st) \<Rightarrow> Some (False, v, st)
           | Some (True, v, st) \<Rightarrow> decode_loop k env slot dm v st))"

text \<open>Walk to the end of the fields: the last required index and type, and the iterator after.\<close>

function walk_to_end :: "pb_field_iter \<Rightarrow> u32 \<times> u8 \<times> pb_field_iter" where
  "walk_to_end it =
     (case pb_field_iter_next it of
        (True, it') \<Rightarrow> walk_to_end it'
      | (False, it') \<Rightarrow> (it_required_field_index it, f_type (it_field it), it'))"
  by pat_completeness auto
termination
  by (relation "measure (\<lambda>it. length (it_start it) - it_pos it)")
     (auto dest!: sym [of "(_, _)"] iter_next_True)

declare walk_to_end.simps [simp del]

definition required_count :: "pb_field_iter \<Rightarrow> u32" where
  "required_count it =
     (case walk_to_end it of (req_field_count, last_type, it) \<Rightarrow>
       let n = (if PB_HTYPE last_type = PB_HTYPE_REQUIRED \<and> f_tag (it_field it) \<noteq> 0
                then req_field_count + 1 else req_field_count)
       in if PB_MAX_REQUIRED_FIELDS < n then PB_MAX_REQUIRED_FIELDS else n)"

definition all_seen :: "u32 list \<Rightarrow> u32 \<Rightarrow> bool" where
  "all_seen fields_seen req_field_count \<longleftrightarrow>
     (0 < req_field_count \<longrightarrow>
        (\<forall>i \<in> set [0..<unat (drop_bit 5 req_field_count)]. fields_seen ! i = - 1)
      \<and> (req_field_count AND 31 \<noteq> 0 \<longrightarrow>
           fields_seen ! unat (drop_bit 5 req_field_count) =
             drop_bit (32 - unat (req_field_count AND 31)) (- 1)))"

definition finish_noinit :: "addr \<Rightarrow> noinit \<Rightarrow> ('s, 'h) action" where
  "finish_noinit slot v st =
     (if (case n_fixed v of None \<Rightarrow> False
          | Some pos \<Rightarrow> load_u32 (d_mem st) slot \<noteq> f_array_size (field_at (it_start (n_iter v)) pos))
      then dec_error ''wrong size for fixed count field'' st
      else if all_seen (n_seen v) (required_count (n_iter v)) then ret_true st
      else dec_error ''missing required field'' st)"

text \<open>\<^verbatim>\<open>pb_decode\<close>, given \<^verbatim>\<open>pb_decode_noinit\<close>.\<close>

definition decode_with ::
  "('s, 'h) dec_env \<Rightarrow> (pb_field list \<Rightarrow> addr \<Rightarrow> ('s, 'h) action) \<Rightarrow> pb_field list \<Rightarrow> addr \<Rightarrow>
   ('s, 'h) action" where
  "decode_with env noinit fs dest_struct st =
     and_then (pb_message_set_to_defaults env (d_depth env) fs dest_struct st) (\<lambda>st.
       case noinit fs dest_struct st of
         None \<Rightarrow> None
       | Some (True, st) \<Rightarrow> ret_true st
       | Some (False, st) \<Rightarrow>
           (case pb_release env (d_depth env) fs dest_struct st of
              None \<Rightarrow> None
            | Some (_, st) \<Rightarrow> ret_false st))"

fun pb_decode_noinit ::
  "('s, 'h) dec_env \<Rightarrow> nat \<Rightarrow> pb_field list \<Rightarrow> addr \<Rightarrow> ('s, 'h) action" where
  "pb_decode_noinit env 0 fs dest_struct st = None"
| "pb_decode_noinit env (Suc n) fs dest_struct st =
     (let slot = d_local env n;
          dm = (\<lambda>init fs dest st.
            if init then decode_with env (pb_decode_noinit env n) fs dest st
            else pb_decode_noinit env n fs dest st)
      in case decode_loop (Suc (unat (bytes_left (d_str st)))) env slot dm
                (noinit_init fs dest_struct) (set_mem st (store_u32 (d_mem st) slot 0)) of
           None \<Rightarrow> None
         | Some (False, v, st) \<Rightarrow> ret_false st
         | Some (True, v, st) \<Rightarrow> finish_noinit slot v st)"

definition pb_decode ::
  "('s, 'h) dec_env \<Rightarrow> nat \<Rightarrow> pb_field list \<Rightarrow> addr \<Rightarrow> ('s, 'h) action" where
  "pb_decode env n = decode_with env (pb_decode_noinit env n)"

definition pb_decode_delimited_noinit ::
  "('s, 'h) dec_env \<Rightarrow> nat \<Rightarrow> pb_field list \<Rightarrow> addr \<Rightarrow> ('s, 'h) action" where
  "pb_decode_delimited_noinit env n fs dest_struct st =
     rd_then st pb_make_string_substream (\<lambda>substream st.
       on_substream st substream (pb_decode_noinit env n fs dest_struct))"

definition pb_decode_delimited ::
  "('s, 'h) dec_env \<Rightarrow> nat \<Rightarrow> pb_field list \<Rightarrow> addr \<Rightarrow> ('s, 'h) action" where
  "pb_decode_delimited env n fs dest_struct st =
     rd_then st pb_make_string_substream (\<lambda>substream st.
       on_substream st substream (pb_decode env n fs dest_struct))"

definition pb_decode_nullterminated ::
  "('s, 'h) dec_env \<Rightarrow> nat \<Rightarrow> pb_field list \<Rightarrow> addr \<Rightarrow> ('s, 'h) action" where
  "pb_decode_nullterminated env n fs dest_struct st = pb_decode env n fs dest_struct st"

end
