(* ===== verification/Pb_Roundtrip.thy ===== *)
theory Pb_Roundtrip
  imports Pb_Codec Pb_Message
begin

text \<open>
  A value in memory, encoded by the table of encoders and decoded by the table of decoders, comes
  back byte for byte; and a reader that does not know the field skips exactly what was written.
\<close>

section \<open>Values in memory\<close>

lemma byte_at_scast:
  fixes w :: "'a::len word"
  assumes "8 * i + 8 \<le> LENGTH('a)" and "LENGTH('a) \<le> 64"
  shows "byte_at i (scast w :: u64) = byte_at i w"
  using assms
  by (intro bit_word_eqI) (auto simp: bit_byte_at bit_word_scast_iff)

lemma byte_at_ucast:
  fixes w :: "'a::len word"
  assumes "8 * i + 8 \<le> LENGTH('a)" and "LENGTH('a) \<le> 64"
  shows "byte_at i (ucast w :: u64) = byte_at i w"
  using assms by (intro bit_word_eqI) (auto simp: bit_byte_at bit_ucast_iff bit_imp_le_length)

lemma le_bytes_scast: "8 * n \<le> LENGTH('a) \<Longrightarrow> LENGTH('a) \<le> 64 \<Longrightarrow> le_bytes n (scast (w :: 'a::len word) :: u64) = le_bytes n w"
  by (rule nth_equalityI) (auto simp: byte_at_scast)

lemma le_bytes_ucast:
  "8 * n \<le> LENGTH('a) \<Longrightarrow> LENGTH('a) \<le> 64 \<Longrightarrow> le_bytes n (ucast (w :: 'a::len word) :: u64) = le_bytes n w"
  by (rule nth_equalityI) (auto simp: byte_at_ucast)

lemma scast_ucast_scast:
  fixes w :: "'a::len word"
  assumes "LENGTH('a) \<le> LENGTH('b::len)" and "LENGTH('b) \<le> 64"
  shows "scast (ucast (scast w :: u64) :: 'b word) = (scast w :: u64)"
proof (rule bit_word_eqI)
  fix n assume "n < LENGTH(64)"
  moreover have "0 < LENGTH('b)" by simp
  moreover have "bit w k \<Longrightarrow> k < LENGTH('a)" for k by (rule bit_imp_le_length)
  ultimately show "bit (scast (ucast (scast w :: u64) :: 'b word) :: u64) n = bit (scast w :: u64) n"
    using assms unfolding bit_word_scast_iff bit_ucast_iff
    by (cases "LENGTH('a) = LENGTH('b)") (force simp: not_less)+
qed

lemma ucast_ucast_ucast:
  fixes w :: "'a::len word"
  assumes "LENGTH('a) \<le> LENGTH('b::len)" and "LENGTH('b) \<le> 64"
  shows "ucast (ucast (ucast w :: u64) :: 'b word) = (ucast w :: u64)"
proof (rule bit_word_eqI)
  fix n
  have "bit w n \<Longrightarrow> n < LENGTH('a)" by (rule bit_imp_le_length)
  with assms show "bit (ucast (ucast (ucast w :: u64) :: 'b word) :: u64) n = bit (ucast w :: u64) n"
    unfolding bit_ucast_iff by auto
qed

lemma load_1: "load m a 1 = [m a]"
  by (simp add: load_def)

lemma le_bytes_1: "le_bytes 1 (w :: u8) = [w]"
  by (simp add: le_bytes_def byte_at_def)

lemma le_bytes_load_u16: "le_bytes 2 (le_word (load m a 2) :: u16) = load m a 2"
  by (rule le_bytes_le_word) simp_all

lemma le_bytes_load_u32: "le_bytes 4 (load_u32 m a) = load m a 4"
  unfolding load_u32_def by (rule le_bytes_le_word) simp_all

lemma le_bytes_load_u64: "le_bytes 8 (load_u64 m a) = load m a 8"
  unfolding load_u64_def by (rule le_bytes_le_word) simp_all

lemmas load_bytes = le_bytes_load_u16 le_bytes_load_u32 le_bytes_load_u64 le_bytes_scast le_bytes_ucast
  le_bytes_1 load_1

text \<open>A value read for encoding and written back by the decoder is copied, and is not clamped.\<close>

lemma write_read_int:
  assumes "read_int m src sz = Some v"
  shows "write_int m' dest sz v = Some (store m' dest (load m src (unat sz)), v)"
  using assms
  by (auto simp: read_int_def write_int_def store_u64_def load_bytes scast_ucast_scast
      simp flip: One_nat_def split: if_splits)

lemma write_read_uint:
  assumes "read_uint m src sz = Some v"
  shows "write_uint m' dest sz v = Some (store m' dest (load m src (unat sz)), v)"
  using assms
  by (auto simp: read_uint_def write_uint_def store_u64_def load_bytes ucast_ucast_ucast
      simp flip: One_nat_def split: if_splits)

lemma read_int_svalue:
  assumes "read_int m src sz = Some v"
  shows "(if sz = 8 then v else scast (ucast v :: u32)) = v"
  using assms by (auto simp: read_int_def scast_ucast_scast split: if_splits)

section \<open>Decoding what was encoded\<close>

text \<open>
  \<open>fetches f bs dest xs\<close>: on a buffer stream that starts with \<open>bs\<close>, the decoder \<open>f\<close> takes
  exactly \<open>bs\<close> and stores \<open>xs\<close> at \<open>dest\<close>.
\<close>

definition taken :: "('s, 'h) dec \<Rightarrow> nat \<Rightarrow> addr \<Rightarrow> u8 list \<Rightarrow> ('s, 'h) dec" where
  "taken st n dest xs = st\<lparr>d_str := eat n (d_str st), d_mem := store (d_mem st) dest xs\<rparr>"

definition fetches :: "('s, 'h) action \<Rightarrow> u8 list \<Rightarrow> addr \<Rightarrow> u8 list \<Rightarrow> bool" where
  "fetches f bs dest xs \<longleftrightarrow> (\<forall>st rest. wf_in (d_str st) \<longrightarrow> input (d_str st) = bs @ rest \<longrightarrow>
     f st = ret_true (taken st (length bs) dest xs))"

lemma fetchesI:
  "(\<And>st rest. wf_in (d_str st) \<Longrightarrow> input (d_str st) = bs @ rest \<Longrightarrow>
     f st = ret_true (taken st (length bs) dest xs)) \<Longrightarrow> fetches f bs dest xs"
  by (simp add: fetches_def)

lemma fetchesD:
  "fetches f bs dest xs \<Longrightarrow> wf_in (d_str st) \<Longrightarrow> input (d_str st) = bs @ rest \<Longrightarrow>
     f st = ret_true (taken st (length bs) dest xs)"
  by (simp add: fetches_def)

lemma rd_then_ok [simp]:
  "r (d_str st) = rd_ok a s \<Longrightarrow> rd_then st r k = k a (st\<lparr>d_str := s\<rparr>)"
  by (simp add: rd_then_def rd_ok_def)

lemma fetch_varint:
  assumes "read_int m src (f_data_size field) = Some v"
  shows "fetches (pb_dec_varint field dest) (varint_bytes v) dest (load m src (unat (f_data_size field)))"
proof (rule fetchesI)
  fix st :: "('s, 'h) dec" and rest
  assume "wf_in (d_str st)" and "input (d_str st) = varint_bytes v @ rest"
  then show "pb_dec_varint field dest st =
      ret_true (taken st (length (varint_bytes v)) dest (load m src (unat (f_data_size field))))"
    using decode_varint_vbytes [of "d_str st" v rest] write_read_int [OF assms] read_int_svalue [OF assms]
    by (simp add: pb_dec_varint_def varint_bytes_vbytes finish_write_def set_mem_def taken_def)
qed

lemma fetch_uvarint:
  assumes "read_uint m src (f_data_size field) = Some v"
  shows "fetches (pb_dec_uvarint field dest) (varint_bytes v) dest (load m src (unat (f_data_size field)))"
proof (rule fetchesI)
  fix st :: "('s, 'h) dec" and rest
  assume "wf_in (d_str st)" and "input (d_str st) = varint_bytes v @ rest"
  then show "pb_dec_uvarint field dest st =
      ret_true (taken st (length (varint_bytes v)) dest (load m src (unat (f_data_size field))))"
    using decode_varint_vbytes [of "d_str st" v rest] write_read_uint [OF assms]
    by (simp add: pb_dec_uvarint_def varint_bytes_vbytes finish_write_def set_mem_def taken_def)
qed

lemma fetch_svarint:
  assumes "read_int m src (f_data_size field) = Some v"
  shows "fetches (pb_dec_svarint field dest) (varint_bytes (zigzag v)) dest
           (load m src (unat (f_data_size field)))"
proof (rule fetchesI)
  fix st :: "('s, 'h) dec" and rest
  assume "wf_in (d_str st)" and "input (d_str st) = varint_bytes (zigzag v) @ rest"
  then show "pb_dec_svarint field dest st =
      ret_true (taken st (length (varint_bytes (zigzag v))) dest (load m src (unat (f_data_size field))))"
    using decode_svarint_vbytes [of "d_str st" v rest] write_read_int [OF assms]
    by (simp add: pb_dec_svarint_def varint_bytes_vbytes finish_write_def set_mem_def taken_def)
qed

lemma fetch_bool:
  "fetches (pb_dec_bool field dest) (varint_bytes (if b then 1 else 0)) dest [if b then 1 else 0]"
proof (rule fetchesI)
  fix st :: "('s, 'h) dec" and rest
  assume s: "wf_in (d_str st)" "input (d_str st) = varint_bytes (if b then 1 else 0) @ rest"
  define v :: u32 where "v = (if b then 1 else 0)"
  have v: "ucast v = (if b then 1 else 0 :: u64)" by (simp add: v_def)
  then have "pb_decode_bool (d_str st) = rd_ok b (eat (length (varint_bytes (ucast v))) (d_str st))"
    using s decode_varint32_vbytes [of "d_str st" v rest]
    by (auto simp: pb_decode_bool_def varint_bytes_vbytes v_def)
  then show "pb_dec_bool field dest st =
      ret_true (taken st (length (varint_bytes (if b then 1 else 0))) dest [if b then 1 else 0])"
    unfolding v by (simp add: pb_dec_bool_def set_mem_def taken_def store_byte)
qed

lemma fetch_fixed32: "fetches (pb_dec_fixed32 field dest) (le_bytes 4 (v :: u32)) dest (le_bytes 4 v)"
proof (rule fetchesI)
  fix st :: "('s, 'h) dec" and rest
  assume "wf_in (d_str st)" and "input (d_str st) = le_bytes 4 v @ rest"
  from rd_then_ok [where r = pb_decode_fixed32, OF decode_fixed32_bytes [OF this]]
  show "pb_dec_fixed32 field dest st = ret_true (taken st (length (le_bytes 4 v)) dest (le_bytes 4 v))"
    by (simp add: pb_dec_fixed32_def set_mem_def taken_def store_u32_def)
qed

lemma fetch_fixed64: "fetches (pb_dec_fixed64 field dest) (le_bytes 8 (v :: u64)) dest (le_bytes 8 v)"
proof (rule fetchesI)
  fix st :: "('s, 'h) dec" and rest
  assume "wf_in (d_str st)" and "input (d_str st) = le_bytes 8 v @ rest"
  from rd_then_ok [where r = pb_decode_fixed64, OF decode_fixed64_bytes [OF this]]
  show "pb_dec_fixed64 field dest st = ret_true (taken st (length (le_bytes 8 v)) dest (le_bytes 8 v))"
    by (simp add: pb_dec_fixed64_def set_mem_def taken_def store_u64_def)
qed

text \<open>Length-delimited values: the length, then the payload.\<close>

lemma word_of_nat_unat_32: "(word_of_nat (unat (n :: u32)) :: u64) = ucast n"
  by (rule word_unat_eq_iff [THEN iffD2], subst unat_word_of_nat_small)
     (use unat_bound [of n] in simp_all)

lemma read_to_payload:
  assumes "wf_in (d_str st)" and "input (d_str st) = xs @ rest" and "length xs = unat n"
  shows "read_to st dest n = ret_true (taken st (length xs) dest xs)"
proof -
  have "pb_read (d_str st) True n = rd_ok xs (eat (length xs) (d_str st))"
    using pb_read_ok [OF assms(1), of n True] assms(2,3) by simp
  then show ?thesis by (simp add: read_to_def set_mem_def taken_def)
qed

lemma decode_length:
  fixes n :: u32
  assumes "wf_in s" and "input s = (varint_bytes (ucast n) @ xs) @ rest"
  defines "s' \<equiv> eat (length (varint_bytes (ucast n))) s"
  shows "pb_decode_varint32 s = rd_ok n s'" and "wf_in s'" and "input s' = xs @ rest"
    and "eat k s' = eat (length (varint_bytes (ucast n)) + k) s"
  using decode_varint32_vbytes [OF assms(1), of n "xs @ rest"] assms(1,2)
    eat_wf [OF assms(1), of "length (varint_bytes (ucast n))"]
  by (simp_all add: s'_def varint_bytes_vbytes eat_eat)

lemma fetch_string:
  fixes n :: u32 and env :: "('s, 'h) dec_env"
  assumes "PB_ATYPE (f_type field) \<noteq> PB_ATYPE_POINTER"
    and "length xs = unat n" and "unat n + 1 \<le> unat (f_data_size field)"
  shows "fetches (pb_dec_string env field dest) (varint_bytes (ucast n) @ xs) dest (xs @ [0])"
proof (rule fetchesI)
  fix st :: "('s, 'h) dec" and rest
  assume s: "wf_in (d_str st)" "input (d_str st) = (varint_bytes (ucast n) @ xs) @ rest"
  define s' where "s' = eat (length (varint_bytes (ucast n))) (d_str st)"
  note d = decode_length [OF s, folded s'_def]
  have small: "unat n + 1 < 2 ^ 32" using assms(3) unat_bound [of "f_data_size field"] by simp
  then have alloc: "unat (ucast (n + 1) :: u64) = unat n + 1"
    by (simp add: unat_plus_small)
  have "\<not> ucast (n + 1) < (ucast n :: u64)" "\<not> ucast (f_data_size field) < (ucast (n + 1) :: u64)"
    using alloc assms(3) by (simp_all add: word_less_nat_alt)
  moreover have "read_to (st\<lparr>d_str := s'\<rparr>) dest (ucast n) = ret_true (taken (st\<lparr>d_str := s'\<rparr>) (length xs) dest xs)"
    by (rule read_to_payload [where rest = rest]) (use d(2,3) assms(2) in simp_all)
  moreover have "(store m dest xs)(dest + ucast n := 0) = store m dest (xs @ [0])" for m
    using store_snoc [of xs m dest 0] assms(2) small by (simp add: word_of_nat_unat_32)
  ultimately show "pb_dec_string env field dest st =
      ret_true (taken st (length (varint_bytes (ucast n) @ xs)) dest (xs @ [0]))"
    using rd_then_ok [where r = pb_decode_varint32, OF d(1)] assms(1) d(4) [of "length xs"]
    by (simp add: pb_dec_string_def Let_def ret_true_def set_mem_def taken_def)
qed

lemma fetch_bytes:
  fixes n :: u32 and env :: "('s, 'h) dec_env"
  assumes "PB_ATYPE (f_type field) \<noteq> PB_ATYPE_POINTER"
    and "length xs = unat n" and "unat n + 4 \<le> unat (f_data_size field)"
  shows "fetches (pb_dec_bytes env field dest) (varint_bytes (ucast n) @ xs) dest (le_bytes 4 n @ xs)"
proof (rule fetchesI)
  fix st :: "('s, 'h) dec" and rest
  assume s: "wf_in (d_str st)" "input (d_str st) = (varint_bytes (ucast n) @ xs) @ rest"
  define s' where "s' = eat (length (varint_bytes (ucast n))) (d_str st)"
  note d = decode_length [OF s, folded s'_def]
  have small: "unat n + 4 < 2 ^ 32" using assms(3) unat_bound [of "f_data_size field"] by simp
  then have alloc: "unat (ucast n + 4 :: u64) = unat n + 4" by (subst unat_plus_small) simp_all
  have "\<not> ucast n + 4 < (ucast n :: u64)" "\<not> ucast (f_data_size field) < (ucast n + 4 :: u64)"
    using alloc assms(3) by (simp_all add: word_less_nat_alt)
  moreover have "\<not> PB_SIZE_MAX < n" by (simp add: PB_SIZE_MAX_def not_less word_order.extremum)
  moreover have "read_to (st\<lparr>d_str := s', d_mem := m\<rparr>) (dest + 4) (ucast n) =
      ret_true (taken (st\<lparr>d_str := s', d_mem := m\<rparr>) (length xs) (dest + 4) xs)" for m
    by (rule read_to_payload [where rest = rest]) (use d(2,3) assms(2) in simp_all)
  moreover have "store (store m dest (le_bytes 4 n)) (dest + 4) xs = store m dest (le_bytes 4 n @ xs)" for m
    using store_append [of "le_bytes 4 n" xs m dest] small assms(2) by simp
  ultimately show "pb_dec_bytes env field dest st =
      ret_true (taken st (length (varint_bytes (ucast n) @ xs)) dest (le_bytes 4 n @ xs))"
    using rd_then_ok [where r = pb_decode_varint32, OF d(1)] assms(1) d(4) [of "length xs"]
    by (simp add: pb_dec_bytes_def Let_def set_mem_def taken_def store_u32_def)
qed

lemma fetch_fixed_length_bytes:
  assumes "length xs = unat (f_data_size field)" and "0 < f_data_size field"
  shows "fetches (pb_dec_fixed_length_bytes field dest)
           (varint_bytes (ucast (f_data_size field)) @ xs) dest xs"
proof (rule fetchesI)
  fix st :: "('s, 'h) dec" and rest
  let ?n = "f_data_size field"
  assume s: "wf_in (d_str st)" "input (d_str st) = (varint_bytes (ucast ?n) @ xs) @ rest"
  define s' where "s' = eat (length (varint_bytes (ucast ?n))) (d_str st)"
  note d = decode_length [OF s, folded s'_def]
  have "\<not> PB_SIZE_MAX < ?n" by (simp add: PB_SIZE_MAX_def not_less word_order.extremum)
  moreover have "?n \<noteq> 0" using assms(2) by auto
  moreover have "read_to (st\<lparr>d_str := s'\<rparr>) dest (ucast ?n) = ret_true (taken (st\<lparr>d_str := s'\<rparr>) (length xs) dest xs)"
    by (rule read_to_payload [where rest = rest]) (use d(2,3) assms(1) in simp_all)
  ultimately show "pb_dec_fixed_length_bytes field dest st =
      ret_true (taken st (length (varint_bytes (ucast ?n) @ xs)) dest xs)"
    using rd_then_ok [where r = pb_decode_varint32, OF d(1)] d(4) [of "length xs"]
    by (simp add: pb_dec_fixed_length_bytes_def taken_def)
qed

section \<open>The tables agree\<close>

text \<open>
  The bytes that make up the value of a static field in memory: what the decoder has to put
  back. A string ends at its first null byte, which has to lie in the field; a bytes value is
  as long as its size says, and has to fit.
\<close>

definition value_bytes :: "mem \<Rightarrow> pb_field \<Rightarrow> addr \<Rightarrow> u8 list option" where
  "value_bytes m field src =
     (let l = PB_LTYPE (f_type field); sz = f_data_size field in
      if l = PB_LTYPE_BOOL then if m src = 0 \<or> m src = 1 then Some [m src] else None
      else if l = PB_LTYPE_VARINT \<or> l = PB_LTYPE_UVARINT \<or> l = PB_LTYPE_SVARINT then
        if sz = 1 \<or> sz = 2 \<or> sz = 4 \<or> sz = 8 then Some (load m src (unat sz)) else None
      else if l = PB_LTYPE_FIXED32 then Some (load m src 4)
      else if l = PB_LTYPE_FIXED64 then Some (load m src 8)
      else if l = PB_LTYPE_BYTES then
        if src \<noteq> 0 \<and> unat (load_u32 m src) + 4 \<le> unat sz
        then Some (load m src (4 + unat (load_u32 m src))) else None
      else if l = PB_LTYPE_STRING then
        let n = strnlen_loop m src 0 (ucast sz) in
        if src \<noteq> 0 \<and> n < ucast sz then Some (load m src (unat n) @ [0]) else None
      else if l = PB_LTYPE_FIXED_LENGTH_BYTES then
        if sz \<noteq> 0 then Some (load m src (unat sz)) else None
      else None)"

definition roundtrips :: "obuf enc_env \<Rightarrow> (obuf ostream \<Rightarrow> pb_field list \<Rightarrow> addr \<Rightarrow> obuf ostream cres) \<Rightarrow>
   ('s, 'h) dec_env \<Rightarrow> (bool \<Rightarrow> pb_field list \<Rightarrow> addr \<Rightarrow> ('s, 'h) action) \<Rightarrow>
   pb_field \<Rightarrow> addr \<Rightarrow> addr \<Rightarrow> u8 list \<Rightarrow> u8 list \<Rightarrow> bool" where
  "roundtrips env enc denv dm field src dest xs bs \<longleftrightarrow>
     (let l = PB_LTYPE (f_type field) in
      emits (\<lambda>s. PB_ENCODERS env enc l s field src) bs
    \<and> (case wiretype_of l of None \<Rightarrow> False | Some wt \<Rightarrow> wire_value wt bs)
    \<and> fetches (PB_DECODERS denv dm l field dest) bs dest xs
    \<and> length bs < 2 ^ 33)"

lemma short_varint [simp]: "length (varint_bytes v) < 8589934592" "length (vbytes v) < 8589934592"
  using length_varint_bytes(2) [of v] by (simp_all add: varint_bytes_vbytes)

lemma short_string:
  "length xs = unat (n :: u32) \<Longrightarrow> length (varint_bytes v @ xs) < 2 ^ 33"
  using length_varint_bytes(2) [of v] unat_bound [of n] by simp

lemma string_wire_value:
  assumes "length xs = unat (n :: u32)"
  shows "wire_value PB_WT_STRING (varint_bytes (ucast n) @ xs)"
proof -
  have "length xs < 2 ^ 32" using assms unat_bound [of n] by simp
  moreover have "varint_bytes (ucast n) @ xs = vbytes (word_of_nat (length xs)) @ xs"
    by (simp add: assms word_of_nat_unat_32 varint_bytes_vbytes)
  ultimately show ?thesis unfolding wire_value_def by auto
qed

lemma roundtripsI:
  assumes "PB_LTYPE (f_type field) = l"
    and "emits (\<lambda>s. PB_ENCODERS env enc l s field src) bs"
    and "wiretype_of l = Some wt" and "wire_value wt bs"
    and "fetches (PB_DECODERS denv dm l field dest) bs dest xs"
    and "length bs < 2 ^ 33"
  shows "roundtrips env enc denv dm field src dest xs bs"
  using assms by (simp add: roundtrips_def)

lemma fetches_eta: "fetches (\<lambda>st. f st) bs dest xs = fetches f bs dest xs"
  by simp

lemmas table_defs = PB_ENCODERS_def PB_DECODERS_def Let_def wiretype_of_def

lemma roundtrip_bool:
  assumes "PB_LTYPE (f_type field) = PB_LTYPE_BOOL" and "value_bytes (e_mem env) field src = Some xs"
  shows "\<exists>bs. roundtrips env enc denv dm field src dest xs bs"
proof (intro exI roundtripsI [OF assms(1), where wt = PB_WT_VARINT])
  have xs: "xs = [if safe_read_bool (e_mem env) src then 1 else 0]"
    using assms by (auto simp: value_bytes_def safe_read_bool_def split: if_splits)
  show "emits (\<lambda>s. PB_ENCODERS env enc PB_LTYPE_BOOL s field src)
      (varint_bytes (if safe_read_bool (e_mem env) src then 1 else 0))"
    by (simp add: table_defs pb_enc_bool_def emits_varint del: if_split)
  show "fetches (PB_DECODERS denv dm PB_LTYPE_BOOL field dest)
      (varint_bytes (if safe_read_bool (e_mem env) src then 1 else 0)) dest xs"
    unfolding xs using fetch_bool [of field dest "safe_read_bool (e_mem env) src"]
    by (simp add: fetches_def table_defs del: if_split)
qed (simp_all add: wiretype_of_def varint_bytes_vbytes vbytes_wire_value)

lemma roundtrip_ints:
  assumes "PB_LTYPE (f_type field) \<in> {PB_LTYPE_VARINT, PB_LTYPE_UVARINT, PB_LTYPE_SVARINT}"
    and "value_bytes (e_mem env) field src = Some xs"
  shows "\<exists>bs. roundtrips env enc denv dm field src dest xs bs"
proof -
  let ?m = "e_mem env" and ?sz = "f_data_size field"
  have sz: "?sz = 1 \<or> ?sz = 2 \<or> ?sz = 4 \<or> ?sz = 8" and xs: "xs = load ?m src (unat ?sz)"
    using assms by (auto simp: value_bytes_def Let_def split: if_splits)
  from sz obtain v where v: "read_int ?m src ?sz = Some v" by (auto simp: read_int_def)
  from sz obtain w where w: "read_uint ?m src ?sz = Some w" by (auto simp: read_uint_def)
  have wire: "wire_value PB_WT_VARINT (varint_bytes u)" for u
    by (simp add: varint_bytes_vbytes vbytes_wire_value)
  consider "PB_LTYPE (f_type field) = PB_LTYPE_VARINT" | "PB_LTYPE (f_type field) = PB_LTYPE_UVARINT"
    | "PB_LTYPE (f_type field) = PB_LTYPE_SVARINT" using assms(1) by auto
  then show ?thesis
  proof cases
    case 1
    have "roundtrips env enc denv dm field src dest xs (varint_bytes v)"
      by (rule roundtripsI [OF 1, where wt = PB_WT_VARINT])
        (use v wire fetch_varint [OF v] emits_varint xs in
          \<open>simp_all add: table_defs pb_enc_varint_def fetches_def\<close>)
    then show ?thesis ..
  next
    case 2
    have "roundtrips env enc denv dm field src dest xs (varint_bytes w)"
      by (rule roundtripsI [OF 2, where wt = PB_WT_VARINT])
        (use w wire fetch_uvarint [OF w] emits_varint xs in
          \<open>simp_all add: table_defs pb_enc_uvarint_def fetches_def\<close>)
    then show ?thesis ..
  next
    case 3
    have "roundtrips env enc denv dm field src dest xs (varint_bytes (zigzag v))"
      by (rule roundtripsI [OF 3, where wt = PB_WT_VARINT])
        (use v wire fetch_svarint [OF v] emits_svarint xs in
          \<open>simp_all add: table_defs pb_enc_svarint_def fetches_def\<close>)
    then show ?thesis ..
  qed
qed

lemma roundtrip_fixed:
  assumes "PB_LTYPE (f_type field) = PB_LTYPE_FIXED32 \<or> PB_LTYPE (f_type field) = PB_LTYPE_FIXED64"
    and "value_bytes (e_mem env) field src = Some xs"
  shows "\<exists>bs. roundtrips env enc denv dm field src dest xs bs"
  using assms(1)
proof
  assume l: "PB_LTYPE (f_type field) = PB_LTYPE_FIXED32"
  then have xs: "xs = le_bytes 4 (load_u32 (e_mem env) src)"
    using assms(2) by (simp add: value_bytes_def le_bytes_load_u32)
  have "roundtrips env enc denv dm field src dest xs (le_bytes 4 (load_u32 (e_mem env) src))"
    by (rule roundtripsI [OF l, where wt = PB_WT_32BIT])
      (use fetch_fixed32 [of field dest "load_u32 (e_mem env) src"] emits_fixed32 xs in
        \<open>simp_all add: table_defs pb_enc_fixed32_def fetches_def wire_value_def\<close>)
  then show ?thesis ..
next
  assume l: "PB_LTYPE (f_type field) = PB_LTYPE_FIXED64"
  then have xs: "xs = le_bytes 8 (load_u64 (e_mem env) src)"
    using assms(2) by (simp add: value_bytes_def le_bytes_load_u64)
  have "roundtrips env enc denv dm field src dest xs (le_bytes 8 (load_u64 (e_mem env) src))"
    by (rule roundtripsI [OF l, where wt = PB_WT_64BIT])
      (use fetch_fixed64 [of field dest "load_u64 (e_mem env) src"] emits_fixed64 xs in
        \<open>simp_all add: table_defs pb_enc_fixed64_def fetches_def wire_value_def\<close>)
  then show ?thesis ..
qed

lemma narrow_word:
  assumes "(w :: u64) < ucast (k :: u32)"
  obtains n :: u32 where "w = ucast n" and "unat n < unat k"
proof -
  have lt: "unat w < unat k" using assms by (simp add: word_less_nat_alt)
  then have "unat w < 2 ^ 32" using unat_bound [of k] by simp
  then have n: "unat (word_of_nat (unat w) :: u32) = unat w" by (intro unat_word_of_nat_small) simp
  then have "w = ucast (word_of_nat (unat w) :: u32)" by (simp add: word_unat_eq_iff)
  with n lt show thesis using that [of "word_of_nat (unat w)"] by simp
qed

lemma roundtrip_string:
  assumes "PB_LTYPE (f_type field) = PB_LTYPE_STRING" and "PB_ATYPE (f_type field) \<noteq> PB_ATYPE_POINTER"
    and "value_bytes (e_mem env) field src = Some xs"
  shows "\<exists>bs. roundtrips env enc denv dm field src dest xs bs"
proof -
  define len where "len = strnlen_loop (e_mem env) src 0 (ucast (f_data_size field))"
  have src: "src \<noteq> 0" and lt: "len < ucast (f_data_size field)"
    and xs: "xs = load (e_mem env) src (unat len) @ [0]"
    using assms(1,3) by (auto simp: value_bytes_def Let_def len_def split: if_splits)
  from narrow_word [OF lt] obtain n :: u32 where n: "len = ucast n" "unat n < unat (f_data_size field)" .
  define str where "str = load (e_mem env) src (unat n)"
  have str: "length str = unat n" by (simp add: str_def)
  have "emits (\<lambda>s. PB_ENCODERS env enc PB_LTYPE_STRING s field src) (varint_bytes (ucast n) @ str)"
    using emits_string [of str "ucast n"] str assms(2) src n(1)
    by (simp add: table_defs pb_enc_string_def str_def flip: len_def)
  moreover have "fetches (PB_DECODERS denv dm PB_LTYPE_STRING field dest) (varint_bytes (ucast n) @ str) dest xs"
    using fetch_string [OF assms(2) str, of denv dest] n xs by (simp add: fetches_def table_defs str_def)
  ultimately have "roundtrips env enc denv dm field src dest xs (varint_bytes (ucast n) @ str)"
    using string_wire_value [OF str] short_string [OF str]
    by (intro roundtripsI [OF assms(1), where wt = PB_WT_STRING]) (simp_all add: wiretype_of_def)
  then show ?thesis ..
qed

lemma roundtrip_bytes:
  assumes "PB_LTYPE (f_type field) = PB_LTYPE_BYTES" and "PB_ATYPE (f_type field) \<noteq> PB_ATYPE_POINTER"
    and "value_bytes (e_mem env) field src = Some xs"
  shows "\<exists>bs. roundtrips env enc denv dm field src dest xs bs"
proof -
  define n where "n = load_u32 (e_mem env) src"
  have src: "src \<noteq> 0" and le: "unat n + 4 \<le> unat (f_data_size field)"
    and xs: "xs = load (e_mem env) src (4 + unat n)"
    using assms(1,3) by (auto simp: value_bytes_def Let_def n_def split: if_splits)
  define payload where "payload = load (e_mem env) (src + 4) (unat n)"
  have p: "length payload = unat n" by (simp add: payload_def)
  have xs: "xs = le_bytes 4 n @ payload"
    by (simp only: xs load_append payload_def n_def le_bytes_load_u32) simp
  have "unat n + 4 < 2 ^ 32" using le unat_bound [of "f_data_size field"] by simp
  then have alloc: "unat (ucast n + 4 :: u64) = unat n + 4" by (subst unat_plus_small) simp_all
  have "emits (\<lambda>s. PB_ENCODERS env enc PB_LTYPE_BYTES s field src) (varint_bytes (ucast n) @ payload)"
    using emits_string [of payload "ucast n"] p src alloc le
    by (simp add: table_defs pb_enc_bytes_def payload_def PB_BYTES_ARRAY_T_ALLOCSIZE_def
        word_less_nat_alt flip: n_def)
  moreover have "fetches (PB_DECODERS denv dm PB_LTYPE_BYTES field dest) (varint_bytes (ucast n) @ payload) dest xs"
    using fetch_bytes [OF assms(2) p le, of denv dest] xs by (simp add: fetches_def table_defs)
  ultimately have "roundtrips env enc denv dm field src dest xs (varint_bytes (ucast n) @ payload)"
    using string_wire_value [OF p] short_string [OF p]
    by (intro roundtripsI [OF assms(1), where wt = PB_WT_STRING]) (simp_all add: wiretype_of_def)
  then show ?thesis ..
qed

lemma roundtrip_fixed_length_bytes:
  assumes "PB_LTYPE (f_type field) = PB_LTYPE_FIXED_LENGTH_BYTES"
    and "value_bytes (e_mem env) field src = Some xs"
  shows "\<exists>bs. roundtrips env enc denv dm field src dest xs bs"
proof -
  have sz: "0 < f_data_size field" and xs: "xs = load (e_mem env) src (unat (f_data_size field))"
    using assms by (auto simp: value_bytes_def Let_def word_gt_0 split: if_splits)
  then have len: "length xs = unat (f_data_size field)" by simp
  have "emits (\<lambda>s. PB_ENCODERS env enc PB_LTYPE_FIXED_LENGTH_BYTES s field src)
      (varint_bytes (ucast (f_data_size field)) @ xs)"
    using emits_string [of xs "ucast (f_data_size field)"] len xs
    by (simp add: table_defs pb_enc_fixed_length_bytes_def)
  moreover have "fetches (PB_DECODERS denv dm PB_LTYPE_FIXED_LENGTH_BYTES field dest)
      (varint_bytes (ucast (f_data_size field)) @ xs) dest xs"
    using fetch_fixed_length_bytes [OF len sz, of dest] by (simp add: fetches_def table_defs)
  ultimately have "roundtrips env enc denv dm field src dest xs
      (varint_bytes (ucast (f_data_size field)) @ xs)"
    using string_wire_value [OF len] short_string [OF len]
    by (intro roundtripsI [OF assms(1), where wt = PB_WT_STRING]) (simp_all add: wiretype_of_def)
  then show ?thesis ..
qed

lemma value_roundtrip_ex:
  assumes "PB_ATYPE (f_type field) \<noteq> PB_ATYPE_POINTER"
    and "value_bytes (e_mem env) field src = Some xs"
  shows "\<exists>bs. roundtrips env enc denv dm field src dest xs bs"
proof -
  let ?l = "PB_LTYPE (f_type field)"
  consider "?l = PB_LTYPE_BOOL" | "?l \<in> {PB_LTYPE_VARINT, PB_LTYPE_UVARINT, PB_LTYPE_SVARINT}"
    | "?l = PB_LTYPE_FIXED32 \<or> ?l = PB_LTYPE_FIXED64" | "?l = PB_LTYPE_STRING" | "?l = PB_LTYPE_BYTES"
    | "?l = PB_LTYPE_FIXED_LENGTH_BYTES"
    using assms(2) by (auto simp: value_bytes_def Let_def split: if_splits)
  then show ?thesis
  proof cases
    case 1 from roundtrip_bool [OF 1 assms(2)] show ?thesis .
  next
    case 2 from roundtrip_ints [OF 2 assms(2)] show ?thesis .
  next
    case 3 from roundtrip_fixed [OF 3 assms(2)] show ?thesis .
  next
    case 4 from roundtrip_string [OF 4 assms] show ?thesis .
  next
    case 5 from roundtrip_bytes [OF 5 assms] show ?thesis .
  next
    case 6 from roundtrip_fixed_length_bytes [OF 6 assms(2)] show ?thesis .
  qed
qed

end
