(* ===== verification/Pb_Safety.thy ===== *)
theory Pb_Safety
  imports Pb_Codec Pb_Message
begin

text \<open>
  Where the decoder may read. \<open>after s t\<close>: the stream \<open>t\<close> is \<open>s\<close> with a prefix of its
  input taken, and possibly an error message set. \<open>behind s t\<close>: \<open>t\<close> stands in the input
  of \<open>s\<close> and does not reach past its end; this is all that is left of \<open>after\<close> when a
  function fails between opening and closing a substream, as the parent then keeps the
  position at which the substream was opened.
\<close>

section \<open>Positions in a buffer stream\<close>

definition after :: "'s istream \<Rightarrow> 's istream \<Rightarrow> bool" where
  "after s t \<longleftrightarrow> (\<exists>k e. k \<le> unat (bytes_left s) \<and> t = (eat k s)\<lparr>ierrmsg := e\<rparr>)"

definition behind :: "'s istream \<Rightarrow> 's istream \<Rightarrow> bool" where
  "behind s t \<longleftrightarrow> icallback t = Buf_read \<and>
     (\<exists>k. istate t = Buf_state (drop k (source s)) \<and> k + unat (bytes_left t) \<le> unat (bytes_left s))"

lemma unat_eat: "k \<le> unat (bytes_left s) \<Longrightarrow> unat (bytes_left (eat k s)) = unat (bytes_left s) - k"
  by (simp add: eat_def unat_minus_nat)

lemma behindI:
  "icallback t = Buf_read \<Longrightarrow> istate t = Buf_state (drop k (source s)) \<Longrightarrow>
     k + unat (bytes_left t) \<le> unat (bytes_left s) \<Longrightarrow> behind s t"
  by (auto simp: behind_def)

lemma after_behind: "wf_in s \<Longrightarrow> after s t \<Longrightarrow> behind s t"
  by (auto simp: after_def behind_def unat_eat eat_def wf_in_def unat_minus_nat)

lemma behind_wf: "wf_in s \<Longrightarrow> behind s t \<Longrightarrow> wf_in t"
  by (auto simp: behind_def wf_in_def source_def)

lemma after_wf: "wf_in s \<Longrightarrow> after s t \<Longrightarrow> wf_in t"
  using after_behind behind_wf by blast

lemma after_refl: "wf_in s \<Longrightarrow> after s s"
  unfolding after_def by (intro exI [of _ 0] exI [of _ "ierrmsg s"]) simp

lemma after_eat: "k \<le> unat (bytes_left s) \<Longrightarrow> after s (eat k s)"
  unfolding after_def by (intro exI [of _ k] exI [of _ "ierrmsg (eat k s)"]) simp

lemma source_ierrmsg [simp]: "source (s\<lparr>ierrmsg := e\<rparr>) = source s"
  by (simp add: source_def)

lemma source_eat [simp]: "source (eat k s) = drop k (source s)"
  by (simp add: source_def eat_def)

lemma after_trans:
  assumes "wf_in s" and "after s t" and "after t u"
  shows "after s u"
proof -
  from assms(2) obtain k e where k: "k \<le> unat (bytes_left s)" "t = (eat k s)\<lparr>ierrmsg := e\<rparr>"
    by (auto simp: after_def)
  from assms(3) obtain j e' where j: "j \<le> unat (bytes_left t)" "u = (eat j t)\<lparr>ierrmsg := e'\<rparr>"
    by (auto simp: after_def)
  have "k + j \<le> unat (bytes_left s)" using k j unat_eat [OF k(1)] by simp
  moreover have "u = (eat (k + j) s)\<lparr>ierrmsg := e'\<rparr>"
    using j(2) k(2) by (simp add: eat_def source_def add.commute)
  ultimately show ?thesis unfolding after_def by blast
qed

lemma after_le: "after s t \<Longrightarrow> unat (bytes_left t) \<le> unat (bytes_left s)"
  by (auto simp: after_def unat_eat)

lemma behind_trans:
  assumes "behind s t" and "behind t u"
  shows "behind s u"
proof -
  from assms(1) obtain k where k: "istate t = Buf_state (drop k (source s))"
    "k + unat (bytes_left t) \<le> unat (bytes_left s)" by (auto simp: behind_def)
  from assms(2) obtain j where j: "icallback u = Buf_read" "istate u = Buf_state (drop j (source t))"
    "j + unat (bytes_left u) \<le> unat (bytes_left t)" by (auto simp: behind_def)
  show ?thesis
    by (rule behindI [of u "j + k"]) (use k j in \<open>simp_all add: source_def\<close>)
qed

lemma behind_refl: "wf_in s \<Longrightarrow> behind s s"
  by (simp add: after_behind after_refl)

lemma after_with_error:
  assumes "after s t"
  shows "after s (with_error msg t)"
proof -
  from assms obtain k e where "k \<le> unat (bytes_left s)" and "t = (eat k s)\<lparr>ierrmsg := e\<rparr>"
    by (auto simp: after_def)
  then show ?thesis unfolding after_def with_error_def by (intro exI [of _ k] exI conjI) simp_all
qed

lemma behind_with_error: "behind s t \<Longrightarrow> behind s (with_error msg t)"
  by (simp add: behind_def with_error_def)

section \<open>Readers\<close>

text \<open>A reader returns, stays in the input, and takes a prefix of it when it succeeds.\<close>

definition good :: "'s istream \<Rightarrow> ('a, 's) rd \<Rightarrow> bool" where
  "good s r \<longleftrightarrow> (\<exists>v t. r = Some (v, t) \<and> (if v = None then behind s t else after s t))"

definition reader :: "('s istream \<Rightarrow> ('a, 's) rd) \<Rightarrow> bool" where
  "reader r \<longleftrightarrow> (\<forall>s. wf_in s \<longrightarrow> good s (r s))"

lemma readerD: "reader r \<Longrightarrow> wf_in s \<Longrightarrow> good s (r s)"
  by (simp add: reader_def)

lemma readerI: "(\<And>s. wf_in s \<Longrightarrow> good s (r s)) \<Longrightarrow> reader r"
  by (simp add: reader_def)

lemma good_ok: "after s t \<Longrightarrow> good s (rd_ok a t)"
  by (simp add: good_def rd_ok_def)

lemma good_fail: "behind s t \<Longrightarrow> good s (rd_fail t)"
  by (simp add: good_def rd_fail_def)

lemma good_error: "behind s t \<Longrightarrow> good s (rd_error msg t)"
  by (simp add: rd_error_def good_fail behind_with_error)

lemma good_cases:
  assumes "good s r"
  obtains (fail) t where "r = Some (None, t)" and "behind s t"
    | (ok) a t where "r = Some (Some a, t)" and "after s t"
proof -
  from assms obtain v t where r: "r = Some (v, t)" and c: "if v = None then behind s t else after s t"
    by (auto simp: good_def)
  show thesis
  proof (cases v)
    case None
    with r c show thesis by (intro fail) simp_all
  next
    case (Some a)
    with r c show thesis by (intro ok) simp_all
  qed
qed

lemma good_bind:
  assumes "wf_in s" and "good s r" and "\<And>a t. r = Some (Some a, t) \<Longrightarrow> after s t \<Longrightarrow> wf_in t \<Longrightarrow> good t (f a t)"
  shows "good s (rd_bind r f)"
  using assms(2)
proof (cases rule: good_cases)
  case (fail t)
  then show ?thesis by (simp add: good_def)
next
  case (ok a t)
  note wt = after_wf [OF assms(1) ok(2)]
  from assms(3) [OF ok wt] show ?thesis
  proof (cases rule: good_cases)
    case (fail u)
    with ok behind_trans [OF after_behind [OF assms(1) ok(2)]] show ?thesis by (simp add: good_def)
  next
    case (ok b u)
    with \<open>r = Some (Some a, t)\<close> after_trans [OF assms(1) \<open>after s t\<close>] show ?thesis
      by (simp add: good_def)
  qed
qed

lemma reader_ok: "reader (rd_ok a)"
  by (intro readerI good_ok after_refl)

lemma reader_error: "reader (rd_error msg)"
  by (intro readerI good_error behind_refl)

lemma reader_fail: "reader rd_fail"
  by (intro readerI good_fail behind_refl)

lemma reader_bind: "reader r \<Longrightarrow> (\<And>a. reader (f a)) \<Longrightarrow> reader (\<lambda>s. rd_bind (r s) f)"
  by (intro readerI good_bind) (auto simp: reader_def)

lemma reader_if: "reader g \<Longrightarrow> reader f \<Longrightarrow> reader (\<lambda>s. if b s then f s else g s)"
  by (auto simp: reader_def)

lemma reader_eta: "reader r \<Longrightarrow> reader (\<lambda>s. r s)"
  by simp

lemma reader_read: "reader (\<lambda>s. pb_read s b count)"
proof (rule readerI)
  fix s :: "'a istream" assume s: "wf_in s"
  show "good s (pb_read s b count)"
  proof (cases "unat count \<le> length (input s)")
    case True
    with s length_input [OF s] show ?thesis
      by (simp add: pb_read_ok good_ok after_eat)
  next
    case False
    with s show ?thesis by (simp add: pb_read_short good_error behind_refl)
  qed
qed

lemma reader_readbyte: "reader pb_readbyte"
proof (rule readerI)
  fix s :: "'a istream" assume s: "wf_in s"
  show "good s (pb_readbyte s)"
  proof (cases "input s")
    case Nil
    with s show ?thesis by (simp add: pb_readbyte_empty good_error behind_refl)
  next
    case (Cons b bs)
    then have "1 \<le> unat (bytes_left s)" using length_input [OF s] by simp
    with s Cons show ?thesis by (simp add: pb_readbyte_ok good_ok after_eat)
  qed
qed

lemmas reader_intros = reader_ok reader_error reader_fail reader_bind reader_if
  reader_read reader_readbyte

section \<open>The functions of the stream\<close>

lemma good_varint64_loop: "wf_in s \<Longrightarrow> good s (varint64_loop s result bitpos)"
proof (induction s result bitpos rule: varint64_loop.induct)
  case (1 s result bitpos)
  show ?case
  proof (cases "64 \<le> bitpos")
    case True
    with 1 show ?thesis by (simp add: varint64_loop.simps [of s] good_error behind_refl)
  next
    case False
    have "good s (rd_bind (pb_readbyte s) (\<lambda>byte s.
        let result = result OR push_bit (unat bitpos) (ucast (byte AND 0x7F)) in
        if byte AND 0x80 \<noteq> 0 then varint64_loop s result (bitpos + 7) else rd_ok result s))"
      using 1 False by (intro good_bind readerD [OF reader_readbyte])
        (auto simp: Let_def intro!: good_ok after_refl)
    with False show ?thesis by (simp add: varint64_loop.simps [of s])
  qed
qed

lemma reader_varint: "reader pb_decode_varint"
  unfolding pb_decode_varint_def [abs_def] by (intro readerI good_varint64_loop)

lemma good_varint32_loop: "wf_in s \<Longrightarrow> good s (varint32_loop s result bitpos)"
proof (induction s result bitpos rule: varint32_loop.induct)
  case (1 s result bitpos)
  show ?case
    unfolding varint32_loop.simps [of s]
    using 1 by (intro good_bind readerD [OF reader_readbyte])
      (auto simp: Let_def intro!: good_ok good_error after_refl behind_refl)
qed

text \<open>The reader with an end-of-file flag, in the same form.\<close>

lemma varint32_eof_cases:
  assumes "wf_in s"
  obtains (fail) eof t where "pb_decode_varint32_eof s = Some ((None, eof), t)" and "behind s t"
      and "eof \<Longrightarrow> t = with_error ''end-of-stream'' s"
    | (ok) v t where "pb_decode_varint32_eof s = Some ((Some v, False), t)" and "after s t"
      and "unat (bytes_left t) < unat (bytes_left s)"
  using readerD [OF reader_readbyte assms]
proof (cases rule: good_cases)
  case (fail t)
  have "bytes_left t = 0 \<Longrightarrow> t = with_error ''end-of-stream'' s"
  proof (cases "input s")
    case Nil
    with fail assms show ?thesis by (simp add: pb_readbyte_empty rd_error_def rd_fail_def)
  next
    case (Cons b bs)
    with fail assms show ?thesis by (simp add: pb_readbyte_ok rd_ok_def)
  qed
  with fail show thesis
    by (intro that(1) [of "bytes_left t = 0" t]) (simp_all add: pb_decode_varint32_eof_def)
next
  case (ok byte t)
  note less = pb_readbyte_less [OF ok(1)]
  show thesis
  proof (cases "byte AND 0x80 = 0")
    case True
    with ok less show thesis by (intro that(2)) (simp_all add: pb_decode_varint32_eof_def)
  next
    case False
    note wt = after_wf [OF assms ok(2)]
    from good_varint32_loop [OF wt, of "ucast (byte AND 0x7F)" 7] show thesis
    proof (cases rule: good_cases)
      case (fail u)
      with ok False behind_trans [OF after_behind [OF assms ok(2)]] show thesis
        by (intro that(1) [of False u]) (simp_all add: pb_decode_varint32_eof_def)
    next
      case (ok r u)
      obtain result bitpos last where r: "r = (result, bitpos, last)" by (cases r)
      have au: "after s u" by (rule after_trans [OF assms \<open>after s t\<close> ok(2)])
      show thesis
      proof (cases "bitpos = 35 \<and> last AND 0x70 \<noteq> 0")
        case True
        with ok r False \<open>pb_readbyte s = Some (Some byte, t)\<close> behind_with_error [OF after_behind [OF assms au]]
        show thesis
          by (intro that(1) [of False "with_error ''varint overflow'' u"])
            (simp_all add: pb_decode_varint32_eof_def)
      next
        case ok': False
        with ok r False \<open>pb_readbyte s = Some (Some byte, t)\<close> au
          less after_le [OF ok(2)]
        show thesis by (intro that(2) [of result u]) (auto simp add: pb_decode_varint32_eof_def)
      qed
    qed
  qed
qed

lemma reader_varint32: "reader pb_decode_varint32"
proof (rule readerI)
  fix s :: "'a istream" assume "wf_in s"
  then show "good s (pb_decode_varint32 s)"
    by (cases rule: varint32_eof_cases) (auto simp: pb_decode_varint32_def good_def)
qed

lemma good_skip_varint: "wf_in s \<Longrightarrow> good s (pb_skip_varint s)"
proof (induction s rule: pb_skip_varint.induct)
  case (1 s)
  show ?case
    unfolding pb_skip_varint.simps [of s]
    using 1 by (intro good_bind readerD [OF reader_read]) (auto intro!: good_ok after_refl)
qed

lemma reader_skip: "reader (\<lambda>s. pb_skip_field s wt)"
  unfolding pb_skip_field_def pb_skip_string_def
  by (intro reader_intros reader_varint32 readerI [OF good_skip_varint])

lemma reader_raw: "reader (\<lambda>s. read_raw_value s wt n)"
proof -
  have "reader (raw_varint n)" for n
  proof (induction n)
    case (Suc n)
    have "raw_varint (Suc n) = (\<lambda>s. rd_bind (pb_read s True 1) (\<lambda>bs s.
        if hd (bs @ [0]) AND 0x80 \<noteq> 0
        then rd_bind (raw_varint n s) (\<lambda>cs s. rd_ok (hd (bs @ [0]) # cs) s)
        else rd_ok [hd (bs @ [0])] s))" by (rule ext) simp
    with Suc show ?case by (auto intro!: reader_intros)
  qed (simp add: reader_fail reader_eta raw_varint.simps(1) [abs_def])
  then show ?thesis unfolding read_raw_value_def by (intro reader_intros)
qed

lemma reader_fixed: "reader pb_decode_fixed32" "reader pb_decode_fixed64"
  unfolding pb_decode_fixed32_def [abs_def] pb_decode_fixed64_def [abs_def] by (intro reader_intros)+

lemma reader_svarint: "reader pb_decode_svarint"
  unfolding pb_decode_svarint_def [abs_def] by (intro reader_intros reader_varint)

lemma reader_bool: "reader pb_decode_bool"
  unfolding pb_decode_bool_def [abs_def] by (intro reader_intros reader_varint32)

lemma decode_tag_cases:
  assumes "wf_in s"
  obtains (fail) t where "pb_decode_tag s = Some ((None, False), t)" and "behind s t"
    | (eof) t where "pb_decode_tag s = Some ((None, True), t)" and "after s t"
    | (ok) tag wt t where "pb_decode_tag s = Some ((Some (tag, wt), False), t)" and "after s t"
      and "unat (bytes_left t) < unat (bytes_left s)"
  using assms
proof (cases rule: varint32_eof_cases)
  case (fail eof t)
  show thesis
  proof (cases eof)
    case True
    with fail after_with_error [OF after_refl [OF assms]] show thesis
      by (intro that(2) [of t]) (simp_all add: pb_decode_tag_def)
  next
    case False
    with fail show thesis by (intro that(1) [of t]) (simp_all add: pb_decode_tag_def)
  qed
next
  case (ok v t)
  then show thesis
    by (cases "v = 0") (auto simp: pb_decode_tag_def intro: that(2,3))
qed

section \<open>Substreams\<close>

lemma open_substream:
  assumes "wf_in s"
  obtains (fail) t where "pb_make_string_substream s = rd_fail t" and "behind s t"
    | (ok) n t where "pb_make_string_substream s =
        rd_ok (t\<lparr>bytes_left := n\<rparr>) (t\<lparr>bytes_left := bytes_left t - n\<rparr>)"
      and "after s t" and "n \<le> bytes_left t"
  using readerD [OF reader_varint32 assms]
proof (cases rule: good_cases)
  case (fail t)
  then show thesis by (intro that(1) [of t]) (simp_all add: pb_make_string_substream_def rd_fail_def)
next
  case (ok n t)
  show thesis
  proof (cases "bytes_left t < ucast n")
    case True
    with ok behind_with_error [OF after_behind [OF assms ok(2)]] show thesis
      by (intro that(1) [of "with_error ''parent stream too short'' t"])
        (simp_all add: pb_make_string_substream_def rd_error_def)
  next
    case False
    with ok show thesis
      by (intro that(2) [of "ucast n" t]) (auto simp: pb_make_string_substream_def)
  qed
qed

lemma sub_wf:
  assumes "wf_in t" and "n \<le> bytes_left t"
  shows "wf_in (t\<lparr>bytes_left := n\<rparr>)" and "behind t (t\<lparr>bytes_left := n\<rparr>)"
    and "behind t (t\<lparr>bytes_left := bytes_left t - n\<rparr>)"
  using assms
  by (auto simp: wf_in_def source_def behind_def word_le_nat_alt unat_sub intro!: exI [of _ 0])

text \<open>
  Closing the substream puts the parent after all of it, when the substream was only read from
  the front; in any case the parent stays within its input.
\<close>

lemma close_good:
  fixes t :: "'s istream"
  assumes t: "wf_in t" "n \<le> bytes_left t" and sub: "behind (t\<lparr>bytes_left := n\<rparr>) sub"
  obtains u where "pb_close_string_substream (t\<lparr>bytes_left := bytes_left t - n\<rparr>) sub = rd_ok () u"
    and "behind t u" and "after (t\<lparr>bytes_left := n\<rparr>) sub \<Longrightarrow> after t u"
proof -
  let ?p = "t\<lparr>bytes_left := bytes_left t - n\<rparr>" and ?s = "t\<lparr>bytes_left := n\<rparr>"
  have n: "unat n \<le> unat (bytes_left t)" using t(2) by (simp add: word_le_nat_alt)
  have wsub: "wf_in sub" by (rule behind_wf [OF sub_wf(1) [OF t] sub])
  define l where "l = unat (bytes_left sub)"
  have len: "length (input sub) = l" unfolding l_def by (rule length_input [OF wsub])
  define u where "u = ?p\<lparr>istate := istate (eat l sub), ierrmsg := ierrmsg (eat l sub)\<rparr>"
  have close: "pb_close_string_substream ?p sub = rd_ok () u"
  proof (cases "bytes_left sub = 0")
    case True
    then have "eat l sub = sub" using wsub by (simp add: l_def)
    with True show ?thesis by (simp add: pb_close_string_substream_def u_def)
  next
    case False
    with pb_read_ok [OF wsub, of "bytes_left sub" False] len show ?thesis
      by (simp add: pb_close_string_substream_def u_def l_def rd_ok_def)
  qed
  from sub obtain k where k: "istate sub = Buf_state (drop k (source t))" "k + l \<le> unat n"
    by (auto simp: behind_def source_def l_def)
  have u: "istate u = Buf_state (drop (l + k) (source t))" "icallback u = Buf_read"
    "unat (bytes_left u) = unat (bytes_left t) - unat n"
    using k t n by (simp_all add: u_def eat_def source_def wf_in_def unat_sub word_le_nat_alt)
  have "behind t u" by (rule behindI [OF u(2,1)]) (use u(3) k n in simp)
  moreover have "after t u" if "after ?s sub"
  proof -
    from that obtain j e where j: "j \<le> unat n" "sub = (eat j ?s)\<lparr>ierrmsg := e\<rparr>"
      by (auto simp: after_def)
    then have "l = unat n - j" by (simp add: l_def eat_def unat_minus_nat)
    with j have "istate u = Buf_state (drop (unat n) (source t))"
      by (simp add: u_def eat_def source_def)
    moreover have "word_of_nat (unat n) = n" by simp
    ultimately have "u = (eat (unat n) t)\<lparr>ierrmsg := ierrmsg u\<rparr>"
      by (simp add: u_def eat_def)
    with n show ?thesis unfolding after_def by blast
  qed
  ultimately show thesis using that close by blast
qed

end
