(* ===== verification/Pb_Decode_Safe.thy ===== *)
theory Pb_Decode_Safe
  imports Pb_Safety
begin

text \<open>
  The message decoder never leaves its input: whatever the descriptors, the memory and the
  bytes, a decoder that returns has a stream that still lies in the buffer, and one that
  succeeds has taken a prefix of it. User callbacks and extension decoders are an interface,
  \<open>decode_callbacks\<close>: they have to behave the same way.
\<close>

section \<open>Actions on the decoder state\<close>

definition safe_res :: "'s istream \<Rightarrow> ('s, 'h) dec cres \<Rightarrow> bool" where
  "safe_res s r \<longleftrightarrow> (\<forall>st. (r = Some (True, st) \<longrightarrow> after s (d_str st))
     \<and> (r = Some (False, st) \<longrightarrow> behind s (d_str st)))"

definition safe :: "('s, 'h) action \<Rightarrow> bool" where
  "safe f \<longleftrightarrow> (\<forall>st. wf_in (d_str st) \<longrightarrow> safe_res (d_str st) (f st))"

definition kept :: "'s istream \<Rightarrow> ('s, 'h) dec cres \<Rightarrow> bool" where
  "kept s r \<longleftrightarrow> r = None \<or> (\<exists>st. r = Some (True, st) \<and> d_str st = s)"

lemma d_str_set_mem [simp]: "d_str (set_mem st m) = d_str st"
  by (simp add: set_mem_def)

lemma safeD: "safe f \<Longrightarrow> wf_in (d_str st) \<Longrightarrow> safe_res (d_str st) (f st)"
  by (simp add: safe_def)

lemma safeI: "(\<And>st. wf_in (d_str st) \<Longrightarrow> safe_res (d_str st) (f st)) \<Longrightarrow> safe f"
  by (simp add: safe_def)

lemma safe_res_None [simp]: "safe_res s None"
  by (simp add: safe_res_def)

lemma safe_res_true: "after s (d_str st) \<Longrightarrow> safe_res s (ret_true st)"
  by (simp add: safe_res_def ret_true_def)

lemma safe_res_false: "behind s (d_str st) \<Longrightarrow> safe_res s (ret_false st)"
  by (simp add: safe_res_def ret_false_def)

lemma safe_res_error: "behind s (d_str st) \<Longrightarrow> safe_res s (dec_error msg st)"
  by (simp add: dec_error_def safe_res_false behind_with_error)

lemma safe_res_trans:
  assumes "wf_in s" and "after s t" and "safe_res t r"
  shows "safe_res s r"
  using assms after_trans [OF assms(1,2)] behind_trans [OF after_behind [OF assms(1,2)]]
  by (auto simp: safe_res_def)

lemma safe_res_and_then:
  assumes "wf_in s" and "safe_res s r"
    and "\<And>st. wf_in (d_str st) \<Longrightarrow> safe_res (d_str st) (g st)"
  shows "safe_res s (and_then r g)"
proof (cases "\<exists>st. r = Some (True, st)")
  case True
  then obtain st where r: "r = Some (True, st)" by blast
  with assms(2) have a: "after s (d_str st)" by (simp add: safe_res_def)
  with r safe_res_trans [OF assms(1) a assms(3) [OF after_wf [OF assms(1) a]]] show ?thesis by simp
next
  case False
  then show ?thesis using assms(2) by (auto simp: safe_res_def and_then_def split: option.splits)
qed

lemma safe_res_rd_then:
  assumes "reader r" and "wf_in (d_str st)"
    and "\<And>a st'. wf_in (d_str st') \<Longrightarrow> safe_res (d_str st') (k a st')"
  shows "safe_res (d_str st) (rd_then st r k)"
  using readerD [OF assms(1,2)]
proof (cases rule: good_cases)
  case (fail t)
  then show ?thesis by (simp add: rd_then_def safe_res_false)
next
  case (ok a t)
  with safe_res_trans [OF assms(2) ok(2)] assms(3) [of "st\<lparr>d_str := t\<rparr>" a] after_wf [OF assms(2) ok(2)]
  show ?thesis by (simp add: rd_then_def)
qed

lemma kept_safe: "wf_in s \<Longrightarrow> kept s r \<Longrightarrow> safe_res s r"
  by (auto simp: kept_def safe_res_def after_refl)

text \<open>A substream: opened, worked on by \<open>f\<close>, and closed.\<close>

lemma safe_res_substream:
  assumes t: "wf_in t" "n \<le> bytes_left t"
    and f: "safe_res (t\<lparr>bytes_left := n\<rparr>) (f (st\<lparr>d_str := t\<lparr>bytes_left := n\<rparr>\<rparr>))"
    and st: "d_str st = t\<lparr>bytes_left := bytes_left t - n\<rparr>"
  shows "safe_res t (on_substream st (t\<lparr>bytes_left := n\<rparr>) f)"
proof (cases "f (st\<lparr>d_str := t\<lparr>bytes_left := n\<rparr>\<rparr>)")
  case None
  then show ?thesis by (simp add: on_substream_def)
next
  case (Some r)
  obtain status st' where r: "r = (status, st')" by (cases r)
  let ?s = "t\<lparr>bytes_left := n\<rparr>"
  have a: "status \<Longrightarrow> after ?s (d_str st')" using f Some r by (simp add: safe_res_def)
  have b: "behind ?s (d_str st')"
    using f Some r after_behind [OF sub_wf(1) [OF t] a] by (cases status) (auto simp: safe_res_def)
  from close_good [OF t b] obtain u where
    u: "pb_close_string_substream (t\<lparr>bytes_left := bytes_left t - n\<rparr>) (d_str st') = rd_ok () u"
    "behind t u" "after ?s (d_str st') \<Longrightarrow> after t u" by metis
  with Some r st a show ?thesis by (cases status) (auto simp: on_substream_def rd_ok_def safe_res_def)
qed

lemma safe_res_open:
  assumes "wf_in (d_str st)"
    and "\<And>n t st'. wf_in t \<Longrightarrow> n \<le> bytes_left t \<Longrightarrow> d_str st' = t\<lparr>bytes_left := bytes_left t - n\<rparr> \<Longrightarrow>
       safe_res t (k (t\<lparr>bytes_left := n\<rparr>) st')"
  shows "safe_res (d_str st) (rd_then st pb_make_string_substream k)"
  using assms(1)
proof (cases rule: open_substream)
  case (fail t)
  then show ?thesis by (simp add: rd_then_def rd_fail_def safe_res_false)
next
  case (ok n t)
  from safe_res_trans [OF assms(1) ok(2) assms(2) [OF after_wf [OF assms(1) ok(2)] ok(3)]] ok(1)
  show ?thesis by (simp add: rd_then_def rd_ok_def)
qed

section \<open>Defaults, allocation and release leave the stream alone\<close>

lemma kept_None [simp]: "kept s None"
  by (simp add: kept_def)

lemma kept_ret: "d_str st = s \<Longrightarrow> kept s (ret_true st)"
  by (simp add: kept_def ret_true_def)

lemma kept_and_then:
  "kept s r \<Longrightarrow> (\<And>st. d_str st = s \<Longrightarrow> kept s (g st)) \<Longrightarrow> kept s (and_then r g)"
  unfolding kept_def by (metis and_then_simps(1,2))

lemma kept_if: "kept s f \<Longrightarrow> kept s g \<Longrightarrow> kept s (if b then f else g)"
  by simp

lemmas kept_intros = kept_None kept_ret kept_and_then kept_if

lemma kept_ext_walk:
  assumes "\<And>a st. d_str st = s \<Longrightarrow> kept s (body a st)" and "d_str st = s"
  shows "kept s (ext_walk k body ext st)"
  using assms(2)
proof (induction k arbitrary: ext st)
  case (Suc k)
  have "kept s (and_then (body ext st) (\<lambda>st. ext_walk k body (load_u64 (d_mem st) (ext + 16)) st))"
    by (intro kept_and_then assms(1) Suc.prems Suc.IH)
  with Suc.prems show ?case by (simp add: kept_ret)
qed (simp add: kept_ret)

lemma kept_iter_loop:
  assumes body: "\<And>it st. d_str st = s \<Longrightarrow> kept s (body it st)" and "d_str st = s"
  shows "kept s (iter_loop body it st)"
  using assms(2)
proof (induction "length (it_start it) - it_pos it" arbitrary: it st rule: less_induct)
  case less
  have "kept s (case pb_field_iter_next it of
        (True, it') \<Rightarrow> iter_loop body it' st | (False, it') \<Rightarrow> ret_true st)"
    if st: "d_str st = s" for st
  proof (cases "pb_field_iter_next it")
    case (Pair b it')
    show ?thesis
    proof (cases b)
      case True
      with Pair have n: "pb_field_iter_next it = (True, it')" by simp
      from iter_next_True [OF n] less.hyps [of it' st] st have "kept s (iter_loop body it' st)"
        by (simp add: diff_less_mono2)
      with n show ?thesis by simp
    next
      case False
      with Pair st show ?thesis by (simp add: kept_ret)
    qed
  qed
  with body [OF less.prems] show ?case
    unfolding iter_loop.simps [of body it st] by (intro kept_and_then)
qed

lemma kept_release_items:
  assumes "\<And>a st. d_str st = s \<Longrightarrow> kept s (body a st)" and "d_str st = s"
  shows "kept s (release_items body stride p n st)"
  using assms(2)
proof (induction n arbitrary: p st)
  case (Suc n)
  show ?case
    unfolding release_items.simps by (intro kept_and_then assms(1) Suc.prems Suc.IH)
qed (simp add: kept_ret)

lemma d_str_free_at [simp]: "d_str (free_at env p st) = d_str st"
  by (simp add: free_at_def split: prod.split)

lemma kept_defaults:
  "d_str st = s \<Longrightarrow> kept s (pb_field_set_to_default env n it st)"
  "d_str st = s \<Longrightarrow> kept s (pb_message_set_to_defaults env n fs d st)"
proof (induction n arbitrary: it fs d st)
  case 0
  show "kept s (pb_field_set_to_default env 0 it st)"
    "kept s (pb_message_set_to_defaults env 0 fs d st)" for it fs d and st :: "('a, 'b) dec"
    by simp_all
next
  case (Suc n)
  show "kept s (pb_field_set_to_default env (Suc n) it st)" if "d_str st = s"
    for it and st :: "('a, 'b) dec"
    unfolding pb_field_set_to_default.simps Let_def
    using that by (intro kept_intros kept_ext_walk Suc.IH) simp_all
  show "kept s (pb_message_set_to_defaults env (Suc n) fs d st)" if "d_str st = s"
    for fs d and st :: "('a, 'b) dec"
  proof -
    have "kept s (iter_loop (\<lambda>it st. pb_field_set_to_default env n it st) it st)" for it
      by (rule kept_iter_loop [OF Suc.IH(1) that])
    with that show ?thesis by (auto intro: kept_ret split: prod.split bool.split)
  qed
qed

lemma kept_release:
  "d_str st = s \<Longrightarrow> kept s (pb_release_single_field env n it st)"
  "d_str st = s \<Longrightarrow> kept s (pb_release env n fs d st)"
proof (induction n arbitrary: it fs d st)
  case 0
  show "kept s (pb_release_single_field env 0 it st)" "kept s (pb_release env 0 fs d st)"
    for it fs d and st :: "('a, 'b) dec" by simp_all
next
  case (Suc n)
  have entry: "kept s (release_entry env a st)" if "d_str st = s" for a and st :: "('a, 'b) dec"
    using that by (auto simp: release_entry_def Let_def intro!: kept_ret)
  show "kept s (pb_release_single_field env (Suc n) it st)" if "d_str st = s"
    for it and st :: "('a, 'b) dec"
    unfolding pb_release_single_field.simps Let_def
    using that by (intro kept_intros kept_ext_walk kept_release_items Suc.IH entry) simp_all
  show "kept s (pb_release env (Suc n) fs d st)" if "d_str st = s"
    for fs d and st :: "('a, 'b) dec"
  proof -
    have "kept s (iter_loop (\<lambda>it st. pb_release_single_field env n it st) it st)" for it
      by (rule kept_iter_loop [OF Suc.IH(1) that])
    with that show ?thesis by (auto intro: kept_ret split: prod.split bool.split)
  qed
qed

section \<open>Decoders of values\<close>

lemma safe_if: "safe_res s f \<Longrightarrow> safe_res s g \<Longrightarrow> safe_res s (if b then f else g)"
  by simp

lemma safe_ret: "wf_in (d_str st) \<Longrightarrow> d_str st' = d_str st \<Longrightarrow> safe_res (d_str st) (ret_true st')"
  by (simp add: safe_res_true after_refl)

lemma safe_error: "wf_in (d_str st) \<Longrightarrow> d_str st' = d_str st \<Longrightarrow> safe_res (d_str st) (dec_error msg st')"
  by (simp add: safe_res_error behind_refl)

lemmas safe_intros = safe_res_None safe_if safe_ret safe_error safe_res_and_then safe_res_rd_then

lemmas readers = reader_varint reader_varint32 reader_svarint reader_bool reader_fixed reader_read
  reader_skip reader_raw

lemma safe_finish_write: "wf_in (d_str st) \<Longrightarrow> safe_res (d_str st) (finish_write w v st)"
  by (auto simp: finish_write_def intro!: safe_intros split: option.split)

lemma safe_read_to: "wf_in (d_str st) \<Longrightarrow> safe_res (d_str st) (read_to st dest n)"
  unfolding read_to_def by (intro safe_intros readers) simp_all

lemma safe_read_to':
  "wf_in (d_str st) \<Longrightarrow> d_str st' = d_str st \<Longrightarrow> safe_res (d_str st) (read_to st' dest n)"
  using safe_read_to [of st'] by simp

lemma safe_allocate: "wf_in (d_str st) \<Longrightarrow> safe_res (d_str st) (allocate_field env p ds as st)"
  unfolding allocate_field_def Let_def
  by (auto intro!: safe_intros split: prod.split)

lemma safe_res_set_mem:
  assumes "safe_res s r"
  shows "safe_res s (case r of None \<Rightarrow> None | Some (status, st) \<Rightarrow> Some (status, set_mem st (g st)))"
  using assms by (auto simp: safe_res_def split: option.splits)

lemma safe_dec_string: "wf_in (d_str st) \<Longrightarrow> safe_res (d_str st) (pb_dec_string env field dest st)"
  unfolding pb_dec_string_def Let_def
  by (intro safe_intros readers safe_allocate safe_res_set_mem safe_read_to) simp_all

lemma safe_dec_bytes: "wf_in (d_str st) \<Longrightarrow> safe_res (d_str st) (pb_dec_bytes env field dest st)"
  unfolding pb_dec_bytes_def Let_def
  by (intro safe_intros readers safe_allocate safe_read_to') simp_all

lemma safe_scalar_decoders:
  assumes "wf_in (d_str st)"
  shows "safe_res (d_str st) (pb_dec_bool field dest st)"
    and "safe_res (d_str st) (pb_dec_varint field dest st)"
    and "safe_res (d_str st) (pb_dec_uvarint field dest st)"
    and "safe_res (d_str st) (pb_dec_svarint field dest st)"
    and "safe_res (d_str st) (pb_dec_fixed32 field dest st)"
    and "safe_res (d_str st) (pb_dec_fixed64 field dest st)"
    and "safe_res (d_str st) (pb_dec_fixed_length_bytes field dest st)"
  unfolding pb_dec_bool_def pb_dec_varint_def pb_dec_uvarint_def pb_dec_svarint_def pb_dec_fixed32_def
    pb_dec_fixed64_def pb_dec_fixed_length_bytes_def Let_def
  by (intro safe_intros readers assms safe_finish_write safe_read_to; simp)+

text \<open>\<open>dm\<close> is the decoder of nested messages.\<close>

definition safe_dm :: "(bool \<Rightarrow> pb_field list \<Rightarrow> addr \<Rightarrow> ('s, 'h) action) \<Rightarrow> bool" where
  "safe_dm dm \<longleftrightarrow> (\<forall>init fs dest st. wf_in (d_str st) \<longrightarrow> safe_res (d_str st) (dm init fs dest st))"

lemma safe_decoders:
  assumes dm: "safe_dm dm" and st: "wf_in (d_str st)"
  shows "safe_res (d_str st) (PB_DECODERS env dm l field dest st)"
proof -
  have sub: "safe_res (d_str st) (pb_dec_submessage env dm field dest st)"
    unfolding pb_dec_submessage_def
  proof (rule safe_res_open [OF st])
    fix n t and st' :: "('a, 'b) dec"
    assume t: "wf_in t" "n \<le> bytes_left t" and st': "d_str st' = t\<lparr>bytes_left := bytes_left t - n\<rparr>"
    show "safe_res t (if f_ptr field = 0 then dec_error ''invalid field descriptor'' st'
        else on_substream st' (t\<lparr>bytes_left := n\<rparr>)
          (dm (PB_HTYPE (f_type field) = PB_HTYPE_REPEATED) (d_fields env (f_ptr field)) dest))"
    proof (intro safe_if)
      show "safe_res t (dec_error ''invalid field descriptor'' st')"
        using sub_wf(3) [OF t] st' by (simp add: safe_res_error)
      show "safe_res t (on_substream st' (t\<lparr>bytes_left := n\<rparr>)
          (dm (PB_HTYPE (f_type field) = PB_HTYPE_REPEATED) (d_fields env (f_ptr field)) dest))"
        by (rule safe_res_substream [OF t _ st'])
          (use dm sub_wf(1) [OF t] in \<open>simp add: safe_dm_def\<close>, metis dec.select_convs(1) dec.surjective dec.update_convs(1))
    qed
  qed
  show ?thesis
    unfolding PB_DECODERS_def
    by (intro safe_if safe_res_None safe_scalar_decoders safe_dec_bytes safe_dec_string sub st)
qed

section \<open>Decoders of fields\<close>

lemma safe_packed_static:
  assumes func: "\<And>p st. wf_in (d_str st) \<Longrightarrow> safe_res (d_str st) (func field p st)"
    and st: "wf_in (d_str st)"
  shows "safe_res (d_str st) (packed_static k func field pData pSize st)"
  using st
proof (induction k arbitrary: st)
  case (Suc k)
  have step: "safe_res (d_str st) (packed_static k func field pData pSize
      (set_mem st (store_u32 (d_mem st) pSize (load_u32 (d_mem st) pSize + 1))))"
    if "wf_in (d_str st)" for st :: "('a, 'b) dec"
    using Suc.IH [of "set_mem st (store_u32 (d_mem st) pSize (load_u32 (d_mem st) pSize + 1))"] that by simp
  show ?case
    unfolding packed_static.simps Let_def
    using Suc.prems by (intro safe_intros func step) simp_all
qed simp

lemma close_errmsg:
  "pb_close_string_substream p sub = rd_ok () u \<Longrightarrow>
     pb_close_string_substream (p\<lparr>ierrmsg := e\<rparr>) sub = rd_ok () u"
  by (auto simp: pb_close_string_substream_def Let_def rd_ok_def rd_fail_def split: if_splits option.splits)

text \<open>The end of a function that works on a substream.\<close>

lemma safe_res_close:
  fixes st' :: "('s, 'h) dec"
  assumes t: "wf_in t" "n \<le> bytes_left t"
    and a: "status \<Longrightarrow> after (t\<lparr>bytes_left := n\<rparr>) (d_str st')"
    and b: "behind (t\<lparr>bytes_left := n\<rparr>) (d_str st')"
    and p: "p\<lparr>ierrmsg := e\<rparr> = t\<lparr>bytes_left := bytes_left t - n, ierrmsg := e\<rparr>"
  shows "safe_res t (case pb_close_string_substream p (d_str st') of
      None \<Rightarrow> None | Some (None, s) \<Rightarrow> ret_false (st'\<lparr>d_str := s\<rparr>)
    | Some (Some _, s) \<Rightarrow> Some (status, st'\<lparr>d_str := s\<rparr>))"
proof -
  from close_good [OF t b] obtain u where
    u: "pb_close_string_substream (t\<lparr>bytes_left := bytes_left t - n\<rparr>) (d_str st') = rd_ok () u"
    "behind t u" "after (t\<lparr>bytes_left := n\<rparr>) (d_str st') \<Longrightarrow> after t u" by metis
  have "p = (t\<lparr>bytes_left := bytes_left t - n\<rparr>)\<lparr>ierrmsg := ierrmsg p\<rparr>"
    using p by (metis (no_types, lifting) istream.surjective istream.update_convs(4) istream.select_convs(4)
      istream.cases_scheme istream.ext_inject)
  with close_errmsg [OF u(1), of "ierrmsg p"] have "pb_close_string_substream p (d_str st') = rd_ok () u" by simp
  with u(2,3) a show ?thesis by (cases status) (auto simp: rd_ok_def safe_res_def)
qed

lemma res_cases:
  assumes "wf_in s" and "safe_res s r"
  obtains (none) "r = None" | (ok) st where "r = Some (True, st)" and "after s (d_str st)" and "behind s (d_str st)"
    | (fail) st where "r = Some (False, st)" and "behind s (d_str st)"
proof (cases r)
  case None
  then show thesis by (rule none)
next
  case (Some p)
  obtain b st where p: "p = (b, st)" by (cases p)
  show thesis
  proof (cases b)
    case True
    with Some p assms have "after s (d_str st)" by (simp add: safe_res_def)
    with Some p True after_behind [OF assms(1)] show thesis by (intro ok) simp_all
  next
    case False
    with Some p assms show thesis by (intro fail) (simp_all add: safe_res_def)
  qed
qed

lemma safe_packed_static_field:
  assumes func: "\<And>p st. wf_in (d_str st) \<Longrightarrow> safe_res (d_str st) (func field p st)"
    and st: "wf_in (d_str st)"
  shows "safe_res (d_str st) (rd_then st pb_make_string_substream (\<lambda>substream st.
            case packed_static (k substream) func field pData pSize (st\<lparr>d_str := substream\<rparr>) of
              None \<Rightarrow> None
            | Some (status, st') \<Rightarrow>
                if bytes_left (d_str st') \<noteq> 0
                then dec_error ''array overflow'' (st'\<lparr>d_str := d_str st\<rparr>)
                else (case pb_close_string_substream (d_str st) (d_str st') of
                   None \<Rightarrow> None
                 | Some (None, s) \<Rightarrow> ret_false (st'\<lparr>d_str := s\<rparr>)
                 | Some (Some _, s) \<Rightarrow> Some (status, st'\<lparr>d_str := s\<rparr>))))"
proof (rule safe_res_open [OF st])
  fix n t and st :: "('a, 'b) dec"
  assume t: "wf_in t" "n \<le> bytes_left t" and st: "d_str st = t\<lparr>bytes_left := bytes_left t - n\<rparr>"
  let ?s = "t\<lparr>bytes_left := n\<rparr>"
  have "safe_res ?s (packed_static (k ?s) func field pData pSize (st\<lparr>d_str := ?s\<rparr>))"
    using safe_packed_static [where func = func and field = field, OF func, of "st\<lparr>d_str := ?s\<rparr>"]
      sub_wf(1) [OF t] by simp
  with sub_wf(1) [OF t] show "safe_res t (case packed_static (k ?s) func field pData pSize (st\<lparr>d_str := ?s\<rparr>) of
              None \<Rightarrow> None
            | Some (status, st') \<Rightarrow>
                if bytes_left (d_str st') \<noteq> 0
                then dec_error ''array overflow'' (st'\<lparr>d_str := d_str st\<rparr>)
                else (case pb_close_string_substream (d_str st) (d_str st') of
                   None \<Rightarrow> None
                 | Some (None, s) \<Rightarrow> ret_false (st'\<lparr>d_str := s\<rparr>)
                 | Some (Some _, s) \<Rightarrow> Some (status, st'\<lparr>d_str := s\<rparr>)))"
    using sub_wf(3) [OF t] st
    by (cases rule: res_cases)
      (auto simp: safe_res_error intro!: safe_res_close [OF t])
qed

lemma safe_pre:
  "(\<And>st. wf_in (d_str st) \<Longrightarrow> safe_res (d_str st) (f st)) \<Longrightarrow> wf_in (d_str st) \<Longrightarrow> d_str st' = d_str st \<Longrightarrow>
     safe_res (d_str st) (f st')"
  by metis

lemma safe_kept: "wf_in (d_str st) \<Longrightarrow> kept (d_str st) r \<Longrightarrow> safe_res (d_str st) r"
  by (rule kept_safe)

lemma safe_static_field:
  assumes dm: "safe_dm dm" and st: "wf_in (d_str st)"
  shows "safe_res (d_str st) (decode_static_field env dm wt it st)"
proof -
  note func = safe_decoders [OF dm]
  show ?thesis
    unfolding decode_static_field_def Let_def
    by (intro safe_if safe_res_and_then func st safe_packed_static_field safe_error safe_ret
        safe_pre [OF func] safe_kept kept_defaults) (simp_all add: st)
qed

lemma safe_initialize: "wf_in (d_str st) \<Longrightarrow> safe_res (d_str st) (initialize_pointer_field env field p st)"
  unfolding initialize_pointer_field_def Let_def
  by (intro safe_kept kept_intros kept_defaults) simp_all

lemma safe_pre_initialize:
  "wf_in (d_str st) \<Longrightarrow> d_str st' = d_str st \<Longrightarrow> safe_res (d_str st) (initialize_pointer_field env field p st')"
  by (metis safe_initialize)

definition packed_safe :: "'s istream \<Rightarrow> 's istream \<Rightarrow> (bool \<times> 's istream \<times> ('s, 'h) dec) option \<Rightarrow> bool" where
  "packed_safe s par r \<longleftrightarrow> (\<forall>ok par' st. r = Some (ok, par', st) \<longrightarrow>
     (\<exists>e. par' = par\<lparr>ierrmsg := e\<rparr>) \<and> behind s (d_str st) \<and> (ok \<longrightarrow> after s (d_str st)))"

lemma packed_safe_trans:
  assumes "wf_in s" and "after s t" and "packed_safe t par r"
  shows "packed_safe s par r"
  unfolding packed_safe_def
proof (intro allI impI)
  fix ok par' st assume "r = Some (ok, par', st)"
  with assms(3) have t: "\<exists>e. par' = par\<lparr>ierrmsg := e\<rparr>" "behind t (d_str st)" "ok \<Longrightarrow> after t (d_str st)"
    unfolding packed_safe_def by blast+
  then show "(\<exists>e. par' = par\<lparr>ierrmsg := e\<rparr>) \<and> behind s (d_str st) \<and> (ok \<longrightarrow> after s (d_str st))"
    using after_trans [OF assms(1,2)] behind_trans [OF after_behind [OF assms(1,2)]] by simp
qed

lemma packed_safe_True:
  assumes "wf_in s" and "after s (d_str st)"
  shows "packed_safe s par (Some (True, par, st))"
proof -
  have "par = par\<lparr>ierrmsg := ierrmsg par\<rparr>" by simp
  with assms show ?thesis unfolding packed_safe_def by (blast intro: after_behind)
qed

lemma packed_safe_error:
  "behind s (d_str st) \<Longrightarrow> packed_safe s par (Some (False, par\<lparr>ierrmsg := e\<rparr>, st))"
  unfolding packed_safe_def by blast

lemma packed_safe_False: "behind s (d_str st) \<Longrightarrow> packed_safe s par (Some (False, par, st))"
  using packed_safe_error [of s st par "ierrmsg par"] by simp

lemma packed_safe_None: "packed_safe s par None"
  by (simp add: packed_safe_def)

lemma packed_safe_if: "packed_safe s par a \<Longrightarrow> packed_safe s par b \<Longrightarrow> packed_safe s par (if c then a else b)"
  by simp

lemma packed_safe_step:
  assumes "wf_in s" and "safe_res s r"
    and "\<And>st. wf_in (d_str st) \<Longrightarrow> packed_safe (d_str st) par (g st)"
  shows "packed_safe s par (case r of None \<Rightarrow> None | Some (False, st) \<Rightarrow> Some (False, par, st)
    | Some (True, st) \<Rightarrow> g st)"
  using assms(1,2)
proof (cases rule: res_cases)
  case none
  then show ?thesis by (simp add: packed_safe_def)
next
  case (ok st)
  with packed_safe_trans [OF assms(1) ok(2) assms(3) [OF after_wf [OF assms(1) ok(2)]]]
  show ?thesis by simp
next
  case (fail st)
  then show ?thesis by (simp add: packed_safe_False)
qed

lemma safe_packed_pointer:
  assumes func: "\<And>p st. wf_in (d_str st) \<Longrightarrow> safe_res (d_str st) (func field p st)"
    and st: "wf_in (d_str st)"
  shows "packed_safe (d_str st) par (packed_pointer k env func field pData pSize alloc par st)"
  using st
proof (induction k arbitrary: alloc st)
  case 0
  then show ?case by (simp add: packed_safe_def)
next
  case (Suc k)
  have grow: "safe_res (d_str st) (and_then
            (if g then allocate_field env pData ds n st else ret_true st)
            (\<lambda>st. let pItem = pItem_at (load_u64 (d_mem st) pData) field (load_u32 (d_mem st) pSize) in
              and_then (initialize_pointer_field env field pItem st) (func field pItem)))" for g ds n
    unfolding Let_def
    by (intro safe_if safe_res_and_then Suc.prems safe_allocate safe_ret refl safe_initialize func)
  have step: "packed_safe (d_str st) par (packed_pointer k env func field pData pSize n par
      (set_mem st (store_u32 (d_mem st) pSize (load_u32 (d_mem st) pSize + 1))))"
    if "wf_in (d_str st)" for st :: "('a, 'b) dec" and n
    using Suc.IH [of "set_mem st (store_u32 (d_mem st) pSize (load_u32 (d_mem st) pSize + 1))"] that by simp
  show ?case
    unfolding packed_pointer.simps Let_def
    by (intro packed_safe_if packed_safe_True packed_safe_error packed_safe_None packed_safe_step
        Suc.prems grow [unfolded Let_def] step after_refl behind_refl)
qed

lemma safe_pointer_field:
  assumes dm: "safe_dm dm" and st: "wf_in (d_str st)"
  shows "safe_res (d_str st) (decode_pointer_field env dm wt it st)"
proof -
  note func = safe_decoders [OF dm, of _ env]
  have packed: "safe_res (d_str st) (rd_then st pb_make_string_substream (\<lambda>substream st.
            case packed_pointer (Suc (unat (bytes_left substream))) env (PB_DECODERS env dm l) (it_field it)
                   (it_pData it) (it_pSize it) n (d_str st) (st\<lparr>d_str := substream\<rparr>) of
              None \<Rightarrow> None
            | Some (status, s, st') \<Rightarrow>
                (case pb_close_string_substream s (d_str st') of
                   None \<Rightarrow> None
                 | Some (None, s) \<Rightarrow> ret_false (st'\<lparr>d_str := s\<rparr>)
                 | Some (Some _, s) \<Rightarrow> Some (status, st'\<lparr>d_str := s\<rparr>))))" for l n
  proof (rule safe_res_open [OF st])
    fix sz t and st :: "('a, 'b) dec"
    assume t: "wf_in t" "sz \<le> bytes_left t" and st: "d_str st = t\<lparr>bytes_left := bytes_left t - sz\<rparr>"
    let ?s = "t\<lparr>bytes_left := sz\<rparr>"
    let ?r = "packed_pointer (Suc (unat (bytes_left ?s))) env (PB_DECODERS env dm l) (it_field it)
                   (it_pData it) (it_pSize it) n (d_str st) (st\<lparr>d_str := ?s\<rparr>)"
    have r: "packed_safe ?s (d_str st) ?r"
      using safe_packed_pointer [where func = "PB_DECODERS env dm l" and field = "it_field it" and env = env,
          OF func, of "st\<lparr>d_str := ?s\<rparr>"] sub_wf(1) [OF t] by (simp del: packed_pointer.simps)
    show "safe_res t (case ?r of None \<Rightarrow> None
            | Some (status, s, st') \<Rightarrow>
                (case pb_close_string_substream s (d_str st') of
                   None \<Rightarrow> None
                 | Some (None, s) \<Rightarrow> ret_false (st'\<lparr>d_str := s\<rparr>)
                 | Some (Some _, s) \<Rightarrow> Some (status, st'\<lparr>d_str := s\<rparr>)))"
    proof (cases ?r)
      case (Some p)
      obtain status par' st' where p: "p = (status, par', st')" by (cases p)
      from r Some p obtain e where par': "par' = (d_str st)\<lparr>ierrmsg := e\<rparr>"
        and b: "behind ?s (d_str st')" and a: "status \<Longrightarrow> after ?s (d_str st')"
        unfolding packed_safe_def by blast
      have "par'\<lparr>ierrmsg := e\<rparr> = t\<lparr>bytes_left := bytes_left t - sz, ierrmsg := e\<rparr>" by (simp add: par' st)
      from safe_res_close [where status = status, OF t a b this] show ?thesis
        unfolding Some p option.case prod.case by simp
    next
      case None
      show ?thesis unfolding None by simp
    qed
  qed
  define body where "body st = (if PB_LTYPE (f_type (it_field it)) = PB_LTYPE_STRING
        \<or> PB_LTYPE (f_type (it_field it)) = PB_LTYPE_BYTES
      then PB_DECODERS env dm (PB_LTYPE (f_type (it_field it))) (it_field it) (it_pData it) st
      else and_then (allocate_field env (it_pData it) (ucast (f_data_size (it_field it))) 1 st) (\<lambda>st.
        and_then (initialize_pointer_field env (it_field it) (load_u64 (d_mem st) (it_pData it)) st)
          (\<lambda>st. PB_DECODERS env dm (PB_LTYPE (f_type (it_field it))) (it_field it)
             (load_u64 (d_mem st) (it_pData it)) st)))" for st
  have body: "safe_res (d_str st) (body st)" if "wf_in (d_str st)" for st
    unfolding body_def by (intro safe_if safe_res_and_then that func safe_allocate safe_initialize)
  have body': "safe_res (d_str st) (body (if b then set_mem st m else st))" if "wf_in (d_str st)" for st b m
    using body [of "if b then set_mem st m else st"] that by (cases b) simp_all
  show ?thesis
    unfolding decode_pointer_field_def Let_def
    by (fold body_def, intro safe_if safe_res_and_then st safe_ret refl safe_error safe_kept
        kept_release(1) packed safe_allocate func body' safe_pre_initialize d_str_set_mem)
qed

lemma safe_callback_loop:
  assumes cb: "\<And>st. wf_in (d_str st) \<Longrightarrow> safe_res (d_str st) (cb st)" and st: "wf_in (d_str st)"
  shows "safe_res (d_str st) (callback_loop k cb st)"
  using st
proof (induction k arbitrary: st)
  case (Suc k)
  then show ?case unfolding callback_loop.simps by (intro safe_intros cb Suc.IH) simp_all
qed simp

text \<open>Functions that also give back their iterator or their locals.\<close>

definition safe_it :: "'s istream \<Rightarrow> ('i \<times> bool \<times> ('s, 'h) dec) option \<Rightarrow> bool" where
  "safe_it s r \<longleftrightarrow> safe_res s (map_option snd r)"

lemma safe_it_intros:
  "safe_it s None"
  "after s (d_str st) \<Longrightarrow> safe_it s (Some (it, True, st))"
  "behind s (d_str st) \<Longrightarrow> safe_it s (Some (it, False, st))"
  "safe_it s a \<Longrightarrow> safe_it s b \<Longrightarrow> safe_it s (if c then a else b)"
  by (simp_all add: safe_it_def safe_res_def)

lemma safe_it_find:
  "(\<And>it. safe_it s (f it)) \<Longrightarrow> (\<And>it. safe_it s (g it)) \<Longrightarrow>
     safe_it s (case r of None \<Rightarrow> None | Some (False, it) \<Rightarrow> f it | Some (True, it) \<Rightarrow> g it)"
  by (auto simp: safe_it_intros split: option.split prod.split bool.split)

lemma safe_it_kept:
  assumes "kept s r" and "\<And>st. d_str st = s \<Longrightarrow> safe_it s (g st)"
  shows "safe_it s (case r of None \<Rightarrow> None | Some (ok, st) \<Rightarrow> g st)"
  using assms by (auto simp: kept_def safe_it_intros)

lemma safe_union:
  assumes "wf_in (d_str st)"
  shows "safe_it (d_str st) (pb_release_union_field env it st)"
  unfolding pb_release_union_field_def Let_def
  by (intro safe_it_intros safe_it_find safe_it_kept kept_release(1))
    (simp_all add: assms after_refl behind_refl behind_with_error)

definition safe_v :: "'s istream \<Rightarrow> (bool \<times> 'v \<times> ('s, 'h) dec) option \<Rightarrow> bool" where
  "safe_v s r \<longleftrightarrow> safe_res s (map_option (\<lambda>(ok, v, st). (ok, st)) r)"

lemma safe_v_intros:
  "safe_v s None"
  "after s (d_str st) \<Longrightarrow> safe_v s (Some (True, v, st))"
  "behind s (d_str st) \<Longrightarrow> safe_v s (Some (False, v, st))"
  "safe_v s a \<Longrightarrow> safe_v s b \<Longrightarrow> safe_v s (if c then a else b)"
  by (simp_all add: safe_v_def safe_res_def)

lemma safe_v_iff:
  "safe_v s (Some (True, v, st)) \<longleftrightarrow> after s (d_str st)"
  "safe_v s (Some (False, v, st)) \<longleftrightarrow> behind s (d_str st)"
  by (simp_all add: safe_v_def safe_res_def)

lemma safe_v_find:
  "(\<And>it. safe_v s (f it)) \<Longrightarrow> (\<And>it. safe_v s (g it)) \<Longrightarrow>
     safe_v s (case r of None \<Rightarrow> None | Some (False, it) \<Rightarrow> f it | Some (True, it) \<Rightarrow> g it)"
  by (auto simp: safe_v_intros split: option.split prod.split bool.split)

lemma safe_v_case:
  "(\<And>a b. safe_v s (f a b)) \<Longrightarrow> safe_v s (case r of None \<Rightarrow> None | Some (a, b) \<Rightarrow> f a b)"
  by (auto simp: safe_v_intros split: option.split)

lemma safe_v_trans: "wf_in s \<Longrightarrow> after s t \<Longrightarrow> safe_v t r \<Longrightarrow> safe_v s r"
  by (simp add: safe_v_def safe_res_trans)

section \<open>The interface to the user's decode callbacks\<close>

text \<open>
  nanopb's documentation asks of a decode callback that it reads its stream with the functions
  of \<^verbatim>\<open>pb_decode.h\<close> only; then it stays in the stream. \<open>cb\<close> is the table of field callbacks,
  \<open>ext\<close> the one of extension decoders.
\<close>

locale decode_callbacks =
  fixes cb :: "addr \<Rightarrow> pb_field \<Rightarrow> addr \<Rightarrow> ('s, 'h) action"
    and ext :: "addr \<Rightarrow> addr \<Rightarrow> u32 \<Rightarrow> u32 \<Rightarrow> ('s, 'h) action"
  assumes cb_safe: "wf_in (d_str st) \<Longrightarrow> safe_res (d_str st) (cb f field arg st)"
    and ext_safe: "wf_in (d_str st) \<Longrightarrow> safe_res (d_str st) (ext f extension tag wt st)"
begin

lemma safe_callback_field:
  assumes env: "d_callback env = cb" and st: "wf_in (d_str st)"
  shows "safe_res (d_str st) (decode_callback_field env wt it st)"
proof -
  note cb = cb_safe [of _ "load_u64 (d_mem st) (it_pData it)" "it_field it" "it_pData it + 8"]
  let ?cb = "cb (load_u64 (d_mem st) (it_pData it)) (it_field it) (it_pData it + 8)"
  have str: "safe_res (d_str st) (rd_then st pb_make_string_substream (\<lambda>substream st.
          case callback_loop (Suc (unat (bytes_left substream))) ?cb (st\<lparr>d_str := substream\<rparr>) of
            None \<Rightarrow> None
          | Some (False, st') \<Rightarrow> dec_error ''callback failed'' (st'\<lparr>d_str := d_str st\<rparr>)
          | Some (True, st') \<Rightarrow>
              (case pb_close_string_substream (d_str st) (d_str st') of
                 None \<Rightarrow> None
               | Some (None, s) \<Rightarrow> ret_false (st'\<lparr>d_str := s\<rparr>)
               | Some (Some _, s) \<Rightarrow> ret_true (st'\<lparr>d_str := s\<rparr>))))"
  proof (rule safe_res_open [OF st])
    fix n t and st1 :: "('s, 'h) dec"
    assume t: "wf_in t" "n \<le> bytes_left t" and st1: "d_str st1 = t\<lparr>bytes_left := bytes_left t - n\<rparr>"
    let ?s = "t\<lparr>bytes_left := n\<rparr>"
    let ?r = "callback_loop (Suc (unat (bytes_left ?s))) ?cb (st1\<lparr>d_str := ?s\<rparr>)"
    have r: "safe_res ?s ?r"
      using safe_callback_loop [OF cb, of "st1\<lparr>d_str := ?s\<rparr>"] sub_wf(1) [OF t]
      by (simp del: callback_loop.simps)
    from sub_wf(1) [OF t] r show "safe_res t (case ?r of
            None \<Rightarrow> None
          | Some (False, st') \<Rightarrow> dec_error ''callback failed'' (st'\<lparr>d_str := d_str st1\<rparr>)
          | Some (True, st') \<Rightarrow>
              (case pb_close_string_substream (d_str st1) (d_str st') of
                 None \<Rightarrow> None
               | Some (None, s) \<Rightarrow> ret_false (st'\<lparr>d_str := s\<rparr>)
               | Some (Some _, s) \<Rightarrow> ret_true (st'\<lparr>d_str := s\<rparr>)))"
    proof (cases rule: res_cases)
      case none
      show ?thesis unfolding none by simp
    next
      case (ok st')
      from safe_res_close [where status = True and p = "d_str st1" and e = None, OF t ok(2) ok(3)] st1
      show ?thesis unfolding ok(1) ret_true_def by simp
    next
      case (fail st')
      show ?thesis unfolding fail(1) using sub_wf(3) [OF t] st1 by (simp add: safe_res_error)
    qed
  qed
  have raw: "safe_res (d_str st1) (case c of
            None \<Rightarrow> None
          | Some (ok, st') \<Rightarrow> Some (ok, st'\<lparr>d_str := d_str st1\<rparr>))"
    if "wf_in (d_str st1)" for c and st1 :: "('s, 'h) dec"
    using that by (auto simp: safe_res_def after_refl behind_refl split: option.splits)
  show ?thesis
    unfolding decode_callback_field_def Let_def env
    by (intro safe_if safe_res_rd_then readers st str raw safe_ret) simp_all
qed

lemma safe_field:
  assumes env: "d_callback env = cb" and dm: "safe_dm dm" and st: "wf_in (d_str st)"
  shows "safe_it (d_str st) (decode_field env dm wt it st)"
proof -
  define u where "u = (if PB_HTYPE (f_type (it_field it)) = PB_HTYPE_ONEOF
            then pb_release_union_field env it st else Some (it, True, st))"
  define k where "k it st = (let atype = PB_ATYPE (f_type (it_field it)) in
       if atype = PB_ATYPE_STATIC then decode_static_field env dm wt it st
       else if atype = PB_ATYPE_POINTER then decode_pointer_field env dm wt it st
       else if atype = PB_ATYPE_CALLBACK then decode_callback_field env wt it st
       else dec_error ''invalid field type'' st)" for it st
  have u: "safe_it (d_str st) u"
    unfolding u_def using st by (intro safe_it_intros safe_union) (simp_all add: after_refl)
  have k: "safe_res (d_str st) (k it st)" if "wf_in (d_str st)" for it st
    unfolding k_def Let_def using that
    by (intro safe_if safe_static_field [OF dm] safe_pointer_field [OF dm] safe_callback_field [OF env] safe_error) simp_all
  show ?thesis
  proof (cases u)
    case None
    then show ?thesis by (simp add: decode_field_def safe_it_intros flip: u_def)
  next
    case (Some r)
    obtain it' ok st' where r: "r = (it', ok, st')" by (cases r)
    have eq: "decode_field env dm wt it st =
        (if ok then map_option (Pair it') (k it' st') else Some (it', False, st'))"
      using Some r by (cases ok) (simp_all add: decode_field_def k_def Let_def flip: u_def)
    show ?thesis
    proof (cases ok)
      case True
      with u Some r have a: "after (d_str st) (d_str st')" by (simp add: safe_it_def safe_res_def)
      from safe_res_trans [OF st a k [OF after_wf [OF st a]]] eq True show ?thesis
        by (simp add: safe_it_def option.map_comp o_def option.map_ident)
    next
      case False
      with u Some r eq show ?thesis by (simp add: safe_it_def)
    qed
  qed
qed

lemma safe_default_extension:
  assumes env: "d_callback env = cb" and dm: "safe_dm dm" and st: "wf_in (d_str st)"
  shows "safe_res (d_str st) (default_extension_decoder env dm extension tag wt st)"
proof -
  have "safe_res (d_str st) (map_option snd (decode_field env dm wt it (set_mem st m)))" for it m
    using safe_field [OF env dm, of "set_mem st m"] st by (simp add: safe_it_def)
  then show ?thesis
    unfolding default_extension_decoder_def Let_def by (intro safe_if safe_ret st refl)
qed

lemma safe_extension_loop:
  assumes env: "d_callback env = cb" "d_ext_decode env = ext" and dm: "safe_dm dm" and st: "wf_in (d_str st)"
  shows "safe_res (d_str st) (decode_extension_loop k env dm pos tag wt e st)"
  using st
proof (induction k arbitrary: e st)
  case 0
  then show ?case by (simp add: safe_ret)
next
  case (Suc k)
  then show ?case
    unfolding decode_extension_loop.simps Let_def env(2)
    by (intro safe_if safe_res_and_then safe_ret refl ext_safe safe_default_extension [OF env(1) dm] Suc.IH)
qed

lemma safe_unknown:
  assumes env: "d_callback env = cb" "d_ext_decode env = ext" and dm: "safe_dm dm" and st: "wf_in (d_str st)"
  shows "safe_v (d_str st) (decode_unknown env dm tag wt v st)"
proof -
  define skip where "skip v st = map_option (\<lambda>(ok, st). (ok, v, st))
      (rd_then st (\<lambda>s. pb_skip_field s wt) (\<lambda>_ st. ret_true st))" for v :: noinit and st :: "('s, 'h) dec"
  have skip: "safe_v (d_str st) (skip v st)" if "wf_in (d_str st)" for v st
  proof -
    have "safe_res (d_str st) (rd_then st (\<lambda>s. pb_skip_field s wt) (\<lambda>_ st. ret_true st))"
      by (intro safe_intros readers that refl)
    then show ?thesis
      by (simp add: safe_v_def skip_def option.map_comp o_def case_prod_unfold option.map_ident)
  qed
  have ext: "safe_v (d_str st) (case decode_extension env dm tag wt it st of None \<Rightarrow> None
        | Some (False, st') \<Rightarrow> Some (False, v, st')
        | Some (True, st') \<Rightarrow> if pos \<noteq> bytes_left (d_str st') then Some (True, v, st') else skip v st')"
    for it v and pos :: u64
  proof -
    have r: "safe_res (d_str st) (decode_extension env dm tag wt it st)"
      unfolding decode_extension_def by (rule safe_extension_loop [OF env dm st])
    from st r show ?thesis
    proof (cases rule: res_cases)
      case none
      then show ?thesis by (simp add: safe_v_intros)
    next
      case (ok st')
      from safe_v_trans [OF st ok(2) skip [OF after_wf [OF st ok(2)]]] ok show ?thesis
        by (auto simp: safe_v_intros)
    next
      case (fail st')
      then show ?thesis by (simp add: safe_v_intros)
    qed
  qed
  show ?thesis
    unfolding decode_unknown_def Let_def skip_def [symmetric]
    by (intro safe_v_intros(4) safe_v_case skip st ext)
qed

lemma safe_one:
  assumes env: "d_callback env = cb" "d_ext_decode env = ext" and dm: "safe_dm dm" and st: "wf_in (d_str st)"
  shows "safe_v (d_str st) (decode_one env slot dm tag wt v st)"
proof -
  have fixed: "d_str st' = d_str st \<or> (\<not> ok \<and> (\<exists>msg. d_str st' = with_error msg (d_str st)))"
    if "enter_fixed_count slot v st = (ok, v', st')" for v v' ok st'
    using that unfolding enter_fixed_count_def Let_def
    by (auto split: if_splits option.splits)
  have field: "safe_v (d_str st) (map_option (\<lambda>(it, ok, st). (ok, v\<lparr>n_iter := it\<rparr>, st)) (decode_field env dm wt it st'))"
    if "d_str st' = d_str st" for st' v it
    using safe_field [OF env(1) dm, of st' wt it] that st
    by (simp add: safe_v_def safe_it_def option.map_comp o_def case_prod_unfold)
  have found: "safe_v (d_str st) (case enter_fixed_count slot v st of
             (False, v, st) \<Rightarrow> Some (False, v, st)
           | (True, v, st) \<Rightarrow>
               let v = mark_seen v in
               map_option (\<lambda>(it, ok, st). (ok, v\<lparr>n_iter := it\<rparr>, st))
                 (decode_field env dm wt (n_iter v) st))" for v
  proof -
    obtain ok v' st' where e: "enter_fixed_count slot v st = (ok, v', st')"
      by (cases "enter_fixed_count slot v st")
    show ?thesis
    proof (cases ok)
      case True
      with fixed [OF e] field [of st'] show ?thesis by (simp add: e Let_def)
    next
      case False
      with fixed [OF e] st behind_refl [OF st] behind_with_error [OF behind_refl [OF st]] show ?thesis
        by (auto simp: e safe_v_intros)
    qed
  qed
  show ?thesis
    unfolding decode_one_def by (intro safe_v_find safe_unknown [OF env dm st] found)
qed

section \<open>Messages\<close>

lemma safe_loop:
  assumes env: "d_callback env = cb" "d_ext_decode env = ext" and dm: "safe_dm dm" and st: "wf_in (d_str st)"
  shows "safe_v (d_str st) (decode_loop k env slot dm v st)"
  using st
proof (induction k arbitrary: v st)
  case 0
  show ?case by (simp add: safe_v_intros)
next
  case (Suc k)
  note st = Suc.prems
  show ?case
  proof (cases "bytes_left (d_str st) = 0")
    case True
    then show ?thesis by (simp add: safe_v_intros after_refl [OF st])
  next
    case more: False
    from st show ?thesis
    proof (cases rule: decode_tag_cases)
      case (fail t)
      with more show ?thesis by (simp add: safe_v_intros)
    next
      case (eof t)
      with more show ?thesis by (simp add: safe_v_intros)
    next
      case (ok tag wt t)
      note wt = after_wf [OF st ok(2)]
      let ?r = "decode_one env slot dm tag wt v (st\<lparr>d_str := t\<rparr>)"
      have one: "safe_v t ?r" using safe_one [OF env dm, of "st\<lparr>d_str := t\<rparr>"] wt by simp
      have "safe_v t (case ?r of None \<Rightarrow> None | Some (False, v, st) \<Rightarrow> Some (False, v, st)
          | Some (True, v, st) \<Rightarrow> decode_loop k env slot dm v st)"
      proof (cases ?r)
        case None
        show ?thesis unfolding None by (simp add: safe_v_intros)
      next
        case (Some r)
        obtain b v' st' where r: "r = (b, v', st')" by (cases r)
        show ?thesis
        proof (cases b)
          case True
          with one Some r have a: "after t (d_str st')" by (simp add: safe_v_def safe_res_def)
          from safe_v_trans [OF wt a Suc.IH [OF after_wf [OF wt a]]] show ?thesis
            unfolding Some r using True by simp
        next
          case False
          with one Some r show ?thesis by (simp add: safe_v_def)
        qed
      qed
      with safe_v_trans [OF st ok(2)] ok(1) more show ?thesis by simp
    qed
  qed
qed

lemma safe_finish: "wf_in (d_str st) \<Longrightarrow> safe_res (d_str st) (finish_noinit slot v st)"
  unfolding finish_noinit_def by (intro safe_if safe_ret safe_error refl)

lemma safe_with:
  assumes noinit: "\<And>st. wf_in (d_str st) \<Longrightarrow> safe_res (d_str st) (noinit fs dest st)"
    and st: "wf_in (d_str st)"
  shows "safe_res (d_str st) (decode_with env noinit fs dest st)"
proof -
  have rel: "safe_res (d_str st) (case noinit fs dest st of
         None \<Rightarrow> None
       | Some (True, st) \<Rightarrow> ret_true st
       | Some (False, st) \<Rightarrow>
           (case pb_release env (d_depth env) fs dest st of
              None \<Rightarrow> None
            | Some (_, st) \<Rightarrow> ret_false st))" if "wf_in (d_str st)" for st
    using that noinit [OF that]
  proof (cases rule: res_cases)
    case (fail st')
    from kept_release(2) [of st' "d_str st'" env "d_depth env" fs dest] fail show ?thesis
      by (auto simp: kept_def safe_res_false)
  qed (simp_all add: safe_res_true)
  show ?thesis
    unfolding decode_with_def by (intro safe_res_and_then st safe_kept kept_defaults refl rel)
qed

lemma safe_noinit:
  assumes env: "d_callback env = cb" "d_ext_decode env = ext" and st: "wf_in (d_str st)"
  shows "safe_res (d_str st) (pb_decode_noinit env n fs dest st)"
  using st
proof (induction n arbitrary: fs dest st)
  case 0
  show ?case by simp
next
  case (Suc n)
  note st = Suc.prems
  define dm where "dm init fs dest st = (if init then decode_with env (pb_decode_noinit env n) fs dest st
            else pb_decode_noinit env n fs dest st)" for init fs dest st
  have dm: "safe_dm dm"
    unfolding safe_dm_def dm_def using safe_with [OF Suc.IH] Suc.IH by simp
  let ?st = "set_mem st (store_u32 (d_mem st) (d_local env n) 0)"
  let ?r = "decode_loop (Suc (unat (bytes_left (d_str st)))) env (d_local env n) dm (noinit_init fs dest) ?st"
  have loop: "safe_v (d_str st) ?r"
    using safe_loop [OF env dm, of ?st] st by (simp del: decode_loop.simps)
  have eq: "pb_decode_noinit env (Suc n) fs dest st = (case ?r of None \<Rightarrow> None
      | Some (False, v, st) \<Rightarrow> ret_false st | Some (True, v, st) \<Rightarrow> finish_noinit (d_local env n) v st)"
    unfolding pb_decode_noinit.simps Let_def dm_def [abs_def] by (rule refl)
  show ?case
  proof (cases ?r)
    case None
    show ?thesis unfolding eq None by simp
  next
    case (Some r)
    obtain b v' st' where r: "r = (b, v', st')" by (cases r)
    show ?thesis
    proof (cases b)
      case True
      have a: "after (d_str st) (d_str st')" using loop True unfolding Some r by (simp add: safe_v_iff)
      from safe_res_trans [OF st a safe_finish [OF after_wf [OF st a]]] True show ?thesis
        unfolding eq Some r by simp
    next
      case False
      then show ?thesis using loop unfolding eq Some r by (simp add: safe_v_iff safe_res_false)
    qed
  qed
qed

lemma safe_decode:
  assumes env: "d_callback env = cb" "d_ext_decode env = ext" and st: "wf_in (d_str st)"
  shows "safe_res (d_str st) (pb_decode env n fs dest st)"
  unfolding pb_decode_def by (rule safe_with [OF safe_noinit [OF env] st])

text \<open>
  The fuel of the loop over the fields, one unit per byte left and one more, is enough: each
  round reads at least the byte of a tag, so more fuel changes nothing.
\<close>

lemma loop_fuel:
  assumes env: "d_callback env = cb" "d_ext_decode env = ext" and dm: "safe_dm dm" and st: "wf_in (d_str st)"
    and k: "unat (bytes_left (d_str st)) < k" and j: "unat (bytes_left (d_str st)) < j"
  shows "decode_loop k env slot dm v st = decode_loop j env slot dm v st"
  using st k j
proof (induction k arbitrary: j v st)
  case (Suc k)
  note st = Suc.prems(1)
  from Suc.prems(3) obtain i where j: "j = Suc i" by (cases j) auto
  show ?case
  proof (cases "bytes_left (d_str st) = 0")
    case more: False
    from st show ?thesis
    proof (cases rule: decode_tag_cases)
      case (ok tag wt t)
      note wt = after_wf [OF st ok(2)]
      let ?r = "decode_one env slot dm tag wt v (st\<lparr>d_str := t\<rparr>)"
      have one: "safe_v t ?r" using safe_one [OF env dm, of "st\<lparr>d_str := t\<rparr>"] wt by simp
      have "decode_loop k env slot dm v' st' = decode_loop i env slot dm v' st'"
        if r: "?r = Some (True, v', st')" for v' st'
      proof -
        from one r have a: "after t (d_str st')" by (simp add: safe_v_def safe_res_def)
        from after_le [OF a] ok(3) Suc.prems(2,3) j show ?thesis
          by (intro Suc.IH after_wf [OF wt a]) simp_all
      qed
      with ok more j show ?thesis by (auto split: option.split bool.split)
    qed (use more j in simp_all)
  qed (use j in simp)
qed simp

end

end
