(* ===== verification/Pb_Bounds.thy ===== *)
theory Pb_Bounds
  imports Pb_Decode_Safe
begin

text \<open>
  Where the decoder may write. For a static field that is no submessage, whatever the input,
  the decoder of the field stores only into the storage the descriptor gives it: the field
  itself, or its array, and its count or has flag.
\<close>

section \<open>Values\<close>

text \<open>\<open>unchanged A st r\<close>: if the run returns, it has not changed memory outside of \<open>A\<close>.\<close>

definition unchanged :: "addr set \<Rightarrow> mem \<Rightarrow> ('s, 'h) dec cres \<Rightarrow> bool" where
  "unchanged A m r \<longleftrightarrow> (case r of None \<Rightarrow> True | Some (ok, st) \<Rightarrow> \<forall>x. x \<notin> A \<longrightarrow> d_mem st x = m x)"

definition block :: "addr \<Rightarrow> nat \<Rightarrow> addr set" where
  "block a n = {x. unat (x - a) < n}"

lemma unchangedI:
  "(\<And>ok st x. r = Some (ok, st) \<Longrightarrow> x \<notin> A \<Longrightarrow> d_mem st x = m x) \<Longrightarrow> unchanged A m r"
  by (simp add: unchanged_def split: option.split)

lemma unchanged_None [simp]: "unchanged A m None"
  by (simp add: unchanged_def)

lemma unchanged_mono: "unchanged A m r \<Longrightarrow> A \<subseteq> B \<Longrightarrow> unchanged B m r"
  by (auto simp: unchanged_def split: option.splits)

lemma block_mono: "n \<le> k \<Longrightarrow> block a n \<subseteq> block a k"
  by (auto simp: block_def)

lemma unchanged_ret:
  "(\<And>x. x \<notin> A \<Longrightarrow> d_mem st x = m x) \<Longrightarrow> unchanged A m (ret_true st)"
  "(\<And>x. x \<notin> A \<Longrightarrow> d_mem st x = m x) \<Longrightarrow> unchanged A m (ret_false st)"
  "(\<And>x. x \<notin> A \<Longrightarrow> d_mem st x = m x) \<Longrightarrow> unchanged A m (dec_error msg st)"
  by (auto simp: unchanged_def ret_true_def ret_false_def dec_error_def)

lemma unchanged_if: "unchanged A m a \<Longrightarrow> unchanged A m b \<Longrightarrow> unchanged A m (if c then a else b)"
  by simp

lemma unchanged_store:
  "length bs \<le> n \<Longrightarrow> x \<notin> block a n \<Longrightarrow> store m a bs x = m x"
  by (simp add: block_def store_outside)

lemma unchanged_trans:
  "(\<And>x. x \<notin> A \<Longrightarrow> m' x = m x) \<Longrightarrow> unchanged A m' r \<Longrightarrow> unchanged A m r"
  by (auto simp: unchanged_def split: option.splits)

lemma unchanged_and_then:
  assumes "unchanged A m r" and "\<And>st. r = Some (True, st) \<Longrightarrow> unchanged A (d_mem st) (g st)"
  shows "unchanged A m (and_then r g)"
proof (rule unchangedI)
  fix ok st x assume "and_then r g = Some (ok, st)" and x: "x \<notin> A"
  then show "d_mem st x = m x"
  proof (cases rule: and_then_cases)
    case 1
    with assms(1) x show ?thesis by (simp add: unchanged_def)
  next
    case (2 st')
    with assms(1) x have "d_mem st' x = m x" by (simp add: unchanged_def)
    moreover have "d_mem st x = d_mem st' x" using assms(2) [OF 2(1)] 2(2) x by (simp add: unchanged_def)
    ultimately show ?thesis by simp
  qed
qed

lemma unchanged_rd_then:
  assumes "\<And>a s. r (d_str st) = Some (Some a, s) \<Longrightarrow> unchanged A (d_mem st) (k a (st\<lparr>d_str := s\<rparr>))"
  shows "unchanged A (d_mem st) (rd_then st r k)"
  using assms by (auto simp: rd_then_def unchanged_ret split: option.split)

lemma read_length:
  assumes "wf_in s" and "pb_read s b n = Some (Some bs, t)"
  shows "length bs = unat n"
proof (cases "unat n \<le> length (input s)")
  case True
  with pb_read_ok [OF assms(1), of n b] assms(2) show ?thesis by (simp add: rd_ok_def)
next
  case False
  with pb_read_short [OF assms(1), of n b] assms(2) show ?thesis by (simp add: rd_error_def rd_fail_def)
qed

lemma unchanged_read_to:
  "wf_in (d_str st) \<Longrightarrow> unat n \<le> k \<Longrightarrow> unchanged (block dest k) (d_mem st) (read_to st dest n)"
  unfolding read_to_def
  by (intro unchanged_rd_then unchanged_ret)
    (auto dest!: read_length [rotated] simp: set_mem_def intro: unchanged_store)

text \<open>A field whose storage is large enough for the value that its decoder stores.\<close>

definition field_ok :: "pb_field \<Rightarrow> bool" where
  "field_ok f \<longleftrightarrow> (let l = PB_LTYPE (f_type f); n = unat (f_data_size f) in
     (l = PB_LTYPE_BOOL \<longrightarrow> 1 \<le> n) \<and> (l = PB_LTYPE_FIXED32 \<longrightarrow> 4 \<le> n) \<and> (l = PB_LTYPE_FIXED64 \<longrightarrow> 8 \<le> n))"

lemma unchanged_finish:
  assumes "\<And>m' c x. w = Some (m', c) \<Longrightarrow> x \<notin> A \<Longrightarrow> m' x = m x" and "d_mem st = m"
  shows "unchanged A m (finish_write w v st)"
  unfolding finish_write_def
  by (cases w) (auto simp: unchanged_def dec_error_def ret_false_def ret_true_def set_mem_def assms)

lemma write_int_block:
  "write_int m dest sz v = Some (m', c) \<Longrightarrow> x \<notin> block dest (unat sz) \<Longrightarrow> m' x = m x"
  by (auto simp: write_int_def store_u64_def block_def store_outside split: if_splits)

lemma write_uint_block:
  "write_uint m dest sz v = Some (m', c) \<Longrightarrow> x \<notin> block dest (unat sz) \<Longrightarrow> m' x = m x"
  by (auto simp: write_uint_def store_u64_def block_def store_outside split: if_splits)

lemma unchanged_ints:
  "unchanged (block dest (unat (f_data_size field))) (d_mem st) (pb_dec_varint field dest st)"
  "unchanged (block dest (unat (f_data_size field))) (d_mem st) (pb_dec_uvarint field dest st)"
  "unchanged (block dest (unat (f_data_size field))) (d_mem st) (pb_dec_svarint field dest st)"
  unfolding pb_dec_varint_def pb_dec_uvarint_def pb_dec_svarint_def Let_def
  by (intro unchanged_rd_then unchanged_finish; force dest: write_int_block write_uint_block)+

lemma unchanged_bool: "1 \<le> n \<Longrightarrow> unchanged (block dest n) (d_mem st) (pb_dec_bool field dest st)"
  unfolding pb_dec_bool_def
  by (intro unchanged_rd_then unchanged_ret) (auto simp: set_mem_def block_def)

lemma unchanged_fixed:
  "4 \<le> n \<Longrightarrow> unchanged (block dest n) (d_mem st) (pb_dec_fixed32 field dest st)"
  "8 \<le> n \<Longrightarrow> unchanged (block dest n) (d_mem st) (pb_dec_fixed64 field dest st)"
  unfolding pb_dec_fixed32_def pb_dec_fixed64_def
  by (intro unchanged_rd_then unchanged_ret; simp add: set_mem_def store_u32_def store_u64_def unchanged_store)+

lemma varint32_wf:
  assumes "wf_in s" and "pb_decode_varint32 s = Some (Some n, t)"
  shows "wf_in t"
  using readerD [OF reader_varint32 assms(1)] after_wf [OF assms(1)]
  by (cases rule: good_cases) (simp_all add: assms(2))

lemma unchanged_fixed_length_bytes:
  assumes "wf_in (d_str st)"
  shows "unchanged (block dest (unat (f_data_size field))) (d_mem st) (pb_dec_fixed_length_bytes field dest st)"
  unfolding pb_dec_fixed_length_bytes_def
proof (rule unchanged_rd_then)
  fix sz s assume r: "pb_decode_varint32 (d_str st) = Some (Some sz, s)"
  let ?st = "st\<lparr>d_str := s\<rparr>"
  have "unchanged (block dest (unat (f_data_size field))) (d_mem ?st) (read_to ?st dest (ucast (f_data_size field)))"
    by (rule unchanged_read_to) (use varint32_wf [OF assms r] in simp_all)
  then show "unchanged (block dest (unat (f_data_size field))) (d_mem st)
     (if PB_SIZE_MAX < sz then dec_error ''bytes overflow'' ?st
     else if sz = 0 then ret_true (set_mem ?st (memset0 (d_mem ?st) dest (unat (f_data_size field))))
     else if sz \<noteq> f_data_size field then dec_error ''incorrect fixed length bytes size'' ?st
     else read_to ?st dest (ucast (f_data_size field)))"
    by (intro unchanged_if unchanged_ret) (simp_all add: set_mem_def memset0_def block_def store_outside)
qed

lemma unchanged_string:
  assumes st: "wf_in (d_str st)" and field: "PB_ATYPE (f_type field) \<noteq> PB_ATYPE_POINTER"
  shows "unchanged (block dest (unat (f_data_size field))) (d_mem st) (pb_dec_string env field dest st)"
  unfolding pb_dec_string_def Let_def
proof (rule unchanged_rd_then)
  fix sz s assume r: "pb_decode_varint32 (d_str st) = Some (Some sz, s)"
  let ?A = "block dest (unat (f_data_size field))"
  define st1 where "st1 = st\<lparr>d_str := s\<rparr>"
  have wf: "wf_in (d_str st1)" using varint32_wf [OF st r] by (simp add: st1_def)
  have m1: "d_mem st1 = d_mem st" by (simp add: st1_def)
  have fill: "unchanged ?A (d_mem st1) (case read_to st1 dest (ucast sz) of None \<Rightarrow> None
      | Some (status, st) \<Rightarrow> Some (status, set_mem st ((d_mem st)(dest + ucast sz := 0))))"
    if a: "\<not> ucast (sz + 1) < (ucast sz :: u64)" "\<not> ucast (f_data_size field) < (ucast (sz + 1) :: u64)"
  proof -
    have sz: "unat sz + 1 \<le> unat (f_data_size field)"
    proof (cases "unat sz + 1 < 2 ^ 32")
      case True
      then have "unat (sz + 1) = unat sz + 1" by (simp add: unat_plus_small)
      with a(2) show ?thesis by (simp add: word_less_nat_alt)
    next
      case False
      then have "unat sz = 2 ^ 32 - 1" using unat_bound [of sz] by simp
      then have "sz = 0xFFFFFFFF" by (simp add: word_unat_eq_iff)
      with a(1) show ?thesis by simp
    qed
    have read: "unchanged ?A (d_mem st1) (read_to st1 dest (ucast sz))"
      by (rule unchanged_read_to [OF wf]) (use sz in simp)
    have last: "dest + ucast sz \<in> ?A" using sz by (simp add: block_def)
    show ?thesis
    proof (rule unchangedI)
      fix ok st2 x
      assume "(case read_to st1 dest (ucast sz) of None \<Rightarrow> None
        | Some (status, st) \<Rightarrow> Some (status, set_mem st ((d_mem st)(dest + ucast sz := 0)))) = Some (ok, st2)"
        and x: "x \<notin> ?A"
      then show "d_mem st2 x = d_mem st1 x"
        using read last by (auto simp: unchanged_def set_mem_def split: option.splits)
    qed
  qed
  show "unchanged ?A (d_mem st)
     (if ucast (sz + 1) < (ucast sz :: u64) then dec_error ''size too large'' st1
      else if PB_ATYPE (f_type field) = PB_ATYPE_POINTER
      then and_then (allocate_field env dest (ucast (sz + 1)) 1 st1) (\<lambda>st.
        case read_to st (load_u64 (d_mem st) dest) (ucast sz) of None \<Rightarrow> None
        | Some (status, st') \<Rightarrow> Some (status, set_mem st' ((d_mem st')(load_u64 (d_mem st) dest + ucast sz := 0))))
      else if ucast (f_data_size field) < (ucast (sz + 1) :: u64) then dec_error ''string overflow'' st1
      else case read_to st1 dest (ucast sz) of None \<Rightarrow> None
        | Some (status, st) \<Rightarrow> Some (status, set_mem st ((d_mem st)(dest + ucast sz := 0))))"
    using field fill unchanged_ret(3) [of ?A st1 "d_mem st"] by (auto simp: m1)
qed

lemma unchanged_bytes:
  assumes st: "wf_in (d_str st)" and field: "PB_ATYPE (f_type field) \<noteq> PB_ATYPE_POINTER"
  shows "unchanged (block dest (unat (f_data_size field))) (d_mem st) (pb_dec_bytes env field dest st)"
  unfolding pb_dec_bytes_def Let_def
proof (rule unchanged_rd_then)
  fix sz s assume r: "pb_decode_varint32 (d_str st) = Some (Some sz, s)"
  let ?A = "block dest (unat (f_data_size field))"
  define st1 where "st1 = st\<lparr>d_str := s\<rparr>"
  define st2 where "st2 = set_mem st1 (store_u32 (d_mem st1) dest sz)"
  have wf: "wf_in (d_str st2)" using varint32_wf [OF st r] by (simp add: st1_def st2_def)
  have m1: "d_mem st1 = d_mem st" by (simp add: st1_def)
  have fill: "unchanged ?A (d_mem st1) (read_to st2 (dest + 4) (ucast sz))"
    if a: "\<not> ucast (f_data_size field) < (ucast sz + 4 :: u64)"
  proof -
    have "unat (ucast sz + 4 :: u64) = unat sz + 4"
      using unat_bound [of sz] by (subst unat_plus_small) simp_all
    with a have sz: "unat sz + 4 \<le> unat (f_data_size field)" by (simp add: word_less_nat_alt)
    have "block (dest + 4) (unat sz) \<subseteq> ?A"
    proof
      fix x assume "x \<in> block (dest + 4) (unat sz)"
      then have x: "unat (x - dest - 4) < unat sz" by (simp add: block_def diff_diff_add)
      have "unat (x - dest) = unat ((x - dest - 4) + 4)" by simp
      also have "\<dots> = unat (x - dest - 4) + 4"
        using x sz unat_bound [of "f_data_size field"] by (subst unat_plus_small) simp_all
      finally show "x \<in> ?A" using x sz by (simp add: block_def)
    qed
    moreover have "unchanged (block (dest + 4) (unat sz)) (d_mem st2) (read_to st2 (dest + 4) (ucast sz))"
      by (rule unchanged_read_to [OF wf]) simp
    moreover have "d_mem st2 x = d_mem st1 x" if "x \<notin> ?A" for x
      using that sz by (simp add: st2_def set_mem_def store_u32_def block_def store_outside)
    ultimately show ?thesis by (meson unchanged_mono unchanged_trans)
  qed
  show "unchanged ?A (d_mem st)
     (if PB_SIZE_MAX < sz then dec_error ''bytes overflow'' st1
        else if ucast sz + 4 < (ucast sz :: u64) then dec_error ''size too large'' st1
        else if PB_ATYPE (f_type field) = PB_ATYPE_POINTER
        then and_then (allocate_field env dest (ucast sz + 4) 1 st1)
               (\<lambda>st. read_to (set_mem st (store_u32 (d_mem st) (load_u64 (d_mem st) dest) sz))
                  (load_u64 (d_mem st) dest + 4) (ucast sz))
        else if ucast (f_data_size field) < (ucast sz + 4 :: u64) then dec_error ''bytes overflow'' st1
        else read_to (set_mem st1 (store_u32 (d_mem st1) dest sz)) (dest + 4) (ucast sz))"
    using field fill unchanged_ret(3) [of ?A st1 "d_mem st"] by (auto simp: m1 st2_def)
qed

lemma unchanged_decoders:
  assumes st: "wf_in (d_str st)" and field: "PB_ATYPE (f_type field) \<noteq> PB_ATYPE_POINTER" "field_ok field"
    and l: "PB_LTYPE (f_type field) \<noteq> PB_LTYPE_SUBMESSAGE"
  shows "unchanged (block dest (unat (f_data_size field))) (d_mem st)
    (PB_DECODERS env dm (PB_LTYPE (f_type field)) field dest st)"
  using field(2) l unfolding PB_DECODERS_def field_ok_def Let_def
  by (auto intro!: unchanged_bool unchanged_ints unchanged_fixed unchanged_bytes unchanged_string
      unchanged_fixed_length_bytes st field(1))

section \<open>Fields\<close>

text \<open>The offset may have wrapped around at 32 bits; then the array is so large that the item is still inside it.\<close>

lemma block_item:
  assumes "n < f_array_size f"
  shows "block (pItem_at base f n) (unat (f_data_size f))
    \<subseteq> block base (unat (f_data_size f) * unat (f_array_size f))"
proof
  fix x assume x: "x \<in> block (pItem_at base f n) (unat (f_data_size f))"
  let ?d = "unat (f_data_size f)" and ?n = "unat n" and ?a = "unat (f_array_size f)"
  have n: "Suc ?n \<le> ?a" using assms by (simp add: word_less_nat_alt)
  have le: "?d * Suc ?n \<le> ?d * ?a" using n by (rule mult_le_mono2)
  define off where "off = (ucast (f_data_size f * n) :: u64)"
  have off: "unat off \<le> ?d * ?n" "unat off < 2 ^ 32"
    using unat_bound [of "f_data_size f * n"] by (simp_all add: off_def unat_word_ariths)
  have d: "unat (x - base - off) < ?d"
    using x by (simp add: block_def pItem_at_def off_def diff_diff_add)
  have "?d < 2 ^ 32" using unat_bound [of "f_data_size f"] by simp
  then have "unat (x - base - off) + unat off < 2 ^ LENGTH(64)" using d off(2) by simp
  from unat_plus_small [OF this] have "unat (x - base) = unat (x - base - off) + unat off" by simp
  then have "unat (x - base) < ?d * ?a" using d le off(1) by simp
  then show "x \<in> block base (?d * ?a)" by (simp add: block_def)
qed

lemma decoders_other:
  "l \<noteq> PB_LTYPE_SUBMESSAGE \<Longrightarrow> PB_DECODERS env dm l = PB_DECODERS env dm' l"
  by (intro ext) (simp add: PB_DECODERS_def)

lemma safe_value_decoders:
  assumes "l \<noteq> PB_LTYPE_SUBMESSAGE" and "wf_in (d_str st)"
  shows "safe_res (d_str st) (PB_DECODERS env dm l field dest st)"
  using safe_decoders [of "\<lambda>init fs dest st. None", OF _ assms(2)] decoders_other [OF assms(1)]
  by (metis safe_dm_def safe_res_None)

lemma unchanged_store_u32: "x \<notin> block a 4 \<Longrightarrow> store_u32 m a v x = m x"
  by (simp add: store_u32_def block_def store_outside)

lemma unchanged_packed_static:
  fixes field :: pb_field
  assumes item: "\<And>n st. n < f_array_size field \<Longrightarrow> wf_in (d_str st) \<Longrightarrow>
      unchanged A (d_mem st) (func field (pItem_at pData field n) st)"
    and safe: "\<And>p st. wf_in (d_str st) \<Longrightarrow> safe_res (d_str st) (func field p st)"
    and st: "wf_in (d_str st)" and A: "block pSize 4 \<subseteq> A"
  shows "unchanged A (d_mem st) (packed_static k func field pData pSize st)"
  using st
proof (induction k arbitrary: st)
  case (Suc k)
  let ?n = "load_u32 (d_mem st) pSize"
  let ?next = "\<lambda>st. set_mem st (store_u32 (d_mem st) pSize (load_u32 (d_mem st) pSize + 1))"
  have "unchanged A (d_mem st) (and_then (func field (pItem_at pData field ?n) st)
      (\<lambda>st. packed_static k func field pData pSize (?next st)))" if "?n < f_array_size field"
  proof (rule unchanged_and_then [OF item [OF that Suc.prems]])
    fix st' assume "func field (pItem_at pData field ?n) st = Some (True, st')"
    with safe [OF Suc.prems, of "pItem_at pData field ?n"] have "wf_in (d_str st')"
      using after_wf [OF Suc.prems] by (simp add: safe_res_def)
    then have "unchanged A (d_mem (?next st')) (packed_static k func field pData pSize (?next st'))"
      by (intro Suc.IH) simp
    then show "unchanged A (d_mem st') (packed_static k func field pData pSize (?next st'))"
      by (rule unchanged_trans [rotated])
        (use A unchanged_store_u32 [of _ pSize] in \<open>auto simp: set_mem_def\<close>)
  qed
  then show ?case by (auto simp: Let_def intro: unchanged_ret)
qed simp

definition field_storage :: "pb_field_iter \<Rightarrow> addr set" where
  "field_storage it = block (it_pData it)
     (unat (f_data_size (it_field it)) *
      (if PB_HTYPE (f_type (it_field it)) = PB_HTYPE_REPEATED then unat (f_array_size (it_field it)) else 1))
   \<union> block (it_pSize it) 4"

lemma unchanged_packed_field:
  fixes field :: pb_field
  assumes item: "\<And>n st. n < f_array_size field \<Longrightarrow> wf_in (d_str st) \<Longrightarrow>
      unchanged A (d_mem st) (func field (pItem_at pData field n) st)"
    and safe: "\<And>p st. wf_in (d_str st) \<Longrightarrow> safe_res (d_str st) (func field p st)"
    and st: "wf_in (d_str st)" and A: "block pSize 4 \<subseteq> A"
  shows "unchanged A (d_mem st) (rd_then st pb_make_string_substream (\<lambda>substream st.
            case packed_static (k substream) func field pData pSize (st\<lparr>d_str := substream\<rparr>) of
              None \<Rightarrow> None
            | Some (status, st') \<Rightarrow>
                if bytes_left (d_str st') \<noteq> 0
                then dec_error ''array overflow'' (st'\<lparr>d_str := d_str st\<rparr>)
                else (case pb_close_string_substream (d_str st) (d_str st') of
                   None \<Rightarrow> None
                 | Some (None, s) \<Rightarrow> ret_false (st'\<lparr>d_str := s\<rparr>)
                 | Some (Some _, s) \<Rightarrow> Some (status, st'\<lparr>d_str := s\<rparr>))))"
proof (rule unchanged_rd_then)
  fix sub s assume r: "pb_make_string_substream (d_str st) = Some (Some sub, s)"
  from st have sub: "wf_in sub"
  proof (cases rule: open_substream)
    case (ok n t)
    with r sub_wf(1) [OF after_wf [OF st ok(2)] ok(3)] show ?thesis by (simp add: rd_ok_def)
  qed (use r in \<open>simp add: rd_fail_def\<close>)
  let ?r = "packed_static (k sub) func field pData pSize (st\<lparr>d_str := sub\<rparr>)"
  have "unchanged A (d_mem (st\<lparr>d_str := sub\<rparr>)) ?r"
    by (rule unchanged_packed_static [where func = func and field = field and pData = pData]) (use item safe A sub in simp_all)
  then show "unchanged A (d_mem st) (case packed_static (k sub) func field pData pSize (st\<lparr>d_str := s\<rparr>\<lparr>d_str := sub\<rparr>) of
              None \<Rightarrow> None
            | Some (status, st') \<Rightarrow>
                if bytes_left (d_str st') \<noteq> 0
                then dec_error ''array overflow'' (st'\<lparr>d_str := d_str (st\<lparr>d_str := s\<rparr>)\<rparr>)
                else (case pb_close_string_substream (d_str (st\<lparr>d_str := s\<rparr>)) (d_str st') of
                   None \<Rightarrow> None
                 | Some (None, s) \<Rightarrow> ret_false (st'\<lparr>d_str := s\<rparr>)
                 | Some (Some _, s) \<Rightarrow> Some (status, st'\<lparr>d_str := s\<rparr>)))"
    by (auto simp: unchanged_def dec_error_def ret_false_def split: option.splits)
qed

lemma static_field_unchanged:
  assumes st: "wf_in (d_str st)"
    and field: "PB_ATYPE (f_type (it_field it)) = PB_ATYPE_STATIC" "field_ok (it_field it)"
      "PB_LTYPE (f_type (it_field it)) \<noteq> PB_LTYPE_SUBMESSAGE"
  shows "unchanged (field_storage it) (d_mem st) (decode_static_field env dm wt it st)"
proof -
  define A where "A = field_storage it"
  let ?f = "it_field it" and ?h = "PB_HTYPE (f_type (it_field it))"
  let ?func = "PB_DECODERS env dm (PB_LTYPE (f_type ?f))"
  have size: "block (it_pSize it) 4 \<subseteq> A" by (simp add: A_def field_storage_def)
  have at: "PB_ATYPE (f_type ?f) \<noteq> PB_ATYPE_POINTER" using field(1) by simp
  note vals = unchanged_decoders [OF _ at field(2,3)]
  have single: "unchanged A m (?func ?f (it_pData it) st')"
    if "?h \<noteq> PB_HTYPE_REPEATED" "d_str st' = d_str st" "\<And>x. x \<notin> A \<Longrightarrow> d_mem st' x = m x" for st' m
    by (rule unchanged_trans [OF that(3) unchanged_mono [OF vals]])
      (use that(1,2) st in \<open>simp_all add: A_def field_storage_def\<close>)
  have item: "unchanged A (d_mem st) (?func ?f (pItem_at (it_pData it) ?f n) st)"
    if "?h = PB_HTYPE_REPEATED" "n < f_array_size ?f" "wf_in (d_str st)" for n st
    by (rule unchanged_mono [OF vals [OF that(3)] order_trans [OF block_item [OF that(2)]]])
      (simp add: A_def field_storage_def that(1))
  have one: "x \<noteq> it_pSize it" if "x \<notin> A" for x
  proof -
    have "it_pSize it \<in> block (it_pSize it) 4" by (simp add: block_def)
    with that size show ?thesis by blast
  qed
  have u32: "store_u32 m (it_pSize it) v x = m x" if "x \<notin> A" for x m v
    using that size by (intro unchanged_store_u32) auto
  have repeated: "unchanged A (d_mem st) (?func ?f (pItem_at (it_pData it) ?f n) (set_mem st (store_u32 (d_mem st) (it_pSize it) v)))"
    if "?h = PB_HTYPE_REPEATED" "n < f_array_size ?f" for n v
    by (rule unchanged_trans [OF _ item [OF that]]) (use u32 st in \<open>simp_all add: set_mem_def\<close>)
  have packed: "unchanged A (d_mem st) (rd_then st pb_make_string_substream (\<lambda>substream st.
            case packed_static (k substream) ?func ?f (it_pData it) (it_pSize it) (st\<lparr>d_str := substream\<rparr>) of
              None \<Rightarrow> None
            | Some (status, st') \<Rightarrow>
                if bytes_left (d_str st') \<noteq> 0
                then dec_error ''array overflow'' (st'\<lparr>d_str := d_str st\<rparr>)
                else (case pb_close_string_substream (d_str st) (d_str st') of
                   None \<Rightarrow> None
                 | Some (None, s) \<Rightarrow> ret_false (st'\<lparr>d_str := s\<rparr>)
                 | Some (Some _, s) \<Rightarrow> Some (status, st'\<lparr>d_str := s\<rparr>))))"
    if "?h = PB_HTYPE_REPEATED" for k
    by (rule unchanged_packed_field [where func = ?func and field = ?f])
      (use item [OF that] safe_value_decoders [OF field(3)] st size in simp_all)
  show ?thesis
    unfolding A_def [symmetric] decode_static_field_def Let_def
    using field(3) single one u32 repeated packed
    by (auto simp: set_mem_def not_le simp del: packed_static.simps intro!: unchanged_ret)
qed

text \<open>
  Allocated arrays have no such limit: their items are addressed with the same 32-bit product, so the item behind
  $2^{28}$ items of 16 bytes has the address of the first one.
\<close>

lemma item_address_wraps: "f_data_size field = 16 \<Longrightarrow> pItem_at base field (2 ^ 28) = pItem_at base field 0"
  by (simp add: pItem_at_def)

end
