(* ===== verification/Pb_Required.thy ===== *)
theory Pb_Required
  imports Pb_Message
begin

text \<open>
  The required-field check of \<^verbatim>\<open>pb_decode_noinit\<close>: the two words of \<^verbatim>\<open>fields_seen\<close> as a set of
  indices, the number of required fields found by walking to the end of the descriptor, and the
  theorem that a message is accepted only if each of its first 64 required fields was read.
\<close>

section \<open>Required fields of a descriptor\<close>

definition is_required :: "pb_field \<Rightarrow> bool" where
  "is_required f \<longleftrightarrow> PB_HTYPE (f_type f) = PB_HTYPE_REQUIRED"

text \<open>The number of required fields among the first \<open>k\<close>.\<close>

definition req_before :: "pb_field list \<Rightarrow> nat \<Rightarrow> nat" where
  "req_before fs k = length (filter is_required (take k fs))"

lemma req_before_Suc:
  "k < length fs \<Longrightarrow> req_before fs (Suc k) = req_before fs k + (if is_required (fs ! k) then 1 else 0)"
  by (simp add: req_before_def take_Suc_conv_app_nth)

lemma req_before_0 [simp]: "req_before fs 0 = 0"
  by (simp add: req_before_def)

lemma req_before_mono: "j \<le> k \<Longrightarrow> req_before fs j \<le> req_before fs k"
proof -
  assume "j \<le> k"
  then have "take k fs = take j fs @ drop j (take k fs)"
    by (metis append_take_drop_id min.absorb1 take_take)
  then have "filter is_required (take k fs) = filter is_required (take j fs) @ filter is_required (drop j (take k fs))"
    by (metis filter_append)
  then show ?thesis by (simp add: req_before_def)
qed

text \<open>An iterator that stands at field \<open>k\<close> of \<open>fs\<close> and knows how many required fields are before it.\<close>

definition at_field :: "pb_field list \<Rightarrow> nat \<Rightarrow> pb_field_iter \<Rightarrow> bool" where
  "at_field fs k it \<longleftrightarrow> it_start it = fs \<and> it_pos it = k \<and> k < num_fields fs
     \<and> it_required_field_index it = word_of_nat (req_before fs k)"

lemma at_field_field: "at_field fs k it \<Longrightarrow> it_field it = fs ! k"
  using num_fields_le [of fs] by (simp add: at_field_def it_field_def field_at_def)

lemma at_field_begin: "0 < num_fields fs \<Longrightarrow> at_field fs 0 (snd (pb_field_iter_begin fs d))"
  by (simp add: at_field_def pb_field_iter_begin_def Let_def)

lemma required_not_oneof: "is_required f \<Longrightarrow> PB_HTYPE (f_type f) \<noteq> PB_HTYPE_ONEOF"
  by (simp add: is_required_def)

lemma at_field_next:
  assumes "at_field fs k it"
  shows "fst (pb_field_iter_next it) \<longleftrightarrow> Suc k < num_fields fs"
    and "at_field fs (if Suc k < num_fields fs then Suc k else 0) (snd (pb_field_iter_next it))"
proof -
  have k: "k < num_fields fs" and it: "it_start it = fs" "it_pos it = k"
    "it_required_field_index it = word_of_nat (req_before fs k)"
    using assms by (simp_all add: at_field_def)
  have field: "it_field it = fs ! k" by (rule at_field_field [OF assms])
  have tag: "f_tag (fs ! k) \<noteq> 0"
    using field_at_tag_nonzero [OF k] k num_fields_le [of fs] by (simp add: field_at_def)
  have len: "k < length fs" using k num_fields_le [of fs] by simp
  have *: "fst (pb_field_iter_next it) \<longleftrightarrow> Suc k < num_fields fs"
    "at_field fs (Suc k) (snd (pb_field_iter_next it))" if s: "Suc k < num_fields fs"
    using it field tag s field_at_tag_nonzero [OF s] req_before_Suc [OF len]
      required_not_oneof [of "fs ! k"]
    by (auto simp: pb_field_iter_next_def Let_def at_field_def is_required_def add.commute)
  show "fst (pb_field_iter_next it) \<longleftrightarrow> Suc k < num_fields fs"
    and "at_field fs (if Suc k < num_fields fs then Suc k else 0) (snd (pb_field_iter_next it))"
  proof (atomize(full), cases "Suc k < num_fields fs")
    case True
    with * show "fst (pb_field_iter_next it) = (Suc k < num_fields fs) \<and>
      at_field fs (if Suc k < num_fields fs then Suc k else 0) (snd (pb_field_iter_next it))" by simp
  next
    case False
    with k have "Suc k = num_fields fs" by linarith
    then have "f_tag (field_at fs (Suc k)) = 0"
      using field_at_num_fields [of fs] by simp
    with it field tag False k at_field_begin [of fs] show
      "fst (pb_field_iter_next it) = (Suc k < num_fields fs) \<and>
      at_field fs (if Suc k < num_fields fs then Suc k else 0) (snd (pb_field_iter_next it))"
      by (simp add: pb_field_iter_next_def Let_def)
  qed
qed

lemma at_field_next_ex: "\<exists>k. at_field fs k it \<Longrightarrow> \<exists>k. at_field fs k (snd (pb_field_iter_next it))"
  using at_field_next(2) by blast

text \<open>Finding keeps the iterator in the descriptor, and finds a field with the tag.\<close>

definition placed :: "pb_field list \<Rightarrow> pb_field_iter \<Rightarrow> bool" where
  "placed fs it \<longleftrightarrow> (\<exists>k. at_field fs k it)"

lemma placed_next: "placed fs it \<Longrightarrow> placed fs (snd (pb_field_iter_next it))"
  unfolding placed_def by (rule at_field_next_ex)

lemma placed_find_loop:
  "placed fs it \<Longrightarrow> iter_find_loop n s tag it = Some (b, it') \<Longrightarrow>
     placed fs it' \<and> (b \<longrightarrow> f_tag (it_field it') = tag)"
proof (induction n arbitrary: it)
  case (Suc n)
  from Suc.IH [OF placed_next [OF Suc.prems(1)]] Suc.prems placed_next [OF Suc.prems(1)] show ?case
    by (cases "iter_matches tag it"; cases "it_pos (snd (pb_field_iter_next it)) = s")
      (auto simp: Let_def ret_true_def ret_false_def iter_matches_def)
qed simp

lemma placed_find:
  "placed fs it \<Longrightarrow> pb_field_iter_find it tag = Some (b, it') \<Longrightarrow>
     placed fs it' \<and> (b \<longrightarrow> f_tag (it_field it') = tag)"
  unfolding pb_field_iter_find_def by (rule placed_find_loop)

lemma placed_find_extension:
  "placed fs it \<Longrightarrow> find_extension_field it = Some (b, it') \<Longrightarrow> placed fs it'"
proof -
  have "placed fs it \<Longrightarrow> find_extension_loop n s it = Some (b, it') \<Longrightarrow> placed fs it'" for n s
  proof (induction n arbitrary: it)
    case (Suc n)
    from Suc.IH [OF placed_next [OF Suc.prems(1)]] Suc.prems placed_next [OF Suc.prems(1)] show ?case
      by (auto simp: Let_def ret_true_def ret_false_def split: if_splits)
  qed simp
  then show "placed fs it \<Longrightarrow> find_extension_field it = Some (b, it') \<Longrightarrow> placed fs it'"
    unfolding find_extension_field_def .
qed

lemma placed_pSize [simp]: "placed fs (it\<lparr>it_pSize := a\<rparr>) = placed fs it"
  by (simp add: placed_def at_field_def)

lemma placed_found: "pb_field_iter_find it tag = Some (b, it') \<Longrightarrow> placed fs it \<Longrightarrow> placed fs it'"
  using placed_find by blast

lemma placed_union:
  "placed fs it \<Longrightarrow> pb_release_union_field env it st = Some (it', b, st') \<Longrightarrow> placed fs it'"
  by (auto simp: pb_release_union_field_def Let_def dest!: placed_found split: if_splits option.splits bool.splits)

lemma placed_field:
  "placed fs it \<Longrightarrow> decode_field env dm wt it st = Some (it', b, st') \<Longrightarrow> placed fs it'"
  by (auto simp: decode_field_def Let_def dest!: placed_union [rotated] split: if_splits option.splits bool.splits)

section \<open>The end of the descriptor\<close>

lemma walk_to_end_at:
  "at_field fs k it \<Longrightarrow> \<exists>it'. walk_to_end it =
     (word_of_nat (req_before fs (num_fields fs - 1)), f_type (fs ! (num_fields fs - 1)), it') \<and> at_field fs 0 it'"
proof (induction "num_fields fs - k" arbitrary: k it)
  case 0
  then show ?case by (simp add: at_field_def)
next
  case (Suc n)
  obtain b it' where nx: "pb_field_iter_next it = (b, it')" by (cases "pb_field_iter_next it")
  note step = at_field_next [OF Suc.prems, unfolded nx fst_conv snd_conv]
  show ?case
  proof (cases "Suc k < num_fields fs")
    case True
    with step Suc.hyps(1) [of "Suc k" it'] Suc.hyps(2) nx show ?thesis
      by (simp add: walk_to_end.simps [of it])
  next
    case False
    have "k < num_fields fs" using Suc.prems by (simp add: at_field_def)
    with False have k: "k = num_fields fs - 1" by linarith
    from False step nx have "walk_to_end it = (it_required_field_index it, f_type (it_field it), it')"
      by (simp add: walk_to_end.simps [of it])
    with False step Suc.prems at_field_field [OF Suc.prems] k show ?thesis
      by (simp add: at_field_def)
  qed
qed

definition num_required :: "pb_field list \<Rightarrow> nat" where
  "num_required fs = req_before fs (num_fields fs)"

lemma required_count_at:
  assumes "placed fs it" and small: "num_fields fs < 2 ^ 32"
  shows "unat (required_count it) = min 64 (num_required fs)"
proof -
  from assms(1) obtain k where k: "at_field fs k it" by (auto simp: placed_def)
  then have pos: "0 < num_fields fs" by (simp add: at_field_def)
  from walk_to_end_at [OF k] obtain it' where w: "walk_to_end it =
     (word_of_nat (req_before fs (num_fields fs - 1)), f_type (fs ! (num_fields fs - 1)), it')"
    "at_field fs 0 it'" by blast
  have tag: "f_tag (it_field it') \<noteq> 0"
    using at_field_field [OF w(2)] field_at_tag_nonzero [OF pos] pos num_fields_le [of fs]
    by (auto simp: field_at_def split: if_splits)
  let ?r = "req_before fs (num_fields fs - 1)"
  have N: "num_required fs = ?r + (if is_required (fs ! (num_fields fs - 1)) then 1 else 0)"
    using req_before_Suc [of "num_fields fs - 1" fs] pos num_fields_le [of fs]
    by (simp add: num_required_def)
  have "num_required fs \<le> num_fields fs"
    unfolding num_required_def req_before_def
    by (rule order_trans [OF length_filter_le]) simp
  then have le: "num_required fs < 2 ^ 32" using small by simp
  then have n: "unat (word_of_nat (num_required fs) :: u32) = num_required fs"
    by (intro unat_word_of_nat_small) simp
  have eq: "required_count it = (if PB_MAX_REQUIRED_FIELDS < word_of_nat (num_required fs)
      then PB_MAX_REQUIRED_FIELDS else word_of_nat (num_required fs))"
    using w(1) tag by (simp add: required_count_def N is_required_def add.commute)
  show ?thesis
    unfolding eq using n by (simp add: word_less_nat_alt PB_MAX_REQUIRED_FIELDS_def min_def)
qed

section \<open>The words of seen fields as a set\<close>

definition seen :: "u32 list \<Rightarrow> nat \<Rightarrow> bool" where
  "seen ws i \<longleftrightarrow> bit (ws ! (i div 32)) (i mod 32)"

lemma seen_word:
  assumes "k < 32"
  shows "seen ws (32 * i + k) \<longleftrightarrow> bit (ws ! i) k"
  using assms by (simp add: seen_def)

lemma all_ones: "(w :: u32) = - 1 \<longleftrightarrow> (\<forall>k < 32. bit w k)"
proof
  assume "\<forall>k < 32. bit w k"
  then show "w = - 1" by (intro bit_word_eqI) simp
qed simp

lemma low_ones:
  assumes "n < 32" and "\<forall>k < 32. bit w k \<longrightarrow> k < n"
  shows "(w :: u32) = drop_bit (32 - n) (- 1) \<longleftrightarrow> (\<forall>k < n. bit w k)"
proof
  assume "w = drop_bit (32 - n) (- 1)"
  then show "\<forall>k < n. bit w k" using assms(1) by (simp add: bit_mask_iff)
next
  assume all: "\<forall>k < n. bit w k"
  show "w = drop_bit (32 - n) (- 1)"
  proof (rule bit_word_eqI)
    fix k assume k: "k < LENGTH(32)"
    have "bit (drop_bit (32 - n) (- 1) :: u32) k \<longleftrightarrow> k < n"
      using k assms(1) by (auto simp: bit_mask_iff)
    moreover have "bit w k \<longleftrightarrow> k < n" using all k assms(2) [rule_format, of k] by auto
    ultimately show "bit w k = bit (drop_bit (32 - n) (- 1) :: u32) k" by simp
  qed
qed

lemma all_seen_iff:
  assumes n: "unat n \<le> 64" and len: "length ws = 2"
    and below: "\<And>i. i < 64 \<Longrightarrow> seen ws i \<Longrightarrow> i < unat n"
  shows "all_seen ws n \<longleftrightarrow> (\<forall>i < unat n. seen ws i)"
proof -
  define q where "q = unat n div 32"
  define r where "r = unat n mod 32"
  have nqr: "unat n = 32 * q + r" and r: "r < 32" by (simp_all add: q_def r_def)
  have drop: "unat (drop_bit 5 n) = q" by (simp add: unat_drop_bit q_def)
  have m31: "(31 :: u32) = mask 5" by (simp add: mask_eq_exp_minus_1)
  have and31: "unat (n AND 31) = r"
    unfolding m31 take_bit_eq_mask [symmetric]
    by (simp only: unsigned_take_bit_eq) (simp add: take_bit_eq_mod r_def)
  have r0: "n AND 31 \<noteq> 0 \<longleftrightarrow> r \<noteq> 0" using and31 by (metis unat_eq_zero)
  have words: "(\<forall>i \<in> set [0..<q]. ws ! i = - 1) \<longleftrightarrow> (\<forall>i < q. \<forall>k < 32. seen ws (32 * i + k))"
    by (auto simp: all_ones seen_word)
  have rest: "ws ! q = drop_bit (32 - r) (- 1) \<longleftrightarrow> (\<forall>k < r. seen ws (32 * q + k))" if "r \<noteq> 0"
  proof -
    have "q < 2" using n nqr that by linarith
    have "k < r" if "k < 32" "bit (ws ! q) k" for k
      using below [of "32 * q + k"] \<open>q < 2\<close> that nqr by (simp add: seen_word)
    then have "ws ! q = drop_bit (32 - r) (- 1) \<longleftrightarrow> (\<forall>k < r. bit (ws ! q) k)"
      by (intro low_ones [OF r]) blast
    with r show ?thesis by (simp add: seen_word)
  qed
  have split: "(\<forall>i < unat n. seen ws i) \<longleftrightarrow>
      (\<forall>i < q. \<forall>k < 32. seen ws (32 * i + k)) \<and> (\<forall>k < r. seen ws (32 * q + k))"
  proof (intro iffI conjI allI impI)
    fix i k assume all: "\<forall>i < unat n. seen ws i" and "i < q" "k < (32 :: nat)"
    then have "32 * i + k < 32 * Suc i" "32 * Suc i \<le> 32 * q" by simp_all
    then have "32 * i + k < unat n" unfolding nqr by linarith
    with all show "seen ws (32 * i + k)" by blast
  next
    fix k assume "\<forall>i < unat n. seen ws i" and "k < r"
    then show "seen ws (32 * q + k)" by (simp add: nqr)
  next
    fix i assume h: "(\<forall>i < q. \<forall>k < 32. seen ws (32 * i + k)) \<and> (\<forall>k < r. seen ws (32 * q + k))"
      and i: "i < unat n"
    have eq: "i = 32 * (i div 32) + i mod 32" by simp
    show "seen ws i"
    proof (cases "i div 32 < q")
      case True
      have "i mod 32 < 32" by simp
      with h True have "seen ws (32 * (i div 32) + i mod 32)" by blast
      with eq show ?thesis by simp
    next
      case False
      then have "32 * q \<le> i" using less_eq_div_iff_mult_less_eq [of 32 q i] by simp
      then have "i = 32 * q + (i - 32 * q)" "i - 32 * q < r" using i nqr by linarith+
      with h show ?thesis by metis
    qed
  qed
  show ?thesis
  proof (cases "n = 0")
    case True
    then show ?thesis by (simp add: all_seen_def)
  next
    case False
    then have "0 < n" by (simp add: word_gt_0)
    then show ?thesis
      unfolding all_seen_def drop and31 r0 split words using rest by (cases "r = 0") auto
  qed
qed

section \<open>Accepted messages hold their required fields\<close>

text \<open>The tags that the loop over the fields reads, in order.\<close>

fun loop_tags ::
  "nat \<Rightarrow> ('s, 'h) dec_env \<Rightarrow> addr \<Rightarrow> (bool \<Rightarrow> pb_field list \<Rightarrow> addr \<Rightarrow> ('s, 'h) action) \<Rightarrow>
   noinit \<Rightarrow> ('s, 'h) dec \<Rightarrow> u32 list" where
  "loop_tags 0 env slot dm v st = []"
| "loop_tags (Suc k) env slot dm v st =
     (if bytes_left (d_str st) = 0 then []
      else case pb_decode_tag (d_str st) of
        Some ((Some (tag, wire_type), _), s) \<Rightarrow>
          tag # (case decode_one env slot dm tag wire_type v (st\<lparr>d_str := s\<rparr>) of
             Some (True, v, st) \<Rightarrow> loop_tags k env slot dm v st
           | _ \<Rightarrow> [])
      | _ \<Rightarrow> [])"

definition seen_ok :: "pb_field list \<Rightarrow> u32 set \<Rightarrow> noinit \<Rightarrow> bool" where
  "seen_ok fs T v \<longleftrightarrow> placed fs (n_iter v) \<and> length (n_seen v) = 2
     \<and> (\<forall>i < 64. seen (n_seen v) i \<longrightarrow>
          (\<exists>j < num_fields fs. is_required (fs ! j) \<and> i = req_before fs j \<and> f_tag (fs ! j) \<in> T))"

lemma seen_mark:
  assumes "length (n_seen v) = 2" and "i < 64"
  shows "seen (n_seen (mark_seen v)) i \<longleftrightarrow> seen (n_seen v) i \<or>
    (is_required (it_field (n_iter v)) \<and> i = unat (it_required_field_index (n_iter v)))"
proof (cases "is_required (it_field (n_iter v)) \<and> it_required_field_index (n_iter v) < PB_MAX_REQUIRED_FIELDS")
  case True
  define x where "x = it_required_field_index (n_iter v)"
  have x: "unat x < 64" using True by (simp add: x_def word_less_nat_alt PB_MAX_REQUIRED_FIELDS_def)
  have m31: "(31 :: u32) = mask 5" by (simp add: mask_eq_exp_minus_1)
  have r: "unat (x AND 31) = unat x mod 32"
    unfolding m31 take_bit_eq_mask [symmetric]
    by (simp only: unsigned_take_bit_eq) (simp add: take_bit_eq_mod)
  have q: "unat (drop_bit 5 x) = unat x div 32" by (simp add: unat_drop_bit)
  have new: "n_seen (mark_seen v) = (n_seen v)[unat x div 32 :=
      n_seen v ! (unat x div 32) OR push_bit (unat x mod 32) 1]"
    using True unfolding mark_seen_def Let_def x_def [symmetric] q [symmetric] r [symmetric] is_required_def by simp
  have div2: "unat x div 32 < 2" using x by simp
  have b: "bit (push_bit (unat x mod 32) 1 :: u32) (i mod 32) \<longleftrightarrow> i mod 32 = unat x mod 32"
    unfolding bit_push_bit_iff bit_1_iff by auto
  show ?thesis
  proof (cases "i div 32 = unat x div 32")
    case same: True
    have "i mod 32 = unat x mod 32 \<longleftrightarrow> i = unat x" using same by (metis mult_div_mod_eq)
    with same div2 assms(1) True b show ?thesis
      by (simp add: new seen_def bit_or_iff flip: x_def)
  next
    case False
    then have "i \<noteq> unat x" by auto
    with False show ?thesis by (simp add: new seen_def flip: x_def)
  qed
next
  case False
  then have "mark_seen v = v" by (auto simp: mark_seen_def Let_def is_required_def)
  moreover have "\<not> (is_required (it_field (n_iter v)) \<and> i = unat (it_required_field_index (n_iter v)))"
    using False assms(2) by (auto simp: word_less_nat_alt PB_MAX_REQUIRED_FIELDS_def)
  ultimately show ?thesis by auto
qed

lemma mark_seen_iter [simp]: "n_iter (mark_seen v) = n_iter v"
  by (simp add: mark_seen_def Let_def)

lemma length_mark_seen [simp]: "length (n_seen (mark_seen v)) = length (n_seen v)"
  by (simp add: mark_seen_def Let_def)

lemma seen_ok_mono: "seen_ok fs T v \<Longrightarrow> T \<subseteq> T' \<Longrightarrow> seen_ok fs T' v"
  unfolding seen_ok_def by (metis subsetD)

lemma seen_ok_iter: "seen_ok fs T v \<Longrightarrow> placed fs it \<Longrightarrow> seen_ok fs T (v\<lparr>n_iter := it\<rparr>)"
  by (simp add: seen_ok_def)

lemma index_of_field:
  assumes "at_field fs k it" and "num_fields fs < 2 ^ 32"
  shows "unat (it_required_field_index it) = req_before fs k"
proof -
  have "req_before fs k \<le> k"
    unfolding req_before_def by (rule order_trans [OF length_filter_le]) simp
  with assms show ?thesis
    unfolding at_field_def by (simp add: unat_word_of_nat_small)
qed

lemma seen_ok_mark:
  assumes v: "seen_ok fs T v" and tag: "f_tag (it_field (n_iter v)) \<in> T" and small: "num_fields fs < 2 ^ 32"
  shows "seen_ok fs T (mark_seen v)"
proof -
  from v obtain k where k: "at_field fs k (n_iter v)" by (auto simp: seen_ok_def placed_def)
  have "k < num_fields fs" using k by (simp add: at_field_def)
  with v tag at_field_field [OF k] index_of_field [OF k small] show ?thesis
    unfolding seen_ok_def by (auto simp: seen_mark)
qed

lemma enter_fixed_seen:
  "enter_fixed_count slot v st = (b, v', st') \<Longrightarrow> seen_ok fs T v \<Longrightarrow>
     seen_ok fs T v' \<and> it_field (n_iter v') = it_field (n_iter v)"
  unfolding enter_fixed_count_def Let_def
  by (auto simp: seen_ok_def it_field_def split: if_splits option.splits)

lemma seen_ok_unknown:
  assumes "decode_unknown env dm tag wt v st = Some (b, v', st')" and "seen_ok fs T v"
  shows "seen_ok fs T v'"
proof -
  have "placed fs it" if "find_extension_field (n_iter v) = Some (f, it)" for f it
    using placed_find_extension that assms(2) by (auto simp: seen_ok_def)
  with assms show ?thesis
    unfolding decode_unknown_def Let_def
    by (auto simp: seen_ok_def split: if_splits option.splits bool.splits)
qed

lemma seen_ok_one:
  assumes one: "decode_one env slot dm tag wt v st = Some (b, v', st')"
    and v: "seen_ok fs T v" and tag: "tag \<in> T" and small: "num_fields fs < 2 ^ 32"
  shows "seen_ok fs T v'"
proof -
  have p: "placed fs (n_iter v)" using v by (simp add: seen_ok_def)
  obtain f it where find: "pb_field_iter_find (n_iter v) tag = Some (f, it)"
    using one by (auto simp: decode_one_def split: option.splits)
  note it = placed_find [OF p find]
  have vit: "seen_ok fs T (v\<lparr>n_iter := it\<rparr>)" using seen_ok_iter [OF v] it by simp
  show ?thesis
  proof (cases f)
    case False
    with one find vit show ?thesis by (auto simp: decode_one_def dest: seen_ok_unknown)
  next
    case True
    obtain c v1 st1 where e: "enter_fixed_count slot (v\<lparr>n_iter := it\<rparr>) st = (c, v1, st1)"
      by (cases "enter_fixed_count slot (v\<lparr>n_iter := it\<rparr>) st")
    have v1: "seen_ok fs T v1" "it_field (n_iter v1) = it_field it"
      using enter_fixed_seen [OF e vit] by simp_all
    have m: "seen_ok fs T (mark_seen v1)"
      by (rule seen_ok_mark [OF v1(1) _ small]) (use it True tag v1(2) in simp)
    have "placed fs it2" if "decode_field env dm wt (n_iter v1) st1 = Some (it2, b2, st2)" for it2 b2 st2
      using placed_field [OF _ that] v1(1) by (simp add: seen_ok_def)
    with one find True e v1(1) m show ?thesis
      by (cases c) (auto simp: decode_one_def intro!: seen_ok_iter)
  qed
qed

lemma seen_ok_loop:
  assumes "decode_loop k env slot dm v st = Some (True, v', st')" and "seen_ok fs T v"
    and "num_fields fs < 2 ^ 32"
  shows "seen_ok fs (T \<union> set (loop_tags k env slot dm v st)) v'"
  using assms(1,2)
proof (induction k arbitrary: v st T)
  case (Suc k)
  show ?case
  proof (cases "bytes_left (d_str st) = 0")
    case True
    with Suc.prems show ?thesis by simp
  next
    case more: False
    show ?thesis
    proof (cases "\<exists>tag wt e s. pb_decode_tag (d_str st) = Some ((Some (tag, wt), e), s)")
      case True
      then obtain tag wt e s where t: "pb_decode_tag (d_str st) = Some ((Some (tag, wt), e), s)" by blast
      from Suc.prems(1) more t obtain v1 st1 where
        one: "decode_one env slot dm tag wt v (st\<lparr>d_str := s\<rparr>) = Some (True, v1, st1)"
        and loop: "decode_loop k env slot dm v1 st1 = Some (True, v', st')"
        by (auto split: option.splits bool.splits)
      have "seen_ok fs (insert tag T) v1"
        by (rule seen_ok_one [OF one seen_ok_mono [OF Suc.prems(2)] _ assms(3)]) auto
      from Suc.IH [OF loop this] show ?thesis using more t one by simp
    next
      case False
      with Suc.prems more have "v' = v" by (auto split: option.splits)
      with Suc.prems(2) show ?thesis by (auto intro: seen_ok_mono)
    qed
  qed
qed simp

lemma req_before_inj:
  assumes "i < num_fields fs" "j < num_fields fs" "is_required (fs ! i)" "is_required (fs ! j)"
    and "req_before fs i = req_before fs j"
  shows "i = j"
proof (rule ccontr)
  have *: "req_before fs a < req_before fs b"
    if "a < b" "b < num_fields fs" "is_required (fs ! a)" for a b
  proof -
    have "req_before fs a < req_before fs (Suc a)"
      using that num_fields_le [of fs] by (subst req_before_Suc) auto
    also have "\<dots> \<le> req_before fs b" by (rule req_before_mono) (use that in simp)
    finally show ?thesis .
  qed
  assume "i \<noteq> j"
  then show False using * [of i j] * [of j i] assms by (cases "i < j") auto
qed

lemma req_before_less:
  assumes "j < num_fields fs" and "is_required (fs ! j)"
  shows "req_before fs j < num_required fs"
proof -
  have "req_before fs j < req_before fs (Suc j)"
    using assms num_fields_le [of fs] by (subst req_before_Suc) auto
  also have "\<dots> \<le> num_required fs" unfolding num_required_def by (rule req_before_mono) (use assms in simp)
  finally show ?thesis .
qed

lemma accepted_has_required:
  assumes loop: "decode_loop k env slot dm (noinit_init fs dest) st = Some (True, v, st')"
    and finish: "finish_noinit slot v st' = Some (True, st'')"
    and small: "num_fields fs < 2 ^ 32"
    and j: "j < num_fields fs" "is_required (fs ! j)" "req_before fs j < 64"
  shows "f_tag (fs ! j) \<in> set (loop_tags k env slot dm (noinit_init fs dest) st)"
proof -
  let ?T = "set (loop_tags k env slot dm (noinit_init fs dest) st)"
  have "seen_ok fs {} (noinit_init fs dest)"
    using at_field_begin [of fs dest] j(1)
    by (auto simp: seen_ok_def noinit_init_def placed_def seen_def nth_Cons' intro!: exI [of _ 0])
  from seen_ok_loop [OF loop this small] have v: "seen_ok fs ?T v" by simp
  then have n: "unat (required_count (n_iter v)) = min 64 (num_required fs)"
    using required_count_at [OF _ small] by (simp add: seen_ok_def)
  have "all_seen (n_seen v) (required_count (n_iter v))"
    using finish by (auto simp: finish_noinit_def dec_error_def ret_false_def split: if_splits)
  moreover have "i < unat (required_count (n_iter v))" if "i < 64" "seen (n_seen v) i" for i
    using v that req_before_less n by (auto simp: seen_ok_def)
  ultimately have all: "\<forall>i < min 64 (num_required fs). seen (n_seen v) i"
    using all_seen_iff [of "required_count (n_iter v)" "n_seen v"] v n by (simp add: seen_ok_def)
  from all j req_before_less [OF j(1,2)] have "seen (n_seen v) (req_before fs j)" by simp
  with v j(3) obtain i where "i < num_fields fs" "is_required (fs ! i)" "req_before fs j = req_before fs i"
    "f_tag (fs ! i) \<in> ?T" by (auto simp: seen_ok_def)
  with req_before_inj j(1,2) show ?thesis by metis
qed

end
