(* ===== verification/Pb_Properties.thy ===== *)
theory Pb_Properties
  imports Pb_Roundtrip Pb_Bounds Pb_Required
begin

text \<open>
  The properties of the nanopb codec, each over the lemmas of the theories before it. The
  application registers no nanopb callbacks and no extensions, so its environment is
  \<open>static_env\<close>: memory and the descriptors of submessages.
\<close>

definition static_env :: "mem \<Rightarrow> (addr \<Rightarrow> pb_field list) \<Rightarrow> 's enc_env" where
  "static_env m g = \<lparr>e_mem = m, e_fields = g, e_encode = (\<lambda>f s field arg. None),
     e_ext_encode = (\<lambda>f s extension. None)\<rparr>"

interpretation static: encode_callbacks "static_env m g" "\<lambda>_ _ _. None" "\<lambda>_ _. None" for m g
  by unfold_locales (simp_all add: static_env_def writes_None)

definition sample_fields :: "pb_field list" where
  "sample_fields =
     [\<lparr>f_tag = 1, f_type = 0x01, f_data_offset = 0, f_size_offset = 0, f_data_size = 4,
       f_array_size = 0, f_ptr = 0\<rparr>,
      \<lparr>f_tag = 2, f_type = 0x05, f_data_offset = 4, f_size_offset = 0, f_data_size = 8,
       f_array_size = 0, f_ptr = 0\<rparr>]"

definition sample_mem :: mem where
  "sample_mem = (\<lambda>a. if a = 0x1000 then 0x96 else if a = 0x1001 then 0x01 else if a = 0x1008 then 7 else 0)"

text \<open>A message that consists of one submessage.\<close>

definition outer_fields :: "pb_field list" where
  "outer_fields =
     [\<lparr>f_tag = 3, f_type = 0x08, f_data_offset = 0, f_size_offset = 0, f_data_size = 16, f_array_size = 0, f_ptr = 0x100\<rparr>]"

lemma sample_encoding:
  "spec_message (\<lambda>_ _ _. None) (\<lambda>_ _. None) (static_env sample_mem (\<lambda>_. sample_fields) :: obuf enc_env) 1 sample_fields 0x1000
     = Some [0x08, 0x96, 0x03, 0x11, 7, 0, 0, 0, 0, 0, 0, 0]"
  by code_simp

lemma outer_encoding:
  "spec_message (\<lambda>_ _ _. None) (\<lambda>_ _. None) (static_env sample_mem (\<lambda>_. sample_fields) :: obuf enc_env) 2 outer_fields 0x1000
     = Some [0x1A, 12, 0x08, 0x96, 0x03, 0x11, 7, 0, 0, 0, 0, 0, 0, 0]"
proof -
  have two: "(2 :: nat) = Suc 1" and u: "[0..<1] = [0 :: nat]" by simp_all
  have count: "num_fields outer_fields = 1" by code_simp
  have field: "outer_fields ! 0 = \<lparr>f_tag = 3, f_type = 8, f_data_offset = 0, f_size_offset = 0, f_data_size = 16,
      f_array_size = 0, f_ptr = 256\<rparr>" by (simp add: outer_fields_def)
  have data: "it_pData (iter_at outer_fields 0x1000 0) = 0x1000" by code_simp
  have type: "PB_LTYPE 8 = 8" "PB_HTYPE 8 = 0" "PB_ATYPE 8 = 0" by code_simp+
  show ?thesis unfolding two spec_message.simps count u list.map field data Let_def
    by (simp add: type Let_def spec_field_def spec_basic_field_def spec_value_def spec_string_def spec_field_tag_def
      spec_tag_def spec_varint.simps append_wire_def wiretype_of_def static_env_def [of sample_mem]
      sample_encoding [unfolded static_env_def One_nat_def] del: spec_message.simps)
qed

text \<open>C1: the encoder writes the encoding of the message, and the size it computes is exact. The encoding is defined
  without streams (\<open>spec_message\<close>). If the message has one, pb_get_encoded_size gives its length; on every buffer with room
  for it pb_encode succeeds, leaves these bytes at the front of the buffer, the rest untouched, and
  counts the same size; on a smaller buffer it fails and does not grow the buffer. If the message has none
  (or is nested deeper than the fuel \<open>n\<close>), pb_get_encoded_size does not succeed. The hypotheses on the environment are nanopb's documented rule for user
  callbacks, that the second run writes what the first one counted.\<close>

theorem encoded_size_exact:
  assumes "\<And>f field arg. writes (\<lambda>s. e_encode env f s field arg) (cb f field arg)"
    and "\<And>f extension. writes (\<lambda>s. e_ext_encode env f s extension) (ex f extension)"
  shows "case spec_message cb ex env n fs src of
      None \<Rightarrow> \<forall>sz. pb_get_encoded_size env n fs src \<noteq> Some (True, sz)
    | Some bs \<Rightarrow>
        pb_get_encoded_size env n fs src = Some (True, Some (word_of_nat (length bs)))
      \<and> (\<forall>buf bufsize. unat bufsize \<le> length buf \<longrightarrow> length buf < 2 ^ 63 \<longrightarrow>
           (length bs \<le> unat bufsize \<longrightarrow>
              (\<exists>s. pb_encode env n (pb_ostream_from_buffer buf bufsize) fs src = Some (True, s)
                 \<and> unat (bytes_written s) = length bs
                 \<and> ostate s = Some \<lparr>ob_bytes = bs @ drop (length bs) buf, ob_pos = length bs\<rparr>))
         \<and> (unat bufsize < length bs \<longrightarrow> length bs < 2 ^ 63 \<longrightarrow>
              (\<exists>s. pb_encode env n (pb_ostream_from_buffer buf bufsize) fs src = Some (False, s)
                 \<and> ob_len s = length buf)))"
proof (cases "spec_message cb ex env n fs src")
  case None
  have env: "encode_callbacks env cb ex" using assms by (rule encode_callbacks.intro)
  from encode_callbacks.encoded_size(2) [OF env None] None show ?thesis by simp
next
  case (Some bs)
  have env: "encode_callbacks env cb ex" using assms by (rule encode_callbacks.intro)
  have bs: "emits (\<lambda>s. pb_encode env n s fs src) bs"
    using encode_callbacks.writes_pb_encode [OF env, of n fs src] Some by simp
  show ?thesis unfolding Some option.case
  proof (intro conjI allI impI encode_callbacks.encoded_size(1) [OF env Some])
    fix buf :: "u8 list" and bufsize :: u64
    assume "unat bufsize \<le> length buf" "length buf < 2 ^ 63"
    note wf = wf_out_from_buffer [OF this]
    show "\<exists>s. pb_encode env n (pb_ostream_from_buffer buf bufsize) fs src = Some (True, s) \<and>
        unat (bytes_written s) = length bs \<and>
        ostate s = Some \<lparr>ob_bytes = bs @ drop (length bs) buf, ob_pos = length bs\<rparr>"
      if "length bs \<le> unat bufsize"
    proof -
      have "unat (word_of_nat (length bs) :: u64) = length bs"
        using that unat_bound [of bufsize] by (intro unat_word_of_nat_small) simp
      then show ?thesis
        using emits_room [OF bs wf(1)] wf(2) that
        by (simp add: ret_true_def put_def pb_ostream_from_buffer_def write_at_def)
    qed
    show "\<exists>s. pb_encode env n (pb_ostream_from_buffer buf bufsize) fs src = Some (False, s) \<and>
        ob_len s = length buf" if "unat bufsize < length bs" "length bs < 2 ^ 63"
      using emits_full [OF bs wf(1)] wf(2) that
      by (auto simp: ret_false_def ob_len_def pb_ostream_from_buffer_def)
  qed
qed

theorem encoded_size_exact_witness:
  "pb_get_encoded_size (static_env sample_mem (\<lambda>_. sample_fields) :: obuf enc_env) 2 outer_fields 0x1000 = Some (True, Some 14)
   \<and> (\<exists>s. pb_encode (static_env sample_mem (\<lambda>_. sample_fields)) 2 (pb_ostream_from_buffer (replicate 16 0xFF) 16)
        outer_fields 0x1000 = Some (True, s) \<and> unat (bytes_written s) = 14
      \<and> ostate s = Some \<lparr>ob_bytes = [0x1A, 12, 0x08, 0x96, 0x03, 0x11, 7, 0, 0, 0, 0, 0, 0, 0, 0xFF, 0xFF], ob_pos = 14\<rparr>)
   \<and> (\<exists>s. pb_encode (static_env sample_mem (\<lambda>_. sample_fields)) 2 (pb_ostream_from_buffer (replicate 16 0xFF) 13)
        outer_fields 0x1000 = Some (False, s) \<and> ob_len s = 16)"
proof -
  note all = encoded_size_exact [OF static.callback_writes static.ext_writes,
    of sample_mem "\<lambda>_. sample_fields" 2 outer_fields "0x1000", unfolded outer_encoding option.case]
  have len: "length [0x1A, 12, 0x08, 0x96, 0x03, 0x11, 7, 0, 0, 0, 0, 0, 0, 0 :: u8] = 14" by simp
  have rest: "replicate 2 0xFF = [0xFF, 0xFF :: u8]" by (simp add: numeral_2_eq_2)
  note size = all [THEN conjunct1, unfolded len] and run = all [THEN conjunct2, rule_format, unfolded len]
  from size run [THEN conjunct1, rule_format, of 16 "replicate 16 0xFF"] run [THEN conjunct2, rule_format, of 13 "replicate 16 0xFF"]
  show ?thesis by (simp add: rest)
qed


section \<open>What the encoder writes is read back\<close>

text \<open>The buffer of an output stream, opened as an input stream of the same size.\<close>

definition reading :: "obuf ostream \<Rightarrow> 's istream" where
  "reading s = pb_istream_from_buffer (case ostate s of None \<Rightarrow> [] | Some b \<Rightarrow> ob_bytes b) (max_size s)"

lemma emits_reading:
  assumes "emits f bs" and "length bs < 8589934592"
    and "unat bufsize \<le> length buf" and "length buf < 2 ^ 63"
    and "f (pb_ostream_from_buffer buf bufsize) = Some (True, s)"
  obtains rest where "wf_in (reading s :: 's istream)" and "input (reading s :: 's istream) = bs @ rest"
    and "unat (bytes_written s) = length bs"
proof -
  let ?o = "pb_ostream_from_buffer buf bufsize"
  note wf = wf_out_from_buffer [OF assms(3,4)]
  have room: "length bs \<le> unat bufsize"
  proof (rule ccontr)
    assume "\<not> length bs \<le> unat bufsize"
    then have "room ?o < length bs" "length bs < 2 ^ 63" using wf(2) assms(2) by simp_all
    from emits_full [OF assms(1) wf(1) this] assms(5) show False by (auto simp: ret_false_def)
  qed
  with emits_room [OF assms(1) wf(1)] wf(2) assms(5) have s: "s = put ?o bs" by (simp add: ret_true_def)
  have written: "unat (bytes_written s) = length bs"
    using assms(2) unfolding s put_def pb_ostream_from_buffer_def by (simp add: unat_word_of_nat_small)
  have buf: "reading s = (pb_istream_from_buffer (bs @ drop (length bs) buf) bufsize :: 's istream)"
    using room assms(3) unfolding s put_def pb_ostream_from_buffer_def reading_def
    by (simp add: write_at_def)
  have "wf_in (reading s :: 's istream)"
    unfolding buf using assms(3) room by (simp add: wf_in_def source_def pb_istream_from_buffer_def)
  moreover have "input (reading s :: 's istream) = bs @ take (unat bufsize - length bs) (drop (length bs) buf)"
    unfolding buf using room by (simp add: input_def source_def pb_istream_from_buffer_def)
  ultimately show thesis using written by (rule that)
qed

lemma short_lengths [simp]:
  "length (le_bytes n v) = n" "length (tag_bytes wt k) < 8589934592" "length (tag_bytes wt k) \<le> 10"
  by (simp_all add: tag_bytes_def length_varint_bytes(2))

lemma emits_into:
  assumes "emits f bs" and "length bs \<le> 10"
  shows "\<exists>s. f (pb_ostream_from_buffer (replicate 16 0) 16) = Some (True, s)"
  using emits_room [OF assms(1) wf_out_from_buffer(1)] wf_out_from_buffer(2) [of 16 "replicate 16 0"] assms(2)
  by (simp add: ret_true_def)

text \<open>A value that pb_encode_varint writes is the value pb_decode_varint reads from the buffer, for
  every 64-bit value and whatever lies behind it in the buffer, and the reader stops exactly where
  the writer did.\<close>

theorem varint_roundtrip:
  assumes "unat bufsize \<le> length buf" and "length buf < 2 ^ 63"
    and "pb_encode_varint (pb_ostream_from_buffer buf bufsize) v = Some (True, s)"
  shows "pb_decode_varint (reading s :: 's istream) = rd_ok v (eat (unat (bytes_written s)) (reading s))"
proof -
  from emits_reading [OF emits_varint short_varint(1) assms] obtain rest where
    r: "wf_in (reading s :: 's istream)" "input (reading s :: 's istream) = varint_bytes v @ rest" "unat (bytes_written s) = length (varint_bytes v)" .
  from decode_varint_vbytes [OF r(1), of v rest] r show ?thesis by (simp add: varint_bytes_vbytes)
qed

theorem varint_roundtrip_witness:
  "\<exists>s. pb_encode_varint (pb_ostream_from_buffer (replicate 16 0) 16) 300 = Some (True, s)
     \<and> pb_decode_varint (reading s) = rd_ok 300 (eat (unat (bytes_written s)) (reading s))"
proof -
  obtain s where s: "pb_encode_varint (pb_ostream_from_buffer (replicate 16 0) 16) 300 = Some (True, s)"
    using emits_into [OF emits_varint [of 300] length_varint_bytes(2)] by blast
  with varint_roundtrip [OF _ _ s] show ?thesis by auto
qed

text \<open>Zigzag varints round trip for every 64-bit value: what pb_encode_svarint writes, pb_decode_svarint reads
  back with the sign, stopping where the writer did.\<close>

theorem svarint_roundtrip:
  assumes "unat bufsize \<le> length buf" and "length buf < 2 ^ 63"
    and "pb_encode_svarint (pb_ostream_from_buffer buf bufsize) v = Some (True, s)"
  shows "pb_decode_svarint (reading s :: 's istream) = rd_ok v (eat (unat (bytes_written s)) (reading s))"
proof -
  from emits_reading [OF emits_svarint short_varint(1) assms] obtain rest where
    r: "wf_in (reading s :: 's istream)" "input (reading s :: 's istream) = varint_bytes (zigzag v) @ rest"
      "unat (bytes_written s) = length (varint_bytes (zigzag v))" .
  from decode_svarint_vbytes [OF r(1), of v rest] r show ?thesis by (simp add: varint_bytes_vbytes)
qed

theorem svarint_roundtrip_witness:
  "\<exists>s. pb_encode_svarint (pb_ostream_from_buffer (replicate 16 0) 16) (- 150) = Some (True, s)
     \<and> pb_decode_svarint (reading s) = rd_ok (- 150) (eat (unat (bytes_written s)) (reading s))"
proof -
  obtain s where s: "pb_encode_svarint (pb_ostream_from_buffer (replicate 16 0) 16) (- 150) = Some (True, s)"
    using emits_into [OF emits_svarint [of "- 150"] length_varint_bytes(2)] by blast
  with svarint_roundtrip [OF _ _ s] show ?thesis by auto
qed

text \<open>The key of a field round trips: for every field number below $2^{29}$ and every wire type,
  pb_decode_tag reads the number and the wire type that pb_encode_tag wrote, with no end-of-message flag.\<close>

theorem tag_roundtrip:
  assumes "unat bufsize \<le> length buf" and "length buf < 2 ^ 63"
    and "0 < n" and "unat n < 2 ^ 29" and "wt < 8"
    and "pb_encode_tag (pb_ostream_from_buffer buf bufsize) wt n = Some (True, s)"
  shows "pb_decode_tag (reading s :: 's istream) = Some ((Some (n, wt), False), eat (unat (bytes_written s)) (reading s))"
proof -
  from emits_reading [OF emits_tag short_lengths(2) assms(1,2,6)] obtain rest where
    r: "wf_in (reading s :: 's istream)" "input (reading s :: 's istream) = tag_bytes wt n @ rest" "unat (bytes_written s) = length (tag_bytes wt n)" .
  from decode_tag_bytes [OF r(1,2) assms(3-5)] r(3) show ?thesis by simp
qed

theorem tag_roundtrip_witness:
  "\<exists>s. pb_encode_tag (pb_ostream_from_buffer (replicate 16 0) 16) 2 1000 = Some (True, s)
     \<and> pb_decode_tag (reading s) = Some ((Some (1000, 2), False), eat (unat (bytes_written s)) (reading s))"
proof -
  obtain s where s: "pb_encode_tag (pb_ostream_from_buffer (replicate 16 0) 16) 2 1000 = Some (True, s)"
    using emits_into [OF emits_tag [of 2 1000] short_lengths(3)] by blast
  with tag_roundtrip [OF _ _ _ _ _ s] show ?thesis by auto
qed

end
