(* ===== verification/Pb_Decode_Properties.thy ===== *)
theory Pb_Decode_Properties
  imports Pb_Properties
begin

text \<open>
  The properties of decoded values, of skipping and framing, and of what a decoder may touch. The
  application registers no callbacks, so the interface of callbacks is interpreted on an
  environment in which a call of one does not return.
\<close>

interpretation no_callbacks: decode_callbacks "\<lambda>f field arg st. None" "\<lambda>f extension tag wt st. None"
  by unfold_locales (simp_all add: safe_res_def)

definition quiet_env :: "(addr \<Rightarrow> pb_field list) \<Rightarrow> ('s, unit) dec_env" where
  "quiet_env g = \<lparr>d_fields = g, d_callback = (\<lambda>f field arg st. None),
     d_ext_decode = (\<lambda>f extension tag wt st. None), d_realloc = (\<lambda>m h p n. (0, m, h)),
     d_free = (\<lambda>m h p. (m, h)), d_local = (\<lambda>n. 0x8000), d_depth = 3\<rparr>"

definition sample_field :: pb_field where
  "sample_field = \<lparr>f_tag = 1, f_type = 0x01, f_data_offset = 0, f_size_offset = 0, f_data_size = 4,
     f_array_size = 0, f_ptr = 0\<rparr>"

section \<open>Values\<close>

text \<open>C2: a value in memory survives encoding and decoding. For a static field of any value type (bool,
  varint, unsigned and zigzag varint of 1, 2, 4 or 8 bytes, fixed32, fixed64, bytes, string, fixed
  length bytes), the decoder of its type reads what the encoder of its type wrote: it succeeds, stores
  exactly the bytes of the value at its destination, and stops where the encoder stopped.\<close>

theorem value_roundtrip:
  fixes st :: "('s, 'h) dec"
  assumes "PB_ATYPE (f_type field) \<noteq> PB_ATYPE_POINTER"
    and "value_bytes (e_mem env) field src = Some xs"
    and "unat bufsize \<le> length buf" and "length buf < 2 ^ 63"
    and "PB_ENCODERS env enc (PB_LTYPE (f_type field)) (pb_ostream_from_buffer buf bufsize) field src
           = Some (True, s)"
    and "d_str st = reading s"
  shows "PB_DECODERS denv dm (PB_LTYPE (f_type field)) field dest st =
    Some (True, st\<lparr>d_str := eat (unat (bytes_written s)) (reading s), d_mem := store (d_mem st) dest xs\<rparr>)"
proof -
  from value_roundtrip_ex [OF assms(1,2), where denv = denv and dm = dm and dest = dest]
  obtain bs where bs: "roundtrips env enc denv dm field src dest xs bs" by blast
  then have len: "length bs < 8589934592"
    and emits: "emits (\<lambda>s. PB_ENCODERS env enc (PB_LTYPE (f_type field)) s field src) bs"
    and fetch: "fetches (PB_DECODERS denv dm (PB_LTYPE (f_type field)) field dest) bs dest xs"
    by (simp_all add: roundtrips_def Let_def)
  from emits_reading [OF emits len assms(3-5)] obtain rest where
    r: "wf_in (d_str st)" "input (d_str st) = bs @ rest" "unat (bytes_written s) = length bs"
    unfolding assms(6) .
  from fetchesD [OF fetch r(1,2)] show ?thesis by (simp add: ret_true_def taken_def r(3) assms(6))
qed

theorem value_roundtrip_witness:
  "\<exists>s. pb_enc_varint sample_mem (pb_ostream_from_buffer (replicate 16 0) 16) sample_field 0x1000 = Some (True, s)
     \<and> (\<forall>st :: (unit, unit) dec. d_str st = reading s \<longrightarrow> pb_dec_varint sample_field 0x2000 st =
          Some (True, st\<lparr>d_str := eat (unat (bytes_written s)) (reading s),
            d_mem := store (d_mem st) 0x2000 [0x96, 1, 0, 0]\<rparr>))"
proof -
  let ?env = "static_env sample_mem (\<lambda>_. []) :: obuf enc_env" and ?denv = "quiet_env (\<lambda>_. []) :: (unit, unit) dec_env"
  have l: "PB_LTYPE (f_type sample_field) = PB_LTYPE_VARINT" by code_simp
  have tables: "PB_ENCODERS ?env enc PB_LTYPE_VARINT = pb_enc_varint sample_mem"
      "PB_DECODERS ?denv dm PB_LTYPE_VARINT = pb_dec_varint" for enc dm
    by (simp_all add: PB_ENCODERS_def PB_DECODERS_def static_env_def fun_eq_iff Let_def)
  have v: "read_int sample_mem 0x1000 (f_data_size sample_field) = Some 406" by code_simp
  have xs: "value_bytes (e_mem ?env) sample_field 0x1000 = Some [0x96, 1, 0, 0]" by code_simp
  have "emits (\<lambda>s. pb_enc_varint sample_mem s sample_field 0x1000) (varint_bytes 406)"
    using emits_varint v by (simp add: pb_enc_varint_def)
  from emits_into [OF this length_varint_bytes(2)] obtain s where
    s: "pb_enc_varint sample_mem (pb_ostream_from_buffer (replicate 16 0) 16) sample_field 0x1000 = Some (True, s)"
    by blast
  moreover have "PB_ATYPE (f_type sample_field) \<noteq> PB_ATYPE_POINTER" by code_simp
  ultimately show ?thesis
    using value_roundtrip [OF _ xs, of 16 "replicate 16 0" "\<lambda>s fs a. None" s _ ?denv "\<lambda>_ _ _ _. None" "0x2000"]
    unfolding l tables by auto
qed



text \<open>C3: the frame of a submessage: if an encoder writes bytes \<open>bs\<close>, then the stream that
  pb_make_string_substream opens on the output of pb_encode_submessage holds exactly \<open>bs\<close>, and
  pb_close_string_substream puts the parent right behind the submessage however many bytes of the
  substream were read.\<close>

theorem submessage_framing:
  assumes "emits enc bs" and "length bs < 2 ^ 32"
    and "unat bufsize \<le> length buf" and "length buf < 2 ^ 63"
    and "pb_encode_submessage enc (pb_ostream_from_buffer buf bufsize) = Some (True, s)"
  shows "\<exists>sub par. pb_make_string_substream (reading s :: 's istream) = rd_ok sub par
    \<and> wf_in sub \<and> input sub = bs
    \<and> (\<forall>k. k \<le> length bs \<longrightarrow> pb_close_string_substream par (eat k sub) =
         rd_ok () (eat (unat (bytes_written s)) (reading s)))"
proof -
  define n :: u32 where "n = word_of_nat (length bs)"
  have n: "unat n = length bs" "word_of_nat (length bs) = (ucast n :: u64)"
    using assms(2) by (simp_all add: n_def unat_word_of_nat_small word_unat_eq_iff)
  have len: "length (varint_bytes (ucast n) @ bs) < 8589934592" using short_string [of bs n "ucast n"] n(1) by simp
  note emits = emits_submessage [OF assms(1), unfolded n(2)]
  from emits_reading [OF emits len assms(3-5)] obtain rest where
    r: "wf_in (reading s :: 's istream)" "input (reading s :: 's istream) = vbytes (ucast n) @ bs @ rest"
      "unat (bytes_written s) = length (vbytes (ucast n)) + length bs"
    by (auto simp: varint_bytes_vbytes)
  define t where "t = eat (length (vbytes (ucast n))) (reading s :: 's istream)"
  have t: "wf_in t" "input t = bs @ rest"
    using eat_wf [OF r(1), of "length (vbytes (ucast n))"] r(2) by (simp_all add: t_def)
  have "eat (unat n) t = eat (unat (bytes_written s)) (reading s)"
    by (simp add: t_def eat_eat [OF r(1)] r(3) n(1))
  with close_substream [OF t n(1) [symmetric]] substream_input [OF t n(1) [symmetric]]
    make_substream [OF r(1,2) n(1) [symmetric], folded t_def]
  show ?thesis by auto
qed

theorem submessage_framing_witness:
  "\<exists>s sub par. pb_encode_submessage (\<lambda>s. pb_encode_fixed32 s 7) (pb_ostream_from_buffer (replicate 16 0) 16) = Some (True, s)
    \<and> pb_make_string_substream (reading s :: unit istream) = rd_ok sub par \<and> input sub = [7, 0, 0, 0]"
proof -
  have bs: "le_bytes 4 (7 :: u32) = [7, 0, 0, 0]" by code_simp
  have e: "emits (\<lambda>s. pb_encode_fixed32 s 7) [7, 0, 0, 0]" using emits_fixed32 [of 7] bs by simp
  have "length (varint_bytes (word_of_nat (length [7 :: u8, 0, 0, 0])) @ [7 :: u8, 0, 0, 0]) \<le> 10" by code_simp
  from emits_into [OF emits_submessage [OF e] this] obtain s where
    s: "pb_encode_submessage (\<lambda>s. pb_encode_fixed32 s 7) (pb_ostream_from_buffer (replicate 16 0) 16) = Some (True, s)"
    by blast
  with submessage_framing [OF e _ _ _ s] show ?thesis by auto
qed

end
