(* ===== verification/Pb_Total.thy ===== *)
theory Pb_Total
  imports Pb_Bounds Pb_Required
begin

text \<open>
  Decoding returns. For messages whose fields are static, allocated or handled by callbacks, with
  submessages nested to any finite depth, no function of the decoder runs out of fuel, follows a
  null entry of a table or reads past the buffer, whatever the bytes of the message: every model
  function gives \<open>Some\<close>.
\<close>

definition returns :: "'a option \<Rightarrow> bool" where
  "returns r \<longleftrightarrow> r \<noteq> None"

lemma returns_Some [simp, intro!]: "returns (Some x)"
  by (simp add: returns_def)

lemma returns_None [simp]: "\<not> returns None"
  by (simp add: returns_def)

lemma returnsE: "returns r \<Longrightarrow> (\<And>x. r = Some x \<Longrightarrow> P) \<Longrightarrow> P"
  by (cases r) simp_all

lemma returns_ret [simp, intro!]:
  "returns (ret_true s)" "returns (ret_false s)" "returns (dec_error msg st)"
  by (simp_all add: ret_true_def ret_false_def dec_error_def)

lemma returns_if: "(c \<Longrightarrow> returns a) \<Longrightarrow> (\<not> c \<Longrightarrow> returns b) \<Longrightarrow> returns (if c then a else b)"
  by simp

lemma returns_map [simp]: "returns (map_option f r) = returns r"
  by (cases r) simp_all

lemma returns_case:
  "returns r \<Longrightarrow> (\<And>ok st. r = Some (ok, st) \<Longrightarrow> returns (f ok st)) \<Longrightarrow>
     returns (case r of None \<Rightarrow> None | Some (ok, st) \<Rightarrow> f ok st)"
  by (auto elim: returnsE)

lemma returns_and_then:
  "returns r \<Longrightarrow> (\<And>st. r = Some (True, st) \<Longrightarrow> returns (g st)) \<Longrightarrow> returns (and_then r g)"
  by (auto simp: and_then_def elim!: returnsE)

section \<open>The searches along the fields end\<close>

definition cycle_dist :: "nat \<Rightarrow> nat \<Rightarrow> nat \<Rightarrow> nat" where
  "cycle_dist n s k = (if k < s then s - k else n - k + s)"

lemma cycle_dist_next:
  "k < n \<Longrightarrow> s < n \<Longrightarrow> (if Suc k < n then Suc k else 0) \<noteq> s \<Longrightarrow>
     cycle_dist n s k = Suc (cycle_dist n s (if Suc k < n then Suc k else 0))"
  by (auto simp: cycle_dist_def split: if_splits)

lemma find_loop_returns:
  "at_field fs k it \<Longrightarrow> s < num_fields fs \<Longrightarrow> cycle_dist (num_fields fs) s k \<le> n \<Longrightarrow>
     returns (iter_find_loop n s tag it)"
proof (induction n arbitrary: k it)
  case 0
  then have "k < num_fields fs" by (simp add: at_field_def)
  with 0 show ?case by (auto simp: cycle_dist_def split: if_splits)
next
  case (Suc n)
  note next' = at_field_next(2) [OF Suc.prems(1)]
  then have pos: "it_pos (snd (pb_field_iter_next it)) = (if Suc k < num_fields fs then Suc k else 0)"
    by (simp add: at_field_def)
  have k: "k < num_fields fs" using Suc.prems(1) by (simp add: at_field_def)
  from Suc.IH [OF next' Suc.prems(2)] cycle_dist_next [OF k Suc.prems(2)] Suc.prems(3) show ?case
    by (auto simp: Let_def pos)
qed

lemma find_returns:
  assumes "placed fs it"
  obtains b it' where "pb_field_iter_find it tag = Some (b, it')" and "placed fs it'"
    and "b \<Longrightarrow> f_tag (it_field it') = tag"
proof -
  from assms obtain k where k: "at_field fs k it" by (auto simp: placed_def)
  then have p: "it_pos it = k" "it_start it = fs" "k < num_fields fs" by (simp_all add: at_field_def)
  have "cycle_dist (num_fields fs) k k \<le> Suc (length fs)"
    using p(3) num_fields_le [of fs] by (simp add: cycle_dist_def)
  from find_loop_returns [OF k p(3) this, of tag] have "returns (pb_field_iter_find it tag)"
    by (simp add: pb_field_iter_find_def p del: iter_find_loop.simps)
  then obtain b it' where "pb_field_iter_find it tag = Some (b, it')" by (auto elim: returnsE)
  with that placed_find [OF assms] show thesis by blast
qed

lemma extension_loop_returns:
  "at_field fs k it \<Longrightarrow> s < num_fields fs \<Longrightarrow> cycle_dist (num_fields fs) s k \<le> n \<Longrightarrow>
     returns (find_extension_loop n s it)"
proof (induction n arbitrary: k it)
  case 0
  then have "k < num_fields fs" by (simp add: at_field_def)
  with 0 show ?case by (auto simp: cycle_dist_def split: if_splits)
next
  case (Suc n)
  note next' = at_field_next(2) [OF Suc.prems(1)]
  then have pos: "it_pos (snd (pb_field_iter_next it)) = (if Suc k < num_fields fs then Suc k else 0)"
    by (simp add: at_field_def)
  have k: "k < num_fields fs" using Suc.prems(1) by (simp add: at_field_def)
  from Suc.IH [OF next' Suc.prems(2)] cycle_dist_next [OF k Suc.prems(2)] Suc.prems(3) show ?case
    by (auto simp: Let_def pos)
qed

section \<open>The messages considered\<close>

text \<open>The value types: the ltypes 0 to 7 and 10.\<close>

definition value_type :: "u8 \<Rightarrow> bool" where
  "value_type l \<longleftrightarrow> l \<le> PB_LTYPE_STRING \<or> l = PB_LTYPE_FIXED_LENGTH_BYTES"

text \<open>A static field of a value type.\<close>

definition plain :: "pb_field \<Rightarrow> bool" where
  "plain f \<longleftrightarrow> PB_ATYPE (f_type f) = PB_ATYPE_STATIC
     \<and> (PB_LTYPE (f_type f) \<le> PB_LTYPE_STRING \<or> PB_LTYPE (f_type f) = PB_LTYPE_FIXED_LENGTH_BYTES)"

definition plain_message :: "pb_field list \<Rightarrow> bool" where
  "plain_message fs \<longleftrightarrow> 0 < num_fields fs \<and> (\<forall>i < num_fields fs. plain (fs ! i))"

text \<open>
  A field of any storage: a callback field (if \<open>cbs\<close>), or a static or allocated field of a value
  type or with a submessage that satisfies \<open>sub\<close>. Extension fields are left out.
\<close>

definition decodable :: "bool \<Rightarrow> (pb_field list \<Rightarrow> bool) \<Rightarrow> (addr \<Rightarrow> pb_field list) \<Rightarrow> pb_field \<Rightarrow> bool" where
  "decodable cbs sub ds f \<longleftrightarrow>
     (let l = PB_LTYPE (f_type f); atype = PB_ATYPE (f_type f) in
      if atype = PB_ATYPE_CALLBACK then cbs \<and> l \<noteq> PB_LTYPE_EXTENSION
      else (atype = PB_ATYPE_STATIC \<or> atype = PB_ATYPE_POINTER \<and> f_data_size f \<noteq> 0)
         \<and> (value_type l \<or> l = PB_LTYPE_SUBMESSAGE \<and> sub (ds (f_ptr f))))"

text \<open>Messages nested at most \<open>k\<close> deep.\<close>

fun nested :: "bool \<Rightarrow> (addr \<Rightarrow> pb_field list) \<Rightarrow> nat \<Rightarrow> pb_field list \<Rightarrow> bool" where
  "nested cbs ds 0 fs \<longleftrightarrow> False"
| "nested cbs ds (Suc k) fs \<longleftrightarrow> 0 < num_fields fs \<and> num_fields fs < 2 ^ 32
     \<and> (\<forall>i < num_fields fs. decodable cbs (nested cbs ds k) ds (fs ! i))"

lemma plain_decodable: "plain f \<Longrightarrow> decodable cbs sub ds f"
  by (auto simp: plain_def decodable_def value_type_def Let_def)

lemma plain_nested: "plain_message fs \<Longrightarrow> num_fields fs < 2 ^ 32 \<Longrightarrow> nested cbs ds (Suc 0) fs"
  by (simp add: plain_message_def plain_decodable)

lemma value_type_other: "value_type l \<Longrightarrow> l \<noteq> PB_LTYPE_SUBMESSAGE \<and> l \<noteq> PB_LTYPE_EXTENSION"
  by (auto simp: value_type_def)

lemma decodable_ltype:
  assumes "decodable cbs sub ds f"
  shows "PB_LTYPE (f_type f) \<noteq> PB_LTYPE_EXTENSION"
  using assms by (auto simp: decodable_def Let_def dest: value_type_other split: if_splits)

lemma decodable_sub:
  "decodable cbs sub ds f \<Longrightarrow> PB_LTYPE (f_type f) = PB_LTYPE_SUBMESSAGE \<Longrightarrow> PB_ATYPE (f_type f) \<noteq> PB_ATYPE_CALLBACK \<Longrightarrow>
     sub (ds (f_ptr f))"
  by (auto simp: decodable_def Let_def dest: value_type_other split: if_splits)

text \<open>The iterator of the decoder is at a field of the message.\<close>

lemma placed_field_in: "placed fs it \<Longrightarrow> \<exists>i < num_fields fs. it_field it = fs ! i"
  by (auto simp: placed_def at_field_def it_field_def field_at_def dest: order_less_le_trans [OF _ num_fields_le])

lemma placed_decodable: "nested cbs ds (Suc k) fs \<Longrightarrow> placed fs it \<Longrightarrow> decodable cbs (nested cbs ds k) ds (it_field it)"
  using placed_field_in by fastforce

lemma find_extension_false:
  assumes "nested cbs ds (Suc d) fs" and "placed fs it"
  obtains it' where "find_extension_field it = Some (False, it')" and "placed fs it'"
proof -
  from assms(2) obtain k where k: "at_field fs k it" by (auto simp: placed_def)
  then have p: "it_pos it = k" "it_start it = fs" "k < num_fields fs" by (simp_all add: at_field_def)
  have "cycle_dist (num_fields fs) k k \<le> Suc (length fs)"
    using p(3) num_fields_le [of fs] by (simp add: cycle_dist_def)
  from extension_loop_returns [OF k p(3) this] obtain b it' where
    r: "find_extension_field it = Some (b, it')" by (auto simp: find_extension_field_def p simp del: find_extension_loop.simps elim: returnsE)
  have "placed fs it \<Longrightarrow> find_extension_loop n s it = Some (b, it') \<Longrightarrow> \<not> b" for n s
  proof (induction n arbitrary: it)
    case (Suc n)
    from Suc.prems(2) Suc.IH [OF placed_next [OF Suc.prems(1)]] decodable_ltype [OF placed_decodable [OF assms(1) Suc.prems(1)]]
    show ?case by (auto simp: Let_def ret_false_def split: if_splits)
  qed simp
  with assms(2) r have "\<not> b" unfolding find_extension_field_def by blast
  with that r placed_find_extension [OF assms(2) r] show thesis by (cases b) auto
qed

section \<open>Values\<close>

lemma reader_returns:
  assumes "reader r" and "wf_in s"
  obtains v t where "r s = Some (v, t)" and "wf_in t"
  using readerD [OF assms] behind_wf [OF assms(2)] after_wf [OF assms(2)]
  by (auto simp: good_def split: if_splits)

lemma rd_then_returns:
  assumes "reader r" and "wf_in (d_str st)" and "\<And>a st. wf_in (d_str st) \<Longrightarrow> returns (k a st)"
  shows "returns (rd_then st r k)"
proof -
  obtain v t where "r (d_str st) = Some (v, t)" "wf_in t" by (rule reader_returns [OF assms(1,2)])
  with assms(3) [of "st\<lparr>d_str := t\<rparr>"] show ?thesis
    by (auto simp: rd_then_def split: option.split)
qed

text \<open>A sequence of two actions, the first of which keeps to the stream.\<close>

lemma returns_then:
  assumes "wf_in (d_str st)" and "safe_res (d_str st) r" and "returns r"
    and "\<And>st'. wf_in (d_str st') \<Longrightarrow> returns (g st')"
  shows "returns (and_then r g)"
  using assms after_wf [OF assms(1)] by (auto simp: safe_res_def intro!: returns_and_then)

lemma finish_returns: "returns (finish_write w v st)"
  by (simp add: finish_write_def split: option.split prod.split)

lemma read_to_returns: "wf_in (d_str st) \<Longrightarrow> returns (read_to st dest n)"
  unfolding read_to_def by (rule rd_then_returns [OF reader_read]) simp_all

lemma allocate_returns: "returns (allocate_field env p n k st)"
  by (auto simp: allocate_field_def Let_def split: prod.split)

lemma string_returns: "wf_in (d_str st) \<Longrightarrow> returns (pb_dec_string env field dest st)"
  unfolding pb_dec_string_def Let_def
  by (erule rd_then_returns [OF reader_varint32])
    (intro returns_if returns_ret returns_case read_to_returns returns_then [OF _ safe_allocate allocate_returns]
      returns_Some; assumption)

lemma bytes_returns: "wf_in (d_str st) \<Longrightarrow> returns (pb_dec_bytes env field dest st)"
  unfolding pb_dec_bytes_def Let_def
  by (erule rd_then_returns [OF reader_varint32])
    (intro returns_if returns_ret read_to_returns returns_then [OF _ safe_allocate allocate_returns]; simp)

lemma fixed_length_returns:
  assumes "wf_in (d_str st)"
  shows "returns (pb_dec_fixed_length_bytes field dest st)"
  unfolding pb_dec_fixed_length_bytes_def Let_def
  by (rule rd_then_returns [OF reader_varint32 assms(1)]) (auto intro!: returns_if read_to_returns)

lemma value_returns:
  assumes "wf_in (d_str st)" and "value_type (PB_LTYPE (f_type field))"
  shows "returns (PB_DECODERS env dm (PB_LTYPE (f_type field)) field dest st)"
proof -
  have "l \<le> 7 \<Longrightarrow> l = 0 \<or> l = 1 \<or> l = 2 \<or> l = 3 \<or> l = 4 \<or> l = 5 \<or> l = 6 \<or> l = 7" for l :: u8
    by unat_arith
  with assms(2) have l: "PB_LTYPE (f_type field) \<in> {0, 1, 2, 3, 4, 5, 6, 7, 10}" by (auto simp: value_type_def)
  note rd = rd_then_returns [OF _ assms(1)]
  from l string_returns [OF assms(1)] bytes_returns [OF assms(1)] fixed_length_returns [OF assms(1)]
  show ?thesis
    by (auto simp: PB_DECODERS_def pb_dec_bool_def pb_dec_varint_def pb_dec_uvarint_def pb_dec_svarint_def
        pb_dec_fixed32_def pb_dec_fixed64_def Let_def
        intro!: rd [OF reader_bool] rd [OF reader_varint] rd [OF reader_svarint] rd [OF reader_fixed(1)]
          rd [OF reader_fixed(2)] finish_returns)
qed

lemma close_returns:
  assumes "wf_in sub"
  shows "returns (pb_close_string_substream par sub)"
proof -
  obtain v t where "pb_read sub False (bytes_left sub) = Some (v, t)"
    using reader_returns [OF reader_read assms] by blast
  then show ?thesis by (auto simp: pb_close_string_substream_def Let_def rd_ok_def rd_fail_def split: option.split)
qed

lemma substream_returns:
  assumes "wf_in (d_str st)"
    and "\<And>sub st. wf_in sub \<Longrightarrow> wf_in (d_str st) \<Longrightarrow> returns (k sub st)"
  shows "returns (rd_then st pb_make_string_substream k)"
  using assms(1)
proof (cases rule: open_substream)
  case (fail t)
  then show ?thesis by (simp add: rd_then_def rd_fail_def)
next
  case (ok n t)
  note wf = after_wf [OF assms(1) ok(2)]
  from sub_wf [OF wf ok(3)] behind_wf [OF wf] ok(1) show ?thesis
    by (auto simp: rd_then_def rd_ok_def intro: assms(2))
qed

lemma safe_wf: "wf_in s \<Longrightarrow> safe_res s r \<Longrightarrow> r = Some (ok, st) \<Longrightarrow> wf_in (d_str st)"
  by (cases ok) (auto simp: safe_res_def dest: after_wf behind_wf)

text \<open>The end of a function that works on a substream.\<close>

lemma returns_close:
  assumes "wf_in sub" and "safe_res sub r" and "returns r"
  shows "returns (case r of None \<Rightarrow> None | Some (status, st') \<Rightarrow>
     (case pb_close_string_substream (p st') (d_str st') of None \<Rightarrow> None
      | Some (None, s) \<Rightarrow> ret_false (st'\<lparr>d_str := s\<rparr>) | Some (Some _, s) \<Rightarrow> Some (g status, st'\<lparr>d_str := s\<rparr>)))"
proof -
  obtain status st' where r: "r = Some (status, st')" using assms(3) by (auto elim: returnsE)
  have "returns (pb_close_string_substream (p st') (d_str st'))" by (rule close_returns [OF safe_wf [OF assms(1,2) r]])
  then show ?thesis unfolding r by (auto elim!: returnsE split: option.split)
qed

text \<open>Submessages, given that the recursive call returns.\<close>

definition dm_returns :: "(bool \<Rightarrow> pb_field list \<Rightarrow> addr \<Rightarrow> ('s, 'h) action) \<Rightarrow> (pb_field list \<Rightarrow> bool) \<Rightarrow> bool" where
  "dm_returns dm sub \<longleftrightarrow> (\<forall>init fs dest st. sub fs \<longrightarrow> wf_in (d_str st) \<longrightarrow> returns (dm init fs dest st))"

lemma submessage_returns:
  fixes st :: "('s, 'h) dec"
  assumes "wf_in (d_str st)" and "safe_dm dm" and "dm_returns dm sub" and "sub (d_fields env (f_ptr field))"
  shows "returns (pb_dec_submessage env dm field dest st)"
  unfolding pb_dec_submessage_def
proof (rule substream_returns [OF assms(1)])
  fix s :: "'s istream" and st :: "('s, 'h) dec" assume s: "wf_in s"
  let ?r = "dm (PB_HTYPE (f_type field) = PB_HTYPE_REPEATED) (d_fields env (f_ptr field)) dest (st\<lparr>d_str := s\<rparr>)"
  have "wf_in (d_str (st\<lparr>d_str := s\<rparr>))" using s by simp
  with assms(2-4) have r: "returns ?r" "safe_res (d_str (st\<lparr>d_str := s\<rparr>)) ?r" unfolding dm_returns_def safe_dm_def by blast+
  then have "safe_res s ?r" by simp
  from returns_close [OF s this r(1), where p = "\<lambda>_. d_str st" and g = "\<lambda>x. x"]
  show "returns (if f_ptr field = 0 then dec_error ''invalid field descriptor'' st
       else on_substream st s (dm (PB_HTYPE (f_type field) = PB_HTYPE_REPEATED) (d_fields env (f_ptr field)) dest))"
    by (simp add: on_substream_def)
qed

lemma decoder_returns:
  assumes "wf_in (d_str st)" and "safe_dm dm" and "dm_returns dm sub"
    and "decodable cbs sub (d_fields env) field" and "PB_ATYPE (f_type field) \<noteq> PB_ATYPE_CALLBACK"
  shows "returns (PB_DECODERS env dm (PB_LTYPE (f_type field)) field dest st)"
proof (cases "PB_LTYPE (f_type field) = PB_LTYPE_SUBMESSAGE")
  case True
  have "returns (pb_dec_submessage env dm field dest st)"
    by (rule submessage_returns [OF assms(1-3)]) (rule decodable_sub [OF assms(4) True assms(5)])
  with True show ?thesis by (simp add: PB_DECODERS_def)
next
  case False
  with assms(4,5) have "value_type (PB_LTYPE (f_type field))" by (auto simp: decodable_def Let_def)
  with assms(1) show ?thesis by (rule value_returns)
qed

section \<open>Packed arrays consume their input\<close>

definition progress :: "'s istream \<Rightarrow> ('a, 's) rd \<Rightarrow> bool" where
  "progress s r \<longleftrightarrow> (\<forall>a t. r = Some (Some a, t) \<longrightarrow> unat (bytes_left t) < unat (bytes_left s))"

lemma progress_bind: "progress s r \<Longrightarrow> progress s (rd_bind r (\<lambda>a t. rd_ok (f a) t))"
  by (auto simp: progress_def rd_bind_def rd_ok_def split: option.splits)

lemma progress_varint64_loop: "wf_in s \<Longrightarrow> progress s (varint64_loop s result bitpos)"
proof (induction s result bitpos rule: varint64_loop.induct)
  case (1 s result bitpos)
  show ?case
  proof (cases "64 \<le> bitpos")
    case True
    then show ?thesis by (simp add: varint64_loop.simps [of s] progress_def rd_error_def rd_fail_def)
  next
    case False
    from readerD [OF reader_readbyte \<open>wf_in s\<close>] show ?thesis
    proof (cases rule: good_cases)
      case (ok byte t)
      with pb_readbyte_less [OF ok(1)] 1(1) [OF False ok(1) refl] after_wf [OF \<open>wf_in s\<close> ok(2)] False
      show ?thesis by (auto simp: varint64_loop.simps [of s] progress_def rd_ok_def Let_def
          intro: less_trans)
    qed (use False in \<open>simp add: varint64_loop.simps [of s] progress_def\<close>)
  qed
qed

lemma progress_read:
  assumes "wf_in s" and "0 < unat n"
  shows "progress s (pb_read s b n)"
proof (cases "unat n \<le> length (input s)")
  case True
  then have "unat n \<le> unat (bytes_left s)" using length_input [OF assms(1)] by simp
  then have "unat (bytes_left (eat (unat n) s)) < unat (bytes_left s)" using assms(2) by (simp add: unat_eat)
  with pb_read_ok [OF assms(1) True] show ?thesis by (simp add: progress_def rd_ok_def)
next
  case False
  with pb_read_short [OF assms(1)] show ?thesis by (simp add: progress_def rd_error_def rd_fail_def)
qed

lemma progress_varint32: "wf_in s \<Longrightarrow> progress s (pb_decode_varint32 s)"
  by (erule varint32_eof_cases) (auto simp: progress_def pb_decode_varint32_def)

lemma rd_then_progress:
  assumes "progress (d_str st) (r (d_str st))" and "\<And>a s u. k a (st\<lparr>d_str := s\<rparr>) = Some (True, u) \<Longrightarrow> d_str u = s"
    and "rd_then st r k = Some (True, st')"
  shows "unat (bytes_left (d_str st')) < unat (bytes_left (d_str st))"
  using assms by (auto simp: rd_then_def progress_def ret_false_def split: option.splits)

lemma finish_write_str: "finish_write w v st = Some (True, u) \<Longrightarrow> d_str u = d_str st"
  by (auto simp: finish_write_def dec_error_def ret_false_def ret_true_def split: option.splits prod.splits if_splits)

lemma packable_progress:
  assumes "wf_in (d_str st)" and "PB_LTYPE (f_type field) \<le> PB_LTYPE_LAST_PACKABLE"
    and "PB_DECODERS env dm (PB_LTYPE (f_type field)) field dest st = Some (True, st')"
  shows "unat (bytes_left (d_str st')) < unat (bytes_left (d_str st))"
proof -
  have "l \<le> 5 \<Longrightarrow> l = 0 \<or> l = 1 \<or> l = 2 \<or> l = 3 \<or> l = 4 \<or> l = 5" for l :: u8
    by unat_arith
  with assms(2) consider "PB_LTYPE (f_type field) = 0" | "PB_LTYPE (f_type field) = 1" | "PB_LTYPE (f_type field) = 2"
    | "PB_LTYPE (f_type field) = 3" | "PB_LTYPE (f_type field) = 4" | "PB_LTYPE (f_type field) = 5" by blast
  then show ?thesis
  proof cases
    case 1
    with assms(3) have "pb_dec_bool field dest st = Some (True, st')" by (simp add: PB_DECODERS_def)
    then show ?thesis unfolding pb_dec_bool_def
      by (rule rd_then_progress [rotated 2])
        (use assms(1) progress_varint32 in \<open>auto simp: pb_decode_bool_def ret_true_def intro!: progress_bind\<close>)
  next
    case 2
    with assms(3) have "pb_dec_varint field dest st = Some (True, st')" by (simp add: PB_DECODERS_def)
    then show ?thesis unfolding pb_dec_varint_def Let_def
      by (rule rd_then_progress [rotated 2])
        (use assms(1) progress_varint64_loop in \<open>auto simp: pb_decode_varint_def dest: finish_write_str\<close>)
  next
    case 3
    with assms(3) have "pb_dec_uvarint field dest st = Some (True, st')" by (simp add: PB_DECODERS_def)
    then show ?thesis unfolding pb_dec_uvarint_def
      by (rule rd_then_progress [rotated 2])
        (use assms(1) progress_varint64_loop in \<open>auto simp: pb_decode_varint_def dest: finish_write_str\<close>)
  next
    case 4
    with assms(3) have "pb_dec_svarint field dest st = Some (True, st')" by (simp add: PB_DECODERS_def)
    then show ?thesis unfolding pb_dec_svarint_def
      by (rule rd_then_progress [rotated 2])
        (use assms(1) progress_varint64_loop in
          \<open>auto simp: pb_decode_svarint_def pb_decode_varint_def dest: finish_write_str intro!: progress_bind\<close>)
  next
    case 5
    with assms(3) have "pb_dec_fixed32 field dest st = Some (True, st')" by (simp add: PB_DECODERS_def)
    then show ?thesis unfolding pb_dec_fixed32_def
      by (rule rd_then_progress [rotated 2])
        (use assms(1) in \<open>auto simp: pb_decode_fixed32_def ret_true_def intro!: progress_bind progress_read\<close>)
  next
    case 6
    with assms(3) have "pb_dec_fixed64 field dest st = Some (True, st')" by (simp add: PB_DECODERS_def)
    then show ?thesis unfolding pb_dec_fixed64_def
      by (rule rd_then_progress [rotated 2])
        (use assms(1) in \<open>auto simp: pb_decode_fixed64_def ret_true_def intro!: progress_bind progress_read\<close>)
  qed
qed

lemma packed_returns:
  assumes safe: "\<And>p st. wf_in (d_str st) \<Longrightarrow>
      safe_res (d_str st) (PB_DECODERS env dm (PB_LTYPE (f_type field)) field p st)"
    and field: "value_type (PB_LTYPE (f_type field))" "PB_LTYPE (f_type field) \<le> PB_LTYPE_LAST_PACKABLE"
  shows "wf_in (d_str st) \<Longrightarrow> unat (bytes_left (d_str st)) < k \<Longrightarrow>
    returns (packed_static k (PB_DECODERS env dm (PB_LTYPE (f_type field))) field pData pSize st)"
proof (induction k arbitrary: st)
  case (Suc k)
  let ?func = "PB_DECODERS env dm (PB_LTYPE (f_type field))"
  have next': "returns (packed_static k ?func field pData pSize (set_mem st' m))"
    if r: "?func field p st = Some (True, st')" for p st' m
  proof -
    have "wf_in (d_str st')" by (rule safe_wf [OF Suc.prems(1) safe [OF Suc.prems(1)] r])
    with packable_progress [OF Suc.prems(1) field(2) r] Suc.prems(2) show ?thesis
      by (intro Suc.IH) simp_all
  qed
  show ?case
    unfolding packed_static.simps Let_def
    by (intro returns_if returns_and_then value_returns Suc.prems field returns_ret next')
qed simp

text \<open>The same for the array that grows: one item takes some of the input.\<close>

lemma packable_value: "l \<le> PB_LTYPE_LAST_PACKABLE \<Longrightarrow> value_type l \<and> l \<noteq> PB_LTYPE_STRING \<and> l \<noteq> PB_LTYPE_BYTES"
  by (auto simp: value_type_def intro: order_trans)

lemma initialize_packable:
  "PB_LTYPE (f_type field) \<le> PB_LTYPE_LAST_PACKABLE \<Longrightarrow> initialize_pointer_field env field p st = ret_true st"
  by (auto simp: initialize_pointer_field_def Let_def dest: packable_value value_type_other)

lemma allocate_kept: "allocate_field env p ds n st = Some (True, st') \<Longrightarrow> d_str st' = d_str st"
  by (auto simp: allocate_field_def Let_def dec_error_def ret_false_def ret_true_def split: if_splits prod.splits)

lemma packed_pointer_returns:
  assumes dm: "safe_dm dm" and field: "PB_LTYPE (f_type field) \<le> PB_LTYPE_LAST_PACKABLE" "f_data_size field \<noteq> 0"
  shows "wf_in (d_str st) \<Longrightarrow> unat (bytes_left (d_str st)) < k \<Longrightarrow>
    returns (packed_pointer k env (PB_DECODERS env dm (PB_LTYPE (f_type field))) field pData pSize alloc par st)"
proof (induction k arbitrary: st alloc)
  case (Suc k)
  let ?func = "PB_DECODERS env dm (PB_LTYPE (f_type field))"
  let ?item = "\<lambda>g n. and_then (if g then allocate_field env pData (ucast (f_data_size field)) n st else ret_true st)
      (\<lambda>st. and_then (initialize_pointer_field env field (pItem_at (load_u64 (d_mem st) pData) field (load_u32 (d_mem st) pSize)) st)
         (?func field (pItem_at (load_u64 (d_mem st) pData) field (load_u32 (d_mem st) pSize))))"
  note func = value_returns [OF _ conjunct1 [OF packable_value [OF field(1)]]]
  have first: "returns (if g then allocate_field env pData (ucast (f_data_size field)) n st else ret_true st)"
      "(if g then allocate_field env pData (ucast (f_data_size field)) n st else ret_true st) = Some (True, st1)
        \<Longrightarrow> d_str st1 = d_str st" for g n st1
    by (auto simp: allocate_returns ret_true_def dest: allocate_kept split: if_splits)
  have item: "returns (?item g n)" for g n
    by (rule returns_and_then [OF first(1)]) (use first(2) Suc.prems(1) in \<open>auto simp: initialize_packable [OF field(1)] intro: func\<close>)
  have next': "returns (packed_pointer k env ?func field pData pSize alloc' par (set_mem st' m))"
    if r: "?item g n = Some (True, st')" for g n st' m alloc'
  proof -
    obtain st1 where st1: "(if g then allocate_field env pData (ucast (f_data_size field)) n st else ret_true st) = Some (True, st1)"
      and f: "?func field (pItem_at (load_u64 (d_mem st1) pData) field (load_u32 (d_mem st1) pSize)) st1 = Some (True, st')"
      using r by (auto simp: and_then_True initialize_packable [OF field(1)])
    have d: "d_str st1 = d_str st" by (rule first(2) [OF st1])
    then have wf: "wf_in (d_str st1)" using Suc.prems(1) by simp
    have "wf_in (d_str st')" by (rule safe_wf [OF wf safe_decoders [OF dm wf] f])
    with packable_progress [OF wf field(1) f] Suc.prems(2) d show ?thesis by (intro Suc.IH) simp_all
  qed
  have step: "returns (case ?item g n of None \<Rightarrow> None | Some (False, st) \<Rightarrow> Some (False, par, st)
      | Some (True, st) \<Rightarrow> packed_pointer k env ?func field pData pSize alloc' par
          (set_mem st (store_u32 (d_mem st) pSize (load_u32 (d_mem st) pSize + 1))))" for g n alloc'
  proof -
    obtain ok st' where r: "?item g n = Some (ok, st')" using item [of g n] by (auto elim: returnsE)
    show ?thesis
    proof (cases ok)
      case True
      with r have "?item g n = Some (True, st')" by simp
      from next' [OF this] this show ?thesis by (simp only: option.case prod.case bool.case)
    next
      case False
      with r have "?item g n = Some (False, st')" by simp
      then show ?thesis by (simp only: option.case prod.case bool.case returns_Some)
    qed
  qed
  show ?case
    unfolding packed_pointer.simps Let_def if_not_P [OF field(2)]
    by (intro returns_if returns_Some step)
qed simp

section \<open>Defaults and release\<close>

lemma iter_loop_returns:
  assumes "0 < num_fields fs" and "\<And>j st. j < num_fields fs \<Longrightarrow> returns (body (iter_at fs d j) st)"
  shows "returns (iter_loop body (iter_at fs d 0) st)"
proof -
  have "\<forall>s. returns (iter_loop body (iter_at fs d 0) s)"
    by (rule iter_loop_closed [where Q = "\<lambda>f. \<forall>s. returns (f s)"])
      (use assms in \<open>auto intro: returns_and_then\<close>)
  then show ?thesis by simp
qed

lemma default_returns:
  assumes "decodable cbs sub (d_fields env) (it_field it)"
    and "\<And>fs d st. sub fs \<Longrightarrow> returns (pb_message_set_to_defaults env n fs d st)"
  shows "returns (pb_field_set_to_default env (Suc n) it st)"
  unfolding pb_field_set_to_default.simps Let_def
  using decodable_ltype [OF assms(1)] decodable_sub [OF assms(1)]
  by (intro returns_if returns_ret assms(2)) simp_all

lemma two_levels: "2 * Suc k \<le> n \<Longrightarrow> \<exists>m. n = Suc (Suc m) \<and> 2 * k \<le> m"
  by (rule exI [of _ "n - 2"]) arith

lemma defaults_return:
  "nested cbs (d_fields env) k fs \<Longrightarrow> 2 * k \<le> n \<Longrightarrow> returns (pb_message_set_to_defaults env n fs dest st)"
proof (induction k arbitrary: n fs dest st)
  case (Suc k)
  obtain m where n: "n = Suc (Suc m)" "2 * k \<le> m" using two_levels [OF Suc.prems(2)] by blast
  have start: "fst (pb_field_iter_begin fs dest)" "snd (pb_field_iter_begin fs dest) = iter_at fs dest 0"
    using Suc.prems(1) by simp_all
  have "returns (iter_loop (\<lambda>it st. pb_field_set_to_default env (Suc m) it st) (iter_at fs dest 0) st)"
  proof (rule iter_loop_returns)
    fix j and st :: "('a, 'b) dec" assume j: "j < num_fields fs"
    have "decodable cbs (nested cbs (d_fields env) k) (d_fields env) (it_field (iter_at fs dest j))"
      using Suc.prems(1) j by (simp add: iter_field_at)
    then show "returns (pb_field_set_to_default env (Suc m) (iter_at fs dest j) st)"
      by (rule default_returns) (rule Suc.IH [OF _ n(2)])
  qed (use Suc.prems(1) in simp)
  then show ?case
    using start by (cases "pb_field_iter_begin fs dest") (simp add: n(1) del: pb_field_set_to_default.simps iter_at.simps)
qed simp

lemma release_items_returns:
  "(\<And>p st. returns (body p st)) \<Longrightarrow> returns (release_items body stride p n st)"
  by (induction n arbitrary: p st) (auto intro: returns_and_then)

lemma single_release_returns:
  assumes "decodable cbs sub (d_fields env) (it_field it)"
    and "\<And>fs d st. sub fs \<Longrightarrow> returns (pb_release env n fs d st)"
  shows "returns (pb_release_single_field env (Suc n) it st)"
  unfolding pb_release_single_field.simps Let_def
  using decodable_ltype [OF assms(1)] decodable_sub [OF assms(1)]
  by (intro returns_if returns_ret returns_and_then release_items_returns assms(2))
    (simp_all add: release_entry_def Let_def)

lemma release_returns:
  "nested cbs (d_fields env) k fs \<Longrightarrow> 2 * k \<le> n \<Longrightarrow> returns (pb_release env n fs dest st)"
proof (induction k arbitrary: n fs dest st)
  case (Suc k)
  obtain m where n: "n = Suc (Suc m)" "2 * k \<le> m" using two_levels [OF Suc.prems(2)] by blast
  have start: "fst (pb_field_iter_begin fs dest)" "snd (pb_field_iter_begin fs dest) = iter_at fs dest 0"
    using Suc.prems(1) by simp_all
  have "returns (iter_loop (\<lambda>it st. pb_release_single_field env (Suc m) it st) (iter_at fs dest 0) st)"
  proof (rule iter_loop_returns)
    fix j and st :: "('a, 'b) dec" assume j: "j < num_fields fs"
    have "decodable cbs (nested cbs (d_fields env) k) (d_fields env) (it_field (iter_at fs dest j))"
      using Suc.prems(1) j by (simp add: iter_field_at)
    then show "returns (pb_release_single_field env (Suc m) (iter_at fs dest j) st)"
      by (rule single_release_returns) (rule Suc.IH [OF _ n(2)])
  qed (use Suc.prems(1) in simp)
  then show ?case
    using start by (cases "pb_field_iter_begin fs dest") (simp add: n(1) del: pb_release_single_field.simps iter_at.simps)
qed simp

text \<open>What the fields of a message need: \<open>k\<close> is the depth of their submessages.\<close>

definition deep_enough :: "('s, 'h) dec_env \<Rightarrow> nat \<Rightarrow> bool" where
  "deep_enough env k \<longleftrightarrow> 2 * Suc k \<le> d_depth env"

lemma deep_defaults:
  "deep_enough env k \<Longrightarrow> nested cbs (d_fields env) k fs \<Longrightarrow> returns (pb_message_set_to_defaults env (d_depth env) fs dest st)"
  unfolding deep_enough_def by (erule defaults_return) arith

lemma deep_release:
  assumes "deep_enough env k" and "decodable cbs (nested cbs (d_fields env) k) (d_fields env) (it_field it)"
  shows "returns (pb_release_single_field env (d_depth env) it st)"
proof -
  obtain n where n: "d_depth env = Suc n" "2 * k \<le> n"
    using two_levels [OF assms(1) [unfolded deep_enough_def]] by auto
  show ?thesis unfolding n(1) by (rule single_release_returns [OF assms(2)]) (rule release_returns [OF _ n(2)])
qed

lemma initialize_returns:
  assumes "deep_enough env k" and "decodable cbs (nested cbs (d_fields env) k) (d_fields env) field"
    and "PB_ATYPE (f_type field) \<noteq> PB_ATYPE_CALLBACK"
  shows "returns (initialize_pointer_field env field p st)"
  unfolding initialize_pointer_field_def Let_def
  using deep_defaults [OF assms(1) decodable_sub [OF assms(2) _ assms(3)]]
  by (intro returns_if returns_ret) simp_all

section \<open>Fields\<close>

lemma static_field_returns:
  fixes st :: "('s, 'h) dec"
  assumes st: "wf_in (d_str st)"
    and vals: "\<And>p st. wf_in (d_str st) \<Longrightarrow> returns (PB_DECODERS env dm (PB_LTYPE (f_type (it_field it))) (it_field it) p st)"
    and safe: "\<And>p st. wf_in (d_str st) \<Longrightarrow>
      safe_res (d_str st) (PB_DECODERS env dm (PB_LTYPE (f_type (it_field it))) (it_field it) p st)"
    and sub: "\<And>p st. PB_LTYPE (f_type (it_field it)) = PB_LTYPE_SUBMESSAGE \<Longrightarrow>
      returns (pb_message_set_to_defaults env (d_depth env) (d_fields env (f_ptr (it_field it))) p st)"
  shows "returns (decode_static_field env dm wt it st)"
proof -
  let ?f = "it_field it"
  let ?func = "PB_DECODERS env dm (PB_LTYPE (f_type ?f))"
  have packed: "returns (rd_then st pb_make_string_substream (\<lambda>substream st.
            case packed_static (Suc (unat (bytes_left substream))) ?func ?f (it_pData it) (it_pSize it)
                   (st\<lparr>d_str := substream\<rparr>) of
              None \<Rightarrow> None
            | Some (status, st') \<Rightarrow>
                if bytes_left (d_str st') \<noteq> 0
                then dec_error ''array overflow'' (st'\<lparr>d_str := d_str st\<rparr>)
                else (case pb_close_string_substream (d_str st) (d_str st') of
                   None \<Rightarrow> None
                 | Some (None, s) \<Rightarrow> ret_false (st'\<lparr>d_str := s\<rparr>)
                 | Some (Some _, s) \<Rightarrow> Some (status, st'\<lparr>d_str := s\<rparr>))))"
    if l: "PB_LTYPE (f_type ?f) \<le> PB_LTYPE_LAST_PACKABLE"
  proof (rule substream_returns [OF st])
    fix sub :: "'s istream" and st :: "('s, 'h) dec" assume wf: "wf_in sub" "wf_in (d_str st)"
    let ?r = "packed_static (Suc (unat (bytes_left sub))) ?func ?f (it_pData it) (it_pSize it) (st\<lparr>d_str := sub\<rparr>)"
    have r: "returns ?r" by (rule packed_returns [OF safe conjunct1 [OF packable_value [OF l]] l]) (use wf in simp_all)
    have safe: "safe_res sub ?r"
      using safe_packed_static [where func = ?func and field = ?f, OF safe,
          of "st\<lparr>d_str := sub\<rparr>"] wf(1)
      by (simp del: packed_static.simps)
    have close: "returns (pb_close_string_substream (d_str st) (d_str st'))" if "?r = Some (ok, st')" for ok st'
      by (rule close_returns [OF safe_wf [OF wf(1) safe that]])
    show "returns (case ?r of
              None \<Rightarrow> None
            | Some (status, st') \<Rightarrow>
                if bytes_left (d_str st') \<noteq> 0
                then dec_error ''array overflow'' (st'\<lparr>d_str := d_str st\<rparr>)
                else (case pb_close_string_substream (d_str st) (d_str st') of
                   None \<Rightarrow> None
                 | Some (None, s) \<Rightarrow> ret_false (st'\<lparr>d_str := s\<rparr>)
                 | Some (Some _, s) \<Rightarrow> Some (status, st'\<lparr>d_str := s\<rparr>)))"
      using r close by (auto elim!: returnsE split: option.split simp del: packed_static.simps)
  qed
  have defaults: "returns (if PB_LTYPE (f_type ?f) = PB_LTYPE_SUBMESSAGE \<and> c
      then pb_message_set_to_defaults env (d_depth env) (d_fields env (f_ptr ?f)) p st' else ret_true st'')" for c p st' st''
    using sub by simp
  have oneof: "returns (and_then (if PB_LTYPE (f_type ?f) = PB_LTYPE_SUBMESSAGE \<and> c
      then pb_message_set_to_defaults env (d_depth env) (d_fields env (f_ptr ?f)) p (set_mem st m) else ret_true st)
      (\<lambda>st. ?func ?f q (set_mem st (h st))))" for c p m q h
    by (rule returns_then [OF st _ defaults])
      (use st in \<open>intro safe_if safe_kept kept_defaults safe_ret; simp\<close>, simp add: vals)
  show ?thesis
    unfolding decode_static_field_def Let_def
    by (intro returns_if returns_ret packed oneof vals) (use st in simp_all)
qed

lemma static_returns:
  fixes st :: "('s, 'h) dec"
  assumes st: "wf_in (d_str st)" and dm: "safe_dm dm" and depth: "deep_enough env k"
    and dm': "dm_returns dm (nested cbs (d_fields env) k)"
    and field: "decodable cbs (nested cbs (d_fields env) k) (d_fields env) (it_field it)"
      "PB_ATYPE (f_type (it_field it)) \<noteq> PB_ATYPE_CALLBACK"
  shows "returns (decode_static_field env dm wt it st)"
  by (rule static_field_returns [OF st decoder_returns [OF _ dm dm' field] safe_decoders [OF dm]
      deep_defaults [OF depth decodable_sub [OF field(1) _ field(2)]]])

lemma plain_returns:
  assumes st: "wf_in (d_str st)" and field: "plain (it_field it)"
  shows "returns (decode_static_field env dm wt it st)"
proof -
  have v: "value_type (PB_LTYPE (f_type (it_field it)))" using field by (simp add: plain_def value_type_def)
  note l = conjunct1 [OF value_type_other [OF v]]
  show ?thesis
    by (rule static_field_returns [OF st value_returns [OF _ v] safe_value_decoders [OF l]]) (use l in simp_all)
qed

lemma pointer_returns:
  fixes st :: "('s, 'h) dec"
  assumes st: "wf_in (d_str st)" and dm: "safe_dm dm" and depth: "deep_enough env k"
    and dm': "dm_returns dm (nested cbs (d_fields env) k)"
    and field: "decodable cbs (nested cbs (d_fields env) k) (d_fields env) (it_field it)"
      "PB_ATYPE (f_type (it_field it)) = PB_ATYPE_POINTER"
  shows "returns (decode_pointer_field env dm wt it st)"
proof -
  let ?f = "it_field it"
  let ?func = "PB_DECODERS env dm (PB_LTYPE (f_type ?f))"
  have at: "PB_ATYPE (f_type ?f) \<noteq> PB_ATYPE_CALLBACK" and size: "f_data_size ?f \<noteq> 0"
    using field by (auto simp: decodable_def Let_def)
  have vals: "returns (?func ?f p st')" if "wf_in (d_str st')" for p st'
    by (rule decoder_returns [OF that dm dm' field(1) at])
  note init = initialize_returns [OF depth field(1) at]
  have packed: "returns (rd_then st pb_make_string_substream (\<lambda>substream st.
            case packed_pointer (Suc (unat (bytes_left substream))) env ?func ?f (it_pData it) (it_pSize it)
                   alloc (d_str st) (st\<lparr>d_str := substream\<rparr>) of
              None \<Rightarrow> None
            | Some (status, s, st') \<Rightarrow>
                (case pb_close_string_substream s (d_str st') of
                   None \<Rightarrow> None
                 | Some (None, s) \<Rightarrow> ret_false (st'\<lparr>d_str := s\<rparr>)
                 | Some (Some _, s) \<Rightarrow> Some (status, st'\<lparr>d_str := s\<rparr>))))"
    if l: "PB_LTYPE (f_type ?f) \<le> PB_LTYPE_LAST_PACKABLE" for alloc
  proof (rule substream_returns [OF st])
    fix sub :: "'s istream" and st :: "('s, 'h) dec" assume wf: "wf_in sub" "wf_in (d_str st)"
    let ?r = "packed_pointer (Suc (unat (bytes_left sub))) env ?func ?f (it_pData it) (it_pSize it) alloc (d_str st)
        (st\<lparr>d_str := sub\<rparr>)"
    have r: "returns ?r" by (rule packed_pointer_returns [OF dm l size]) (use wf in simp_all)
    have safe: "packed_safe sub (d_str st) ?r"
      using safe_packed_pointer [where func = ?func and field = ?f, OF safe_decoders [OF dm],
          of "st\<lparr>d_str := sub\<rparr>"] wf(1)
      by (simp del: packed_pointer.simps)
    have close: "returns (pb_close_string_substream s (d_str st'))" if "?r = Some (ok, s, st')" for ok s st'
    proof -
      have "behind sub (d_str st')" using safe that unfolding packed_safe_def by blast
      then show ?thesis by (rule close_returns [OF behind_wf [OF wf(1)]])
    qed
    show "returns (case ?r of
              None \<Rightarrow> None
            | Some (status, s, st') \<Rightarrow>
                (case pb_close_string_substream s (d_str st') of
                   None \<Rightarrow> None
                 | Some (None, s) \<Rightarrow> ret_false (st'\<lparr>d_str := s\<rparr>)
                 | Some (Some _, s) \<Rightarrow> Some (status, st'\<lparr>d_str := s\<rparr>)))"
      using r close by (auto elim!: returnsE split: option.split simp del: packed_pointer.simps)
  qed
  have item: "returns (and_then (initialize_pointer_field env ?f p st') (\<lambda>st. ?func ?f (q st) st))" if "wf_in (d_str st')" for p q st'
    by (rule returns_then [OF that safe_initialize [OF that] init]) (rule vals)
  have single: "returns (if PB_LTYPE (f_type ?f) = PB_LTYPE_STRING \<or> PB_LTYPE (f_type ?f) = PB_LTYPE_BYTES
      then ?func ?f (it_pData it) st'
      else and_then (allocate_field env (it_pData it) (ucast (f_data_size ?f)) 1 st') (\<lambda>st.
        and_then (initialize_pointer_field env ?f (load_u64 (d_mem st) (it_pData it)) st)
          (\<lambda>st. ?func ?f (load_u64 (d_mem st) (it_pData it)) st)))" if "wf_in (d_str st')" for st'
    by (intro returns_if vals that returns_then [OF that safe_allocate [OF that] allocate_returns] item)
  have released: "returns (and_then (if c then pb_release_single_field env (d_depth env) it st else ret_true st) g)"
    if "\<And>st'. wf_in (d_str st') \<Longrightarrow> returns (g st')" for c g
    by (rule returns_then [OF st _ _ that])
      (use st in \<open>intro safe_if safe_kept kept_release safe_ret; simp\<close>, intro returns_if returns_ret deep_release [OF depth field(1)])
  have more: "returns (and_then (allocate_field env (it_pData it) ds n st) (\<lambda>st.
      and_then (initialize_pointer_field env ?f (p st) (set_mem st (h st))) (?func ?f (p st))))" for ds n p h
    by (rule returns_then [OF st safe_allocate [OF st] allocate_returns], rule item) simp
  show ?thesis
    unfolding decode_pointer_field_def Let_def
    by (intro returns_if returns_ret packed released single more) simp_all
qed

text \<open>The bytes that \<^verbatim>\<open>read_raw_value\<close> hands to a callback.\<close>

lemma raw_varint_length: "raw_varint n s = Some (Some bs, t) \<Longrightarrow> length bs \<le> n"
proof (induction n arbitrary: s bs t)
  case (Suc n)
  from Suc.prems show ?case
    by (auto simp: rd_bind_def rd_ok_def split: option.splits if_splits dest!: Suc.IH)
qed (simp add: rd_fail_def)

lemma pb_read_length:
  assumes "wf_in s" and "pb_read s b n = Some (Some bs, t)"
  shows "length bs = unat n"
proof (cases "unat n \<le> length (input s)")
  case True
  with pb_read_ok [OF assms(1)] assms(2) show ?thesis by (auto simp: rd_ok_def)
next
  case False
  with pb_read_short [OF assms(1)] assms(2) show ?thesis by (simp add: rd_error_def rd_fail_def)
qed

lemma raw_value_length: "wf_in s \<Longrightarrow> read_raw_value s wt 10 = Some (Some bs, t) \<Longrightarrow> length bs \<le> 10"
  by (auto simp: read_raw_value_def rd_error_def rd_fail_def dest: raw_varint_length pb_read_length split: if_splits)

lemma wf_buffer: "length bs < 2 ^ 63 \<Longrightarrow> wf_in (pb_istream_from_buffer bs (word_of_nat (length bs)))"
  by (simp add: wf_in_def pb_istream_from_buffer_def source_def unat_word_of_nat_small)

lemma tag_small: "pb_decode_tag s = Some ((Some (tag, wt), e), t) \<Longrightarrow> unat tag < 2 ^ 29"
proof -
  have "unat (drop_bit 3 temp :: u32) < 2 ^ 29" for temp :: u32
    using unat_bound [of temp] by (simp add: unat_drop_bit)
  then show "pb_decode_tag s = Some ((Some (tag, wt), e), t) \<Longrightarrow> unat tag < 2 ^ 29"
    by (auto simp: pb_decode_tag_def split: option.splits prod.splits if_splits)
qed

text \<open>
  What nanopb's documentation asks of a decode callback: it stays in the stream it is given, and when
  it succeeds on a stream with data it has read some of it, as it is called again until the stream is
  empty. With \<open>cbs\<close> off, no callback is called.
\<close>

locale decode_interface = decode_callbacks "d_callback env" "d_ext_decode env"
  for env :: "('s, 'h) dec_env" +
  fixes cbs :: bool
  assumes cb_returns: "cbs \<Longrightarrow> wf_in (d_str st) \<Longrightarrow> returns (d_callback env f field arg st)"
    and cb_reads: "cbs \<Longrightarrow> wf_in (d_str st) \<Longrightarrow> d_callback env f field arg st = Some (True, st') \<Longrightarrow>
      bytes_left (d_str st) \<noteq> 0 \<Longrightarrow> bytes_left (d_str st') < bytes_left (d_str st)"
begin

lemma callback_loop_returns:
  assumes "cbs"
  shows "wf_in (d_str st) \<Longrightarrow> unat (bytes_left (d_str st)) \<le> k \<Longrightarrow>
    returns (callback_loop (Suc k) (d_callback env f field arg) st)"
proof (induction k arbitrary: st)
  case 0
  have "bytes_left (d_str st') = 0" if r: "d_callback env f field arg st = Some (True, st')" for st'
  proof -
    have "after (d_str st) (d_str st')" using cb_safe [OF 0(1)] r unfolding safe_res_def by blast
    from after_le [OF this] 0(2) show ?thesis by (simp add: unat_eq_zero)
  qed
  then show ?case using cb_returns [OF assms 0(1)] by (simp add: returns_and_then)
next
  case (Suc k)
  have "returns (if bytes_left (d_str st') \<noteq> 0 then callback_loop (Suc k) (d_callback env f field arg) st' else ret_true st')"
    if r: "d_callback env f field arg st = Some (True, st')" for st'
  proof (intro returns_if returns_ret Suc.IH)
    assume n: "bytes_left (d_str st') \<noteq> 0"
    have a: "after (d_str st) (d_str st')" using cb_safe [OF Suc.prems(1)] r unfolding safe_res_def by blast
    show "wf_in (d_str st')" by (rule after_wf [OF Suc.prems(1) a])
    have "bytes_left (d_str st) \<noteq> 0" using after_le [OF a] n by (auto simp: unat_eq_zero)
    from cb_reads [OF assms Suc.prems(1) r this] Suc.prems(2) show "unat (bytes_left (d_str st')) \<le> k"
      by (simp add: word_less_nat_alt)
  qed
  then show ?case using cb_returns [OF assms Suc.prems(1)] by (subst callback_loop.simps) (rule returns_and_then)
qed

lemma callback_field_returns:
  assumes c: "cbs" and st: "wf_in (d_str st)"
  shows "returns (decode_callback_field env wt it st)"
proof -
  let ?cb = "d_callback env (load_u64 (d_mem st) (it_pData it)) (it_field it) (it_pData it + 8)"
  have str: "returns (rd_then st pb_make_string_substream (\<lambda>substream st.
          case callback_loop (Suc (unat (bytes_left substream))) ?cb (st\<lparr>d_str := substream\<rparr>) of
            None \<Rightarrow> None
          | Some (False, st') \<Rightarrow> dec_error ''callback failed'' (st'\<lparr>d_str := d_str st\<rparr>)
          | Some (True, st') \<Rightarrow>
              (case pb_close_string_substream (d_str st) (d_str st') of
                 None \<Rightarrow> None
               | Some (None, s) \<Rightarrow> ret_false (st'\<lparr>d_str := s\<rparr>)
               | Some (Some _, s) \<Rightarrow> ret_true (st'\<lparr>d_str := s\<rparr>))))"
  proof (rule substream_returns [OF st])
    fix sub :: "'s istream" and st :: "('s, 'h) dec" assume wf: "wf_in sub" "wf_in (d_str st)"
    let ?r = "callback_loop (Suc (unat (bytes_left sub))) ?cb (st\<lparr>d_str := sub\<rparr>)"
    have r: "returns ?r" by (rule callback_loop_returns [OF c]) (use wf in simp_all)
    have safe: "safe_res sub ?r"
      using safe_callback_loop [OF cb_safe, of "st\<lparr>d_str := sub\<rparr>"] wf(1) by (simp del: callback_loop.simps)
    have close: "returns (pb_close_string_substream (d_str st) (d_str st'))" if "?r = Some (ok, st')" for ok st'
      by (rule close_returns [OF safe_wf [OF wf(1) safe that]])
    show "returns (case ?r of
            None \<Rightarrow> None
          | Some (False, st') \<Rightarrow> dec_error ''callback failed'' (st'\<lparr>d_str := d_str st\<rparr>)
          | Some (True, st') \<Rightarrow>
              (case pb_close_string_substream (d_str st) (d_str st') of
                 None \<Rightarrow> None
               | Some (None, s) \<Rightarrow> ret_false (st'\<lparr>d_str := s\<rparr>)
               | Some (Some _, s) \<Rightarrow> ret_true (st'\<lparr>d_str := s\<rparr>)))"
      using r close by (auto elim!: returnsE split: option.split bool.split simp del: callback_loop.simps)
  qed
  obtain v t where raw: "read_raw_value (d_str st) wt 10 = Some (v, t)"
    using reader_returns [OF reader_raw st] by blast
  have run: "returns (case ?cb (st\<lparr>d_str := t\<rparr>\<lparr>d_str := pb_istream_from_buffer bs (word_of_nat (length bs))\<rparr>) of
      None \<Rightarrow> None | Some (ok, st') \<Rightarrow> Some (ok, st'\<lparr>d_str := d_str (st\<lparr>d_str := t\<rparr>)\<rparr>))" if "v = Some bs" for bs
  proof -
    have "length bs \<le> 10" using raw_value_length [OF st] raw that by blast
    then have "wf_in (pb_istream_from_buffer bs (word_of_nat (length bs)) :: 's istream)" by (intro wf_buffer) simp
    with cb_returns [OF c, of "st\<lparr>d_str := t\<rparr>\<lparr>d_str := pb_istream_from_buffer bs (word_of_nat (length bs))\<rparr>"]
    show ?thesis by (intro returns_case) simp_all
  qed
  have raw': "returns (rd_then st (\<lambda>s. read_raw_value s wt 10) (\<lambda>bs st.
          case ?cb (st\<lparr>d_str := pb_istream_from_buffer bs (word_of_nat (length bs))\<rparr>) of
            None \<Rightarrow> None
          | Some (ok, st') \<Rightarrow> Some (ok, st'\<lparr>d_str := d_str st\<rparr>)))"
    unfolding rd_then_def raw option.case prod.case using run by (cases v) (simp_all only: option.case returns_ret)
  show ?thesis
    unfolding decode_callback_field_def Let_def
    by (intro returns_if str raw' rd_then_returns [OF reader_skip st] returns_ret)
qed


lemma union_returns:
  assumes "placed fs it" and "nested cbs (d_fields env) (Suc k) fs" and "deep_enough env k"
  obtains it' ok st' where "pb_release_union_field env it st = Some (it', ok, st')"
    and "placed fs it'" and "d_str st' = d_str st \<or> \<not> ok"
proof (cases "load_u32 (d_mem st) (it_pSize it) = 0 \<or> load_u32 (d_mem st) (it_pSize it) = f_tag (it_field it)")
  case True
  with assms(1) that show thesis by (simp add: pb_release_union_field_def Let_def)
next
  case False
  obtain b it1 where find1: "pb_field_iter_find it (load_u32 (d_mem st) (it_pSize it)) = Some (b, it1)" "placed fs it1"
    by (rule find_returns [OF assms(1)])
  obtain b2 it2 where find2: "pb_field_iter_find it1 (f_tag (it_field it)) = Some (b2, it2)" "placed fs it2"
    by (rule find_returns [OF find1(2)])
  have "returns (pb_release_single_field env (d_depth env) it1 st)"
    by (rule deep_release [OF assms(3) placed_decodable [OF assms(2) find1(2)]])
  with kept_release(1) [of st "d_str st" env "d_depth env" it1] obtain st1 where
    release: "pb_release_single_field env (d_depth env) it1 st = Some (True, st1)" "d_str st1 = d_str st"
    by (auto simp: kept_def)
  from False find1 find2 release that show thesis
    by (cases b; cases b2) (auto simp: pb_release_union_field_def Let_def)
qed

lemma field_returns:
  assumes st: "wf_in (d_str st)" and it: "placed fs it" and fs: "nested cbs (d_fields env) (Suc k) fs"
    and depth: "deep_enough env k" and dm: "safe_dm dm" "dm_returns dm (nested cbs (d_fields env) k)"
  shows "returns (decode_field env dm wt it st)"
proof -
  have one: "returns (let atype = PB_ATYPE (f_type (it_field it)) in
            if atype = PB_ATYPE_STATIC then decode_static_field env dm wt it st
             else if atype = PB_ATYPE_POINTER then decode_pointer_field env dm wt it st
             else if atype = PB_ATYPE_CALLBACK then decode_callback_field env wt it st
             else dec_error ''invalid field type'' st)" if "placed fs it" and wf: "wf_in (d_str st)" for it st
  proof -
    note f = placed_decodable [OF fs that(1)]
    have "cbs" if "PB_ATYPE (f_type (it_field it)) = PB_ATYPE_CALLBACK"
      using f that by (simp add: decodable_def Let_def)
    then show ?thesis
      unfolding Let_def
      by (intro returns_if static_returns [OF wf dm(1) depth dm(2) f] pointer_returns [OF wf dm(1) depth dm(2) f]
          callback_field_returns wf returns_ret) simp_all
  qed
  show ?thesis
  proof (cases "PB_HTYPE (f_type (it_field it)) = PB_HTYPE_ONEOF")
    case False
    with one [OF it st] show ?thesis by (simp add: decode_field_def Let_def)
  next
    case True
    obtain it' ok st' where u: "pb_release_union_field env it st = Some (it', ok, st')" "placed fs it'"
      "d_str st' = d_str st \<or> \<not> ok" by (rule union_returns [OF it fs depth])
    with one [OF u(2), of st'] st True show ?thesis by (cases ok) (auto simp: decode_field_def Let_def)
  qed
qed

section \<open>Messages\<close>

lemma unknown_returns:
  assumes st: "wf_in (d_str st)" and v: "placed fs (n_iter v)" and fs: "nested cbs (d_fields env) (Suc k) fs"
    and tag: "unat tag < 2 ^ 29"
  shows "returns (decode_unknown env dm tag wt v st)"
proof -
  have skip: "returns (map_option g (rd_then st (\<lambda>s. pb_skip_field s wt) (\<lambda>_ st. ret_true st)))" for g :: "_ \<Rightarrow> 'c"
    by (simp add: rd_then_returns [OF reader_skip st])
  obtain it' where it': "find_extension_field (n_iter v) = Some (False, it')" "placed fs it'"
    by (rule find_extension_false [OF fs v])
  have "\<not> (- 1 :: u32) \<le> tag"
  proof
    assume "- 1 \<le> tag"
    then have "tag = - 1" by (rule word_order.extremum_uniqueI)
    with tag show False by (simp add: unsigned_minus_1_eq_mask mask_eq_exp_minus_1)
  qed
  with it' skip show ?thesis by (auto simp: decode_unknown_def Let_def)
qed

lemma one_returns:
  assumes st: "wf_in (d_str st)" and v: "placed fs (n_iter v)" and fs: "nested cbs (d_fields env) (Suc k) fs"
    and depth: "deep_enough env k" and dm: "safe_dm dm" "dm_returns dm (nested cbs (d_fields env) k)"
    and tag: "unat tag < 2 ^ 29"
  shows "returns (decode_one env slot dm tag wt v st)"
proof -
  obtain b it' where find: "pb_field_iter_find (n_iter v) tag = Some (b, it')" "placed fs it'"
    by (rule find_returns [OF v])
  show ?thesis
  proof (cases b)
    case False
    with find unknown_returns [of st fs "v\<lparr>n_iter := it'\<rparr>" k tag] st fs tag show ?thesis
      by (simp add: decode_one_def)
  next
    case True
    obtain b' v' st' where e: "enter_fixed_count slot (v\<lparr>n_iter := it'\<rparr>) st = (b', v', st')"
      by (cases "enter_fixed_count slot (v\<lparr>n_iter := it'\<rparr>) st")
    have it: "placed fs (n_iter v')" and s: "b' \<Longrightarrow> d_str st' = d_str st"
      using e find(2) by (auto simp: enter_fixed_count_def Let_def split: if_splits option.splits)
    show ?thesis
    proof (cases b')
      case True
      with field_returns [OF _ it fs depth dm, of st' wt] s st \<open>b\<close> find e show ?thesis
        by (simp add: decode_one_def Let_def)
    qed (use \<open>b\<close> find e in \<open>simp add: decode_one_def\<close>)
  qed
qed

lemma loop_returns:
  assumes fs: "nested cbs (d_fields env) (Suc d) fs" and depth: "deep_enough env d"
    and dm: "safe_dm dm" "dm_returns dm (nested cbs (d_fields env) d)"
  shows "wf_in (d_str st) \<Longrightarrow> seen_ok fs UNIV v \<Longrightarrow> unat (bytes_left (d_str st)) < k \<Longrightarrow>
    returns (decode_loop k env slot dm v st)"
proof (induction k arbitrary: v st)
  case (Suc k)
  note st = Suc.prems(1)
  from st show ?case
  proof (cases rule: decode_tag_cases)
    case (ok tag wt t)
    have wt: "wf_in (d_str (st\<lparr>d_str := t\<rparr>))" using after_wf [OF st ok(2)] by simp
    have v: "placed fs (n_iter v)" using Suc.prems(2) by (simp add: seen_ok_def)
    let ?r = "decode_one env slot dm tag wt v (st\<lparr>d_str := t\<rparr>)"
    have r: "returns ?r" by (rule one_returns [OF wt v fs depth dm tag_small [OF ok(1)]])
    have "returns (decode_loop k env slot dm v' st')" if one: "?r = Some (True, v', st')" for v' st'
    proof (rule Suc.IH)
      have "safe_v (d_str (st\<lparr>d_str := t\<rparr>)) ?r" by (rule safe_one [OF refl refl dm(1) wt])
      with one have a: "after t (d_str st')" by (simp add: safe_v_def safe_res_def)
      show "wf_in (d_str st')" using after_wf [OF _ a] wt by simp
      have "num_fields fs < 2 ^ 32" using fs by simp
      then show "seen_ok fs UNIV v'" by (rule seen_ok_one [OF one Suc.prems(2) UNIV_I])
      show "unat (bytes_left (d_str st')) < k" using after_le [OF a] ok(3) Suc.prems(3) by simp
    qed
    with r ok(1) show ?thesis by (auto elim!: returnsE split: bool.split)
  qed simp_all
qed simp

lemma seen_ok_init: "0 < num_fields fs \<Longrightarrow> seen_ok fs UNIV (noinit_init fs dest)"
  using at_field_begin [of fs dest]
  by (auto simp: seen_ok_def noinit_init_def placed_def seen_def nth_Cons' intro!: exI [of _ 0])

lemma with_returns:
  assumes fs: "nested cbs (d_fields env) k fs" and depth: "2 * k \<le> d_depth env" and st: "wf_in (d_str st)"
    and noinit: "\<And>st. wf_in (d_str st) \<Longrightarrow> returns (noinit fs dest st)"
  shows "returns (decode_with env noinit fs dest st)"
  unfolding decode_with_def
proof (rule returns_then [OF st _ defaults_return [OF fs depth]])
  show "safe_res (d_str st) (pb_message_set_to_defaults env (d_depth env) fs dest st)"
    by (rule safe_kept [OF st kept_defaults(2)]) simp
  fix st' :: "('s, 'h) dec" assume "wf_in (d_str st')"
  then show "returns (case noinit fs dest st' of None \<Rightarrow> None
       | Some (True, st) \<Rightarrow> ret_true st
       | Some (False, st) \<Rightarrow>
           (case pb_release env (d_depth env) fs dest st of None \<Rightarrow> None | Some (_, st) \<Rightarrow> ret_false st))"
    using noinit [of st'] release_returns [OF fs depth, of dest]
    by (auto elim!: returnsE split: bool.split intro!: returns_case)
qed

lemma noinit_returns:
  "nested cbs (d_fields env) k fs \<Longrightarrow> 2 * k \<le> d_depth env \<Longrightarrow> k \<le> n \<Longrightarrow> wf_in (d_str st) \<Longrightarrow>
     returns (pb_decode_noinit env n fs dest st)"
proof (induction k arbitrary: n fs dest st)
  case (Suc k)
  obtain m where n: "n = Suc m" "k \<le> m" using Suc_le_D [OF Suc.prems(3)] Suc.prems(3) by auto
  let ?dm = "\<lambda>init fs dest st. if init then decode_with env (pb_decode_noinit env m) fs dest st
      else pb_decode_noinit env m fs dest st"
  have "2 * k \<le> d_depth env" using Suc.prems(2) by simp
  then have ret: "dm_returns ?dm (nested cbs (d_fields env) k)"
    using Suc.IH [OF _ _ n(2)] with_returns unfolding dm_returns_def by simp
  have dm: "safe_dm ?dm"
    by (auto simp: safe_dm_def intro: safe_noinit [OF refl refl] safe_with)
  let ?st = "set_mem st (store_u32 (d_mem st) (d_local env m) 0)"
  have "deep_enough env k" using Suc.prems(2) by (simp add: deep_enough_def)
  from loop_returns [OF Suc.prems(1) this dm ret _ seen_ok_init, of ?st "Suc (unat (bytes_left (d_str ?st)))"
      "d_local env m" dest] Suc.prems(1,4)
  show ?case
    unfolding n(1) by (auto simp: Let_def finish_noinit_def simp del: decode_loop.simps elim!: returnsE split: bool.split)
qed simp

lemma decode_returns:
  assumes "nested cbs (d_fields env) k fs" and "2 * k \<le> d_depth env" and "k \<le> n" and "wf_in (d_str st)"
  shows "returns (pb_decode env n fs dest st)"
  unfolding pb_decode_def by (rule with_returns [OF assms(1,2,4)]) (rule noinit_returns [OF assms(1-3)])

text \<open>The stream that is left: on success only what was decoded is gone.\<close>

lemma decode_result:
  assumes "nested cbs (d_fields env) k fs" and "2 * k \<le> d_depth env" and "k \<le> n" and "wf_in (d_str st)"
  shows "\<exists>ok st' j. pb_decode env n fs dest st = Some (ok, st')
    \<and> istate (d_str st') = Buf_state (drop j (source (d_str st)))
    \<and> j + unat (bytes_left (d_str st')) \<le> unat (bytes_left (d_str st))
    \<and> (ok \<longrightarrow> j + unat (bytes_left (d_str st')) = unat (bytes_left (d_str st)))"
proof -
  obtain ok st' where r: "pb_decode env n fs dest st = Some (ok, st')"
    using decode_returns [OF assms, of dest] by (auto elim: returnsE)
  have s: "safe_res (d_str st) (pb_decode env n fs dest st)" by (rule safe_decode [OF refl refl assms(4)])
  show ?thesis
  proof (cases ok)
    case True
    with r s obtain j e where "j \<le> unat (bytes_left (d_str st))" "d_str st' = (eat j (d_str st))\<lparr>ierrmsg := e\<rparr>"
      by (auto simp: safe_res_def after_def)
    with r unat_eat [of j "d_str st"] show ?thesis by (auto simp: eat_def)
  next
    case False
    with r s show ?thesis by (auto simp: safe_res_def behind_def)
  qed
qed

end

end
