(* ===== verification/Pb_Guarantees.thy ===== *)
theory Pb_Guarantees
  imports Pb_Decode_Properties Pb_Total
begin

text \<open>
  What the decoder guarantees on arbitrary, also hostile, input: it returns, it stays in the
  input buffer and in the storage of the field, it accepts no message without its required
  fields, and it does not store a value that its field cannot hold.
\<close>

section \<open>Termination and memory safety\<close>

text \<open>The first message of the samples, and a decoder state on a buffer.\<close>

definition sample_dec :: "u8 list \<Rightarrow> (unit, unit) dec" where
  "sample_dec bs = \<lparr>d_str = pb_istream_from_buffer bs (word_of_nat (length bs)), d_mem = (\<lambda>_. 0), d_heap = ()\<rparr>"

lemma sample_dec_wf: "length bs < 2 ^ 63 \<Longrightarrow> wf_in (d_str (sample_dec bs))"
  by (simp add: sample_dec_def wf_in_def pb_istream_from_buffer_def source_def unat_word_of_nat_small)

lemma sample_plain: "plain_message sample_fields" "num_fields sample_fields = 2"
proof -
  show n: "num_fields sample_fields = 2" by code_simp
  have "plain (sample_fields ! 0)" "plain (sample_fields ! 1)" by code_simp+
  with n show "plain_message sample_fields" by (auto simp: plain_message_def less_2_cases_iff)
qed

lemma sample_safe_res_None: "safe_res s None"
  by (simp add: safe_res_def)

text \<open>C5: pb_decode terminates and is memory safe on every input. For a message of static fields of value
  types, whatever bytes the buffer holds, pb_decode returns, the stream it leaves is the same buffer
  further on, never past its end, and on success it has only moved forward by what it consumed.\<close>

theorem decode_terminates_in_buffer:
  assumes "\<And>st f field arg. wf_in (d_str st) \<Longrightarrow> safe_res (d_str st) (d_callback env f field arg st)"
    and "\<And>st f ext tag wt. wf_in (d_str st) \<Longrightarrow> safe_res (d_str st) (d_ext_decode env f ext tag wt st)"
    and "plain_message fs" and "num_fields fs < 2 ^ 32" and "2 \<le> d_depth env" and "wf_in (d_str st)"
  shows "\<exists>ok st' k. pb_decode env (Suc n) fs dest st = Some (ok, st')
    \<and> istate (d_str st') = Buf_state (drop k (source (d_str st)))
    \<and> k + unat (bytes_left (d_str st')) \<le> unat (bytes_left (d_str st))
    \<and> (ok \<longrightarrow> k + unat (bytes_left (d_str st')) = unat (bytes_left (d_str st)))"
proof -
  have cb: "decode_callbacks (d_callback env) (d_ext_decode env)"
    using assms(1,2) by (rule decode_callbacks.intro)
  have "decode_interface env False"
    by (rule decode_interface.intro [OF cb]) (simp add: decode_interface_axioms_def)
  from decode_interface.decode_result [OF this plain_nested [OF assms(3,4)] _ _ assms(6), of "Suc n" dest] assms(5)
  show ?thesis by simp
qed

theorem decode_terminates_in_buffer_witness:
  "\<exists>ok st' k. pb_decode (quiet_env (\<lambda>_. [])) 1 sample_fields 0x1000 (sample_dec [0x08, 0x80, 0xFF]) = Some (ok, st')
    \<and> istate (d_str st') = Buf_state (drop k [0x08, 0x80, 0xFF])
    \<and> k + unat (bytes_left (d_str st')) \<le> 3 \<and> (ok \<longrightarrow> k + unat (bytes_left (d_str st')) = 3)"
  using decode_terminates_in_buffer [of "quiet_env (\<lambda>_. [])" sample_fields "sample_dec [0x08, 0x80, 0xFF]" 0 "0x1000"]
    sample_dec_wf [of "[0x08, 0x80, 0xFF]"] sample_plain
  by (simp add: quiet_env_def sample_safe_res_None) (simp add: sample_dec_def source_def pb_istream_from_buffer_def)

text \<open>
  A message with a submessage, an allocated bytes field and a callback field, and a callback that reads one
  byte at a time.
\<close>

definition mixed_fields :: "pb_field list" where
  "mixed_fields =
     [\<lparr>f_tag = 1, f_type = 0x08, f_data_offset = 0, f_size_offset = 0, f_data_size = 16, f_array_size = 0, f_ptr = 0x100\<rparr>,
      \<lparr>f_tag = 2, f_type = 0x96, f_data_offset = 0, f_size_offset = 0, f_data_size = 8, f_array_size = 0, f_ptr = 0\<rparr>,
      \<lparr>f_tag = 3, f_type = 0x57, f_data_offset = 0, f_size_offset = 0, f_data_size = 16, f_array_size = 0, f_ptr = 0\<rparr>]"

definition read_one :: "('s, unit) action" where
  "read_one st = rd_then st (\<lambda>s. pb_read s True 1) (\<lambda>bs st. ret_true st)"

definition mixed_env :: "('s, unit) dec_env" where
  "mixed_env = \<lparr>d_fields = (\<lambda>_. sample_fields), d_callback = (\<lambda>f field arg. read_one),
     d_ext_decode = (\<lambda>f extension tag wt st. None), d_realloc = (\<lambda>m h p n. (0x4000, m, h)),
     d_free = (\<lambda>m h p. (m, h)), d_local = (\<lambda>n. 0x8000), d_depth = 4\<rparr>"

lemma read_one_safe: "wf_in (d_str st) \<Longrightarrow> safe_res (d_str st) (read_one st)"
  unfolding read_one_def by (intro safe_intros readers refl)

lemma read_one_returns: "wf_in (d_str st) \<Longrightarrow> returns (read_one st)"
  unfolding read_one_def by (rule rd_then_returns [OF reader_read]) simp_all

lemma read_one_reads:
  assumes "wf_in (d_str st)" and "read_one st = Some (True, st')"
  shows "bytes_left (d_str st') < bytes_left (d_str st)"
proof -
  have "progress (d_str st) (pb_read (d_str st) True 1)" by (rule progress_read [OF assms(1)]) simp
  from rd_then_progress [OF this _ assms(2) [unfolded read_one_def]] show ?thesis
    by (simp add: word_less_nat_alt ret_true_def)
qed

interpretation no_calls: decode_interface "quiet_env g" False for g
  by unfold_locales (simp_all add: quiet_env_def)

interpretation byte_calls: decode_interface mixed_env True
  by unfold_locales (simp_all add: mixed_env_def read_one_safe read_one_returns read_one_reads)

lemma mixed_nested: "nested True (d_fields (mixed_env :: (unit, unit) dec_env)) 2 mixed_fields"
proof -
  have n: "num_fields mixed_fields = 3" by code_simp
  have sub: "nested True ds 1 sample_fields" for ds :: "addr \<Rightarrow> pb_field list"
    using plain_nested [OF sample_plain(1)] sample_plain(2) by simp
  have "decodable True P (\<lambda>_. sample_fields) (mixed_fields ! 1) \<and> decodable True P (\<lambda>_. sample_fields) (mixed_fields ! 2)" for P
    unfolding mixed_fields_def decodable_def value_type_def by (simp add: PB_LTYPE_def PB_ATYPE_def)
  moreover have "decodable True (nested True (\<lambda>_. sample_fields) 1) (\<lambda>_. sample_fields) (mixed_fields ! 0)"
    using sub unfolding mixed_fields_def decodable_def value_type_def by (simp add: PB_LTYPE_def PB_ATYPE_def del: nested.simps)
  ultimately have all: "\<forall>i < 3. decodable True (nested True (\<lambda>_. sample_fields) 1) (\<lambda>_. sample_fields) (mixed_fields ! i)"
    by (auto simp: less_Suc_eq numeral_3_eq_3 numeral_2_eq_2)
  have "nested True (\<lambda>_. sample_fields) (Suc 1) mixed_fields" unfolding nested.simps(2) n using all by simp
  then show ?thesis by (simp only: mixed_env_def dec_env.simps numeral_2_eq_2 One_nat_def)
qed

text \<open>C6: pb_decode returns and stays in its buffer for messages of every storage. The fields may be static, allocated
  or handled by callbacks, single, repeated, packed or in a oneof, with submessages nested to any finite depth that the
  fuel covers (extension fields are left out). Callbacks have to behave as nanopb's documentation
  asks: they return, keep to the stream they are given, and read some of it when it has data. Then, whatever bytes the
  buffer holds and whatever the allocator answers, pb_decode returns, the stream it leaves is the same buffer further on, never
  past its end, and on success it has moved forward by exactly what it consumed.\<close>

theorem decode_stays_in_buffer:
  assumes "\<And>st f field arg. wf_in (d_str st) \<Longrightarrow> safe_res (d_str st) (d_callback env f field arg st)"
    and "\<And>st f ext tag wt. wf_in (d_str st) \<Longrightarrow> safe_res (d_str st) (d_ext_decode env f ext tag wt st)"
    and "\<And>st f field arg. wf_in (d_str st) \<Longrightarrow> returns (d_callback env f field arg st)"
    and "\<And>st f field arg st'. wf_in (d_str st) \<Longrightarrow> d_callback env f field arg st = Some (True, st') \<Longrightarrow>
      bytes_left (d_str st) \<noteq> 0 \<Longrightarrow> bytes_left (d_str st') < bytes_left (d_str st)"
    and "nested True (d_fields env) k fs" and "k \<le> n" and "2 * k \<le> d_depth env" and "wf_in (d_str st)"
  shows "\<exists>ok st' j. pb_decode env n fs dest st = Some (ok, st')
    \<and> istate (d_str st') = Buf_state (drop j (source (d_str st)))
    \<and> j + unat (bytes_left (d_str st')) \<le> unat (bytes_left (d_str st))
    \<and> (ok \<longrightarrow> j + unat (bytes_left (d_str st')) = unat (bytes_left (d_str st)))"
proof -
  have cb: "decode_callbacks (d_callback env) (d_ext_decode env)"
    using assms(1,2) by (rule decode_callbacks.intro)
  have "decode_interface env True"
    by (rule decode_interface.intro [OF cb]) (use assms(3,4) in \<open>unfold decode_interface_axioms_def, blast\<close>)
  from decode_interface.decode_result [OF this assms(5,7,6,8)] show ?thesis .
qed

theorem decode_stays_in_buffer_witness:
  "\<exists>ok st' j. pb_decode mixed_env 2 mixed_fields 0x1000 (sample_dec [0x0A, 2, 0x08, 5, 0x12, 1, 0xAA, 0x1A, 2, 0x61, 0x62])
      = Some (ok, st')
    \<and> istate (d_str st') = Buf_state (drop j [0x0A, 2, 0x08, 5, 0x12, 1, 0xAA, 0x1A, 2, 0x61, 0x62])
    \<and> j + unat (bytes_left (d_str st')) \<le> 11 \<and> (ok \<longrightarrow> j + unat (bytes_left (d_str st')) = 11)"
  using decode_stays_in_buffer [of mixed_env 2 mixed_fields 2 "sample_dec [0x0A, 2, 0x08, 5, 0x12, 1, 0xAA, 0x1A, 2, 0x61, 0x62]" "0x1000",
      OF byte_calls.cb_safe byte_calls.ext_safe byte_calls.cb_returns [OF TrueI] byte_calls.cb_reads [OF TrueI] mixed_nested]
    sample_dec_wf [of "[0x0A, 2, 0x08, 5, 0x12, 1, 0xAA, 0x1A, 2, 0x61, 0x62]"]
  by (simp add: mixed_env_def) (simp add: sample_dec_def source_def pb_istream_from_buffer_def)



section \<open>Messages and fields\<close>

text \<open>The field numbers that the loop of pb_decode_noinit reads, in order, up to the end or the first failure.\<close>

definition message_tags :: "('s, 'h) dec_env \<Rightarrow> nat \<Rightarrow> pb_field list \<Rightarrow> addr \<Rightarrow> ('s, 'h) dec \<Rightarrow> u32 list" where
  "message_tags env n fs dest st =
     loop_tags (Suc (unat (bytes_left (d_str st)))) env (d_local env n)
       (\<lambda>init fs dest st. if init then decode_with env (pb_decode_noinit env n) fs dest st
                          else pb_decode_noinit env n fs dest st)
       (noinit_init fs dest) (set_mem st (store_u32 (d_mem st) (d_local env n) 0))"

text \<open>C8: no message is accepted without its required fields: if pb_decode_noinit returns true, the number
  of each of the first 64 required fields is one of the field numbers it read from the input.\<close>

theorem required_fields_present:
  assumes "pb_decode_noinit env (Suc n) fs dest st = Some (True, st')" and "num_fields fs < 2 ^ 32"
    and "j < num_fields fs" and "PB_HTYPE (f_type (fs ! j)) = PB_HTYPE_REQUIRED"
    and "length (filter is_required (take j fs)) < 64"
  shows "f_tag (fs ! j) \<in> set (message_tags env n fs dest st)"
proof -
  let ?dm = "\<lambda>init fs dest st. if init then decode_with env (pb_decode_noinit env n) fs dest st
                          else pb_decode_noinit env n fs dest st"
  let ?loop = "decode_loop (Suc (unat (bytes_left (d_str st)))) env (d_local env n) ?dm
     (noinit_init fs dest) (set_mem st (store_u32 (d_mem st) (d_local env n) 0))"
  from assms(1) obtain v st1 where loop: "?loop = Some (True, v, st1)"
    and finish: "finish_noinit (d_local env n) v st1 = Some (True, st')"
    by (auto simp: Let_def ret_false_def simp del: decode_loop.simps split: option.splits bool.splits)
  show ?thesis
    unfolding message_tags_def
    by (rule accepted_has_required [OF loop finish assms(2,3)]) (use assms(4,5) in \<open>simp_all add: is_required_def req_before_def\<close>)
qed

theorem required_fields_present_witness:
  "2 \<in> set (message_tags (quiet_env (\<lambda>_. [])) 0 sample_fields 0x1000
     (sample_dec [0x11, 1, 2, 3, 4, 5, 6, 7, 8, 0x08, 0x05]))"
proof -
  let ?st = "sample_dec [0x11, 1, 2, 3, 4, 5, 6, 7, 8, 0x08, 0x05]"
  have "case pb_decode_noinit (quiet_env (\<lambda>_. [])) (Suc 0) sample_fields 0x1000 ?st of
      Some (ok, st') \<Rightarrow> ok | None \<Rightarrow> False" by code_simp
  then obtain st' where "pb_decode_noinit (quiet_env (\<lambda>_. [])) (Suc 0) sample_fields 0x1000 ?st = Some (True, st')"
    by (auto simp del: pb_decode_noinit.simps split: option.splits prod.splits)
  from required_fields_present [OF this, of 1] show ?thesis
    by (simp add: sample_plain) (simp add: sample_fields_def PB_HTYPE_def)
qed

text \<open>Pb_field_iter_find is a complete search of the fields from wherever the iterator stands. If some
  field has the number (and is not an extension range), the iterator ends on such a field, in
  the state that walking there from the first field gives; otherwise the function returns false and
  the iterator is back where it was.\<close>

theorem iter_find_complete:
  assumes "k < num_fields fs" and "tag \<noteq> 0"
  shows "if has_field fs tag
    then \<exists>j < num_fields fs. field_matches tag (fs ! j)
           \<and> pb_field_iter_find (iter_at fs d k) tag = Some (True, iter_at fs d j)
    else pb_field_iter_find (iter_at fs d k) tag = Some (False, iter_at fs d k)"
proof -
  from assms have "k < num_fields fs \<or> k = 0" by simp
  then show ?thesis
    using assms(2) by (cases rule: iter_find_cases [of k fs tag d]) (auto simp: has_field_def ret_true_def ret_false_def)
qed

theorem iter_find_complete_witness:
  "pb_field_iter_find (iter_at sample_fields 0x1000 1) 1 = Some (True, iter_at sample_fields 0x1000 0)"
proof -
  have m: "field_matches 1 (sample_fields ! 0)" "\<not> field_matches 1 (sample_fields ! 1)"
    by (simp_all add: field_matches_def sample_fields_def PB_LTYPE_def)
  then have "has_field sample_fields 1" "field_matches 1 (sample_fields ! j) \<Longrightarrow> j < 2 \<Longrightarrow> j = 0" for j
    by (auto simp: has_field_def sample_plain(2) less_2_cases_iff)
  with iter_find_complete [of 1 sample_fields 1 "0x1000"] sample_plain(2) show ?thesis
    by (metis (full_types) one_less_numeral_iff semiring_norm(76) zero_neq_one)
qed

lemma le_word_le_bytes_ucast:
  assumes "LENGTH('b) \<le> 8 * n"
  shows "le_word (le_bytes n (v :: 'a::len word)) = (ucast v :: 'b::len word)"
proof (rule bit_word_eqI)
  fix k assume k: "k < LENGTH('b)"
  then have "k div 8 < n" using assms by (simp add: div_less_iff_less_mult mult.commute)
  with k show "bit (le_word (le_bytes n v) :: 'b word) k \<longleftrightarrow> bit (ucast v :: 'b word) k"
    by (simp add: bit_le_word bit_byte_at bit_ucast_iff mult.commute)
qed

lemma load_store_bytes: "n \<le> 8 \<Longrightarrow> load (store m a (le_bytes n v)) a n = le_bytes n v"
  using load_store_same [of "le_bytes n v" m a] by simp

lemma le_bytes_one: "le_bytes (Suc 0) v = [ucast v]"
  by (simp add: le_bytes_def byte_at_def)

lemma write_read_back:
  "write_uint m dest sz v = Some (m', c) \<Longrightarrow> read_uint m' dest sz = Some c"
  "write_int m dest sz v = Some (m', c) \<Longrightarrow> read_int m' dest sz = Some c"
  by (auto simp: write_uint_def read_uint_def write_int_def read_int_def load_store_bytes load_u32_def
      le_word_le_bytes_ucast store_byte le_bytes_one split: if_splits)

lemma finish_write_ok:
  "finish_write w v st = Some (True, st') \<Longrightarrow> \<exists>m. w = Some (m, v) \<and> d_mem st' = m"
  by (auto simp: finish_write_def dec_error_def ret_false_def ret_true_def set_mem_def split: option.splits if_splits)

lemma rd_then_true:
  assumes "rd_then st r k = Some (True, st')"
  obtains a s where "r (d_str st) = rd_ok a s" and "k a (st\<lparr>d_str := s\<rparr>) = Some (True, st')"
  using assms by (auto simp: rd_then_def ret_false_def rd_ok_def split: option.splits)

text \<open>A decoded integer is never cut silently. When pb_dec_uvarint or pb_dec_svarint succeeds, reading the
  field back gives the very value on the wire; when pb_dec_varint succeeds, reading it back gives that
  value, of which fields narrower than 8 bytes take the low 32 bits as a signed number.\<close>

theorem decoded_integers_exact:
  "(pb_dec_uvarint field dest st = Some (True, st') \<longrightarrow>
      (\<exists>val t. pb_decode_varint (d_str st) = rd_ok val t \<and> read_uint (d_mem st') dest (f_data_size field) = Some val))
   \<and> (pb_dec_svarint field dest st = Some (True, st') \<longrightarrow>
      (\<exists>val t. pb_decode_svarint (d_str st) = rd_ok val t \<and> read_int (d_mem st') dest (f_data_size field) = Some val))
   \<and> (pb_dec_varint field dest st = Some (True, st') \<longrightarrow>
      (\<exists>val t. pb_decode_varint (d_str st) = rd_ok val t \<and> read_int (d_mem st') dest (f_data_size field) =
        Some (if f_data_size field = 8 then val else scast (ucast val :: u32))))"
  by (intro conjI impI; unfold pb_dec_uvarint_def pb_dec_svarint_def pb_dec_varint_def Let_def; erule rd_then_true)
    (use write_read_back in \<open>fastforce dest!: finish_write_ok\<close>)+

theorem decoded_integers_exact_witness:
  "\<exists>st'. pb_dec_uvarint sample_field 0x1000 (sample_dec [0x96, 0x01]) = Some (True, st')
     \<and> read_uint (d_mem st') 0x1000 4 = Some 150"
proof -
  have "case pb_dec_uvarint sample_field 0x1000 (sample_dec [0x96, 0x01]) of Some (ok, st') \<Rightarrow> ok | None \<Rightarrow> False"
    by code_simp
  then obtain st' where r: "pb_dec_uvarint sample_field 0x1000 (sample_dec [0x96, 0x01]) = Some (True, st')"
    by (auto split: option.splits prod.splits)
  have "case pb_decode_varint (d_str (sample_dec [0x96, 0x01])) of Some (v, t) \<Rightarrow> v = Some 150 | None \<Rightarrow> False"
    by code_simp
  with r decoded_integers_exact [of sample_field "0x1000" "sample_dec [0x96, 0x01]" st'] show ?thesis
    by (auto simp: rd_ok_def sample_field_def)
qed

text \<open>C9: a decoded string field is always terminated inside its storage. If pb_dec_string succeeds on a static
  field, the length on the wire is below the size of the field, the field holds exactly the bytes that
  followed the length, and the byte behind them is zero.\<close>

theorem decoded_string_terminated:
  assumes "wf_in (d_str st)" and "PB_ATYPE (f_type field) \<noteq> PB_ATYPE_POINTER"
    and "pb_dec_string env field dest st = Some (True, st')"
  shows "\<exists>sz t. pb_decode_varint32 (d_str st) = rd_ok sz t \<and> unat sz < unat (f_data_size field)
    \<and> load (d_mem st') dest (unat sz) = take (unat sz) (input t) \<and> length (input t) \<ge> unat sz
    \<and> d_mem st' (dest + ucast sz) = 0"
proof -
  note run = assms(3) [unfolded pb_dec_string_def Let_def]
  obtain sz t where sz: "pb_decode_varint32 (d_str st) = rd_ok sz t"
    and rest: "(if ucast (sz + 1) < (ucast sz :: u64) then dec_error ''size too large'' (st\<lparr>d_str := t\<rparr>)
      else if (ucast (f_data_size field) :: u64) < ucast (sz + 1) then dec_error ''string overflow'' (st\<lparr>d_str := t\<rparr>)
      else case read_to (st\<lparr>d_str := t\<rparr>) dest (ucast sz) of None \<Rightarrow> None
        | Some (status, st) \<Rightarrow> Some (status, set_mem st ((d_mem st)(dest + ucast sz := 0)))) = Some (True, st')"
    by (rule rd_then_true [OF run]) (simp only: assms(2) if_False)
  define st1 where "st1 = st\<lparr>d_str := t\<rparr>"
  have room: "\<not> ucast (sz + 1) < (ucast sz :: u64)" "\<not> (ucast (f_data_size field) :: u64) < ucast (sz + 1)"
    using rest by (rule_tac notI, simp add: dec_error_def ret_false_def split: if_split_asm)+
  obtain st2 where read: "read_to st1 dest (ucast sz) = Some (True, st2)"
    and st': "st' = set_mem st2 ((d_mem st2)(dest + ucast sz := 0))"
    using rest unfolding if_not_P [OF room(1)] if_not_P [OF room(2)] st1_def [symmetric]
    by (cases "read_to st1 dest (ucast sz)") auto
  have sz1: "unat (sz + 1) = Suc (unat sz)"
  proof (rule ccontr)
    assume "unat (sz + 1) \<noteq> Suc (unat sz)"
    then have zero: "sz + 1 = 0" using unatSuc [of sz] by (auto simp: add.commute)
    from room(1) have "unat sz \<le> unat (sz + 1)" unfolding word_less_nat_alt by simp
    with zero have "sz = 0" by (simp add: unat_eq_zero)
    with zero show False by simp
  qed
  with room(2) have lt: "unat sz < unat (f_data_size field)" by (simp add: word_less_nat_alt)
  have wf: "wf_in t" using varint32_wf [OF assms(1)] sz by (simp add: rd_ok_def)
  obtain bs u where bs: "pb_read t True (ucast sz) = rd_ok bs u" "st2 = set_mem (st1\<lparr>d_str := u\<rparr>) (store (d_mem st1) dest bs)"
    using read unfolding read_to_def by (elim rd_then_true) (auto simp: ret_true_def st1_def)
  have le: "unat sz \<le> length (input t)"
  proof (rule ccontr)
    assume "\<not> ?thesis"
    with pb_read_short [OF wf, of "ucast sz" True] bs(1) show False by simp
  qed
  with pb_read_ok [OF wf, of "ucast sz" True] bs(1) have take: "bs = take (unat sz) (input t)" by simp
  have "load (d_mem st') dest (unat sz) = bs"
  proof -
    have "d_mem st' (dest + word_of_nat i) = bs ! i" if "i < unat sz" for i
    proof -
      have "i < 2 ^ 64" using that unat_bound [of sz] by simp
      then have i: "unat (word_of_nat i :: u64) = i" by (intro unat_word_of_nat_small) simp
      then have "word_of_nat i \<noteq> (ucast sz :: u64)" using that by (metis less_irrefl unat_ucast_32_64)
      then show ?thesis using that le i by (simp add: st' bs(2) set_mem_def store_def take)
    qed
    then show ?thesis using le by (intro nth_equalityI) (simp_all add: load_def take)
  qed
  with sz lt le take st' show ?thesis by (auto simp: set_mem_def)
qed

definition sample_string :: pb_field where
  "sample_string = \<lparr>f_tag = 3, f_type = 0x07, f_data_offset = 0, f_size_offset = 0, f_data_size = 8,
     f_array_size = 0, f_ptr = 0\<rparr>"

theorem decoded_string_terminated_witness:
  "\<exists>st'. pb_dec_string (quiet_env (\<lambda>_. [])) sample_string 0x1000 (sample_dec [2, 0x68, 0x69]) = Some (True, st')
     \<and> load (d_mem st') 0x1000 2 = [0x68, 0x69] \<and> d_mem st' 0x1002 = 0"
proof -
  let ?st = "sample_dec [2, 0x68, 0x69]"
  have "case pb_dec_string (quiet_env (\<lambda>_. [])) sample_string 0x1000 ?st of Some (ok, st') \<Rightarrow> ok | None \<Rightarrow> False"
    by code_simp
  then obtain st' where r: "pb_dec_string (quiet_env (\<lambda>_. [])) sample_string 0x1000 ?st = Some (True, st')"
    by (auto split: option.splits prod.splits)
  have "case pb_decode_varint32 (d_str ?st) of Some (v, t) \<Rightarrow> v = Some 2 \<and> input t = [0x68, 0x69] | None \<Rightarrow> False"
    by code_simp
  moreover have "PB_ATYPE (f_type sample_string) \<noteq> PB_ATYPE_POINTER" by code_simp
  moreover note decoded_string_terminated [OF sample_dec_wf _ r]
  ultimately show ?thesis using r by (auto simp: rd_ok_def)
qed

section \<open>Allocated fields\<close>

text \<open>C10: the size of an allocation never wraps around. If allocate_field returns true, the product of the two
  sizes is a 64-bit number, both are positive, the allocator was asked for exactly that many bytes and
  gave a block, and the pointer field holds its address.\<close>

theorem allocate_field_exact:
  assumes "allocate_field env pData data_size array_size st = Some (True, st')"
  shows "0 < unat array_size * unat data_size \<and> unat array_size * unat data_size < 2 ^ 64
    \<and> (\<exists>ptr m h. d_realloc env (d_mem st) (d_heap st) (load_u64 (d_mem st) pData)
          (word_of_nat (unat array_size * unat data_size)) = (ptr, m, h)
        \<and> ptr \<noteq> 0 \<and> load_u64 (d_mem st') pData = ptr)"
proof -
  from assms have pos: "data_size \<noteq> 0" "array_size \<noteq> 0"
    and guard: "\<not> ((push_bit 32 1 \<le> data_size \<or> push_bit 32 1 \<le> array_size) \<and> - 1 div array_size < data_size)"
    by (auto simp: allocate_field_def Let_def dec_error_def ret_false_def split: if_splits)
  have small: "unat array_size * unat data_size < 2 ^ 64"
  proof (cases "push_bit 32 1 \<le> data_size \<or> push_bit 32 1 \<le> array_size")
    case True
    with guard have "unat data_size \<le> unat ((- 1 :: u64) div array_size)"
      by (auto simp: not_less word_le_nat_alt)
    then have "unat data_size \<le> (2 ^ 64 - 1) div unat array_size"
      by (simp add: unat_div unsigned_minus_1_eq_mask mask_eq_exp_minus_1)
    then have "unat array_size * unat data_size \<le> unat array_size * ((2 ^ 64 - 1) div unat array_size)"
      by (rule mult_le_mono2)
    also have "\<dots> \<le> 2 ^ 64 - 1" by simp
    finally show ?thesis by simp
  next
    case False
    then have "unat data_size < 2 ^ 32" "unat array_size < 2 ^ 32"
      by (simp_all add: not_le word_less_nat_alt push_bit_eq_mult)
    then have "unat array_size * unat data_size < 2 ^ 32 * 2 ^ 32"
      using pos by (intro mult_strict_mono) simp_all
    then show ?thesis by simp
  qed
  have prod: "word_of_nat (unat array_size * unat data_size) = array_size * data_size" by simp
  from assms pos guard show ?thesis
    using small unfolding prod
    by (auto simp: allocate_field_def Let_def dec_error_def ret_false_def ret_true_def set_mem_def unat_gt_0
        split: prod.splits if_splits)
qed

definition bump_env :: "('s, unit) dec_env" where
  "bump_env = (quiet_env (\<lambda>_. []))\<lparr>d_realloc := (\<lambda>m h p n. (0x9000, m, h))\<rparr>"

theorem allocate_field_exact_witness:
  "\<exists>st'. allocate_field bump_env 0x1000 12 5 (sample_dec []) = Some (True, st') \<and> load_u64 (d_mem st') 0x1000 = 0x9000
     \<and> (60 :: nat) < 2 ^ 64"
proof -
  have "case allocate_field bump_env 0x1000 12 5 (sample_dec []) of Some (ok, st') \<Rightarrow> ok | None \<Rightarrow> False" by code_simp
  then obtain st' where r: "allocate_field bump_env 0x1000 12 5 (sample_dec []) = Some (True, st')"
    by (auto split: option.splits prod.splits)
  with allocate_field_exact [OF r] show ?thesis by (auto simp: bump_env_def)
qed

text \<open>Releasing an allocated field leaves no dangling pointer: after pb_release_single_field has run on a
  pointer field that is present (for a member of a oneof, the selected one), its pointer is null, so that
  a second release has nothing left to free.\<close>

theorem release_clears_pointer:
  assumes "PB_ATYPE (f_type (it_field it)) = PB_ATYPE_POINTER"
    and "PB_HTYPE (f_type (it_field it)) = PB_HTYPE_ONEOF \<longrightarrow> load_u32 (d_mem st) (it_pSize it) = f_tag (it_field it)"
    and "pb_release_single_field env (Suc n) it st = Some (True, st')"
  shows "load_u64 (d_mem st') (it_pData it) = 0"
  using assms
  by (auto simp: Let_def and_then_True ret_true_def set_mem_def split: if_splits)

definition sample_pointer :: "pb_field list" where
  "sample_pointer = [\<lparr>f_tag = 1, f_type = 0x96, f_data_offset = 0, f_size_offset = 0, f_data_size = 0,
     f_array_size = 0, f_ptr = 0\<rparr>]"

theorem release_clears_pointer_witness:
  "\<exists>st'. pb_release_single_field (quiet_env (\<lambda>_. [])) 1 (iter_at sample_pointer 0x1000 0)
      ((sample_dec [])\<lparr>d_mem := store_u64 (\<lambda>_. 0) 0x1000 0x9000\<rparr>) = Some (True, st') \<and> load_u64 (d_mem st') 0x1000 = 0"
proof -
  let ?st = "(sample_dec [])\<lparr>d_mem := store_u64 (\<lambda>_. 0) 0x1000 0x9000\<rparr>" and ?it = "iter_at sample_pointer 0x1000 0"
  have "case pb_release_single_field (quiet_env (\<lambda>_. [])) (Suc 0) ?it ?st of Some (ok, st') \<Rightarrow> ok | None \<Rightarrow> False" by code_simp
  then obtain st' where r: "pb_release_single_field (quiet_env (\<lambda>_. [])) (Suc 0) ?it ?st = Some (True, st')"
    by (auto simp del: pb_release_single_field.simps split: option.splits prod.splits)
  have "PB_ATYPE (f_type (it_field ?it)) = PB_ATYPE_POINTER" "PB_HTYPE (f_type (it_field ?it)) \<noteq> PB_HTYPE_ONEOF"
    "it_pData ?it = 0x1000" by code_simp+
  with release_clears_pointer [OF _ _ r] r show ?thesis by auto
qed

section \<open>Varints that are too long\<close>

lemma unat_bitpos: "7 * k < 71 \<Longrightarrow> unat (word_of_nat (7 * k) :: u8) = 7 * k"
  by (rule unat_word_of_nat_small) simp

lemma with_error_same: "ierrmsg t = Some e \<Longrightarrow> with_error msg t = t"
  by (cases t) (simp add: with_error_def)

lemma varint64_loop_overlong:
  assumes "wf_in s" and "input s = bs @ rest" and "list_all marked bs" and "7 * (k + length bs) \<ge> 64"
    and "7 * k < 64 + 7"
  shows "\<exists>t. varint64_loop s r (word_of_nat (7 * k)) = rd_error ''varint overflow'' t"
  using assms
proof (induction bs arbitrary: s r k)
  case Nil
  then have "64 \<le> (word_of_nat (7 * k) :: u8)"
    using unat_bitpos [of k] by (simp add: word_le_nat_alt del: of_nat_mult)
  then show ?case by (auto simp: varint64_loop.simps [of s])
next
  case (Cons b bs)
  show ?case
  proof (cases "64 \<le> (word_of_nat (7 * k) :: u8)")
    case True
    then show ?thesis by (auto simp: varint64_loop.simps [of s])
  next
    case False
    then have k: "7 * k < 64" using Cons.prems(5) unat_bitpos [of k] by (simp add: word_le_nat_alt del: of_nat_mult)
    have one: "1 \<le> length (input s)" using Cons.prems(2) by simp
    have "word_of_nat (7 * k) + 7 = (word_of_nat (7 * Suc k) :: u8)" by simp
    with Cons.IH [OF eat_wf(1) [OF Cons.prems(1) one], of "Suc k"] Cons.prems eat_wf(2) [OF Cons.prems(1) one] k False
      pb_readbyte_ok [OF Cons.prems(1), of b "bs @ rest"]
    show ?thesis by (auto simp: varint64_loop.simps [of s] Let_def marked_def add.commute [of "7 * word_of_nat k"])
  qed
qed

text \<open>Pb_decode_varint refuses a varint of more than 10 bytes: if the first ten bytes of the input all have
  their continuation bit set, it fails with the error "varint overflow", whatever follows.\<close>

theorem varint_too_long_rejected:
  assumes "wf_in s" and "input s = bs @ rest" and "length bs = 10" and "list_all marked bs"
  shows "\<exists>t. pb_decode_varint s = rd_error ''varint overflow'' t"
  using varint64_loop_overlong [OF assms(1,2,4), of 0 0] assms(3) by (simp add: pb_decode_varint_def)

theorem varint_too_long_rejected_witness:
  "\<exists>t. pb_decode_varint (pb_istream_from_buffer (replicate 37 0x80 @ [1]) 38 :: unit istream) = rd_error ''varint overflow'' t"
proof (rule varint_too_long_rejected)
  show "wf_in (pb_istream_from_buffer (replicate 37 0x80 @ [1]) 38 :: unit istream)"
    by (simp add: wf_in_def source_def pb_istream_from_buffer_def)
  show "input (pb_istream_from_buffer (replicate 37 0x80 @ [1]) 38 :: unit istream) =
      replicate 10 0x80 @ replicate 27 0x80 @ [1]"
    by (simp add: input_def source_def pb_istream_from_buffer_def flip: replicate_add append_assoc)
  show "list_all marked (replicate 10 0x80)" by code_simp
qed simp

text \<open>Pb_decode_varint32 has no such limit. Its shift counter is an 8-bit number that wraps around after
  37 bytes, so a varint of 38 bytes, 37 continuation bytes of value 0 and then the value 1, is accepted and
  decodes to 8, while pb_decode_varint rejects the same bytes as an overflow.\<close>

theorem varint32_wraps_around:
  "(\<exists>t. pb_decode_varint32 (pb_istream_from_buffer (replicate 37 0x80 @ [1]) 38 :: unit istream) = rd_ok 8 t
      \<and> bytes_left t = 0)
   \<and> (\<exists>t. pb_decode_varint (pb_istream_from_buffer (replicate 37 0x80 @ [1]) 38 :: unit istream)
        = rd_error ''varint overflow'' t)"
proof -
  let ?s = "pb_istream_from_buffer (replicate 37 0x80 @ [1]) 38 :: unit istream"
  have "case pb_decode_varint32 ?s of Some (v, t) \<Rightarrow> v = Some 8 \<and> bytes_left t = 0 | None \<Rightarrow> False" by code_simp
  moreover have "case pb_decode_varint ?s of Some (v, t) \<Rightarrow> v = None \<and> ierrmsg t = Some ''varint overflow'' | None \<Rightarrow> False"
    by code_simp
  ultimately show ?thesis
    by (auto simp: rd_ok_def rd_error_def rd_fail_def with_error_same split: option.splits prod.splits
        intro!: exI [of _ "snd (the (pb_decode_varint ?s))"])
qed

end
