(* ===== verification/Cbs.thy ===== *)
theory Cbs
  imports Prelude
begin

text \<open>
  BoringSSL's byte string reader (\<^verbatim>\<open>crypto/bytestring/cbs.c\<close>). A \<^verbatim>\<open>CBS\<close> is a view of constant
  bytes, so it is the list of the bytes it covers: moving its data pointer drops bytes in
  front. Every function gives back its result, or \<open>None\<close> where the C function returns 0, and
  the \<^verbatim>\<open>CBS\<close> as it leaves it, also when it fails. Out parameters that a failing function has
  already written are not kept. Sizes of objects are below \<open>2 ^ 64\<close>.
\<close>

section \<open>The view\<close>

type_synonym cbs = "u8 list"
type_synonym 'a parse = "'a option \<times> cbs"

definition CBS_init :: "u8 list \<Rightarrow> nat \<Rightarrow> cbs" where
  "CBS_init data len = take len data"

definition cbs_get :: "cbs \<Rightarrow> nat \<Rightarrow> u8 list parse" where
  "cbs_get cbs n = (if length cbs < n then (None, cbs) else (Some (take n cbs), drop n cbs))"

definition CBS_skip :: "cbs \<Rightarrow> nat \<Rightarrow> unit parse" where
  "CBS_skip cbs len = (case cbs_get cbs len of (r, cbs) \<Rightarrow> (map_option (\<lambda>_. ()) r, cbs))"

definition CBS_data :: "cbs \<Rightarrow> u8 list" where
  "CBS_data cbs = cbs"

definition CBS_len :: "cbs \<Rightarrow> nat" where
  "CBS_len cbs = length cbs"

text \<open>\<open>alloc_ok\<close> says whether \<^verbatim>\<open>malloc\<close> gives a block of the size asked for.\<close>

definition CBS_stow :: "(nat \<Rightarrow> bool) \<Rightarrow> cbs \<Rightarrow> bool \<times> u8 list option" where
  "CBS_stow alloc_ok cbs =
     (if CBS_len cbs = 0 then (True, None)
      else if alloc_ok (CBS_len cbs) then (True, Some (CBS_data cbs)) else (False, None))"

definition CBS_strdup :: "(nat \<Rightarrow> bool) \<Rightarrow> cbs \<Rightarrow> u8 list option" where
  "CBS_strdup alloc_ok cbs =
     (let str = takeWhile (\<lambda>b. b \<noteq> 0) cbs in
      if alloc_ok (length str + 1) then Some (str @ [0]) else None)"

definition CBS_contains_zero_byte :: "cbs \<Rightarrow> bool" where
  "CBS_contains_zero_byte cbs = list_ex (\<lambda>b. b = 0) cbs"

definition CRYPTO_memcmp :: "u8 list \<Rightarrow> u8 list \<Rightarrow> u8" where
  "CRYPTO_memcmp a b = foldl (\<lambda>x (p, q). x OR (p XOR q)) 0 (zip a b)"

definition CBS_mem_equal :: "cbs \<Rightarrow> u8 list \<Rightarrow> bool" where
  "CBS_mem_equal cbs data \<longleftrightarrow> length data = CBS_len cbs \<and> CRYPTO_memcmp cbs data = 0"

section \<open>Integers\<close>

text \<open>The loop \<^verbatim>\<open>result <<= 8; result |= data[i]\<close>.\<close>

definition be_word :: "u8 list \<Rightarrow> 'a::len word" where
  "be_word data = foldl (\<lambda>result b. push_bit 8 result OR ucast b) 0 data"

definition cbs_get_u :: "cbs \<Rightarrow> nat \<Rightarrow> u64 parse" where
  "cbs_get_u cbs len = (case cbs_get cbs len of (r, cbs) \<Rightarrow> (map_option be_word r, cbs))"

definition CBS_get_u8 :: "cbs \<Rightarrow> u8 parse" where
  "CBS_get_u8 cbs = (case cbs_get cbs 1 of (r, cbs) \<Rightarrow> (map_option hd r, cbs))"

definition CBS_get_u16 :: "cbs \<Rightarrow> u16 parse" where
  "CBS_get_u16 cbs = (case cbs_get_u cbs 2 of (r, cbs) \<Rightarrow> (map_option ucast r, cbs))"

definition CBS_get_u24 :: "cbs \<Rightarrow> u32 parse" where
  "CBS_get_u24 cbs = (case cbs_get_u cbs 3 of (r, cbs) \<Rightarrow> (map_option ucast r, cbs))"

definition CBS_get_u32 :: "cbs \<Rightarrow> u32 parse" where
  "CBS_get_u32 cbs = (case cbs_get_u cbs 4 of (r, cbs) \<Rightarrow> (map_option ucast r, cbs))"

definition CBS_get_u64 :: "cbs \<Rightarrow> u64 parse" where
  "CBS_get_u64 cbs = cbs_get_u cbs 8"

definition CRYPTO_bswap2 :: "u16 \<Rightarrow> u16" where
  "CRYPTO_bswap2 x = drop_bit 8 x OR push_bit 8 x"

definition CRYPTO_bswap4 :: "u32 \<Rightarrow> u32" where
  "CRYPTO_bswap4 x = (let x = drop_bit 16 x OR push_bit 16 x
     in drop_bit 8 (x AND 0xff00ff00) OR push_bit 8 (x AND 0x00ff00ff))"

definition CRYPTO_bswap8 :: "u64 \<Rightarrow> u64" where
  "CRYPTO_bswap8 x = ucast (CRYPTO_bswap4 (ucast (drop_bit 32 x))) OR
     push_bit 32 (ucast (CRYPTO_bswap4 (ucast x)))"

definition CBS_get_u16le :: "cbs \<Rightarrow> u16 parse" where
  "CBS_get_u16le cbs = (case CBS_get_u16 cbs of (r, cbs) \<Rightarrow> (map_option CRYPTO_bswap2 r, cbs))"

definition CBS_get_u32le :: "cbs \<Rightarrow> u32 parse" where
  "CBS_get_u32le cbs = (case CBS_get_u32 cbs of (r, cbs) \<Rightarrow> (map_option CRYPTO_bswap4 r, cbs))"

definition CBS_get_u64le :: "cbs \<Rightarrow> u64 parse" where
  "CBS_get_u64le cbs = (case cbs_get_u cbs 8 of (r, cbs) \<Rightarrow> (map_option CRYPTO_bswap8 r, cbs))"

definition CBS_get_last_u8 :: "cbs \<Rightarrow> u8 parse" where
  "CBS_get_last_u8 cbs = (if CBS_len cbs = 0 then (None, cbs) else (Some (last cbs), butlast cbs))"

definition CBS_get_bytes :: "cbs \<Rightarrow> nat \<Rightarrow> cbs parse" where
  "CBS_get_bytes cbs len = cbs_get cbs len"

definition CBS_copy_bytes :: "cbs \<Rightarrow> nat \<Rightarrow> u8 list parse" where
  "CBS_copy_bytes cbs len = cbs_get cbs len"

definition cbs_get_length_prefixed :: "cbs \<Rightarrow> nat \<Rightarrow> cbs parse" where
  "cbs_get_length_prefixed cbs len_len =
     (case cbs_get_u cbs len_len of
        (None, cbs) \<Rightarrow> (None, cbs)
      | (Some len, cbs) \<Rightarrow> CBS_get_bytes cbs (unat len))"

definition CBS_get_u8_length_prefixed :: "cbs \<Rightarrow> cbs parse" where
  "CBS_get_u8_length_prefixed cbs = cbs_get_length_prefixed cbs 1"

definition CBS_get_u16_length_prefixed :: "cbs \<Rightarrow> cbs parse" where
  "CBS_get_u16_length_prefixed cbs = cbs_get_length_prefixed cbs 2"

definition CBS_get_u24_length_prefixed :: "cbs \<Rightarrow> cbs parse" where
  "CBS_get_u24_length_prefixed cbs = cbs_get_length_prefixed cbs 3"

section \<open>ASN.1 elements\<close>

abbreviation (input) "CBS_ASN1_TAG_SHIFT \<equiv> 24 :: nat"
abbreviation (input) "CBS_ASN1_CONSTRUCTED \<equiv> 0x20000000 :: u32"
abbreviation (input) "CBS_ASN1_TAG_NUMBER_MASK \<equiv> 0x1FFFFFFF :: u32"
abbreviation (input) "CBS_ASN1_BOOLEAN \<equiv> 1 :: u32"
abbreviation (input) "CBS_ASN1_INTEGER \<equiv> 2 :: u32"
abbreviation (input) "CBS_ASN1_OCTETSTRING \<equiv> 4 :: u32"

text \<open>The loop of \<^verbatim>\<open>parse_base128_integer\<close>, with the value so far.\<close>

fun base128_loop :: "u64 \<Rightarrow> cbs \<Rightarrow> u64 parse" where
  "base128_loop v [] = (None, [])"
| "base128_loop v (b # cbs) =
     (if drop_bit (64 - 7) v \<noteq> 0 then (None, cbs)
      else if v = 0 \<and> b = 0x80 then (None, cbs)
      else let v = push_bit 7 v OR ucast (b AND 0x7f)
        in if b AND 0x80 \<noteq> 0 then base128_loop v cbs else (Some v, cbs))"

definition parse_base128_integer :: "cbs \<Rightarrow> u64 parse" where
  "parse_base128_integer cbs = base128_loop 0 cbs"

definition parse_asn1_tag :: "cbs \<Rightarrow> u32 parse" where
  "parse_asn1_tag cbs =
     (case CBS_get_u8 cbs of
        (None, cbs) \<Rightarrow> (None, cbs)
      | (Some tag_byte, cbs) \<Rightarrow>
          let tag = push_bit CBS_ASN1_TAG_SHIFT (ucast tag_byte AND 0xe0);
              tag_number = ucast tag_byte AND 0x1f
          in if tag_number = 0x1f then
               (case parse_base128_integer cbs of
                  (None, cbs) \<Rightarrow> (None, cbs)
                | (Some v, cbs) \<Rightarrow>
                    if ucast CBS_ASN1_TAG_NUMBER_MASK < v \<or> v < 0x1f then (None, cbs)
                    else (Some (tag OR ucast v), cbs))
             else (Some (tag OR tag_number), cbs))"

text \<open>The element, its tag, and the length of its header.\<close>

definition cbs_get_any_asn1_element :: "bool \<Rightarrow> cbs \<Rightarrow> (cbs \<times> u32 \<times> nat) parse" where
  "cbs_get_any_asn1_element ber_ok cbs =
     (let element = (\<lambda>tag len header_len. case CBS_get_bytes cbs len of
            (r, cbs) \<Rightarrow> (map_option (\<lambda>out. (out, tag, header_len)) r, cbs))
      in case parse_asn1_tag cbs of
        (None, _) \<Rightarrow> (None, cbs)
      | (Some tag, header) \<Rightarrow>
          (case CBS_get_u8 header of
             (None, _) \<Rightarrow> (None, cbs)
           | (Some length_byte, header) \<Rightarrow>
               let header_len = CBS_len cbs - CBS_len header in
               if length_byte AND 0x80 = 0
               then element tag (unat length_byte + header_len) header_len
               else let num_bytes = unat (length_byte AND 0x7f) in
                 if ber_ok \<and> tag AND CBS_ASN1_CONSTRUCTED \<noteq> 0 \<and> num_bytes = 0
                 then element tag header_len header_len
                 else if num_bytes = 0 \<or> 4 < num_bytes then (None, cbs)
                 else (case cbs_get_u header num_bytes of
                     (None, _) \<Rightarrow> (None, cbs)
                   | (Some len64, _) \<Rightarrow>
                       if len64 < 128 then (None, cbs)
                       else if drop_bit ((num_bytes - 1) * 8) len64 = 0 then (None, cbs)
                       else let len = len64 + word_of_nat header_len + word_of_nat num_bytes in
                         if len < len64 then (None, cbs)
                         else element tag (unat len) (header_len + num_bytes))))"

definition CBS_get_any_asn1_element :: "cbs \<Rightarrow> (cbs \<times> u32 \<times> nat) parse" where
  "CBS_get_any_asn1_element cbs = cbs_get_any_asn1_element False cbs"

definition CBS_get_any_ber_asn1_element :: "cbs \<Rightarrow> (cbs \<times> u32 \<times> nat) parse" where
  "CBS_get_any_ber_asn1_element cbs = cbs_get_any_asn1_element True cbs"

definition CBS_get_any_asn1 :: "cbs \<Rightarrow> (cbs \<times> u32) parse" where
  "CBS_get_any_asn1 cbs =
     (case CBS_get_any_asn1_element cbs of
        (None, cbs) \<Rightarrow> (None, cbs)
      | (Some (out, tag, header_len), cbs) \<Rightarrow>
          (case CBS_skip out header_len of
             (None, _) \<Rightarrow> (None, cbs)
           | (Some _, out) \<Rightarrow> (Some (out, tag), cbs)))"

definition cbs_get_asn1 :: "cbs \<Rightarrow> u32 \<Rightarrow> bool \<Rightarrow> cbs parse" where
  "cbs_get_asn1 cbs tag_value skip_header =
     (case CBS_get_any_asn1_element cbs of
        (None, cbs) \<Rightarrow> (None, cbs)
      | (Some (out, tag, header_len), cbs) \<Rightarrow>
          if tag \<noteq> tag_value then (None, cbs)
          else if skip_header then
            (case CBS_skip out header_len of
               (None, _) \<Rightarrow> (None, cbs)
             | (Some _, out) \<Rightarrow> (Some out, cbs))
          else (Some out, cbs))"

definition CBS_get_asn1 :: "cbs \<Rightarrow> u32 \<Rightarrow> cbs parse" where
  "CBS_get_asn1 cbs tag_value = cbs_get_asn1 cbs tag_value True"

definition CBS_get_asn1_element :: "cbs \<Rightarrow> u32 \<Rightarrow> cbs parse" where
  "CBS_get_asn1_element cbs tag_value = cbs_get_asn1 cbs tag_value False"

definition CBS_peek_asn1_tag :: "cbs \<Rightarrow> u32 \<Rightarrow> bool" where
  "CBS_peek_asn1_tag cbs tag_value =
     (if CBS_len cbs < 1 then False else fst (parse_asn1_tag cbs) = Some tag_value)"

section \<open>ASN.1 values\<close>

fun uint64_loop :: "u64 \<Rightarrow> u8 list \<Rightarrow> u64 option" where
  "uint64_loop out [] = Some out"
| "uint64_loop out (b # data) =
     (if drop_bit 56 out \<noteq> 0 then None else uint64_loop (push_bit 8 out OR ucast b) data)"

definition CBS_get_asn1_uint64 :: "cbs \<Rightarrow> u64 parse" where
  "CBS_get_asn1_uint64 cbs =
     (case CBS_get_asn1 cbs CBS_ASN1_INTEGER of
        (None, cbs) \<Rightarrow> (None, cbs)
      | (Some data, cbs) \<Rightarrow>
          if length data = 0 then (None, cbs)
          else if data ! 0 AND 0x80 \<noteq> 0 then (None, cbs)
          else if data ! 0 = 0 \<and> 1 < length data \<and> data ! 1 AND 0x80 = 0 then (None, cbs)
          else (uint64_loop 0 data, cbs))"

definition CBS_get_asn1_int64 :: "cbs \<Rightarrow> u64 parse" where
  "CBS_get_asn1_int64 cbs =
     (case CBS_get_asn1 cbs CBS_ASN1_INTEGER of
        (None, cbs) \<Rightarrow> (None, cbs)
      | (Some data, cbs) \<Rightarrow>
          let len = length data in
          if len = 0 \<or> 8 < len then (None, cbs)
          else if 1 < len \<and> (data ! 0 = 0 \<and> data ! 1 AND 0x80 = 0
                             \<or> data ! 0 = 0xff \<and> data ! 1 AND 0x80 \<noteq> 0) then (None, cbs)
          else let fill = (if data ! 0 AND 0x80 \<noteq> 0 then 0xff else 0)
            in (Some (le_word (rev data @ replicate (8 - len) fill)), cbs))"

definition CBS_get_asn1_bool :: "cbs \<Rightarrow> bool parse" where
  "CBS_get_asn1_bool cbs =
     (case CBS_get_asn1 cbs CBS_ASN1_BOOLEAN of
        (None, cbs) \<Rightarrow> (None, cbs)
      | (Some bytes, cbs) \<Rightarrow>
          if CBS_len bytes \<noteq> 1 then (None, cbs)
          else let val = hd bytes in
            if val \<noteq> 0 \<and> val \<noteq> 0xff then (None, cbs) else (Some (val \<noteq> 0), cbs))"

text \<open>\<open>Some None\<close>: the element is not present, and \<^verbatim>\<open>out\<close> is not written.\<close>

definition CBS_get_optional_asn1 :: "cbs \<Rightarrow> u32 \<Rightarrow> cbs option parse" where
  "CBS_get_optional_asn1 cbs tag =
     (if CBS_peek_asn1_tag cbs tag then
        (case CBS_get_asn1 cbs tag of (r, cbs) \<Rightarrow> (map_option Some r, cbs))
      else (Some None, cbs))"

text \<open>Run a parser on a child that it has to use up.\<close>

definition whole_child :: "'a parse \<Rightarrow> 'a option" where
  "whole_child r = (case r of (None, _) \<Rightarrow> None
     | (Some a, child) \<Rightarrow> if CBS_len child \<noteq> 0 then None else Some a)"

definition CBS_get_optional_asn1_octet_string :: "cbs \<Rightarrow> u32 \<Rightarrow> (cbs \<times> bool) parse" where
  "CBS_get_optional_asn1_octet_string cbs tag =
     (case CBS_get_optional_asn1 cbs tag of
        (None, cbs) \<Rightarrow> (None, cbs)
      | (Some None, cbs) \<Rightarrow> (Some ([], False), cbs)
      | (Some (Some child), cbs) \<Rightarrow>
          (map_option (\<lambda>out. (out, True)) (whole_child (CBS_get_asn1 child CBS_ASN1_OCTETSTRING)), cbs))"

definition CBS_get_optional_asn1_uint64 :: "cbs \<Rightarrow> u32 \<Rightarrow> u64 \<Rightarrow> u64 parse" where
  "CBS_get_optional_asn1_uint64 cbs tag default_value =
     (case CBS_get_optional_asn1 cbs tag of
        (None, cbs) \<Rightarrow> (None, cbs)
      | (Some None, cbs) \<Rightarrow> (Some default_value, cbs)
      | (Some (Some child), cbs) \<Rightarrow> (whole_child (CBS_get_asn1_uint64 child), cbs))"

definition CBS_get_optional_asn1_bool :: "cbs \<Rightarrow> u32 \<Rightarrow> bool \<Rightarrow> bool parse" where
  "CBS_get_optional_asn1_bool cbs tag default_value =
     (case CBS_get_optional_asn1 cbs tag of
        (None, cbs) \<Rightarrow> (None, cbs)
      | (Some None, cbs) \<Rightarrow> (Some default_value, cbs)
      | (Some (Some child), cbs) \<Rightarrow>
          (case CBS_get_asn1 child CBS_ASN1_BOOLEAN of
             (None, _) \<Rightarrow> (None, cbs)
           | (Some child2, child) \<Rightarrow>
               if CBS_len child2 \<noteq> 1 \<or> CBS_len child \<noteq> 0 then (None, cbs)
               else let boolean = CBS_data child2 ! 0 in
                 if boolean = 0 then (Some False, cbs)
                 else if boolean = 0xff then (Some True, cbs) else (None, cbs)))"

definition CBS_is_valid_asn1_bitstring :: "cbs \<Rightarrow> bool" where
  "CBS_is_valid_asn1_bitstring cbs =
     (case CBS_get_u8 cbs of
        (None, _) \<Rightarrow> False
      | (Some num_unused_bits, input) \<Rightarrow>
          if 7 < num_unused_bits then False
          else if num_unused_bits = 0 then True
          else (case CBS_get_last_u8 input of
                  (None, _) \<Rightarrow> False
                | (Some last_byte, _) \<Rightarrow> last_byte AND (push_bit (unat num_unused_bits) 1 - 1) = 0))"

definition CBS_asn1_bitstring_has_bit :: "cbs \<Rightarrow> u32 \<Rightarrow> bool" where
  "CBS_asn1_bitstring_has_bit cbs bit_no \<longleftrightarrow>
     CBS_is_valid_asn1_bitstring cbs \<and>
     (let byte_num = unat (drop_bit 3 bit_no + 1); bit_num = unat (7 - (bit_no AND 7)) in
      byte_num < CBS_len cbs \<and> (CBS_data cbs ! byte_num) AND push_bit bit_num 1 \<noteq> 0)"

end
