(* ===== verification/Mem.thy ===== *)
theory Mem
  imports Cbs
begin

text \<open>
  BoringSSL's memory and string functions (\<^verbatim>\<open>crypto/mem.c\<close>). A block of \<^verbatim>\<open>OPENSSL_malloc\<close>
  is the list of its bytes from the eight-byte size header on, so a pointer to the block is
  the whole list and the bytes the caller sees are \<open>user_bytes\<close>. A C string is the list of
  the bytes that can be read from its pointer. \<open>None\<close> as the outermost value is undefined
  behaviour: a byte read or written outside its object. The system's \<^verbatim>\<open>malloc\<close> is the parameter
  \<open>heap\<close>: it refuses a size, or it gives a block with some contents. An object has fewer
  than \<open>2 ^ 63\<close> bytes.
\<close>

section \<open>Blocks\<close>

type_synonym heap = "u64 \<Rightarrow> (nat \<Rightarrow> u8) option"
type_synonym block = "u8 list"

definition sys_malloc :: "heap \<Rightarrow> u64 \<Rightarrow> block option" where
  "sys_malloc heap sz =
     (if 2 ^ 63 \<le> unat sz then None
      else map_option (\<lambda>contents. map contents [0..<unat sz]) (heap sz))"

abbreviation (input) "OPENSSL_MALLOC_PREFIX \<equiv> 8 :: nat"

definition user_bytes :: "block \<Rightarrow> u8 list" where
  "user_bytes ptr = drop OPENSSL_MALLOC_PREFIX ptr"

definition block_size :: "block \<Rightarrow> u64" where
  "block_size ptr = le_word (take OPENSSL_MALLOC_PREFIX ptr)"

text \<open>\<open>Some None\<close> is the null pointer.\<close>

definition OPENSSL_malloc :: "heap \<Rightarrow> u64 \<Rightarrow> block option option" where
  "OPENSSL_malloc heap sz =
     (case sys_malloc heap (sz + word_of_nat OPENSSL_MALLOC_PREFIX) of
        None \<Rightarrow> Some None
      | Some ptr \<Rightarrow>
          if length ptr < OPENSSL_MALLOC_PREFIX then None
          else Some (Some (le_bytes OPENSSL_MALLOC_PREFIX sz @ user_bytes ptr)))"

definition OPENSSL_cleanse :: "u8 list \<Rightarrow> nat \<Rightarrow> u8 list option" where
  "OPENSSL_cleanse ptr len = (if length ptr < len then None else Some (replicate len 0 @ drop len ptr))"

text \<open>The bytes of the block as they are when \<^verbatim>\<open>free\<close> gets it; \<open>Some None\<close> when nothing is freed.\<close>

definition OPENSSL_free :: "block option \<Rightarrow> block option option" where
  "OPENSSL_free orig_ptr =
     (case orig_ptr of
        None \<Rightarrow> Some None
      | Some ptr \<Rightarrow>
          if length ptr < OPENSSL_MALLOC_PREFIX then None
          else map_option Some
            (OPENSSL_cleanse ptr (unat (block_size ptr + word_of_nat OPENSSL_MALLOC_PREFIX))))"

definition OPENSSL_clear_free :: "block option \<Rightarrow> block option option" where
  "OPENSSL_clear_free ptr = OPENSSL_free ptr"

text \<open>The new block, and the block that went to \<^verbatim>\<open>free\<close>.\<close>

definition OPENSSL_realloc ::
  "heap \<Rightarrow> block option \<Rightarrow> u64 \<Rightarrow> (block option \<times> block option) option" where
  "OPENSSL_realloc heap orig_ptr new_size =
     (case orig_ptr of
        None \<Rightarrow> map_option (\<lambda>ret. (ret, None)) (OPENSSL_malloc heap new_size)
      | Some ptr \<Rightarrow>
          let old_size = block_size ptr in
          (case OPENSSL_malloc heap new_size of
             None \<Rightarrow> None
           | Some None \<Rightarrow> Some (None, None)
           | Some (Some ret) \<Rightarrow>
               let to_copy = unat (if old_size < new_size then old_size else new_size) in
               if length (user_bytes ptr) < to_copy \<or> length (user_bytes ret) < to_copy then None
               else let ret = take OPENSSL_MALLOC_PREFIX ret @ take to_copy (user_bytes ptr)
                      @ drop to_copy (user_bytes ret)
                 in map_option (\<lambda>freed. (Some ret, freed)) (OPENSSL_free orig_ptr)))"

definition OPENSSL_memdup :: "heap \<Rightarrow> u8 list \<Rightarrow> nat \<Rightarrow> block option option" where
  "OPENSSL_memdup heap data sz =
     (if sz = 0 then Some None
      else case OPENSSL_malloc heap (word_of_nat sz) of
          None \<Rightarrow> None
        | Some None \<Rightarrow> Some None
        | Some (Some ret) \<Rightarrow>
            if length data < sz \<or> length (user_bytes ret) < sz then None
            else Some (Some (take OPENSSL_MALLOC_PREFIX ret @ take sz data @ drop sz (user_bytes ret))))"

section \<open>Hashing\<close>

definition OPENSSL_hash32 :: "u8 list \<Rightarrow> u32" where
  "OPENSSL_hash32 ptr = foldl (\<lambda>h b. (h XOR ucast b) * 16777619) 2166136261 ptr"

section \<open>Strings\<close>

fun OPENSSL_strnlen :: "u8 list \<Rightarrow> nat \<Rightarrow> nat option" where
  "OPENSSL_strnlen s 0 = Some 0"
| "OPENSSL_strnlen [] (Suc len) = None"
| "OPENSSL_strnlen (c # s) (Suc len) =
     (if c = 0 then Some 0 else map_option Suc (OPENSSL_strnlen s len))"

fun strlen :: "u8 list \<Rightarrow> nat option" where
  "strlen [] = None"
| "strlen (c # s) = (if c = 0 then Some 0 else map_option Suc (strlen s))"

definition OPENSSL_strdup :: "heap \<Rightarrow> u8 list option \<Rightarrow> block option option" where
  "OPENSSL_strdup heap s =
     (case s of
        None \<Rightarrow> Some None
      | Some s \<Rightarrow>
          (case strlen s of
             None \<Rightarrow> None
           | Some n \<Rightarrow>
               let len = n + 1 in
               (case OPENSSL_malloc heap (word_of_nat len) of
                  None \<Rightarrow> None
                | Some None \<Rightarrow> Some None
                | Some (Some ret) \<Rightarrow>
                    if length (user_bytes ret) < len then None
                    else Some (Some (take OPENSSL_MALLOC_PREFIX ret @ take len s @ drop len (user_bytes ret))))))"

text \<open>\<^verbatim>\<open>char\<close> is signed, so its value as an \<^verbatim>\<open>int\<close> is \<open>sint\<close>; \<open>65\<close> is \<open>'A'\<close>.\<close>

definition OPENSSL_tolower :: "int \<Rightarrow> int" where
  "OPENSSL_tolower c = (if 65 \<le> c \<and> c \<le> 90 then c + (97 - 65) else c)"

fun OPENSSL_strcasecmp :: "u8 list \<Rightarrow> u8 list \<Rightarrow> int option" where
  "OPENSSL_strcasecmp (a # as) (b # bs) =
     (let aa = OPENSSL_tolower (sint a); bb = OPENSSL_tolower (sint b) in
      if aa < bb then Some (-1) else if bb < aa then Some 1
      else if aa = 0 then Some 0 else OPENSSL_strcasecmp as bs)"
| "OPENSSL_strcasecmp _ _ = None"

fun OPENSSL_strncasecmp :: "u8 list \<Rightarrow> u8 list \<Rightarrow> nat \<Rightarrow> int option" where
  "OPENSSL_strncasecmp as bs 0 = Some 0"
| "OPENSSL_strncasecmp (a # as) (b # bs) (Suc n) =
     (let aa = OPENSSL_tolower (sint a); bb = OPENSSL_tolower (sint b) in
      if aa < bb then Some (-1) else if bb < aa then Some 1
      else if aa = 0 then Some 0 else OPENSSL_strncasecmp as bs n)"
| "OPENSSL_strncasecmp _ _ (Suc n) = None"

definition OPENSSL_strndup :: "heap \<Rightarrow> u8 list option \<Rightarrow> nat \<Rightarrow> block option option" where
  "OPENSSL_strndup heap str sz =
     (case str of
        None \<Rightarrow> Some None
      | Some str \<Rightarrow>
          (case OPENSSL_strnlen str sz of
             None \<Rightarrow> None
           | Some sz \<Rightarrow>
               let alloc_size = word_of_nat sz + 1 in
               if alloc_size < word_of_nat sz then Some None
               else (case OPENSSL_malloc heap alloc_size of
                  None \<Rightarrow> None
                | Some None \<Rightarrow> Some None
                | Some (Some ret) \<Rightarrow>
                    if length str < sz \<or> length (user_bytes ret) < sz + 1 then None
                    else Some (Some (take OPENSSL_MALLOC_PREFIX ret @ take sz str @ [0]
                      @ drop (sz + 1) (user_bytes ret))))))"

text \<open>
  The string copies give the memory behind \<open>dst\<close> and the return value. \<^verbatim>\<open>dst++\<close> passes over
  the first byte of the list.
\<close>

fun strlcpy_loop :: "u8 list \<Rightarrow> u8 list \<Rightarrow> nat \<Rightarrow> nat \<Rightarrow> (u8 list \<times> nat) option" where
  "strlcpy_loop dst [] dst_size l = None"
| "strlcpy_loop dst (c # src) dst_size l =
     (if 1 < dst_size \<and> c \<noteq> 0 then
        (case dst of
           [] \<Rightarrow> None
         | _ # dst \<Rightarrow> map_option (\<lambda>(dst, r). (c # dst, r)) (strlcpy_loop dst src (dst_size - 1) (l + 1)))
      else (case strlen (c # src) of
           None \<Rightarrow> None
         | Some n \<Rightarrow>
             if dst_size = 0 then Some (dst, l + n)
             else (case dst of [] \<Rightarrow> None | _ # dst \<Rightarrow> Some (0 # dst, l + n))))"

definition OPENSSL_strlcpy :: "u8 list \<Rightarrow> u8 list \<Rightarrow> nat \<Rightarrow> (u8 list \<times> nat) option" where
  "OPENSSL_strlcpy dst src dst_size = strlcpy_loop dst src dst_size 0"

fun strlcat_loop :: "u8 list \<Rightarrow> u8 list \<Rightarrow> nat \<Rightarrow> nat \<Rightarrow> (u8 list \<times> nat) option" where
  "strlcat_loop [] src dst_size l =
     (if 0 < dst_size then None
      else map_option (\<lambda>(dst, n). (dst, l + n)) (OPENSSL_strlcpy [] src dst_size))"
| "strlcat_loop (d # dst) src dst_size l =
     (if 0 < dst_size \<and> d \<noteq> 0
      then map_option (\<lambda>(dst, r). (d # dst, r)) (strlcat_loop dst src (dst_size - 1) (l + 1))
      else map_option (\<lambda>(dst, n). (dst, l + n)) (OPENSSL_strlcpy (d # dst) src dst_size))"

definition OPENSSL_strlcat :: "u8 list \<Rightarrow> u8 list \<Rightarrow> nat \<Rightarrow> (u8 list \<times> nat) option" where
  "OPENSSL_strlcat dst src dst_size = strlcat_loop dst src dst_size 0"

section \<open>Blocks are as large as asked for\<close>

definition sound_block :: "block \<Rightarrow> bool" where
  "sound_block ptr \<longleftrightarrow> length ptr < 2 ^ 63 \<and> OPENSSL_MALLOC_PREFIX \<le> length ptr
     \<and> unat (block_size ptr) = length (user_bytes ptr)"

lemma length_user_bytes: "length (user_bytes ptr) = length ptr - 8"
  by (simp add: user_bytes_def)

lemma sys_malloc_length: "sys_malloc heap sz = Some ptr \<Longrightarrow> length ptr = unat sz \<and> length ptr < 2 ^ 63"
  by (auto simp: sys_malloc_def split: if_splits)

lemma malloc_sound:
  assumes "unat sz < 2 ^ 64 - 8"
  shows "OPENSSL_malloc heap sz \<noteq> None"
    and "OPENSSL_malloc heap sz = Some (Some ptr) \<Longrightarrow> sound_block ptr \<and> block_size ptr = sz"
proof -
  have n: "unat (sz + 8) = unat sz + 8" using assms by (simp add: unat_word_ariths)
  show "OPENSSL_malloc heap sz \<noteq> None"
    using n by (auto simp: OPENSSL_malloc_def dest: sys_malloc_length split: option.splits)
  assume "OPENSSL_malloc heap sz = Some (Some ptr)"
  then obtain p where p: "sys_malloc heap (sz + 8) = Some p" "ptr = le_bytes 8 sz @ user_bytes p"
    by (auto simp: OPENSSL_malloc_def split: option.splits if_splits)
  with n sys_malloc_length [OF p(1)] show "sound_block ptr \<and> block_size ptr = sz"
    by (auto simp: sound_block_def block_size_def user_bytes_def le_word_le_bytes_full)
qed

lemma free_sound: "sound_block ptr \<Longrightarrow> OPENSSL_free (Some ptr) = Some (Some (replicate (length ptr) 0))"
proof -
  assume s: "sound_block ptr"
  then have "unat (block_size ptr + 8) = length ptr"
    by (subst unat_plus_small) (auto simp: sound_block_def length_user_bytes)
  with s show ?thesis by (simp add: OPENSSL_free_def OPENSSL_cleanse_def sound_block_def)
qed

lemma realloc_sound:
  assumes "unat new_size < 2 ^ 64 - 8" and "sound_block ptr"
  shows "OPENSSL_realloc heap (Some ptr) new_size = Some (None, None) \<or>
    (\<exists>ret. OPENSSL_realloc heap (Some ptr) new_size = Some (Some ret, Some (replicate (length ptr) 0))
       \<and> sound_block ret \<and> block_size ret = new_size
       \<and> (let k = min (length (user_bytes ptr)) (unat new_size) in
          take k (user_bytes ret) = take k (user_bytes ptr)))"
proof -
  define k where "k = unat (if block_size ptr < new_size then block_size ptr else new_size)"
  have k: "k = min (length (user_bytes ptr)) (unat new_size)"
    using assms(2) by (auto simp: k_def sound_block_def word_less_nat_alt min_def)
  consider "OPENSSL_malloc heap new_size = Some None" | ret where "OPENSSL_malloc heap new_size = Some (Some ret)"
    using malloc_sound(1) [OF assms(1), of heap] by (cases "OPENSSL_malloc heap new_size") auto
  then show ?thesis
  proof cases
    case 1
    then show ?thesis by (simp add: OPENSSL_realloc_def)
  next
    case 2
    let ?ret = "take 8 ret @ take k (user_bytes ptr) @ drop k (user_bytes ret)"
    have r: "sound_block ret" "block_size ret = new_size" using malloc_sound(2) [OF assms(1) 2] by auto
    then have n: "8 \<le> length ret" "length (user_bytes ret) = unat new_size" by (auto simp: sound_block_def)
    then have u: "user_bytes ?ret = take k (user_bytes ptr) @ drop k (user_bytes ret)" "block_size ?ret = new_size"
      using r by (auto simp: user_bytes_def block_size_def)
    have "length ?ret = length ret" using k n by (simp add: length_user_bytes)
    with u n r k have "sound_block ?ret" by (simp add: sound_block_def)
    moreover have "OPENSSL_realloc heap (Some ptr) new_size = Some (Some ?ret, Some (replicate (length ptr) 0))"
      using k n by (simp add: OPENSSL_realloc_def 2 Let_def free_sound [OF assms(2)] flip: k_def)
    ultimately show ?thesis using u k by (auto simp: Let_def)
  qed
qed

section \<open>Properties\<close>

text \<open>C21: reallocation keeps and wipes: for a size at least eight below $2^{64}$, OPENSSL_realloc never leaves its
  objects; it fails and touches nothing, or gives a block of the new size that starts with the bytes of the
  old one as far as they fit, and every byte of the old block is zero when \<open>free\<close> gets it.\<close>

theorem realloc_keeps_and_wipes:
  assumes "unat new_size < 2 ^ 64 - 8" and "sound_block ptr"
  shows "OPENSSL_realloc heap (Some ptr) new_size = Some (None, None) \<or>
    (\<exists>ret. OPENSSL_realloc heap (Some ptr) new_size = Some (Some ret, Some (replicate (length ptr) 0))
       \<and> length (user_bytes ret) = unat new_size
       \<and> (\<forall>i. i < length (user_bytes ptr) \<and> i < unat new_size \<longrightarrow> user_bytes ret ! i = user_bytes ptr ! i))"
proof -
  have "(let k = min (length (user_bytes ptr)) (unat new_size) in take k (user_bytes ret) = take k (user_bytes ptr))
      \<Longrightarrow> i < length (user_bytes ptr) \<Longrightarrow> i < unat new_size \<Longrightarrow> user_bytes ret ! i = user_bytes ptr ! i" for ret i
    by (auto simp: Let_def dest!: arg_cong [where f = "\<lambda>xs. xs ! i"])
  then show ?thesis using realloc_sound [OF assms, of heap] unfolding sound_block_def by metis
qed

theorem realloc_keeps_and_wipes_witness:
  "\<exists>ret. OPENSSL_realloc (\<lambda>_. Some (\<lambda>_. 9)) (Some [3, 0, 0, 0, 0, 0, 0, 0, 5, 6, 7]) 2
       = Some (Some ret, Some [0, 0, 0, 0, 0, 0, 0, 0, 0, 0, 0]) \<and> user_bytes ret = [5, 6]"
proof -
  have "sound_block [3, 0, 0, 0, 0, 0, 0, 0, 5, 6, 7]"
    by (simp add: sound_block_def block_size_def user_bytes_def)
  moreover have "OPENSSL_malloc (\<lambda>_. Some (\<lambda>_. 9)) 2 \<noteq> Some None"
    by (simp add: OPENSSL_malloc_def sys_malloc_def)
  then have "OPENSSL_realloc (\<lambda>_. Some (\<lambda>_. 9)) (Some [3, 0, 0, 0, 0, 0, 0, 0, 5, 6, 7]) 2 \<noteq> Some (None, None)"
    by (auto simp: OPENSSL_realloc_def Let_def split: option.split)
  ultimately obtain ret where r: "OPENSSL_realloc (\<lambda>_. Some (\<lambda>_. 9)) (Some [3, 0, 0, 0, 0, 0, 0, 0, 5, 6, 7]) 2
        = Some (Some ret, Some [0, 0, 0, 0, 0, 0, 0, 0, 0, 0, 0])" "length (user_bytes ret) = 2"
      "user_bytes ret ! 0 = 5" "user_bytes ret ! 1 = 6"
    using realloc_keeps_and_wipes [of 2 "[3, 0, 0, 0, 0, 0, 0, 0, 5, 6, 7]" "\<lambda>_. Some (\<lambda>_. 9)"]
    by (auto simp: user_bytes_def [of "[3, 0, 0, 0, 0, 0, 0, 0, 5, 6, 7]"])
  then have "user_bytes ret = [5, 6]" by (auto simp: numeral_2_eq_2 length_Suc_conv)
  with r(1) show ?thesis by blast
qed

text \<open>A request near $2^{64}$ bytes wraps around: OPENSSL_malloc adds its eight-byte prefix with no check, so for
  $2^{64} - 8$ bytes it asks malloc for none, and when malloc gives a pointer for that it writes the size header
  outside the block.\<close>

theorem malloc_size_wraps: "OPENSSL_malloc (\<lambda>_. Some contents) (2 ^ 64 - 8) = None"
  by (simp add: OPENSSL_malloc_def sys_malloc_def)

lemma strlen_C: "0 \<notin> set s \<Longrightarrow> strlen (s @ 0 # r) = Some (length s)"
  by (induction s) auto

lemma strlcpy_loop_exact:
  assumes "0 \<notin> set s" and "n \<le> length dst"
  shows "strlcpy_loop dst (s @ 0 # r) n l =
    Some (if n = 0 then dst else take (n - 1) s @ 0 # drop (Suc (length (take (n - 1) s))) dst, l + length s)"
  using assms
proof (induction s arbitrary: dst n l)
  case Nil
  then show ?case by (cases dst) auto
next
  case (Cons c s)
  show ?case
  proof (cases "1 < n")
    case True
    then obtain d dst' k where "dst = d # dst'" "n = Suc (Suc k)" "Suc k \<le> length dst'"
      using Cons.prems by (cases dst; cases n) (auto simp: gr0_conv_Suc)
    with Cons.prems Cons.IH [of "Suc k" dst' "Suc l"] show ?thesis by auto
  next
    case False
    then consider "n = 0" | "n = 1" by linarith
    then show ?thesis using Cons.prems strlen_C [of "c # s" r] by cases (auto split: list.split)
  qed
qed

text \<open>OPENSSL_strlcpy terminates and truncates: from a terminated source it writes at most \<open>dst_size\<close> bytes,
  the longest prefix of the string that leaves room for the terminator and the terminator, nothing when
  \<open>dst_size\<close> is 0, and returns the length of the whole source.\<close>

theorem strlcpy_exact:
  assumes "0 \<notin> set s" and "n \<le> length dst"
  shows "OPENSSL_strlcpy dst (s @ 0 # r) n =
    Some (if n = 0 then dst else take (n - 1) s @ 0 # drop (Suc (length (take (n - 1) s))) dst, length s)"
  using strlcpy_loop_exact [OF assms, of r 0] by (simp add: OPENSSL_strlcpy_def)

theorem strlcpy_exact_witness:
  "OPENSSL_strlcpy [1, 2, 3, 4] ([65, 66, 67] @ 0 # []) 3 = Some ([65, 66, 0, 4], 3)"
  using strlcpy_exact [of "[65, 66, 67]" 3 "[1, 2, 3, 4]" "[]"] by simp

lemma strlcat_loop_exact:
  assumes "0 \<notin> set d" and "0 \<notin> set s" and "n \<le> length (d @ x)" and "length d < n \<Longrightarrow> \<exists>y. x = 0 # y"
  shows "strlcat_loop (d @ x) (s @ 0 # r) n l =
    Some (if n \<le> length d then d @ x
      else d @ (let k = n - length d - 1 in take k s @ 0 # drop (Suc (length (take k s))) x),
      l + min n (length d) + length s)"
  using assms
proof (induction d arbitrary: n l)
  case Nil
  show ?case
  proof (cases x)
    case (Cons y ys)
    have e: "OPENSSL_strlcpy (y # ys) (s @ 0 # r) n = Some (if n = 0 then x
        else take (n - 1) s @ 0 # drop (Suc (length (take (n - 1) s))) x, length s)"
      using strlcpy_exact [of s n "y # ys" r] Nil Cons by simp
    have "n = 0 \<or> y = 0" using Nil Cons by auto
    then have "strlcat_loop (y # ys) (s @ 0 # r) n l =
        map_option (\<lambda>(dst, n). (dst, l + n)) (OPENSSL_strlcpy (y # ys) (s @ 0 # r) n)" by auto
    then show ?thesis using Cons unfolding e by (simp add: Let_def)
  next
    case Nil': Nil
    with Nil strlcpy_exact [of s 0 "[]" r] show ?thesis by simp
  qed
next
  case (Cons c d)
  show ?case
  proof (cases n)
    case 0
    with Cons.prems strlcpy_exact [of s 0 "c # d @ x" r] show ?thesis by simp
  next
    case (Suc k)
    with Cons.prems Cons.IH [of k "Suc l"] show ?thesis by (auto simp: Let_def)
  qed
qed

text \<open>OPENSSL_strlcat appends inside its buffer: for a terminated string \<open>d\<close> in the first \<open>n\<close> bytes of the
  destination it keeps \<open>d\<close>, appends the longest prefix of the source that leaves room for the terminator,
  terminates the result and returns the length the whole concatenation has; a destination with no
  terminator in those bytes is not changed.\<close>

theorem strlcat_exact:
  assumes "0 \<notin> set d" and "0 \<notin> set s" and "n \<le> length (d @ x)" and "length d < n \<Longrightarrow> \<exists>y. x = 0 # y"
  shows "OPENSSL_strlcat (d @ x) (s @ 0 # r) n =
    Some (if n \<le> length d then d @ x
      else d @ (let k = n - length d - 1 in take k s @ 0 # drop (Suc (length (take k s))) x),
      min n (length d) + length s)"
  using strlcat_loop_exact [OF assms, of r 0] by (simp add: OPENSSL_strlcat_def)

theorem strlcat_exact_witness:
  "OPENSSL_strlcat ([65] @ [0, 9, 9]) ([66, 67, 68] @ 0 # []) 4 = Some ([65, 66, 67, 0], 4)"
  using strlcat_exact [of "[65]" "[66, 67, 68]" 4 "[0, 9, 9]" "[]"] by (simp add: Let_def)

end
