(* ===== verification/Cbb.thy ===== *)
theory Cbb
  imports Mem
begin

text \<open>
  BoringSSL's byte string builder (\<^verbatim>\<open>crypto/bytestring/cbb.c\<close>). A builder is one growing buffer
  and the \<^verbatim>\<open>CBB\<close> objects that share it: the root and, while they are open, the children
  for length-prefixed parts. The \<^verbatim>\<open>CBB\<close> objects are kept under their addresses, so that
  \<open>child\<close> is a pointer; \<open>base\<close> says whether the pointer to the shared buffer is set. \<open>None\<close> is
  undefined behaviour (a byte outside the buffer, a freed or null buffer) or a failed assertion.
  The functions that can grow the buffer take \<open>ra\<close>, the call \<^verbatim>\<open>OPENSSL_realloc(base->buf, n)\<close>.
\<close>

section \<open>State\<close>

record cbb_buffer =
  buf :: "u8 list"
  blen :: u64
  cap :: u64
  can_resize :: bool
  error :: bool

record cbb =
  base :: bool
  child :: "nat option"
  offset :: u64
  pending_len_len :: u8
  pending_is_asn1 :: bool
  is_child :: bool

record builder =
  buffer :: "cbb_buffer option"
  cbbs :: "nat \<Rightarrow> cbb"

type_synonym reallocate = "u8 list \<Rightarrow> u64 \<Rightarrow> u8 list option option"

text \<open>
  \<^verbatim>\<open>base->buf\<close> is given by the bytes the caller of \<^verbatim>\<open>OPENSSL_malloc\<close> sees; the size header in front
  of them is their number. The empty list stands for the null pointer.
\<close>

definition buf_realloc :: "heap \<Rightarrow> reallocate" where
  "buf_realloc heap b new_size =
     map_option (\<lambda>(ret, freed). map_option user_bytes ret)
       (OPENSSL_realloc heap (if b = [] then None else Some (le_bytes 8 (word_of_nat (length b) :: u64) @ b)) new_size)"

definition zero_cbb :: cbb where
  "zero_cbb = \<lparr>base = False, child = None, offset = 0, pending_len_len = 0,
     pending_is_asn1 = False, is_child = False\<rparr>"

definition upd :: "nat \<Rightarrow> (cbb \<Rightarrow> cbb) \<Rightarrow> builder \<Rightarrow> builder" where
  "upd c f s = s\<lparr>cbbs := (cbbs s)(c := f (cbbs s c))\<rparr>"

definition set_error :: "cbb_buffer \<Rightarrow> cbb_buffer" where
  "set_error b = b\<lparr>error := True\<rparr>"

text \<open>Bytes stored at a position of the buffer.\<close>

definition poke :: "nat \<Rightarrow> u8 list \<Rightarrow> cbb_buffer \<Rightarrow> cbb_buffer option" where
  "poke pos bs b =
     (if length (buf b) < pos + length bs then None
      else Some (b\<lparr>buf := take pos (buf b) @ bs @ drop (pos + length bs) (buf b)\<rparr>))"

text \<open>
  A call on \<^verbatim>\<open>cbb->base\<close>. The null check is that of \<^verbatim>\<open>cbb_buffer_reserve\<close>, which all the
  functions called in this way start with.
\<close>

definition with_base :: "nat \<Rightarrow> (cbb_buffer \<Rightarrow> cbb_buffer cres) \<Rightarrow> builder \<Rightarrow> builder cres" where
  "with_base c f s =
     (if \<not> base (cbbs s c) then ret_false s
      else case buffer s of
          None \<Rightarrow> None
        | Some b \<Rightarrow> map_option (\<lambda>(ok, b). (ok, s\<lparr>buffer := Some b\<rparr>)) (f b))"

text \<open>The label \<^verbatim>\<open>err\<close> of \<^verbatim>\<open>CBB_flush\<close>.\<close>

definition fail_with_error :: "builder \<Rightarrow> builder cres" where
  "fail_with_error s = (case buffer s of None \<Rightarrow> None | Some b \<Rightarrow> ret_false (s\<lparr>buffer := Some (set_error b)\<rparr>))"

section \<open>The buffer\<close>

definition cbb_buffer_reserve :: "reallocate \<Rightarrow> u64 \<Rightarrow> cbb_buffer \<Rightarrow> cbb_buffer cres" where
  "cbb_buffer_reserve ra len b =
     (let newlen = blen b + len in
      if newlen < blen b then ret_false (set_error b)
      else if cap b < newlen then
        (let newcap = cap b * 2 in
         if \<not> can_resize b then ret_false (set_error b)
         else let newcap = (if newcap < cap b \<or> newcap < newlen then newlen else newcap) in
           (case ra (buf b) newcap of
              None \<Rightarrow> None
            | Some None \<Rightarrow> ret_false (set_error b)
            | Some (Some newbuf) \<Rightarrow> ret_true (b\<lparr>buf := newbuf, cap := newcap\<rparr>)))
      else ret_true b)"

definition cbb_buffer_add :: "reallocate \<Rightarrow> u64 \<Rightarrow> cbb_buffer \<Rightarrow> cbb_buffer cres" where
  "cbb_buffer_add ra len b =
     and_then (cbb_buffer_reserve ra len b) (\<lambda>b. ret_true (b\<lparr>blen := blen b + len\<rparr>))"

text \<open>The loop that stores a number in \<open>n\<close> bytes, last byte first, and what is left of the number.\<close>

fun store_be :: "nat \<Rightarrow> u64 \<Rightarrow> u8 list \<Rightarrow> u8 list \<times> u64" where
  "store_be 0 v bs = (bs, v)"
| "store_be (Suc i) v bs = store_be i (drop_bit 8 v) (ucast v # bs)"

definition cbb_buffer_add_u :: "reallocate \<Rightarrow> u64 \<Rightarrow> nat \<Rightarrow> cbb_buffer \<Rightarrow> cbb_buffer cres" where
  "cbb_buffer_add_u ra v len_len b =
     (if len_len = 0 then ret_true b
      else let pos = unat (blen b) in
        and_then (cbb_buffer_add ra (word_of_nat len_len) b) (\<lambda>b.
          case store_be len_len v [] of
            (bs, v) \<Rightarrow>
              (case poke pos bs b of
                 None \<Rightarrow> None
               | Some b \<Rightarrow> if v \<noteq> 0 then ret_false (set_error b) else ret_true b)))"

section \<open>Flushing\<close>

text \<open>The number of length bytes, the first one, and the length that the others hold.\<close>

definition asn1_length :: "u64 \<Rightarrow> (nat \<times> u8 \<times> u64) option" where
  "asn1_length len =
     (if 0xfffffffe < len then None
      else if 0xffffff < len then Some (5, 0x84, len)
      else if 0xffff < len then Some (4, 0x83, len)
      else if 0xff < len then Some (3, 0x82, len)
      else if 0x7f < len then Some (2, 0x81, len)
      else Some (1, ucast len, 0))"

text \<open>Making room for a long length: the contents move along by \<open>extra_bytes\<close>.\<close>

definition move_contents :: "reallocate \<Rightarrow> u64 \<Rightarrow> nat \<Rightarrow> u64 \<Rightarrow> cbb_buffer \<Rightarrow> cbb_buffer cres" where
  "move_contents ra child_start extra_bytes len b =
     and_then (cbb_buffer_add ra (word_of_nat extra_bytes) b) (\<lambda>b.
       if length (buf b) < unat child_start + unat len then None
       else map_option (\<lambda>b. (True, b))
         (poke (unat child_start + extra_bytes) (take (unat len) (drop (unat child_start) (buf b))) b))"

text \<open>The length byte of an ASN.1 element, at the child's offset, which then moves past it.\<close>

definition flush_asn1_length :: "reallocate \<Rightarrow> nat \<Rightarrow> u64 \<Rightarrow> u64 \<Rightarrow> builder \<Rightarrow> (u64 \<times> builder) option option" where
  "flush_asn1_length ra ch child_start len s =
     (if pending_len_len (cbbs s ch) \<noteq> 1 then None
      else case asn1_length len of
          None \<Rightarrow> Some None
        | Some (len_len, initial_length_byte, len) \<Rightarrow>
            (case buffer s of
               None \<Rightarrow> None
             | Some b \<Rightarrow>
                 (case (if len_len \<noteq> 1 then move_contents ra child_start (len_len - 1) len b else ret_true b) of
                    None \<Rightarrow> None
                  | Some (False, b) \<Rightarrow> Some None
                  | Some (True, b) \<Rightarrow>
                      (case poke (unat (offset (cbbs s ch))) [initial_length_byte] b of
                         None \<Rightarrow> None
                       | Some b \<Rightarrow> Some (Some (len,
                           upd ch (\<lambda>c. c\<lparr>offset := offset c + 1, pending_len_len := word_of_nat (len_len - 1)\<rparr>)
                             (s\<lparr>buffer := Some b\<rparr>)))))))"

text \<open>The pending bytes of the length, and the end of the child.\<close>

definition flush_length_bytes :: "nat \<Rightarrow> nat \<Rightarrow> u64 \<Rightarrow> builder \<Rightarrow> builder cres" where
  "flush_length_bytes cbb ch len s =
     (case buffer s of
        None \<Rightarrow> None
      | Some b \<Rightarrow>
          (case store_be (unat (pending_len_len (cbbs s ch))) len [] of
             (bs, len) \<Rightarrow>
               (case poke (unat (offset (cbbs s ch))) bs b of
                  None \<Rightarrow> None
                | Some b \<Rightarrow>
                    let s = s\<lparr>buffer := Some b\<rparr> in
                    if len \<noteq> 0 then fail_with_error s
                    else ret_true (upd cbb (\<lambda>c. c\<lparr>child := None\<rparr>) (upd ch (\<lambda>c. c\<lparr>base := False\<rparr>) s)))))"

definition flush_child :: "reallocate \<Rightarrow> nat \<Rightarrow> nat \<Rightarrow> u64 \<Rightarrow> builder \<Rightarrow> builder cres" where
  "flush_child ra cbb ch child_start s =
     (case buffer s of
        None \<Rightarrow> None
      | Some b \<Rightarrow>
          let len = blen b - child_start in
          if pending_is_asn1 (cbbs s ch) then
            (case flush_asn1_length ra ch child_start len s of
               None \<Rightarrow> None
             | Some None \<Rightarrow> fail_with_error s
             | Some (Some (len, s)) \<Rightarrow> flush_length_bytes cbb ch len s)
          else flush_length_bytes cbb ch len s)"

partial_function (option) CBB_flush :: "reallocate \<Rightarrow> nat \<Rightarrow> builder \<Rightarrow> builder cres" where
  "CBB_flush ra cbb s =
     (if \<not> base (cbbs s cbb) then ret_false s
      else case buffer s of
          None \<Rightarrow> None
        | Some b \<Rightarrow>
            if error b then ret_false s
            else case child (cbbs s cbb) of
                None \<Rightarrow> ret_true s
              | Some ch \<Rightarrow>
                  if pending_len_len (cbbs s ch) = 0 then ret_true s
                  else let child_start = offset (cbbs s ch) + ucast (pending_len_len (cbbs s ch)) in
                    Option.bind (CBB_flush ra ch s) (\<lambda>(ok, s).
                      case buffer s of
                        None \<Rightarrow> None
                      | Some b \<Rightarrow>
                          if \<not> ok \<or> child_start < offset (cbbs s ch) \<or> blen b < child_start
                          then fail_with_error s
                          else flush_child ra cbb ch child_start s))"

section \<open>Making and finishing\<close>

definition CBB_zero :: "nat \<Rightarrow> builder \<Rightarrow> builder" where
  "CBB_zero cbb s = upd cbb (\<lambda>_. zero_cbb) s"

text \<open>\<open>32\<close> is the size of \<^verbatim>\<open>struct cbb_buffer_st\<close>.\<close>

definition cbb_init :: "heap \<Rightarrow> nat \<Rightarrow> u8 list \<Rightarrow> u64 \<Rightarrow> builder \<Rightarrow> builder cres" where
  "cbb_init heap cbb b c s =
     (case OPENSSL_malloc heap 32 of
        None \<Rightarrow> None
      | Some None \<Rightarrow> ret_false s
      | Some (Some _) \<Rightarrow>
          ret_true (upd cbb (\<lambda>c. c\<lparr>base := True, is_child := False\<rparr>)
            (s\<lparr>buffer := Some \<lparr>buf = b, blen = 0, cap = c, can_resize = True, error = False\<rparr>\<rparr>)))"

definition CBB_init :: "heap \<Rightarrow> nat \<Rightarrow> u64 \<Rightarrow> builder \<Rightarrow> builder cres" where
  "CBB_init heap cbb initial_capacity s =
     (let s = CBB_zero cbb s in
      case OPENSSL_malloc heap initial_capacity of
        None \<Rightarrow> None
      | Some None \<Rightarrow>
          if 0 < initial_capacity then ret_false s else cbb_init heap cbb [] initial_capacity s
      | Some (Some ptr) \<Rightarrow> cbb_init heap cbb (user_bytes ptr) initial_capacity s)"

definition CBB_init_fixed :: "heap \<Rightarrow> nat \<Rightarrow> u8 list \<Rightarrow> u64 \<Rightarrow> builder \<Rightarrow> builder cres" where
  "CBB_init_fixed heap cbb b len s =
     and_then (cbb_init heap cbb b len (CBB_zero cbb s)) (\<lambda>s.
       ret_true (s\<lparr>buffer := map_option (\<lambda>b. b\<lparr>can_resize := False\<rparr>) (buffer s)\<rparr>))"

definition CBB_cleanup :: "nat \<Rightarrow> builder \<Rightarrow> builder option" where
  "CBB_cleanup cbb s =
     (if is_child (cbbs s cbb) then None
      else Some (upd cbb (\<lambda>c. c\<lparr>base := False\<rparr>) (if base (cbbs s cbb) then s\<lparr>buffer := None\<rparr> else s)))"

text \<open>The result is what \<^verbatim>\<open>*out_data\<close> and \<^verbatim>\<open>*out_len\<close> get, \<open>None\<close> where the function returns 0.\<close>

definition CBB_finish :: "reallocate \<Rightarrow> nat \<Rightarrow> bool \<Rightarrow> bool \<Rightarrow> builder \<Rightarrow> ((u8 list \<times> u64) option \<times> builder) option" where
  "CBB_finish ra cbb out_data_null out_len_null s =
     (if is_child (cbbs s cbb) then Some (None, s)
      else case CBB_flush ra cbb s of
          None \<Rightarrow> None
        | Some (False, s) \<Rightarrow> Some (None, s)
        | Some (True, s) \<Rightarrow>
            (case buffer s of
               None \<Rightarrow> None
             | Some b \<Rightarrow>
                 if can_resize b \<and> (out_data_null \<or> out_len_null) then Some (None, s)
                 else map_option (\<lambda>s. (Some (buf b, blen b), s))
                   (CBB_cleanup cbb (s\<lparr>buffer := Some (b\<lparr>buf := []\<rparr>)\<rparr>))))"

section \<open>Adding\<close>

definition CBB_data :: "nat \<Rightarrow> builder \<Rightarrow> u8 list option" where
  "CBB_data cbb s =
     (if child (cbbs s cbb) \<noteq> None \<or> \<not> base (cbbs s cbb) then None
      else map_option (\<lambda>b. drop (unat (offset (cbbs s cbb) + ucast (pending_len_len (cbbs s cbb)))) (buf b)) (buffer s))"

definition CBB_len :: "nat \<Rightarrow> builder \<Rightarrow> u64 option" where
  "CBB_len cbb s =
     (if child (cbbs s cbb) \<noteq> None \<or> \<not> base (cbbs s cbb) then None
      else case buffer s of
          None \<Rightarrow> None
        | Some b \<Rightarrow>
            if blen b < offset (cbbs s cbb) + ucast (pending_len_len (cbbs s cbb)) then None
            else Some (blen b - offset (cbbs s cbb) - ucast (pending_len_len (cbbs s cbb))))"

text \<open>\<open>base->len\<close> of the shared buffer.\<close>

definition base_len :: "builder \<Rightarrow> u64" where
  "base_len s = (case buffer s of None \<Rightarrow> 0 | Some b \<Rightarrow> blen b)"

definition open_child :: "nat \<Rightarrow> nat \<Rightarrow> u64 \<Rightarrow> u8 \<Rightarrow> bool \<Rightarrow> builder \<Rightarrow> builder" where
  "open_child cbb out_contents off len_len asn1 s =
     (let s = upd out_contents (\<lambda>_. zero_cbb) s;
          s = upd out_contents (\<lambda>c. c\<lparr>base := base (cbbs s cbb), is_child := True\<rparr>) s;
          s = upd cbb (\<lambda>c. c\<lparr>child := Some out_contents\<rparr>) s
      in upd out_contents (\<lambda>c. c\<lparr>offset := off, pending_len_len := len_len, pending_is_asn1 := asn1\<rparr>) s)"

definition cbb_add_length_prefixed :: "reallocate \<Rightarrow> nat \<Rightarrow> nat \<Rightarrow> u8 \<Rightarrow> builder \<Rightarrow> builder cres" where
  "cbb_add_length_prefixed ra cbb out_contents len_len s =
     and_then (CBB_flush ra cbb s) (\<lambda>s.
       let off = base_len s in
       and_then (with_base cbb (\<lambda>b.
           and_then (cbb_buffer_add ra (ucast len_len) b) (\<lambda>b.
             map_option (\<lambda>b. (True, b)) (poke (unat off) (replicate (unat len_len) 0) b))) s) (\<lambda>s.
         ret_true (open_child cbb out_contents off len_len False s)))"

definition CBB_add_u8_length_prefixed :: "reallocate \<Rightarrow> nat \<Rightarrow> nat \<Rightarrow> builder \<Rightarrow> builder cres" where
  "CBB_add_u8_length_prefixed ra cbb out_contents s = cbb_add_length_prefixed ra cbb out_contents 1 s"

definition CBB_add_u16_length_prefixed :: "reallocate \<Rightarrow> nat \<Rightarrow> nat \<Rightarrow> builder \<Rightarrow> builder cres" where
  "CBB_add_u16_length_prefixed ra cbb out_contents s = cbb_add_length_prefixed ra cbb out_contents 2 s"

definition CBB_add_u24_length_prefixed :: "reallocate \<Rightarrow> nat \<Rightarrow> nat \<Rightarrow> builder \<Rightarrow> builder cres" where
  "CBB_add_u24_length_prefixed ra cbb out_contents s = cbb_add_length_prefixed ra cbb out_contents 3 s"

text \<open>A write of \<open>n\<close> bytes through the pointer that \<^verbatim>\<open>cbb_buffer_add\<close> gives.\<close>

definition CBB_add_bytes :: "reallocate \<Rightarrow> nat \<Rightarrow> u8 list \<Rightarrow> builder \<Rightarrow> builder cres" where
  "CBB_add_bytes ra cbb data s =
     and_then (CBB_flush ra cbb s) (with_base cbb (\<lambda>b.
       let pos = unat (blen b) in
       and_then (cbb_buffer_add ra (word_of_nat (length data)) b) (\<lambda>b.
         map_option (\<lambda>b. (True, b)) (poke pos data b))))"

text \<open>\<^verbatim>\<open>*out_data\<close> points to the end of the buffer as it was; the caller writes there.\<close>

definition CBB_add_space :: "reallocate \<Rightarrow> nat \<Rightarrow> u64 \<Rightarrow> builder \<Rightarrow> builder cres" where
  "CBB_add_space ra cbb len s =
     and_then (CBB_flush ra cbb s) (with_base cbb (cbb_buffer_add ra len))"

definition CBB_reserve :: "reallocate \<Rightarrow> nat \<Rightarrow> u64 \<Rightarrow> builder \<Rightarrow> builder cres" where
  "CBB_reserve ra cbb len s =
     and_then (CBB_flush ra cbb s) (with_base cbb (cbb_buffer_reserve ra len))"

definition CBB_did_write :: "nat \<Rightarrow> u64 \<Rightarrow> builder \<Rightarrow> builder cres" where
  "CBB_did_write cbb len s =
     (if \<not> base (cbbs s cbb) then None
      else case buffer s of
          None \<Rightarrow> None
        | Some b \<Rightarrow>
            let newlen = blen b + len in
            if child (cbbs s cbb) \<noteq> None \<or> newlen < blen b \<or> cap b < newlen then ret_false s
            else ret_true (s\<lparr>buffer := Some (b\<lparr>blen := newlen\<rparr>)\<rparr>))"

definition add_u :: "reallocate \<Rightarrow> nat \<Rightarrow> u64 \<Rightarrow> nat \<Rightarrow> builder \<Rightarrow> builder cres" where
  "add_u ra cbb v len_len s =
     and_then (CBB_flush ra cbb s) (with_base cbb (cbb_buffer_add_u ra v len_len))"

definition CBB_add_u8 :: "reallocate \<Rightarrow> nat \<Rightarrow> u8 \<Rightarrow> builder \<Rightarrow> builder cres" where
  "CBB_add_u8 ra cbb v s = add_u ra cbb (ucast v) 1 s"

definition CBB_add_u16 :: "reallocate \<Rightarrow> nat \<Rightarrow> u16 \<Rightarrow> builder \<Rightarrow> builder cres" where
  "CBB_add_u16 ra cbb v s = add_u ra cbb (ucast v) 2 s"

definition CBB_add_u16le :: "reallocate \<Rightarrow> nat \<Rightarrow> u16 \<Rightarrow> builder \<Rightarrow> builder cres" where
  "CBB_add_u16le ra cbb v s = CBB_add_u16 ra cbb (CRYPTO_bswap2 v) s"

definition CBB_add_u24 :: "reallocate \<Rightarrow> nat \<Rightarrow> u32 \<Rightarrow> builder \<Rightarrow> builder cres" where
  "CBB_add_u24 ra cbb v s = add_u ra cbb (ucast v) 3 s"

definition CBB_add_u32 :: "reallocate \<Rightarrow> nat \<Rightarrow> u32 \<Rightarrow> builder \<Rightarrow> builder cres" where
  "CBB_add_u32 ra cbb v s = add_u ra cbb (ucast v) 4 s"

definition CBB_add_u32le :: "reallocate \<Rightarrow> nat \<Rightarrow> u32 \<Rightarrow> builder \<Rightarrow> builder cres" where
  "CBB_add_u32le ra cbb v s = CBB_add_u32 ra cbb (CRYPTO_bswap4 v) s"

definition CBB_add_u64 :: "reallocate \<Rightarrow> nat \<Rightarrow> u64 \<Rightarrow> builder \<Rightarrow> builder cres" where
  "CBB_add_u64 ra cbb v s = add_u ra cbb v 8 s"

definition CBB_add_u64le :: "reallocate \<Rightarrow> nat \<Rightarrow> u64 \<Rightarrow> builder \<Rightarrow> builder cres" where
  "CBB_add_u64le ra cbb v s = CBB_add_u64 ra cbb (CRYPTO_bswap8 v) s"

definition CBB_discard_child :: "nat \<Rightarrow> builder \<Rightarrow> builder option" where
  "CBB_discard_child cbb s =
     (case child (cbbs s cbb) of
        None \<Rightarrow> Some s
      | Some ch \<Rightarrow>
          if \<not> base (cbbs s cbb) then None
          else (case buffer s of
              None \<Rightarrow> None
            | Some b \<Rightarrow>
                Some (upd cbb (\<lambda>c. c\<lparr>child := None\<rparr>) (upd ch (\<lambda>c. c\<lparr>base := False\<rparr>)
                  (s\<lparr>buffer := Some (b\<lparr>blen := offset (cbbs s ch)\<rparr>)\<rparr>)))))"

end
