(* ===== verification/Der.thy ===== *)
theory Der
  imports Cbs
begin

text \<open>
  The abstract syntax of DER that the byte string reader and builder implement (ITU-T X.690,
  with tag numbers below $2^{29}$ and lengths below $2^{32}$): base-128 numbers, identifier
  octets, length octets, elements and minimal integers, each as the list of its bytes.
\<close>

section \<open>Big-endian words\<close>

lemma be_word_snoc: "be_word (xs @ [b]) = push_bit 8 (be_word xs) OR ucast b"
  by (simp add: be_word_def)

lemma be_word_le_word: "be_word xs = le_word (rev xs)"
  by (induction xs rule: rev_induct) (simp_all add: be_word_snoc or.commute, simp add: be_word_def)

definition be_bytes :: "nat \<Rightarrow> 'a::len word \<Rightarrow> u8 list" where
  "be_bytes n w = rev (le_bytes n w)"

lemma length_be_bytes [simp]: "length (be_bytes n w) = n"
  by (simp add: be_bytes_def)

lemma be_word_be_bytes:
  "LENGTH('a) \<le> 8 * n \<Longrightarrow> be_word (be_bytes n w) = (w :: 'a::len word)"
  by (simp add: be_word_le_word be_bytes_def le_word_le_bytes_full)

lemma le_word_le_bytes_small:
  assumes "unat (w :: 'a::len word) < 2 ^ (8 * n)"
  shows "le_word (le_bytes n w) = w"
proof -
  have "take_bit (8 * n) w = w"
    using assms by (simp add: word_unat_eq_iff unsigned_take_bit_eq take_bit_nat_eq_self)
  then show ?thesis by (simp add: le_word_le_bytes take_bit_eq_mask)
qed

lemma be_word_be_bytes_small:
  "unat w < 2 ^ (8 * n) \<Longrightarrow> be_word (be_bytes n w) = (w :: 'a::len word)"
  by (simp add: be_word_le_word be_bytes_def le_word_le_bytes_small)

lemma be_bytes_be_word:
  assumes "length bs = n" and "8 * n \<le> LENGTH('a::len)"
  shows "be_bytes n (be_word bs :: 'a word) = bs"
  using le_bytes_le_word [of "rev bs" n, where 'a = 'a] assms by (simp add: be_bytes_def be_word_le_word)

lemma le_word_less:
  "8 * length bs < LENGTH('a) \<Longrightarrow> unat (le_word bs :: 'a::len word) < 2 ^ (8 * length bs)"
proof -
  assume a: "8 * length bs < LENGTH('a)"
  have "take_bit (8 * length bs) (le_word bs :: 'a word) = le_word bs"
  proof (rule bit_word_eqI)
    fix k
    have "k div 8 < length bs \<longleftrightarrow> k < 8 * length bs" by (simp add: div_less_iff_less_mult mult.commute)
    then show "bit (take_bit (8 * length bs) (le_word bs :: 'a word)) k \<longleftrightarrow> bit (le_word bs :: 'a word) k"
      by (auto simp: bit_take_bit_iff bit_le_word)
  qed
  then have "take_bit (8 * length bs) (unat (le_word bs :: 'a word)) = unat (le_word bs :: 'a word)"
    by (metis unsigned_take_bit_eq)
  then show ?thesis by (metis take_bit_nat_less_exp)
qed

lemma be_word_less:
  "8 * length bs < LENGTH('a) \<Longrightarrow> unat (be_word bs :: 'a::len word) < 2 ^ (8 * length bs)"
  using le_word_less [of "rev bs", where 'a = 'a] by (simp add: be_word_le_word)

section \<open>Base-128 numbers\<close>

fun b128_high :: "nat \<Rightarrow> u8 list" where
  "b128_high n = (if n = 0 then [] else b128_high (n div 128) @ [word_of_nat (n mod 128) OR 0x80])"

declare b128_high.simps [simp del]

definition b128_bytes :: "nat \<Rightarrow> u8 list" where
  "b128_bytes n = b128_high (n div 128) @ [word_of_nat (n mod 128)]"

lemma b128_high_0 [simp]: "b128_high 0 = []"
  by (simp add: b128_high.simps)

lemma mask7_mod: "unat (b AND 0x7f :: u8) = unat b mod 128"
proof -
  have "b AND 0x7f = take_bit 7 b" by (simp add: take_bit_eq_mask mask_eq_exp_minus_1)
  then have "unat (b AND 0x7f) = take_bit 7 (unat b)" by (simp only: unsigned_take_bit_eq)
  then show ?thesis using take_bit_eq_mod [of 7 "unat b"] by simp
qed

lemma bit_128: "bit (0x80 :: u8) n \<longleftrightarrow> n = 7"
  using bit_0x80 [of n] bit_imp_le_length [of "0x80 :: u8" n] by auto

lemma msb_byte: "b AND 0x80 = (0 :: u8) \<longleftrightarrow> unat b < 128"
proof -
  have "b AND 0x80 = 0 \<longleftrightarrow> \<not> bit b 7"
  proof
    assume "b AND 0x80 = 0"
    then have "\<not> bit (b AND 0x80) 7" by simp
    then show "\<not> bit b 7" using bit_128 [of 7] unfolding bit_and_iff by simp
  next
    assume "\<not> bit b 7"
    then show "b AND 0x80 = 0"
      by (intro bit_word_eqI) (auto simp only: bit_128 bit_and_iff bit_0_eq bot_apply bot_bool_def)
  qed
  also have "bit b 7 = bit (unat b) 7" by (simp add: bit_unsigned_iff)
  also have "\<dots> \<longleftrightarrow> odd (unat b div 128)" by (simp add: bit_iff_odd)
  also have "unat b div 128 = 0 \<or> unat b div 128 = 1" using unat_bound [of b] by auto
  then have "odd (unat b div 128) \<longleftrightarrow> \<not> unat b < 128" by (auto simp: div_eq_0_iff)
  finally show ?thesis by simp
qed

lemma or_128: "n < 128 \<Longrightarrow> unat (word_of_nat n OR 0x80 :: u8) = n + 128"
proof -
  assume n: "n < 128"
  have "\<not> bit n i \<or> \<not> bit (128 :: nat) i" for i
    using n bit_exp_iff [of 7 i, where 'a = nat] by (auto simp: bit_iff_odd)
  then have "n OR 128 = n + 128" by (simp add: disjunctive_add)
  then show ?thesis using n by (simp add: unsigned_or_eq unat_word_of_nat_small)
qed

text \<open>One step of the loop, on numbers.\<close>

lemma base128_step:
  assumes "unat v < 2 ^ 57"
  shows "unat (push_bit 7 v OR ucast (b AND 0x7f) :: u64) = unat v * 128 + unat (b :: u8) mod 128"
proof -
  have "\<not> bit (push_bit 7 v) i \<or> \<not> bit (ucast (b AND 0x7f) :: u64) i" for i
  proof -
    have "b AND 0x7f = take_bit 7 b" by (simp add: take_bit_eq_mask mask_eq_exp_minus_1)
    then show ?thesis by (auto simp: bit_push_bit_iff bit_ucast_iff bit_take_bit_iff)
  qed
  then have "push_bit 7 v OR ucast (b AND 0x7f) = push_bit 7 v + ucast (b AND 0x7f)"
    by (simp add: disjunctive_add)
  moreover have "unat (push_bit 7 v) = unat v * 128"
    using assms by (simp add: push_bit_eq_mult unat_word_ariths)
  moreover have "unat (ucast (b AND 0x7f) :: u64) = unat b mod 128"
    by (simp add: unat_ucast_up mask7_mod)
  ultimately show ?thesis using assms by (simp add: unat_plus_small)
qed

lemma drop_57: "drop_bit 57 v = (0 :: u64) \<longleftrightarrow> unat v < 2 ^ 57"
  by (simp add: word_unat_eq_iff unat_drop_bit div_eq_0_iff)

lemma base128_loop_simps:
  "base128_loop v (b # cbs) =
     (if 2 ^ 57 \<le> unat v \<or> v = 0 \<and> b = 0x80 then (None, cbs)
      else if unat b < 128 then (Some (word_of_nat (unat v * 128 + unat b)), cbs)
      else base128_loop (word_of_nat (unat v * 128 + unat b mod 128)) cbs)"
proof -
  have "push_bit 7 v OR ucast (b AND 0x7f) = word_of_nat (unat v * 128 + unat b mod 128)" if "unat v < 2 ^ 57"
    using arg_cong [OF base128_step [OF that, of b], of "word_of_nat :: nat \<Rightarrow> u64"] by simp
  then show ?thesis by (auto simp: drop_57 msb_byte Let_def not_le not_less)
qed

declare base128_loop.simps(2) [simp del]

lemma base128_loop_high:
  "n < 2 ^ 64 \<Longrightarrow> base128_loop 0 (b128_high n @ rest) = base128_loop (word_of_nat n) rest"
proof (induction n arbitrary: rest rule: b128_high.induct)
  case (1 n)
  show ?case
  proof (cases "n = 0")
    case False
    let ?b = "word_of_nat (n mod 128) OR 0x80 :: u8"
    have v: "unat (word_of_nat (n div 128) :: u64) = n div 128"
      using 1(2) by (intro unat_word_of_nat_small) simp
    have b: "unat ?b = n mod 128 + 128" by (rule or_128) simp
    have "\<not> (n div 128 = 0 \<and> ?b = 0x80)"
    proof
      assume a: "n div 128 = 0 \<and> ?b = 0x80"
      then have "unat ?b = 128" by simp
      with b a False show False by (simp add: div_eq_0_iff)
    qed
    then have "\<not> ((word_of_nat (n div 128) :: u64) = 0 \<and> ?b = 0x80)"
      using v by (metis unat_0)
    moreover have "n div 128 < 2 ^ 57" using 1(2) by (simp add: div_less_iff_less_mult)
    ultimately show ?thesis
      using False 1(1) [OF False, of "?b # rest"] 1(2) v b
      by (auto simp: b128_high.simps [of n] base128_loop_simps)
  qed simp
qed

lemma base128_loop_bytes:
  assumes "n < 2 ^ 64"
  shows "base128_loop 0 (b128_bytes n @ rest) = (Some (word_of_nat n), rest)"
proof -
  let ?b = "word_of_nat (n mod 128) :: u8"
  have v: "unat (word_of_nat (n div 128) :: u64) = n div 128"
    using assms by (intro unat_word_of_nat_small) simp
  have b: "unat ?b = n mod 128" by (rule unat_word_of_nat_small) (simp add: less_trans [OF mod_less_divisor])
  have "?b \<noteq> 0x80"
  proof
    assume "?b = 0x80"
    then have "unat ?b = 128" by simp
    with b show False using mod_less_divisor [of 128 n] by simp
  qed
  moreover have "n div 128 < 2 ^ 57" using assms by (simp add: div_less_iff_less_mult)
  ultimately show ?thesis
    using base128_loop_high [of "n div 128" "?b # rest"] assms v b by (auto simp: b128_bytes_def base128_loop_simps)
qed

lemma base128_loop_canonical:
  assumes "base128_loop v cbs = (Some w, rest)"
  shows "\<exists>enc. cbs = enc @ rest \<and> b128_high (unat v) @ enc = b128_bytes (unat w)"
  using assms
proof (induction cbs arbitrary: v)
  case (Cons b cbs)
  from Cons.prems have v: "unat v < 2 ^ 57" and nz: "\<not> (v = 0 \<and> b = 0x80)"
    by (auto simp: base128_loop_simps split: if_splits)
  show ?case
  proof (cases "unat b < 128")
    case True
    with Cons.prems v nz have w: "w = word_of_nat (unat v * 128 + unat b)" "rest = cbs"
      by (auto simp: base128_loop_simps split: if_splits)
    have "unat w = unat v * 128 + unat b"
      unfolding w by (rule unat_word_of_nat_small) (use v True in simp)
    with True w(2) show ?thesis by (intro exI [of _ "[b]"]) (simp add: b128_bytes_def)
  next
    case False
    let ?v = "unat v * 128 + unat b mod 128"
    have u: "unat (word_of_nat ?v :: u64) = ?v"
      using v mod_less_divisor [of 128 "unat b"] by (intro unat_word_of_nat_small) (simp del: mod_less_divisor)
    from Cons.prems v nz False have "base128_loop (word_of_nat ?v) cbs = (Some w, rest)"
      by (auto simp: base128_loop_simps split: if_splits)
    from Cons.IH [OF this] obtain enc where enc: "cbs = enc @ rest" "b128_high ?v @ enc = b128_bytes (unat w)"
      unfolding u by blast
    have b: "word_of_nat (unat b mod 128) OR 0x80 = b"
    proof -
      have "unat (word_of_nat (unat b mod 128) OR 0x80 :: u8) = unat b mod 128 + 128" by (rule or_128) simp
      also have "\<dots> = unat b" using False unat_bound [of b] by (simp add: mod_if, arith)
      finally show ?thesis by (simp add: word_unat_eq_iff)
    qed
    have "?v \<noteq> 0"
    proof
      assume "?v = 0"
      then have "v = 0" "unat b mod 128 = 0" by (simp_all add: unat_eq_zero)
      with b nz show False by simp
    qed
    then have "b128_high ?v = b128_high (unat v) @ [b]"
      by (subst b128_high.simps) (simp add: b)
    with enc show ?thesis by (intro exI [of _ "b # enc"]) simp
  qed
qed simp

lemma parse_base128_iff:
  "parse_base128_integer cbs = (Some v, rest) \<longleftrightarrow> cbs = b128_bytes (unat v) @ rest"
  using base128_loop_bytes [of "unat v" rest] base128_loop_canonical [of 0 cbs v rest] unat_bound [of v]
  by (auto simp: parse_base128_integer_def)

lemma length_b128_high: "n < 128 ^ k \<Longrightarrow> length (b128_high n) \<le> k"
proof (induction k arbitrary: n)
  case (Suc k)
  have "n div 128 < 128 ^ k" using Suc.prems by (simp add: div_less_iff_less_mult)
  from Suc.IH [OF this] show ?case by (subst b128_high.simps) simp
qed simp

lemma length_b128_bytes: "n < 128 ^ Suc k \<Longrightarrow> length (b128_bytes n) \<le> Suc k"
  using length_b128_high [of "n div 128" k] by (simp add: b128_bytes_def div_less_iff_less_mult)

lemma b128_bytes_nonempty [simp]: "b128_bytes n \<noteq> []"
  by (simp add: b128_bytes_def)

section \<open>Identifier octets\<close>

definition der_tag :: "u32 \<Rightarrow> u8 list" where
  "der_tag t =
     (let number = t AND 0x1FFFFFFF; top = ucast (drop_bit 24 t) AND 0xe0 in
      if number < 0x1f then [top OR ucast number] else (top OR 0x1f) # b128_bytes (unat number))"

lemma e0_shift: "(0xe0 :: u32) = push_bit 5 (mask 3)" "(0xe0 :: u8) = push_bit 5 (mask 3)"
    "(0x1FFFFFFF :: u32) = mask 29" "(0x1f :: u8) = mask 5" "(0x1f :: u32) = mask 5"
  by code_simp+

lemma tag_bits:
  "bit (0xe0 :: u32) n \<longleftrightarrow> 5 \<le> n \<and> n < 8" "bit (0xe0 :: u8) n \<longleftrightarrow> 5 \<le> n \<and> n < 8"
  "bit (0x1FFFFFFF :: u32) n \<longleftrightarrow> n < 29" "bit (0x1f :: u8) n \<longleftrightarrow> n < 5" "bit (0x1f :: u32) n \<longleftrightarrow> n < 5"
  unfolding e0_shift bit_push_bit_iff bit_mask_iff by auto

lemma small_bits:
  assumes "unat (v :: 'a::len word) < 2 ^ n" and "bit v i"
  shows "i < n"
proof (rule ccontr)
  assume "\<not> i < n"
  then have "unat v < 2 ^ i" using assms(1) by (meson less_le_trans not_less one_le_numeral power_increasing)
  then have "unat v div 2 ^ i = 0" by simp
  then have "\<not> bit (unat v) i" by (simp add: bit_iff_odd)
  with assms(2) show False by (simp add: bit_unsigned_iff)
qed

lemma tag_split:
  assumes "unat v < 2 ^ 29"
  shows "(push_bit 24 (ucast (b :: u8) AND 0xe0) OR v) AND 0x1FFFFFFF = (v :: u32)"
    and "ucast (drop_bit 24 (push_bit 24 (ucast b AND 0xe0) OR v)) AND 0xe0 = b AND 0xe0"
  by (rule bit_word_eqI;
      auto simp only: bit_and_iff bit_or_iff bit_push_bit_iff bit_drop_bit_eq bit_ucast_iff tag_bits o_apply;
      auto dest: small_bits [OF assms] bit_imp_le_length)+

lemma tag_join:
  "push_bit 24 (ucast (drop_bit 24 t) AND 0xe0) OR (t AND 0x1FFFFFFF) = (t :: u32)"
  by (rule bit_word_eqI;
      auto simp only: bit_and_iff bit_or_iff bit_push_bit_iff bit_drop_bit_eq bit_ucast_iff tag_bits o_apply; simp)

lemma low_high_byte:
  fixes b c :: u8
  shows "(b AND 0xe0) OR (b AND 0x1f) = b"
    and "c AND NOT 0x1f = 0 \<Longrightarrow> ((b AND 0xe0) OR c) AND 0xe0 = b AND 0xe0"
    and "c AND NOT 0x1f = 0 \<Longrightarrow> ((b AND 0xe0) OR c) AND 0x1f = c"
proof -
  show "(b AND 0xe0) OR (b AND 0x1f) = b"
    by (rule bit_word_eqI) (auto simp only: bit_and_iff bit_or_iff tag_bits, simp)
  have c: "bit c n \<Longrightarrow> n < 5" if "c AND NOT 0x1f = 0" for n
  proof (rule ccontr)
    assume "bit c n" "\<not> n < 5"
    then have "bit (c AND NOT 0x1f) n"
      using bit_imp_le_length [of c n] by (auto simp only: bit_and_iff bit_not_iff tag_bits) simp
    with that show False by simp
  qed
  show "((b AND 0xe0) OR c) AND 0xe0 = b AND 0xe0" if "c AND NOT 0x1f = 0"
    by (rule bit_word_eqI) (auto simp only: bit_and_iff bit_or_iff tag_bits, use c [OF that] in force)
  show "((b AND 0xe0) OR c) AND 0x1f = c" if "c AND NOT 0x1f = 0"
    by (rule bit_word_eqI) (auto simp only: bit_and_iff bit_or_iff tag_bits, use c [OF that] in force)
qed

lemma CBS_get_u8_simps [simp]:
  "CBS_get_u8 [] = (None, [])" "CBS_get_u8 (b # cbs) = (Some b, cbs)"
  by (simp_all add: CBS_get_u8_def cbs_get_def)

lemma byte_masks:
  fixes b :: u8
  shows "(ucast b AND 0x1f :: u32) = ucast (b AND 0x1f)"
    and "unat (b AND 0x1f) \<le> 31"
    and "b AND 0x1f AND NOT 0x1f = 0"
    and "ucast (b AND 0x1f) = (0x1f :: u32) \<longleftrightarrow> b AND 0x1f = 0x1f"
proof -
  show "(ucast b AND 0x1f :: u32) = ucast (b AND 0x1f)"
    by (rule bit_word_eqI) (auto simp only: bit_and_iff bit_ucast_iff tag_bits)
  have "b AND 0x1f = take_bit 5 b" unfolding e0_shift take_bit_eq_mask by simp
  then have eq: "unat (b AND 0x1f) = take_bit 5 (unat b)" by (simp only: unsigned_take_bit_eq)
  show "unat (b AND 0x1f) \<le> 31" unfolding eq using take_bit_nat_less_exp [of 5 "unat b"] by simp
  show "b AND 0x1f AND NOT 0x1f = 0"
    by (rule bit_word_eqI) (auto simp only: bit_and_iff bit_not_iff tag_bits bit_0_eq bot_apply bot_bool_def)
  have "unat (ucast (b AND 0x1f) :: u32) = unat (b AND 0x1f)" by (rule unat_ucast_up) simp
  then show "ucast (b AND 0x1f) = (0x1f :: u32) \<longleftrightarrow> b AND 0x1f = 0x1f" by (simp add: word_unat_eq_iff)
qed

lemma parse_tag_Cons:
  "parse_asn1_tag (b # cbs) =
     (let tag = push_bit 24 (ucast b AND 0xe0) in
      if b AND 0x1f = 0x1f then
        (case parse_base128_integer cbs of
           (None, cbs) \<Rightarrow> (None, cbs)
         | (Some v, cbs) \<Rightarrow> if 0x1FFFFFFF < unat v \<or> unat v < 31 then (None, cbs) else (Some (tag OR ucast v), cbs))
      else (Some (tag OR ucast (b AND 0x1f)), cbs))"
proof -
  have "ucast (0x1FFFFFFF :: u32) = (0x1FFFFFFF :: u64)" by code_simp
  then have v: "(ucast (0x1FFFFFFF :: u32) < v) = (0x1FFFFFFF < unat v)" "(v < 0x1f) = (unat v < 31)" for v :: u64
    by (simp_all add: word_less_nat_alt)
  show ?thesis
    unfolding parse_asn1_tag_def Let_def CBS_get_u8_simps prod.case option.case byte_masks(1,4) v ..
qed

lemma parse_tag_der_tag: "parse_asn1_tag (der_tag t @ rest) = (Some t, rest)"
proof -
  define number where "number = t AND 0x1FFFFFFF"
  define top :: u8 where "top = ucast (drop_bit 24 t) AND 0xe0"
  have join: "push_bit 24 (ucast (drop_bit 24 t) AND 0xe0) OR number = t"
    unfolding number_def by (rule tag_join)
  have "number = take_bit 29 t" unfolding number_def e0_shift take_bit_eq_mask by simp
  then have "unat number = take_bit 29 (unat t)" by (simp only: unsigned_take_bit_eq)
  then have n: "unat number < 2 ^ 29" using take_bit_nat_less_exp [of 29 "unat t"] by simp
  have e0: "(ucast (top OR c) AND 0xe0 :: u32) = ucast (drop_bit 24 t) AND 0xe0" if "c AND NOT 0x1f = 0" for c
  proof -
    have "(ucast (top OR c) AND 0xe0 :: u32) = ucast ((top OR c) AND 0xe0)"
      by (rule bit_word_eqI) (auto simp only: bit_and_iff bit_ucast_iff tag_bits; simp)
    also have "(top OR c) AND 0xe0 = top"
      unfolding top_def by (simp only: low_high_byte(2) [OF that])
    also have "(ucast top :: u32) = ucast (drop_bit 24 t) AND 0xe0"
      unfolding top_def by (rule bit_word_eqI) (auto simp only: bit_and_iff bit_ucast_iff tag_bits; simp)
    finally show ?thesis .
  qed
  show ?thesis
  proof (cases "number < 0x1f")
    case True
    define c :: u8 where "c = ucast number"
    have "unat number < 31" using True by (simp add: word_less_nat_alt)
    then have c: "unat c = unat number" unfolding c_def by (simp add: unsigned_ucast_eq take_bit_nat_eq_self)
    with \<open>unat number < 31\<close> have c5: "unat c < 2 ^ 5" by simp
    then have low: "c AND NOT 0x1f = 0"
      by (intro bit_word_eqI) (auto simp only: bit_and_iff bit_not_iff tag_bits bit_0_eq bot_apply bot_bool_def
          dest: small_bits [OF c5]; simp)
    have "c \<noteq> 0x1f" using c \<open>unat number < 31\<close> by auto
    moreover have "(ucast c :: u32) = number" using c by (simp add: word_unat_eq_iff unat_ucast_up)
    ultimately have "parse_asn1_tag ((top OR c) # rest) = (Some t, rest)"
      unfolding parse_tag_Cons Let_def e0 [OF low]
      unfolding top_def low_high_byte(3) [OF low] using join by simp
    with True show ?thesis unfolding der_tag_def Let_def number_def [symmetric] top_def [symmetric] c_def [symmetric]
      by simp
  next
    case False
    have low: "(0x1f :: u8) AND NOT 0x1f = 0" by code_simp
    have "unat (ucast number :: u64) = unat number" by simp
    then have p: "parse_base128_integer (b128_bytes (unat number) @ rest) = (Some (ucast number), rest)"
      by (simp add: parse_base128_iff)
    have "\<not> unat number < 31" using False by (simp add: word_less_nat_alt)
    then have "parse_asn1_tag ((top OR 0x1f) # b128_bytes (unat number) @ rest) =
        (Some t, rest)"
      unfolding parse_tag_Cons Let_def e0 [OF low] p
      unfolding top_def low_high_byte(3) [OF low] using n join by simp
    with False show ?thesis unfolding der_tag_def Let_def number_def [symmetric] top_def [symmetric]
      by simp
  qed
qed

lemma parse_tag_canonical:
  assumes "parse_asn1_tag cbs = (Some t, rest)"
  shows "cbs = der_tag t @ rest"
proof (cases cbs)
  case Nil
  with assms show ?thesis by (simp add: parse_asn1_tag_def)
next
  case (Cons b cbs')
  note p = assms [unfolded Cons parse_tag_Cons Let_def]
  show ?thesis
  proof (cases "b AND 0x1f = 0x1f")
    case True
    with p obtain v where v: "parse_base128_integer cbs' = (Some v, rest)" "unat v \<le> 0x1FFFFFFF" "\<not> unat v < 31"
      and t: "t = push_bit 24 (ucast b AND 0xe0) OR ucast v"
      by (auto split: prod.splits option.splits if_splits)
    have u: "unat (ucast v :: u32) = unat v" using v(2) by (simp add: unsigned_ucast_eq take_bit_nat_eq_self)
    then have "unat (ucast v :: u32) < 2 ^ 29" using v(2) by simp
    note split = tag_split [OF this, of b, folded t]
    have "(b AND 0xe0) OR 0x1f = b" using low_high_byte(1) [of b] True by simp
    with v split u Cons show ?thesis
      by (simp add: der_tag_def Let_def parse_base128_iff word_less_nat_alt)
  next
    case False
    let ?v = "ucast (b AND 0x1f) :: u32"
    from p False have t: "t = push_bit 24 (ucast b AND 0xe0) OR ?v" "rest = cbs'" by auto
    have u: "unat ?v = unat (b AND 0x1f)" by (rule unat_ucast_up) simp
    then have "unat ?v < 2 ^ 29" using byte_masks(2) [of b] by simp
    note split = tag_split [OF this, of b, folded t]
    have "unat (b AND 0x1f) \<noteq> 31" using False by (auto simp: word_unat_eq_iff)
    then have lt: "?v < 0x1f" using u byte_masks(2) [of b] by (simp add: word_less_nat_alt)
    have "ucast ?v = b AND 0x1f" 
      by (rule bit_word_eqI) (auto simp only: bit_and_iff bit_ucast_iff tag_bits; simp)
    with split lt low_high_byte(1) [of b] Cons t(2) show ?thesis by (simp add: der_tag_def Let_def)
  qed
qed

lemma parse_tag_iff: "parse_asn1_tag cbs = (Some t, rest) \<longleftrightarrow> cbs = der_tag t @ rest"
  using parse_tag_canonical parse_tag_der_tag by blast

end
