(* ===== verification/Der_Element.thy ===== *)
theory Der_Element
  imports Der
begin

text \<open>
  DER elements: length octets, whole elements, and the parsers of elements that \<^verbatim>\<open>cbs.c\<close> builds on
  them. The main lemmas are equivalences: a parser succeeds with a result exactly when its input
  starts with the one DER encoding of that result.
\<close>

section \<open>Length octets\<close>

definition length_size :: "nat \<Rightarrow> nat" where
  "length_size n = (if n < 2 ^ 8 then 1 else if n < 2 ^ 16 then 2 else if n < 2 ^ 24 then 3 else 4)"

definition der_length :: "nat \<Rightarrow> u8 list" where
  "der_length n =
     (if n < 128 then [word_of_nat n]
      else (word_of_nat (length_size n) OR 0x80) # be_bytes (length_size n) (word_of_nat n :: u64))"

text \<open>The part of the element parser that reads the length octets of DER.\<close>

definition read_length :: "cbs \<Rightarrow> (nat \<times> cbs) option" where
  "read_length header =
     (case header of
        [] \<Rightarrow> None
      | b # h \<Rightarrow>
          if unat b < 128 then Some (unat b, h)
          else let k = unat b - 128; n = be_word (take k h) :: u64 in
            if k = 0 \<or> 4 < k \<or> length h < k \<or> n < 128 \<or> drop_bit ((k - 1) * 8) n = 0 then None
            else Some (unat n, drop k h))"

lemma length_size_cases:
  "length_size n \<in> {1, 2, 3, 4}"
  by (simp add: length_size_def)

lemma length_size_bounds:
  assumes "n < 2 ^ 32"
  shows "n < 2 ^ (8 * length_size n)" and "2 \<le> length_size n \<Longrightarrow> 2 ^ (8 * (length_size n - 1)) \<le> n"
  using assms by (auto simp: length_size_def)

lemma length_size_unique:
  assumes "n < 2 ^ (8 * k)" and "k = 1 \<or> 2 ^ (8 * (k - 1)) \<le> n" and "k \<in> {1, 2, 3, 4}"
  shows "length_size n = k"
  using assms by (auto simp: length_size_def)

lemma read_length_der:
  assumes "n < 2 ^ 32"
  shows "read_length (der_length n @ h) = Some (n, h)"
proof (cases "n < 128")
  case True
  then have "unat (word_of_nat n :: u8) = n" by (intro unat_word_of_nat_small) simp
  with True show ?thesis by (simp add: read_length_def der_length_def)
next
  case False
  let ?k = "length_size n"
  have k: "?k < 128" "?k \<noteq> 0" "?k \<le> 4" using length_size_cases [of n] by auto
  then have b: "unat (word_of_nat ?k OR 0x80 :: u8) = ?k + 128" by (intro or_128)
  have n: "unat (word_of_nat n :: u64) = n" using assms by (intro unat_word_of_nat_small) simp
  then have "be_word (be_bytes ?k (word_of_nat n :: u64)) = (word_of_nat n :: u64)"
    using length_size_bounds(1) [OF assms] by (intro be_word_be_bytes_small) simp
  moreover have "\<not> (word_of_nat n :: u64) < 128" using False n by (simp add: word_less_nat_alt)
  moreover have "drop_bit ((?k - 1) * 8) (word_of_nat n :: u64) \<noteq> 0"
  proof (cases "2 \<le> ?k")
    case True
    have "2 ^ ((?k - 1) * 8) \<le> n"
      using length_size_bounds(2) [OF assms True] by (simp add: mult.commute)
    then have "n div 2 ^ ((?k - 1) * 8) \<noteq> 0" by (simp add: div_eq_0_iff not_less)
    then show ?thesis using n by (metis unat_0 unat_drop_bit)
  next
    case False
    with k \<open>\<not> n < 128\<close> n show ?thesis by (auto simp: word_unat_eq_iff)
  qed
  ultimately show ?thesis
    using False k n b by (simp add: read_length_def der_length_def Let_def)
qed

lemma read_length_canonical:
  assumes "read_length header = Some (n, h)"
  shows "n < 2 ^ 32 \<and> header = der_length n @ h"
proof -
  from assms obtain b t where header: "header = b # t" by (cases header) (auto simp: read_length_def)
  show ?thesis
  proof (cases "unat b < 128")
    case True
    with assms header show ?thesis by (auto simp: read_length_def der_length_def)
  next
    case False
    define k where "k = unat b - 128"
    define w :: u64 where "w = be_word (take k t)"
    from assms False have k: "k \<noteq> 0" "k \<le> 4" "k \<le> length t" and w: "\<not> w < 128" "drop_bit ((k - 1) * 8) w \<noteq> 0"
      and n: "n = unat w" "h = drop k t"
      by (auto simp: header read_length_def Let_def w_def k_def not_less split: if_splits)
    have "unat w < 2 ^ (8 * length (take k t))"
      unfolding w_def by (rule be_word_less) (use k in simp)
    then have lt: "n < 2 ^ (8 * k)" using k n by simp
    have "2 ^ ((k - 1) * 8) \<le> unat w"
    proof (rule ccontr)
      assume "\<not> ?thesis"
      then have "unat w div 2 ^ ((k - 1) * 8) = 0" by (simp add: not_le)
      with w(2) show False by (simp add: word_unat_eq_iff unat_drop_bit)
    qed
    then have ge: "2 ^ (8 * (k - 1)) \<le> n" using n(1) by (simp add: mult.commute)
    have size: "length_size n = k" by (rule length_size_unique) (use lt ge k in auto)
    have "(2 :: nat) ^ (8 * k) \<le> 2 ^ 32" using k by (intro power_increasing) simp_all
    with lt have n32: "n < 2 ^ 32" by simp
    have "be_bytes k (word_of_nat n :: u64) = take k t"
      using k be_bytes_be_word [of "take k t" k, where 'a = 64] by (simp add: n w_def)
    moreover have "word_of_nat k OR 0x80 = b"
      using or_128 [of k] k False by (simp add: word_unat_eq_iff k_def)
    moreover have "\<not> n < 128" using w(1) n(1) by (simp add: word_less_nat_alt)
    ultimately have "der_length n = b # take k t" using size by (simp add: der_length_def)
    with n32 header n(2) show ?thesis by simp
  qed
qed

lemma read_length_iff: "read_length header = Some (n, h) \<longleftrightarrow> n < 2 ^ 32 \<and> header = der_length n @ h"
  using read_length_der read_length_canonical by blast

section \<open>Elements\<close>

definition der_header :: "u32 \<Rightarrow> nat \<Rightarrow> u8 list" where
  "der_header tag n = der_tag tag @ der_length n"

definition der :: "u32 \<Rightarrow> u8 list \<Rightarrow> u8 list" where
  "der tag payload = der_header tag (length payload) @ payload"

lemma length_der_tag: "0 < length (der_tag t)" "length (der_tag t) \<le> 6"
proof -
  have "t AND 0x1FFFFFFF = take_bit 29 t" unfolding e0_shift take_bit_eq_mask by simp
  then have "unat (t AND 0x1FFFFFFF) = take_bit 29 (unat t)" by (simp only: unsigned_take_bit_eq)
  then have "unat (t AND 0x1FFFFFFF) < 128 ^ Suc 4" using take_bit_nat_less_exp [of 29 "unat t"] by simp
  from length_b128_bytes [OF this] show "length (der_tag t) \<le> 6" by (simp add: der_tag_def Let_def)
  show "0 < length (der_tag t)" by (simp add: der_tag_def Let_def)
qed

lemma length_der_length: "length (der_length n) \<le> 5"
  using length_size_cases [of n] by (auto simp: der_length_def)

definition take_element :: "cbs \<Rightarrow> u32 \<Rightarrow> nat \<Rightarrow> nat \<Rightarrow> (cbs \<times> u32 \<times> nat) parse" where
  "take_element cbs tag len header_len =
     (if length cbs < len then (None, cbs) else (Some (take len cbs, tag, header_len), drop len cbs))"

lemma any_element_read_length:
  "cbs_get_any_asn1_element False cbs =
     (case parse_asn1_tag cbs of
        (None, _) \<Rightarrow> (None, cbs)
      | (Some tag, header) \<Rightarrow>
          (case read_length header of
             None \<Rightarrow> (None, cbs)
           | Some (n, h) \<Rightarrow> take_element cbs tag (n + (length cbs - length h)) (length cbs - length h)))"
proof (cases "parse_asn1_tag cbs")
  case (Pair r header)
  show ?thesis
  proof (cases r)
    case None
    with Pair show ?thesis by (simp add: cbs_get_any_asn1_element_def)
  next
    case (Some tag)
    note parsed = Pair [unfolded Some]
    from parsed have cbs: "cbs = der_tag tag @ header" by (simp add: parse_tag_iff)
    show ?thesis
    proof (cases header)
      case Nil
      with parsed show ?thesis by (simp add: cbs_get_any_asn1_element_def read_length_def)
    next
      case (Cons b t)
      let ?hl = "length cbs - length t"
      have hl: "?hl \<le> 7" using length_der_tag(2) [of tag] cbs Cons by simp
      have elt: "(case CBS_get_bytes cbs len of (r, cbs) \<Rightarrow> (map_option (\<lambda>out. (out, tag, h)) r, cbs)) =
          take_element cbs tag len h" for len h
        by (simp add: CBS_get_bytes_def cbs_get_def take_element_def)
      have m7: "unat (b AND 0x7f) = unat b - 128" if "\<not> unat b < 128"
        using that unat_bound [of b] by (simp add: mask7_mod mod_if; arith)
      show ?thesis
      proof (cases "unat b < 128")
        case True
        with parsed Cons show ?thesis
          by (simp add: cbs_get_any_asn1_element_def read_length_def Let_def msb_byte CBS_len_def elt)
      next
        case False
        define k where "k = unat b - 128"
        define w :: u64 where "w = be_word (take k t)"
        have gu: "cbs_get_u t k = (if length t < k then (None, t) else (Some w, drop k t))"
          by (simp add: cbs_get_u_def cbs_get_def w_def)
        have start: "cbs_get_any_asn1_element False cbs =
          (if k = 0 \<or> 4 < k then (None, cbs)
           else (case cbs_get_u t k of
                     (None, _) \<Rightarrow> (None, cbs)
                   | (Some len64, _) \<Rightarrow>
                       if len64 < 128 then (None, cbs)
                       else if drop_bit ((k - 1) * 8) len64 = 0 then (None, cbs)
                       else let len = len64 + word_of_nat ?hl + word_of_nat k in
                         if len < len64 then (None, cbs)
                         else take_element cbs tag (unat len) (?hl + k)))"
          using False parsed Cons
          by (simp add: cbs_get_any_asn1_element_def Let_def msb_byte CBS_len_def elt m7 k_def [symmetric]
              del: One_nat_def) (unfold elt Let_def, simp)
        show ?thesis
        proof (cases "k = 0 \<or> 4 < k \<or> length t < k \<or> w < 128 \<or> drop_bit ((k - 1) * 8) w = 0")
          case True
          then have "read_length header = None" "cbs_get_any_asn1_element False cbs = (None, cbs)"
            using False Cons unfolding start gu
            by (auto simp: read_length_def Let_def k_def [symmetric] w_def [symmetric])
          then show ?thesis by (simp add: parsed)
        next
          case ok: False
          then have rl: "read_length header = Some (unat w, drop k t)"
            using False Cons by (auto simp: read_length_def Let_def k_def [symmetric] w_def [symmetric])
          then have small: "unat w < 2 ^ 32" by (simp add: read_length_iff)
          have hk: "unat (word_of_nat ?hl :: u64) = ?hl" "unat (word_of_nat k :: u64) = k"
            using hl ok by (auto intro!: unat_word_of_nat_small)
          have len: "unat (w + word_of_nat ?hl + word_of_nat k) = unat w + ?hl + k"
          proof -
            have "unat (w + word_of_nat ?hl) = unat w + ?hl"
              using small hl hk by (subst unat_plus_small) simp_all
            then show ?thesis using small hl hk ok by (subst unat_plus_small) simp_all
          qed
          then have "\<not> w + word_of_nat ?hl + word_of_nat k < w" by (simp add: word_less_nat_alt)
          moreover have "length cbs - length (drop k t) = ?hl + k" using ok cbs Cons by simp
          ultimately show ?thesis
            using ok unfolding start gu parsed prod.case option.case rl len Let_def
            by (simp add: len add.assoc [of "unat w"])
        qed
      qed
    qed
  qed
qed

lemma any_element_iff:
  "cbs_get_any_asn1_element False cbs = (Some (out, tag, hl), rest) \<longleftrightarrow>
     (\<exists>payload. length payload < 2 ^ 32 \<and> out = der tag payload \<and> hl = length (der_header tag (length payload))
        \<and> cbs = out @ rest)"
proof
  assume "cbs_get_any_asn1_element False cbs = (Some (out, tag, hl), rest)"
  then obtain header n h where p: "parse_asn1_tag cbs = (Some tag, header)" "read_length header = Some (n, h)"
    and t: "take_element cbs tag (n + (length cbs - length h)) (length cbs - length h) = (Some (out, tag, hl), rest)"
    by (auto simp: any_element_read_length take_element_def split: prod.splits option.splits if_splits)
  from p have cbs: "cbs = der_header tag n @ h" "n < 2 ^ 32"
    by (auto simp: parse_tag_iff read_length_iff der_header_def)
  with t have "n \<le> length h" "out = der_header tag n @ take n h" "hl = length (der_header tag n)" "rest = drop n h"
    by (auto simp: take_element_def split: if_splits)
  with cbs show "\<exists>payload. length payload < 2 ^ 32 \<and> out = der tag payload \<and> hl = length (der_header tag (length payload))
        \<and> cbs = out @ rest"
    by (intro exI [of _ "take n h"]) (simp add: der_def)
next
  assume "\<exists>payload. length payload < 2 ^ 32 \<and> out = der tag payload \<and> hl = length (der_header tag (length payload))
        \<and> cbs = out @ rest"
  then obtain payload where p: "length payload < 2 ^ 32" "out = der tag payload"
    "hl = length (der_header tag (length payload))" "cbs = der_tag tag @ der_length (length payload) @ payload @ rest"
    by (auto simp: der_def der_header_def)
  have "parse_asn1_tag cbs = (Some tag, der_length (length payload) @ payload @ rest)"
    by (simp add: parse_tag_iff p(4))
  moreover have "read_length (der_length (length payload) @ payload @ rest) = Some (length payload, payload @ rest)"
    using p(1) by (simp add: read_length_iff)
  ultimately show "cbs_get_any_asn1_element False cbs = (Some (out, tag, hl), rest)"
    by (simp add: any_element_read_length take_element_def p(2-4) der_def der_header_def)
qed

end
