(* ===== verification/Cbb_Asn1.thy ===== *)
theory Cbb_Asn1
  imports Cbb Der_Element
begin

text \<open>
  The ASN.1 part of the byte string builder (\<^verbatim>\<open>cbb.c\<close>), and the conversion of object
  identifiers to text in \<^verbatim>\<open>cbs.c\<close>, which uses both the reader and the builder. The local variable
  \<^verbatim>\<open>child\<close> of a function is an object at an address, which is the parameter \<open>ch\<close>.
\<close>

section \<open>Identifiers\<close>

function base128_size :: "u64 \<Rightarrow> nat" where
  "base128_size copy = (if copy = 0 then 0 else Suc (base128_size (drop_bit 7 copy)))"
  by auto
termination by (relation "measure unat") (auto intro: unat_drop_bit_less)

declare base128_size.simps [simp del]

fun add_base128_loop :: "reallocate \<Rightarrow> nat \<Rightarrow> u64 \<Rightarrow> nat \<Rightarrow> builder \<Rightarrow> builder cres" where
  "add_base128_loop ra cbb v 0 s = ret_true s"
| "add_base128_loop ra cbb v (Suc i) s =
     (let byte = ucast (drop_bit (7 * i) v AND 0x7f);
          byte = (if i \<noteq> 0 then byte OR 0x80 else byte)
      in and_then (CBB_add_u8 ra cbb byte s) (add_base128_loop ra cbb v i))"

definition add_base128_integer :: "reallocate \<Rightarrow> nat \<Rightarrow> u64 \<Rightarrow> builder \<Rightarrow> builder cres" where
  "add_base128_integer ra cbb v s =
     (let len_len = base128_size v; len_len = (if len_len = 0 then 1 else len_len)
      in add_base128_loop ra cbb v len_len s)"

definition CBB_add_asn1 :: "reallocate \<Rightarrow> nat \<Rightarrow> nat \<Rightarrow> u32 \<Rightarrow> builder \<Rightarrow> builder cres" where
  "CBB_add_asn1 ra cbb out_contents tag s =
     and_then (CBB_flush ra cbb s) (\<lambda>s.
       let tag_bits = ucast (drop_bit CBS_ASN1_TAG_SHIFT tag) AND 0xe0;
           tag_number = tag AND CBS_ASN1_TAG_NUMBER_MASK
       in and_then
         (if 0x1f \<le> tag_number then
            and_then (CBB_add_u8 ra cbb (tag_bits OR 0x1f) s) (add_base128_integer ra cbb (ucast tag_number))
          else CBB_add_u8 ra cbb (tag_bits OR ucast tag_number) s)
         (\<lambda>s. let off = base_len s in
            and_then (CBB_add_u8 ra cbb 0 s) (\<lambda>s.
              ret_true (open_child cbb out_contents off 1 True s))))"

section \<open>Values\<close>

text \<open>The loop over the eight bytes, \<open>n\<close> of them still to come, and the single zero byte after it.\<close>

fun add_uint64_loop :: "reallocate \<Rightarrow> nat \<Rightarrow> u64 \<Rightarrow> nat \<Rightarrow> bool \<Rightarrow> builder \<Rightarrow> builder cres" where
  "add_uint64_loop ra ch v 0 started s = (if \<not> started then CBB_add_u8 ra ch 0 s else ret_true s)"
| "add_uint64_loop ra ch v (Suc n) started s =
     (let byte = ucast (drop_bit (8 * n) v AND 0xff) in
      if \<not> started \<and> byte = 0 then add_uint64_loop ra ch v n False s
      else and_then (if \<not> started \<and> byte AND 0x80 \<noteq> 0 then CBB_add_u8 ra ch 0 s else ret_true s)
        (\<lambda>s. and_then (CBB_add_u8 ra ch byte s) (add_uint64_loop ra ch v n True)))"

definition CBB_add_asn1_uint64 :: "reallocate \<Rightarrow> nat \<Rightarrow> nat \<Rightarrow> u64 \<Rightarrow> builder \<Rightarrow> builder cres" where
  "CBB_add_asn1_uint64 ra cbb ch v s =
     and_then (CBB_add_asn1 ra cbb ch CBS_ASN1_INTEGER s) (\<lambda>s.
       and_then (add_uint64_loop ra ch v 8 False s) (CBB_flush ra cbb))"

fun int64_start :: "u8 list \<Rightarrow> nat \<Rightarrow> nat" where
  "int64_start bytes 0 = 0"
| "int64_start bytes (Suc k) =
     (if bytes ! Suc k = 0xff \<and> bytes ! k AND 0x80 \<noteq> 0 then int64_start bytes k else Suc k)"

fun add_int64_loop :: "reallocate \<Rightarrow> nat \<Rightarrow> u8 list \<Rightarrow> nat \<Rightarrow> builder \<Rightarrow> builder cres" where
  "add_int64_loop ra ch bytes 0 s = ret_true s"
| "add_int64_loop ra ch bytes (Suc i) s =
     and_then (CBB_add_u8 ra ch (bytes ! i) s) (add_int64_loop ra ch bytes i)"

definition CBB_add_asn1_int64 :: "reallocate \<Rightarrow> nat \<Rightarrow> nat \<Rightarrow> u64 \<Rightarrow> builder \<Rightarrow> builder cres" where
  "CBB_add_asn1_int64 ra cbb ch v s =
     (if 0 \<le> sint v then CBB_add_asn1_uint64 ra cbb ch v s
      else let bytes = le_bytes 8 v; start = int64_start bytes 7 in
        and_then (CBB_add_asn1 ra cbb ch CBS_ASN1_INTEGER s) (\<lambda>s.
          and_then (add_int64_loop ra ch bytes (start + 1) s) (CBB_flush ra cbb)))"

definition CBB_add_asn1_octet_string :: "reallocate \<Rightarrow> nat \<Rightarrow> nat \<Rightarrow> u8 list \<Rightarrow> builder \<Rightarrow> builder cres" where
  "CBB_add_asn1_octet_string ra cbb ch data s =
     and_then (CBB_add_asn1 ra cbb ch CBS_ASN1_OCTETSTRING s) (\<lambda>s.
       and_then (CBB_add_bytes ra ch data s) (CBB_flush ra cbb))"

definition CBB_add_asn1_bool :: "reallocate \<Rightarrow> nat \<Rightarrow> nat \<Rightarrow> bool \<Rightarrow> builder \<Rightarrow> builder cres" where
  "CBB_add_asn1_bool ra cbb ch v s =
     and_then (CBB_add_asn1 ra cbb ch CBS_ASN1_BOOLEAN s) (\<lambda>s.
       and_then (CBB_add_u8 ra ch (if v then 0xff else 0) s) (CBB_flush ra cbb))"

section \<open>Object identifiers\<close>

text \<open>\<open>46\<close> is the dot, \<open>48\<close> and \<open>57\<close> are the digits 0 and 9.\<close>

fun dotted_loop :: "u64 \<Rightarrow> bool \<Rightarrow> cbs \<Rightarrow> u64 parse" where
  "dotted_loop out seen_digit [] = (if seen_digit then Some out else None, [])"
| "dotted_loop out seen_digit (u # cbs) =
     (if u = 46 \<and> 0 < CBS_len cbs then (if seen_digit then Some out else None, cbs)
      else if u < 48 \<or> 57 < u \<or> (seen_digit \<and> out = 0)
        \<or> (2 ^ 64 - 1) div 10 < unat out
        \<or> (2 ^ 64 - 1) - (unat u - 48) < unat (out * 10) then (None, cbs)
      else dotted_loop (out * 10 + (ucast u - 48)) True cbs)"

definition parse_dotted_decimal :: "cbs \<Rightarrow> u64 parse" where
  "parse_dotted_decimal cbs = dotted_loop 0 False cbs"

lemma dotted_loop_length:
  "dotted_loop out seen cbs = (r, rest) \<Longrightarrow> length rest \<le> length cbs \<and> (cbs \<noteq> [] \<longrightarrow> length rest < length cbs)"
  by (induction out seen cbs rule: dotted_loop.induct)
    (fastforce split: if_splits simp del: unat_mult_lem)+

lemma parse_dotted_shorter:
  "parse_dotted_decimal cbs = (r, rest) \<Longrightarrow> cbs \<noteq> [] \<Longrightarrow> length rest < length cbs"
  using dotted_loop_length unfolding parse_dotted_decimal_def by blast

function add_oid_components :: "reallocate \<Rightarrow> nat \<Rightarrow> cbs \<Rightarrow> builder \<Rightarrow> builder cres" where
  "add_oid_components ra cbb cbs s =
     (if CBS_len cbs = 0 then ret_true s
      else case parse_dotted_decimal cbs of
          (None, _) \<Rightarrow> ret_false s
        | (Some a, cbs) \<Rightarrow> and_then (add_base128_integer ra cbb a s) (add_oid_components ra cbb cbs))"
  by auto
termination
  by (relation "measure (\<lambda>(ra, cbb, cbs, s). length cbs)")
    (auto simp: CBS_len_def dest: parse_dotted_shorter [OF sym])

declare add_oid_components.simps [simp del]

definition CBB_add_asn1_oid_from_text :: "reallocate \<Rightarrow> nat \<Rightarrow> u8 list \<Rightarrow> nat \<Rightarrow> builder \<Rightarrow> builder cres" where
  "CBB_add_asn1_oid_from_text ra cbb txt len s =
     and_then (CBB_flush ra cbb s) (\<lambda>s.
       case parse_dotted_decimal (CBS_init txt len) of
         (None, _) \<Rightarrow> ret_false s
       | (Some a, cbs) \<Rightarrow>
           (case parse_dotted_decimal cbs of
              (None, _) \<Rightarrow> ret_false s
            | (Some b, cbs) \<Rightarrow>
                if 2 < a \<or> (a < 2 \<and> 39 < b) \<or> word_of_nat (2 ^ 64 - 1) - 80 < b then ret_false s
                else and_then (add_base128_integer ra cbb (40 * a + b) s) (add_oid_components ra cbb cbs)))"

text \<open>\<^verbatim>\<open>snprintf\<close> with \<^verbatim>\<open>PRIu64\<close>: the decimal digits.\<close>

fun decimal :: "nat \<Rightarrow> u8 list" where
  "decimal n = (if n < 10 then [word_of_nat (48 + n)] else decimal (n div 10) @ [word_of_nat (48 + n mod 10)])"

declare decimal.simps [simp del]

definition add_decimal :: "reallocate \<Rightarrow> nat \<Rightarrow> u64 \<Rightarrow> builder \<Rightarrow> builder cres" where
  "add_decimal ra out v s = CBB_add_bytes ra out (decimal (unat v)) s"

lemma base128_loop_shorter: "base128_loop v cbs = (Some w, rest) \<Longrightarrow> length rest < length cbs"
  by (induction v cbs rule: base128_loop.induct) (fastforce split: if_splits simp: Let_def)+

lemma parse_base128_shorter: "(Some w, rest) = parse_base128_integer cbs \<Longrightarrow> length rest < length cbs"
  by (metis base128_loop_shorter parse_base128_integer_def)

function oid_text_components :: "reallocate \<Rightarrow> nat \<Rightarrow> cbs \<Rightarrow> builder \<Rightarrow> builder cres" where
  "oid_text_components ra cbb cbs s =
     (if CBS_len cbs = 0 then ret_true s
      else case parse_base128_integer cbs of
          (None, _) \<Rightarrow> ret_false s
        | (Some v, cbs) \<Rightarrow>
            and_then (CBB_add_u8 ra cbb 46 s) (\<lambda>s.
              and_then (add_decimal ra cbb v s) (oid_text_components ra cbb cbs)))"
  by auto
termination
  by (relation "measure (\<lambda>(ra, cbb, cbs, s). length cbs)") (auto dest: parse_base128_shorter)

declare oid_text_components.simps [simp del]

text \<open>The text, up to the label \<^verbatim>\<open>err\<close>, in the builder \<^verbatim>\<open>cbb\<close>.\<close>

definition oid_text :: "reallocate \<Rightarrow> nat \<Rightarrow> cbs \<Rightarrow> builder \<Rightarrow> builder cres" where
  "oid_text ra cbb cbs s =
     (case parse_base128_integer cbs of
        (None, _) \<Rightarrow> ret_false s
      | (Some v, copy) \<Rightarrow>
          and_then
            (if 80 \<le> v then and_then (CBB_add_bytes ra cbb [50, 46] s) (add_decimal ra cbb (v - 80))
             else and_then (add_decimal ra cbb (v div 40) s) (\<lambda>s.
               and_then (CBB_add_u8 ra cbb 46 s) (add_decimal ra cbb (v mod 40))))
            (\<lambda>s. and_then (oid_text_components ra cbb copy s) (CBB_add_u8 ra cbb 0)))"

text \<open>The string, or \<open>Some None\<close> for the null pointer. The builder is a local variable.\<close>

definition CBS_asn1_oid_to_text :: "heap \<Rightarrow> cbs \<Rightarrow> u8 list option option" where
  "CBS_asn1_oid_to_text heap cbs =
     (let ra = buf_realloc heap; s = \<lparr>buffer = None, cbbs = \<lambda>_. zero_cbb\<rparr> in
      case and_then (CBB_init heap 0 32 s) (oid_text ra 0 cbs) of
        None \<Rightarrow> None
      | Some (False, s) \<Rightarrow> map_option (\<lambda>_. None) (CBB_cleanup 0 s)
      | Some (True, s) \<Rightarrow>
          (case CBB_finish ra 0 False False s of
             None \<Rightarrow> None
           | Some (None, s) \<Rightarrow> map_option (\<lambda>_. None) (CBB_cleanup 0 s)
           | Some (Some (txt, txt_len), s) \<Rightarrow> Some (Some (take (unat txt_len) txt))))"

section \<open>SET OF\<close>

fun OPENSSL_memcmp :: "u8 list \<Rightarrow> u8 list \<Rightarrow> nat \<Rightarrow> int" where
  "OPENSSL_memcmp (a # as) (b # bs) (Suc n) =
     (if a < b then -1 else if b < a then 1 else OPENSSL_memcmp as bs n)"
| "OPENSSL_memcmp _ _ _ = 0"

lemma memcmp_prefix_zero:
  "n \<le> length xs \<Longrightarrow> n \<le> length ys \<Longrightarrow> OPENSSL_memcmp xs ys n = 0 \<longleftrightarrow> take n xs = take n ys"
  by (induction xs ys n rule: OPENSSL_memcmp.induct) auto

definition compare_set_of_element :: "cbs \<Rightarrow> cbs \<Rightarrow> int" where
  "compare_set_of_element a b =
     (let a_len = CBS_len a; b_len = CBS_len b;
          min_len = (if a_len < b_len then a_len else b_len);
          ret = OPENSSL_memcmp (CBS_data a) (CBS_data b) min_len
      in if ret \<noteq> 0 then ret else if a_len = b_len then 0 else if a_len < b_len then -1 else 1)"

text \<open>\<^verbatim>\<open>qsort\<close>: elements that compare equal are the same bytes, so the sorted list is one list.\<close>

fun insert_by :: "('a \<Rightarrow> 'a \<Rightarrow> int) \<Rightarrow> 'a \<Rightarrow> 'a list \<Rightarrow> 'a list" where
  "insert_by cmp x [] = [x]"
| "insert_by cmp x (y # ys) = (if cmp y x < 0 then y # insert_by cmp x ys else x # y # ys)"

definition qsort :: "('a \<Rightarrow> 'a \<Rightarrow> int) \<Rightarrow> 'a list \<Rightarrow> 'a list" where
  "qsort cmp xs = foldr (insert_by cmp) xs []"

lemma any_element_shorter:
  assumes "(Some e, rest) = CBS_get_any_asn1_element cbs"
  shows "length rest < length cbs"
proof -
  obtain out tag hl where "e = (out, tag, hl)" by (cases e)
  with assms have "cbs_get_any_asn1_element False cbs = (Some (out, tag, hl), rest)"
    by (simp add: CBS_get_any_asn1_element_def)
  then have "cbs = out @ rest \<and> out \<noteq> []"
    unfolding any_element_iff using length_der_tag(1) [of tag] by (auto simp: der_def der_header_def)
  then show ?thesis by auto
qed

text \<open>The elements of the contents, or \<open>None\<close> when they do not parse.\<close>

function set_of_children :: "cbs \<Rightarrow> cbs list option" where
  "set_of_children cbs =
     (if CBS_len cbs = 0 then Some []
      else case CBS_get_any_asn1_element cbs of
          (None, _) \<Rightarrow> None
        | (Some (out, _, _), cbs) \<Rightarrow> map_option (Cons out) (set_of_children cbs))"
  by auto
termination by (relation "measure length") (auto dest: any_element_shorter)

declare set_of_children.simps [simp del]

fun add_children :: "reallocate \<Rightarrow> nat \<Rightarrow> cbs list \<Rightarrow> builder \<Rightarrow> builder cres" where
  "add_children ra cbb [] s = ret_true s"
| "add_children ra cbb (c # children) s =
     and_then (CBB_add_bytes ra cbb (CBS_data c) s) (add_children ra cbb children)"

definition CBB_flush_asn1_set_of :: "heap \<Rightarrow> nat \<Rightarrow> builder \<Rightarrow> builder cres" where
  "CBB_flush_asn1_set_of heap cbb s =
     (let ra = buf_realloc heap in
      and_then (CBB_flush ra cbb s) (\<lambda>s.
        case (CBB_data cbb s, CBB_len cbb s) of
          (Some data, Some buf_len) \<Rightarrow>
            (case set_of_children (CBS_init data (unat buf_len)) of
               None \<Rightarrow> ret_false s
             | Some children \<Rightarrow>
                 let num_children = length children in
                 if num_children < 2 then ret_true s
                 else if (2 ^ 64 - 1) div 16 < num_children then ret_false s
                 else (case (OPENSSL_memdup heap data (unat buf_len),
                             OPENSSL_malloc heap (word_of_nat (num_children * 16))) of
                     (Some (Some copy), Some (Some _)) \<Rightarrow>
                       (case set_of_children (CBS_init (user_bytes copy) (unat buf_len)) of
                          None \<Rightarrow> ret_false s
                        | Some children \<Rightarrow>
                            let children = qsort compare_set_of_element children;
                                s = s\<lparr>buffer := map_option (\<lambda>b. b\<lparr>blen := offset (cbbs s cbb)
                                      + ucast (pending_len_len (cbbs s cbb))\<rparr>) (buffer s)\<rparr>
                            in and_then (add_children ra cbb children s) (\<lambda>s.
                                 if CBB_len cbb s \<noteq> Some buf_len then None else ret_true s))
                   | (Some _, Some _) \<Rightarrow> ret_false s
                   | _ \<Rightarrow> None))
        | _ \<Rightarrow> None))"

end
