(* ===== verification/Der_Values.thy ===== *)
theory Der_Values
  imports Der_Element
begin

text \<open>
  Values in DER: INTEGER and BOOLEAN elements, with the minimal contents that DER asks for, and
  the parsers that accept exactly those.
\<close>

section \<open>Elements of a given tag\<close>

lemma any_element_der:
  assumes "length payload < 2 ^ 32"
  shows "CBS_get_any_asn1_element (der tag payload @ rest) =
    (Some (der tag payload, tag, length (der_header tag (length payload))), rest)"
  unfolding CBS_get_any_asn1_element_def any_element_iff using assms by auto

lemma any_elementE:
  assumes "CBS_get_any_asn1_element cbs = (Some (out, tag, hl), rest)"
  obtains payload where "length payload < 2 ^ 32" and "out = der tag payload"
    and "hl = length (der_header tag (length payload))" and "cbs = der tag payload @ rest"
  using assms unfolding CBS_get_any_asn1_element_def any_element_iff by auto

lemma skip_header: "CBS_skip (der tag p) (length (der_header tag (length p))) = (Some (), p)"
  by (simp add: CBS_skip_def cbs_get_def der_def)

lemma get_asn1_element_iff:
  "CBS_get_asn1_element cbs tag = (Some out, rest) \<longleftrightarrow>
     (\<exists>payload. length payload < 2 ^ 32 \<and> out = der tag payload \<and> cbs = out @ rest)"
proof
  assume "CBS_get_asn1_element cbs tag = (Some out, rest)"
  then show "\<exists>payload. length payload < 2 ^ 32 \<and> out = der tag payload \<and> cbs = out @ rest"
    by (auto simp: CBS_get_asn1_element_def cbs_get_asn1_def split: prod.splits option.splits if_splits
        elim!: any_elementE)
next
  assume "\<exists>payload. length payload < 2 ^ 32 \<and> out = der tag payload \<and> cbs = out @ rest"
  then show "CBS_get_asn1_element cbs tag = (Some out, rest)"
    by (auto simp: CBS_get_asn1_element_def cbs_get_asn1_def any_element_der)
qed

lemma get_asn1_iff:
  "CBS_get_asn1 cbs tag = (Some payload, rest) \<longleftrightarrow> length payload < 2 ^ 32 \<and> cbs = der tag payload @ rest"
proof
  assume "CBS_get_asn1 cbs tag = (Some payload, rest)"
  then show "length payload < 2 ^ 32 \<and> cbs = der tag payload @ rest"
    by (auto simp: CBS_get_asn1_def cbs_get_asn1_def skip_header split: prod.splits option.splits if_splits
        elim!: any_elementE)
qed (simp add: CBS_get_asn1_def cbs_get_asn1_def any_element_der skip_header)

lemma get_any_asn1_iff:
  "CBS_get_any_asn1 cbs = (Some (payload, tag), rest) \<longleftrightarrow> length payload < 2 ^ 32 \<and> cbs = der tag payload @ rest"
proof
  assume "CBS_get_any_asn1 cbs = (Some (payload, tag), rest)"
  then show "length payload < 2 ^ 32 \<and> cbs = der tag payload @ rest"
    by (auto simp: CBS_get_any_asn1_def skip_header split: prod.splits option.splits elim!: any_elementE)
qed (simp add: CBS_get_any_asn1_def any_element_der skip_header)

section \<open>Unsigned integers\<close>

definition der_uint :: "u64 \<Rightarrow> u8 list" where
  "der_uint v =
     (let bs = dropWhile (\<lambda>b. b = 0) (be_bytes 8 v) in
      if bs = [] then [0] else if unat (hd bs) < 128 then bs else 0 # bs)"

lemma be_word_Nil [simp]: "be_word [] = 0"
  by (simp add: be_word_def)

lemma be_word_zeros: "be_word (replicate k 0 @ bs) = be_word bs"
  by (induction k) (simp_all add: be_word_def)

lemma be_word_top:
  assumes "length pre \<le> 8" and "pre \<noteq> [] \<longrightarrow> hd pre \<noteq> 0"
  shows "drop_bit 56 (be_word pre :: u64) \<noteq> 0 \<longleftrightarrow> length pre = 8"
proof (cases "length pre = 8")
  case True
  then have "hd pre \<noteq> 0" "pre \<noteq> []" using assms(2) by auto
  then obtain j where j: "bit (hd pre) j" by (auto simp: bit_eq_iff)
  then have j8: "j < 8" using bit_imp_le_length [of "hd pre" j] by simp
  have "rev pre ! 7 = hd pre" using True \<open>pre \<noteq> []\<close> by (simp add: rev_nth hd_conv_nth)
  moreover have "(56 + j) div 8 = 7" "(56 + j) mod 8 = j" using j8 by presburger+
  ultimately have "bit (be_word pre :: u64) (56 + j)"
    using j j8 True by (simp add: be_word_le_word bit_le_word)
  then have "bit (drop_bit 56 (be_word pre :: u64)) j" by (simp add: bit_drop_bit_eq)
  then have "drop_bit 56 (be_word pre :: u64) \<noteq> 0" by auto
  with True show ?thesis by simp
next
  case False
  then have "length pre \<le> 7" using assms(1) by simp
  then have "unat (be_word pre :: u64) < 2 ^ (8 * length pre)" by (intro be_word_less) simp
  also have "(2 :: nat) ^ (8 * length pre) \<le> 2 ^ 56" using \<open>length pre \<le> 7\<close> by (intro power_increasing) simp_all
  finally have "drop_bit 56 (be_word pre :: u64) = 0" by (simp add: word_unat_eq_iff unat_drop_bit)
  with False show ?thesis by simp
qed

lemma uint64_loop_spec:
  assumes "length pre \<le> 8" and "pre \<noteq> [] \<longrightarrow> hd pre \<noteq> 0"
  shows "uint64_loop (be_word pre) data =
    (let bs = (if pre = [] then dropWhile (\<lambda>b. b = 0) data else pre @ data)
     in if length bs \<le> 8 then Some (be_word bs) else None)"
  using assms
proof (induction data arbitrary: pre)
  case Nil
  then show ?case by simp
next
  case (Cons b data)
  have snoc: "push_bit 8 (be_word pre) OR ucast b = (be_word (pre @ [b]) :: u64)" by (simp add: be_word_snoc)
  show ?case
  proof (cases "length pre = 8")
    case True
    with be_word_top [OF Cons.prems] show ?thesis by auto
  next
    case False
    then have top: "drop_bit 56 (be_word pre :: u64) = 0" using be_word_top [OF Cons.prems] by blast
    show ?thesis
    proof (cases "pre = [] \<and> b = 0")
      case True
      then have "be_word (pre @ [b]) = (be_word [] :: u64)" using be_word_zeros [of 1 "[]"] by simp
      with True top Cons.IH [of "[]"] snoc show ?thesis by simp
    next
      case nz: False
      have "length (pre @ [b]) \<le> 8" "hd (pre @ [b]) \<noteq> 0"
        using False nz Cons.prems by (auto simp: hd_append)
      with nz top Cons.IH [of "pre @ [b]"] show ?thesis by (auto simp: snoc)
    qed
  qed
qed

lemma dropWhile_zeros: "dropWhile (\<lambda>b. b = 0) (replicate k 0 @ bs) = dropWhile (\<lambda>b. b = (0 :: 'a :: zero)) bs"
  by (induction k) simp_all

lemma zeros_dropWhile:
  "\<exists>k. bs = replicate k 0 @ dropWhile (\<lambda>b. b = (0 :: 'a :: zero)) bs"
proof (induction bs)
  case (Cons b bs)
  then obtain k where "bs = replicate k 0 @ dropWhile (\<lambda>b. b = 0) bs" by blast
  then show ?case by (cases "b = 0") (auto intro: exI [of _ "Suc k"] exI [of _ 0])
qed simp

lemma dropWhile_be_bytes:
  assumes "length bs \<le> 8" and "dropWhile (\<lambda>b. b = 0) bs = bs"
  shows "dropWhile (\<lambda>b. b = 0) (be_bytes 8 (be_word bs :: u64)) = bs"
proof -
  let ?z = "replicate (8 - length bs) 0 @ bs"
  have "be_bytes 8 (be_word ?z :: u64) = ?z" using assms(1) by (intro be_bytes_be_word) simp_all
  then show ?thesis using assms(2) by (simp add: be_word_zeros dropWhile_zeros)
qed

definition uint_content :: "u8 list \<Rightarrow> bool" where
  "uint_content data \<longleftrightarrow> data \<noteq> [] \<and> unat (data ! 0) < 128
     \<and> \<not> (data ! 0 = 0 \<and> 1 < length data \<and> unat (data ! 1) < 128)"

lemma uint_content_iff:
  "uint_content data \<and> uint64_loop 0 data = Some v \<longleftrightarrow> data = der_uint v"
proof -
  let ?dw = "dropWhile (\<lambda>b. b = (0 :: u8))"
  have loop: "uint64_loop 0 data = (if length (?dw data) \<le> 8 then Some (be_word (?dw data)) else None)" for data
    using uint64_loop_spec [of "[]" data] by (simp add: Let_def)
  have idem: "?dw (?dw bs) = ?dw bs" for bs by (induction bs) auto
  have hd: "?dw bs \<noteq> [] \<Longrightarrow> hd (?dw bs) \<noteq> 0" for bs by (induction bs) auto
  show ?thesis
  proof
    assume a: "uint_content data \<and> uint64_loop 0 data = Some v"
    then have len: "length (?dw data) \<le> 8" and v: "v = be_word (?dw data)" by (auto simp: loop split: if_splits)
    have dw: "?dw (be_bytes 8 v) = ?dw data" unfolding v by (rule dropWhile_be_bytes [OF len idem])
    from a obtain x xs where data: "data = x # xs" by (cases data) (auto simp: uint_content_def)
    show "data = der_uint v"
    proof (cases "x = 0")
      case False
      with a data dw show ?thesis by (simp add: der_uint_def uint_content_def)
    next
      case True
      show ?thesis
      proof (cases xs)
        case Nil
        with True data dw show ?thesis by (simp add: der_uint_def)
      next
        case (Cons y ys)
        with a True data have y: "\<not> unat y < 128" by (simp add: uint_content_def)
        then have "y \<noteq> 0" by auto
        with True data Cons dw y show ?thesis by (simp add: der_uint_def)
      qed
    qed
  next
    assume d: "data = der_uint v"
    let ?bs = "?dw (be_bytes 8 v)"
    have len: "length ?bs \<le> 8" using length_dropWhile_le [of "\<lambda>b. b = 0" "be_bytes 8 v"] by simp
    have "be_word ?bs = (be_word (be_bytes 8 v) :: u64)"
      using zeros_dropWhile [of "be_bytes 8 v"] be_word_zeros by metis
    then have v: "be_word ?bs = v" by (simp add: be_word_be_bytes)
    have dw: "?dw data = ?bs"
      using idem [of "be_bytes 8 v"] by (cases ?bs) (simp_all add: d der_uint_def Let_def del: dropWhile_eq_Nil_conv)
    have "uint_content data"
      using hd [of "be_bytes 8 v"]
      by (cases ?bs) (auto simp: d der_uint_def Let_def uint_content_def)
    with loop [of data] len v dw show "uint_content data \<and> uint64_loop 0 data = Some v" by simp
  qed
qed

lemma length_der_uint: "0 < length (der_uint v)" "length (der_uint v) \<le> 9"
  using length_dropWhile_le [of "\<lambda>b. b = 0" "be_bytes 8 v"] by (auto simp: der_uint_def Let_def)

lemma get_uint64_iff:
  "CBS_get_asn1_uint64 cbs = (Some v, rest) \<longleftrightarrow> cbs = der 2 (der_uint v) @ rest"
proof -
  have "CBS_get_asn1_uint64 cbs = (Some v, rest) \<longleftrightarrow>
      (\<exists>data. CBS_get_asn1 cbs 2 = (Some data, rest) \<and> uint_content data \<and> uint64_loop 0 data = Some v)"
    by (auto simp: CBS_get_asn1_uint64_def uint_content_def msb_byte split: prod.splits option.splits if_splits)
  also have "\<dots> \<longleftrightarrow> cbs = der 2 (der_uint v) @ rest"
    using length_der_uint(2) [of v] by (auto simp: uint_content_iff get_asn1_iff)
  finally show ?thesis .
qed

section \<open>Signed integers and booleans\<close>

text \<open>Leading bytes that only repeat the sign are left out.\<close>

fun strip_sign :: "u8 list \<Rightarrow> u8 list" where
  "strip_sign (b # c # bs) =
     (if b = 0 \<and> unat c < 128 \<or> b = 0xff \<and> \<not> unat c < 128 then strip_sign (c # bs) else b # c # bs)"
| "strip_sign bs = bs"

definition der_int :: "u64 \<Rightarrow> u8 list" where
  "der_int v = strip_sign (be_bytes 8 v)"

definition sign_fill :: "u8 list \<Rightarrow> u8" where
  "sign_fill bs = (if unat (hd bs) < 128 then 0 else 0xff)"

lemma strip_sign_fill:
  "data \<noteq> [] \<Longrightarrow> strip_sign (replicate k (sign_fill data) @ data) = strip_sign data"
proof (induction k)
  case (Suc k)
  obtain c cs where "replicate k (sign_fill data) @ data = c # cs" and "unat c < 128 \<longleftrightarrow> sign_fill data = 0"
    using Suc.prems by (cases k; cases data) (auto simp: sign_fill_def)
  with Suc show ?case by (auto simp: sign_fill_def)
qed simp

lemma strip_sign_nonempty: "bs \<noteq> [] \<Longrightarrow> strip_sign bs \<noteq> []"
  by (induction bs rule: strip_sign.induct) auto

lemma fill_strip_sign:
  "bs \<noteq> [] \<Longrightarrow> \<exists>k. bs = replicate k (sign_fill (strip_sign bs)) @ strip_sign bs
     \<and> (unat (hd (strip_sign bs)) < 128 \<longleftrightarrow> unat (hd bs) < 128)"
proof (induction bs rule: strip_sign.induct)
  case (1 b c bs)
  show ?case
  proof (cases "b = 0 \<and> unat c < 128 \<or> b = 0xff \<and> \<not> unat c < 128")
    case True
    from 1(1) [OF this] obtain k where k: "c # bs = replicate k (sign_fill (strip_sign (c # bs))) @ strip_sign (c # bs)"
      "unat (hd (strip_sign (c # bs))) < 128 \<longleftrightarrow> unat c < 128" by auto
    have "b = sign_fill (strip_sign (c # bs))" using True k(2) by (auto simp: sign_fill_def)
    with True k show ?thesis by (intro exI [of _ "Suc k"]) auto
  qed (auto intro: exI [of _ 0])
qed (auto intro: exI [of _ 0])

lemma strip_sign_idem: "strip_sign (strip_sign bs) = strip_sign bs"
  by (induction bs rule: strip_sign.induct) auto

lemma length_strip_sign: "length (strip_sign bs) \<le> length bs"
  by (induction bs rule: strip_sign.induct) auto

lemma int_content_iff:
  "data \<noteq> [] \<and> length data \<le> 8 \<and> strip_sign data = data
     \<and> v = le_word (rev data @ replicate (8 - length data) (sign_fill data)) \<longleftrightarrow> data = der_int v"
proof
  assume a: "data \<noteq> [] \<and> length data \<le> 8 \<and> strip_sign data = data
     \<and> v = le_word (rev data @ replicate (8 - length data) (sign_fill data))"
  let ?x = "replicate (8 - length data) (sign_fill data) @ data"
  from a have "v = be_word ?x" by (simp add: be_word_le_word)
  moreover have "be_bytes 8 (be_word ?x :: u64) = ?x" using a by (intro be_bytes_be_word) auto
  ultimately show "data = der_int v" using a strip_sign_fill [of data] by (simp add: der_int_def)
next
  assume d: "data = der_int v"
  have ne: "be_bytes 8 v \<noteq> []" by (metis length_be_bytes list.size(3) zero_neq_numeral)
  from fill_strip_sign [OF ne] obtain k where k: "be_bytes 8 v = replicate k (sign_fill data) @ data"
    by (auto simp: d der_int_def)
  have "8 = k + length data" using arg_cong [OF k, of length] by simp
  then have len: "k = 8 - length data" "length data \<le> 8" by simp_all
  have "be_word (be_bytes 8 v) = v" by (rule be_word_be_bytes) simp
  then have "be_word (replicate (8 - length data) (sign_fill data) @ data) = v" by (simp only: k len(1))
  then show "data \<noteq> [] \<and> length data \<le> 8 \<and> strip_sign data = data
     \<and> v = le_word (rev data @ replicate (8 - length data) (sign_fill data))"
    using len(2) strip_sign_nonempty [OF ne] strip_sign_idem
    by (simp add: d der_int_def be_word_le_word)
qed

lemma get_int64_iff:
  "CBS_get_asn1_int64 cbs = (Some v, rest) \<longleftrightarrow> cbs = der 2 (der_int v) @ rest"
proof -
  have strip: "strip_sign data = data \<longleftrightarrow> \<not> (1 < length data \<and> (data ! 0 = 0 \<and> unat (data ! 1) < 128
      \<or> data ! 0 = 0xff \<and> \<not> unat (data ! 1) < 128))" for data
  proof (cases data rule: strip_sign.cases)
    case (1 b c bs)
    have "strip_sign (c # bs) \<noteq> b # c # bs"
      using length_strip_sign [of "c # bs"] by (metis length_Cons not_less_eq_eq le_refl)
    with 1 show ?thesis by auto
  qed simp_all
  have "CBS_get_asn1_int64 cbs = (Some v, rest) \<longleftrightarrow>
      (\<exists>data. CBS_get_asn1 cbs 2 = (Some data, rest) \<and> data \<noteq> [] \<and> length data \<le> 8 \<and> strip_sign data = data
         \<and> v = le_word (rev data @ replicate (8 - length data) (sign_fill data)))"
  proof (cases "CBS_get_asn1 cbs 2")
    case (Pair r rest')
    show ?thesis
    proof (cases r)
      case None
      with Pair show ?thesis by (simp add: CBS_get_asn1_int64_def)
    next
      case (Some data)
      have fill: "(if data ! 0 AND 0x80 \<noteq> 0 then 0xff else 0) = sign_fill data" if "data \<noteq> []"
        using that by (simp add: sign_fill_def msb_byte hd_conv_nth)
      have "CBS_get_asn1_int64 cbs =
          (if data = [] \<or> 8 < length data then (None, rest')
           else if strip_sign data \<noteq> data then (None, rest')
           else (Some (le_word (rev data @ replicate (8 - length data) (sign_fill data))), rest'))"
        using fill unfolding strip CBS_get_asn1_int64_def Pair Some Let_def msb_byte by auto
      then show ?thesis unfolding Pair Some by (auto simp: not_less)
    qed
  qed
  also have "\<dots> \<longleftrightarrow> cbs = der 2 (der_int v) @ rest"
  proof -
    have "length (der_int v) \<le> 8" using length_strip_sign [of "be_bytes 8 v"] by (simp add: der_int_def)
    then show ?thesis unfolding int_content_iff by (auto simp: get_asn1_iff)
  qed
  finally show ?thesis .
qed

definition der_bool :: "bool \<Rightarrow> u8 list" where
  "der_bool b = [if b then 0xff else 0]"

lemma get_bool_iff:
  "CBS_get_asn1_bool cbs = (Some b, rest) \<longleftrightarrow> cbs = der 1 (der_bool b) @ rest"
proof
  assume "CBS_get_asn1_bool cbs = (Some b, rest)"
  then obtain bytes where "CBS_get_asn1 cbs 1 = (Some bytes, rest)" "length bytes = 1" "hd bytes = 0 \<or> hd bytes = 0xff"
    "b = (hd bytes \<noteq> 0)"
    by (auto simp: CBS_get_asn1_bool_def CBS_len_def Let_def split: prod.splits option.splits if_splits)
  then show "cbs = der 1 (der_bool b) @ rest" by (cases bytes) (auto simp: get_asn1_iff der_bool_def)
next
  assume "cbs = der 1 (der_bool b) @ rest"
  then have "CBS_get_asn1 cbs 1 = (Some (der_bool b), rest)" by (simp add: get_asn1_iff der_bool_def)
  then show "CBS_get_asn1_bool cbs = (Some b, rest)"
    by (simp add: CBS_get_asn1_bool_def CBS_len_def der_bool_def)
qed

end
