(* ===== verification/Cbb_Refine.thy ===== *)
theory Cbb_Refine
  imports Cbb_Asn1 Der_Values
begin

text \<open>
  What the builder promises. Abstractly a builder is a list of bytes and a stack of open
  parts, each with the kind of its length prefix and its contents so far; flushing closes the
  parts from the inside out. The interface to the allocator is the locale \<open>reallocator\<close>,
  and the refinement of the abstract builder by the model of the code is proved in it once.
\<close>

section \<open>Outcomes\<close>

text \<open>
  A call either gives true in a state with \<open>P\<close> or gives false in a state with \<open>F\<close>, and
  it does not fail where \<open>ok\<close> holds.
\<close>

definition outcome :: "('s \<Rightarrow> bool) \<Rightarrow> 's cres \<Rightarrow> ('s \<Rightarrow> bool) \<Rightarrow> bool \<Rightarrow> bool" where
  "outcome F r P ok \<longleftrightarrow> (\<exists>s. r = Some (True, s) \<and> P s) \<or> \<not> ok \<and> (\<exists>s. r = Some (False, s) \<and> F s)"

lemma outcome_ret [intro]: "P s \<Longrightarrow> outcome F (ret_true s) P ok"
  by (simp add: outcome_def ret_true_def)

lemma outcome_false [intro]: "F s \<Longrightarrow> \<not> ok \<Longrightarrow> outcome F (ret_false s) P ok"
  by (simp add: outcome_def ret_false_def)

lemma outcome_and_then:
  assumes "outcome F r P okr" and "\<And>s. P s \<Longrightarrow> outcome F (f s) Q okf" and "ok \<Longrightarrow> okr \<and> okf"
  shows "outcome F (and_then r f) Q ok"
proof -
  from assms(1) consider s where "r = Some (True, s)" "P s" | s where "\<not> okr" "r = Some (False, s)" "F s"
    by (auto simp: outcome_def)
  then show ?thesis
  proof cases
    case 1
    with assms(2) [of s] assms(3) show ?thesis by (auto simp: outcome_def)
  next
    case 2
    with assms(3) show ?thesis by (auto simp: outcome_def)
  qed
qed

lemma outcome_weaken:
  "outcome F r P ok \<Longrightarrow> (\<And>s. P s \<Longrightarrow> Q s) \<Longrightarrow> (ok' \<Longrightarrow> ok) \<Longrightarrow> outcome F r Q ok'"
  unfolding outcome_def by blast

lemma outcome_weaken_bad: "outcome F r P ok \<Longrightarrow> outcome (\<lambda>_. True) r P ok"
  unfolding outcome_def by blast

lemma outcome_True: "outcome F (Some (True, s)) P ok \<longleftrightarrow> P s"
  by (simp add: outcome_def)

lemma outcome_no_error: "outcome F r P ok \<Longrightarrow> ok \<Longrightarrow> \<exists>s. r = Some (True, s) \<and> P s"
  by (auto simp: outcome_def)

lemma outcome_returns: "outcome F r P ok \<Longrightarrow> \<exists>b s. r = Some (b, s) \<and> (if b then P s else F s)"
  by (auto simp: outcome_def)

section \<open>Buffers\<close>

definition buf_ok :: "cbb_buffer \<Rightarrow> bool" where
  "buf_ok b \<longleftrightarrow> length (buf b) = unat (cap b) \<and> unat (blen b) \<le> unat (cap b)
     \<and> length (buf b) < 2 ^ 63 \<and> (can_resize b \<longrightarrow> length (buf b) + 8 < 2 ^ 63)"

definition content :: "cbb_buffer \<Rightarrow> u8 list" where
  "content b = take (unat (blen b)) (buf b)"

text \<open>A buffer that holds \<open>n\<close> bytes, as it is or by growing.\<close>

definition roomy :: "reallocate \<Rightarrow> nat \<Rightarrow> cbb_buffer \<Rightarrow> bool" where
  "roomy ra n b \<longleftrightarrow> n \<le> length (buf b) \<or> (can_resize b \<and> (\<forall>x m. unat m \<le> 2 * n \<longrightarrow> ra x m \<noteq> Some None))"

definition good :: "reallocate \<Rightarrow> nat \<Rightarrow> cbb_buffer \<Rightarrow> bool" where
  "good ra n b \<longleftrightarrow> buf_ok b \<and> \<not> error b \<and> roomy ra n b"

definition bad_buffer :: "cbb_buffer \<Rightarrow> bool" where
  "bad_buffer b \<longleftrightarrow> buf_ok b \<and> error b"

lemma length_content [simp]: "buf_ok b \<Longrightarrow> length (content b) = unat (blen b)"
  by (simp add: content_def buf_ok_def)

lemma bad_set_error [simp]: "buf_ok b \<Longrightarrow> bad_buffer (set_error b)"
  by (auto simp: bad_buffer_def buf_ok_def set_error_def)

lemma good_simps: "good ra n b \<Longrightarrow> buf_ok b" "good ra n b \<Longrightarrow> \<not> error b"
  by (simp_all add: good_def)

lemma poke_good:
  assumes "good ra n b" and "length (take p (content b)) = p" and "p + length bs \<le> unat (blen b)"
  obtains b' where "poke p bs b = Some b'" and "good ra n b'" and "blen b' = blen b"
    and "content b' = take p (content b) @ bs @ drop (p + length bs) (content b)"
proof
  let ?b = "b\<lparr>buf := take p (buf b) @ bs @ drop (p + length bs) (buf b)\<rparr>"
  have l: "p + length bs \<le> length (buf b)" using assms by (simp add: good_def buf_ok_def)
  then show "poke p bs b = Some ?b" by (simp add: poke_def)
  show "good ra n ?b" using assms(1) l by (auto simp: good_def buf_ok_def roomy_def)
  show "content ?b = take p (content b) @ bs @ drop (p + length bs) (content b)"
    using assms(3) l by (simp add: content_def drop_take min_absorb1 diff_diff_eq)
qed simp

locale reallocator =
  fixes ra :: "u8 list \<Rightarrow> u64 \<Rightarrow> u8 list option option"
  assumes ra_grows: "length b + 8 < 2 ^ 63 \<Longrightarrow> length b \<le> unat n \<Longrightarrow> unat n < 2 ^ 64 - 8 \<Longrightarrow>
    ra b n = Some None \<or>
    (\<exists>r. ra b n = Some (Some r) \<and> length r = unat n \<and> length r + 8 < 2 ^ 63 \<and> take (length b) r = b)"
begin

lemma reserve_outcome:
  assumes g: "good ra n b" and len: "unat len < 2 ^ 63"
  shows "outcome bad_buffer (cbb_buffer_reserve ra len b)
    (\<lambda>b'. good ra n b' \<and> content b' = content b \<and> blen b' = blen b \<and> unat (blen b) + unat len \<le> length (buf b'))
    (unat (blen b) + unat len \<le> n)"
proof -
  have ok: "buf_ok b" "roomy ra n b" "\<not> error b" using g by (auto simp: good_def)
  then have l: "length (buf b) = unat (cap b)" "unat (blen b) \<le> unat (cap b)" "unat (cap b) < 2 ^ 63"
    by (auto simp: buf_ok_def)
  have newlen: "unat (blen b + len) = unat (blen b) + unat len"
    using l len by (intro unat_plus_small) simp
  have two: "unat (cap b * 2) = unat (cap b) * 2" using l by (simp add: unat_word_ariths)
  consider "unat (blen b) + unat len \<le> unat (cap b)"
    | "unat (cap b) < unat (blen b) + unat len" "\<not> can_resize b"
    | "unat (cap b) < unat (blen b) + unat len" "can_resize b" by linarith
  then show ?thesis
  proof cases
    case 1
    then have "cbb_buffer_reserve ra len b = ret_true b"
      by (simp add: cbb_buffer_reserve_def Let_def word_less_nat_alt newlen)
    then show ?thesis using g l 1 by auto
  next
    case 2
    then have "cbb_buffer_reserve ra len b = ret_false (set_error b)"
      by (simp add: cbb_buffer_reserve_def Let_def word_less_nat_alt newlen)
    then show ?thesis using ok l 2 by (auto simp: roomy_def)
  next
    case 3
    define m where "m = (if cap b * 2 < cap b \<or> cap b * 2 < blen b + len then blen b + len else cap b * 2)"
    have m: "unat (cap b) < unat m" "unat (blen b) + unat len \<le> unat m" "unat m \<le> 2 * (unat (blen b) + unat len)"
      using 3 by (auto simp: m_def word_less_nat_alt newlen two)
    have c8: "unat (cap b) + 8 < 2 ^ 63" using 3 ok l by (simp add: buf_ok_def)
    then have m8: "unat m < 2 ^ 64 - 8" using l len by (auto simp: m_def newlen two)
    have e: "cbb_buffer_reserve ra len b = (case ra (buf b) m of
          None \<Rightarrow> None | Some None \<Rightarrow> ret_false (set_error b)
        | Some (Some newbuf) \<Rightarrow> ret_true (b\<lparr>buf := newbuf, cap := m\<rparr>))"
    proof -
      have "cap b < blen b + len" "\<not> blen b + len < blen b" using 3 by (auto simp: word_less_nat_alt newlen)
      with 3 show ?thesis unfolding cbb_buffer_reserve_def Let_def m_def [symmetric] by simp
    qed
    from ra_grows [of "buf b" m] c8 m8 m l consider "ra (buf b) m = Some None"
      | r where "ra (buf b) m = Some (Some r)" "length r = unat m" "length r + 8 < 2 ^ 63" "take (unat (cap b)) r = buf b"
      by fastforce
    then show ?thesis
    proof cases
      case 1
      then have "\<not> unat (blen b) + unat len \<le> n" using ok(2) m 3 l by (force simp: roomy_def)
      with 1 ok(1) show ?thesis unfolding e by auto
    next
      case 2
      let ?b = "b\<lparr>buf := r, cap := m\<rparr>"
      have "buf_ok ?b" using 2 m l 3 by (simp add: buf_ok_def)
      moreover have "content ?b = content b"
        using 2(4) l take_take [of "unat (blen b)" "unat (cap b)" r] by (simp add: content_def min_absorb1)
      moreover have "roomy ra n ?b" using ok(2) m l 2 3 by (auto simp: roomy_def)
      ultimately show ?thesis unfolding e using 2 ok m by (auto simp: good_def)
    qed
  qed
qed

lemma add_outcome:
  assumes g: "good ra n b" and len: "unat len < 2 ^ 63"
  shows "outcome bad_buffer (cbb_buffer_add ra len b)
    (\<lambda>b'. good ra n b' \<and> unat (blen b') = unat (blen b) + unat len
       \<and> (\<exists>x. length x = unat len \<and> content b' = content b @ x))
    (unat (blen b) + unat len \<le> n)"
  unfolding cbb_buffer_add_def
proof (rule outcome_and_then [OF reserve_outcome [OF assms]])
  fix b' assume a: "good ra n b' \<and> content b' = content b \<and> blen b' = blen b \<and> unat (blen b) + unat len \<le> length (buf b')"
  let ?b = "b'\<lparr>blen := blen b' + len\<rparr>"
  have "buf_ok b'" using a by (simp add: good_def)
  then have l: "unat (blen b' + len) = unat (blen b) + unat len"
    using a len by (subst unat_plus_small) (auto simp: buf_ok_def)
  have "good ra n ?b" using a l by (auto simp: good_def buf_ok_def roomy_def)
  moreover have "content ?b = content b @ take (unat len) (drop (unat (blen b)) (buf b'))"
    using a l by (auto simp: content_def take_add)
  ultimately show "outcome bad_buffer (ret_true ?b)
      (\<lambda>b'. good ra n b' \<and> unat (blen b') = unat (blen b) + unat len
         \<and> (\<exists>x. length x = unat len \<and> content b' = content b @ x)) True"
    using l a by (intro outcome_ret) (auto intro!: exI [of _ "take (unat len) (drop (unat (blen b)) (buf b'))"])
qed simp

lemma put_outcome:
  assumes g: "good ra n b" and len: "unat len = length bs" "length bs < 2 ^ 63"
  shows "outcome bad_buffer
    (and_then (cbb_buffer_add ra len b) (\<lambda>b'. map_option (\<lambda>b. (True, b)) (poke (unat (blen b)) bs b')))
    (\<lambda>b'. good ra n b' \<and> content b' = content b @ bs) (unat (blen b) + length bs \<le> n)"
proof (rule outcome_and_then [OF add_outcome [OF g]])
  fix b'
  assume a: "good ra n b' \<and> unat (blen b') = unat (blen b) + unat len \<and> (\<exists>x. length x = unat len \<and> content b' = content b @ x)"
  then obtain x where x: "length x = length bs" "content b' = content b @ x" using len by auto
  have "length (content b) = unat (blen b)" using g by (simp add: good_def)
  with a x len poke_good [of ra n b' "unat (blen b)" bs]
  show "outcome bad_buffer (map_option (\<lambda>b. (True, b)) (poke (unat (blen b)) bs b'))
      (\<lambda>b'. good ra n b' \<and> content b' = content b @ bs) True"
    by (auto simp: outcome_def)
qed (use len in auto)

end

section \<open>Stores of numbers\<close>

lemma be_bytes_Suc: "be_bytes (Suc n) v = be_bytes n (drop_bit 8 v) @ [ucast v]"
proof -
  have "le_bytes (Suc n) v = ucast v # le_bytes n (drop_bit 8 v)"
    unfolding le_bytes_def upt_conv_Cons [OF zero_less_Suc] map_Suc_upt [symmetric]
    by (simp add: byte_at_def comp_def ac_simps)
  then show ?thesis by (simp add: be_bytes_def)
qed

lemma be_bytes_0 [simp]: "be_bytes 0 v = []"
  by (simp add: be_bytes_def le_bytes_def)

lemma store_be_bytes: "store_be n v bs = (be_bytes n v @ bs, drop_bit (8 * n) v)"
  by (induction n v bs rule: store_be.induct) (simp_all add: be_bytes_Suc add.commute)

lemma drop_bit_zero: "drop_bit n v = 0 \<longleftrightarrow> unat v < 2 ^ n"
  by (simp add: word_unat_eq_iff unat_drop_bit div_eq_0_iff)

section \<open>Open parts\<close>

datatype prefix = Fixed nat | Asn1

fun width :: "prefix \<Rightarrow> nat" where
  "width (Fixed n) = n"
| "width Asn1 = 1"

fun proper :: "prefix \<Rightarrow> bool" where
  "proper (Fixed n) \<longleftrightarrow> 0 < n \<and> n < 8"
| "proper Asn1 \<longleftrightarrow> True"

text \<open>The finished prefix, when the length has one.\<close>

fun prefix_bytes :: "prefix \<Rightarrow> nat \<Rightarrow> u8 list option" where
  "prefix_bytes (Fixed n) len = (if len < 256 ^ n then Some (be_bytes n (word_of_nat len :: u64)) else None)"
| "prefix_bytes Asn1 len = (if len \<le> 0xfffffffe then Some (der_length len) else None)"

abbreviation placeholder :: "prefix \<Rightarrow> u8 list" where
  "placeholder k \<equiv> replicate (width k) 0"

type_synonym frame = "nat \<times> prefix \<times> u8 list"

fun layout :: "frame list \<Rightarrow> u8 list" where
  "layout [] = []"
| "layout ((i, k, x) # fs) = placeholder k @ x @ layout fs"

fun closed :: "frame list \<Rightarrow> u8 list option" where
  "closed [] = Some []"
| "closed ((i, k, x) # fs) =
     (case closed fs of
        None \<Rightarrow> None
      | Some t \<Rightarrow> map_option (\<lambda>p. p @ x @ t) (prefix_bytes k (length (x @ t))))"

definition ids :: "frame list \<Rightarrow> nat list" where
  "ids fs = map fst fs"

lemma ids_simps [simp]: "ids [] = []" "ids ((i, k, x) # fs) = i # ids fs"
  by (simp_all add: ids_def)

text \<open>The objects of the open parts, from the one whose own contents end at \<open>pos\<close>.\<close>

fun open_frames :: "(nat \<Rightarrow> cbb) \<Rightarrow> nat \<Rightarrow> nat \<Rightarrow> frame list \<Rightarrow> bool" where
  "open_frames m c pos [] \<longleftrightarrow> child (m c) = None"
| "open_frames m c pos ((i, k, x) # fs) \<longleftrightarrow>
     child (m c) = Some i \<and> base (m i) \<and> is_child (m i) \<and> unat (offset (m i)) = pos
     \<and> unat (pending_len_len (m i)) = width k \<and> pending_is_asn1 (m i) = (k = Asn1) \<and> proper k
     \<and> open_frames m i (pos + width k + length x) fs"

text \<open>The builder seen from the object \<open>c\<close>: what is in front of its open parts, and these.\<close>

definition view :: "reallocate \<Rightarrow> nat \<Rightarrow> builder \<Rightarrow> nat \<Rightarrow> u8 list \<Rightarrow> frame list \<Rightarrow> bool" where
  "view ra n s c out fs \<longleftrightarrow>
     (\<exists>b. buffer s = Some b \<and> good ra n b \<and> content b = out @ layout fs)
     \<and> base (cbbs s c) \<and> open_frames (cbbs s) c (length out) fs \<and> distinct (c # ids fs)"

definition failed :: "builder \<Rightarrow> bool" where
  "failed s \<longleftrightarrow> (\<exists>b. buffer s = Some b \<and> bad_buffer b)"

text \<open>Only \<open>c\<close>'s child pointer and the objects of its open parts change.\<close>

definition framed :: "builder \<Rightarrow> builder \<Rightarrow> nat \<Rightarrow> nat list \<Rightarrow> bool" where
  "framed s s' c is \<longleftrightarrow> (\<forall>i. i \<noteq> c \<and> i \<notin> set is \<longrightarrow> cbbs s' i = cbbs s i)
     \<and> (\<exists>ch. cbbs s' c = (cbbs s c)\<lparr>child := ch\<rparr>)"

lemma width_proper: "proper k \<Longrightarrow> 0 < width k \<and> width k < 8"
  by (cases k) auto

lemma open_frames_cong:
  "(\<And>i. i \<in> set (c # ids fs) \<Longrightarrow> m' i = m i) \<Longrightarrow> open_frames m' c pos fs \<longleftrightarrow> open_frames m c pos fs"
  by (induction m c pos fs rule: open_frames.induct) auto

lemma fail_with_error_failed: "buffer s = Some b \<Longrightarrow> buf_ok b \<Longrightarrow> \<not> ok \<Longrightarrow> outcome failed (fail_with_error s) P ok"
  by (auto simp: fail_with_error_def failed_def)

lemma with_base_outcome:
  assumes "base (cbbs s c)" and "buffer s = Some b" and "outcome bad_buffer (f b) P ok"
  shows "outcome failed (with_base c f s) (\<lambda>s'. \<exists>b'. s' = s\<lparr>buffer := Some b'\<rparr> \<and> P b') ok"
  using assms by (auto simp: with_base_def outcome_def failed_def)

lemma content_small: "buf_ok b \<Longrightarrow> content b = x \<Longrightarrow> length x < 2 ^ 63 \<and> unat (blen b) = length x"
  by (auto simp: content_def buf_ok_def)

section \<open>Closing one part\<close>

context reallocator
begin

lemma length_bytes_outcome:
  assumes b: "buffer s = Some b" "good ra n b" "content b = out @ ph @ body" "length ph = w"
    and i: "unat (pending_len_len (cbbs s i)) = w" "unat (offset (cbbs s i)) = length out" "c \<noteq> i"
  shows "outcome failed (flush_length_bytes c i len s)
    (\<lambda>s'. unat len < 256 ^ w \<and> (\<exists>b' x.
        s' = s\<lparr>buffer := Some b', cbbs := (cbbs s)(i := x, c := (cbbs s c)\<lparr>child := None\<rparr>)\<rparr>
        \<and> good ra n b' \<and> content b' = out @ be_bytes w len @ body))
    (unat len < 256 ^ w)"
proof -
  have ok: "buf_ok b" using b(2) by (simp add: good_def)
  note l = content_small [OF ok b(3)]
  obtain b' where b': "poke (length out) (be_bytes w len) b = Some b'" "good ra n b'" "blen b' = blen b"
      "content b' = out @ be_bytes w len @ body"
    using poke_good [OF b(2), of "length out" "be_bytes w len"] l b(4) by (auto simp: b(3))
  have p: "(256 :: nat) ^ w = 2 ^ (8 * w)" by (simp add: power_mult)
  have e: "flush_length_bytes c i len s =
      (let s = s\<lparr>buffer := Some b'\<rparr> in if drop_bit (8 * w) len \<noteq> 0 then fail_with_error s
       else ret_true (upd c (\<lambda>c. c\<lparr>child := None\<rparr>) (upd i (\<lambda>c. c\<lparr>base := False\<rparr>) s)))"
    by (simp add: flush_length_bytes_def b(1) store_be_bytes i b'(1))
  show ?thesis
  proof (cases "drop_bit (8 * w) len = 0")
    case True
    then have "unat len < 256 ^ w" unfolding p by (simp add: drop_bit_zero)
    with True show ?thesis unfolding e using b' i(3)
      by (auto simp: Let_def upd_def intro!: outcome_ret)
  next
    case False
    then have "\<not> unat len < 256 ^ w" unfolding p by (simp add: drop_bit_zero)
    with False show ?thesis unfolding e Let_def
      using fail_with_error_failed [of "s\<lparr>buffer := Some b'\<rparr>" b'] b'(2) by (simp add: good_def)
  qed
qed

lemma move_outcome:
  assumes g: "good ra n b" and c: "content b = out @ [z] @ body"
    and cs: "unat cs = length out + 1" "unat len = length body" "e < 2 ^ 63"
  shows "outcome bad_buffer (move_contents ra cs e len b)
    (\<lambda>b'. good ra n b' \<and> (\<exists>y. length y = e \<and> content b' = out @ [z] @ y @ body))
    (length (out @ [z] @ body) + e \<le> n)"
proof -
  have e: "unat (word_of_nat e :: u64) = e" using cs(3) by (intro unat_word_of_nat_small) simp
  have l: "unat (blen b) = length (out @ [z] @ body)" using content_small [OF good_simps(1) [OF g] c] by simp
  show ?thesis unfolding move_contents_def
  proof (rule outcome_and_then [OF add_outcome [OF g]])
    fix b'
    assume "good ra n b' \<and> unat (blen b') = unat (blen b) + unat (word_of_nat e :: u64)
        \<and> (\<exists>x. length x = unat (word_of_nat e :: u64) \<and> content b' = content b @ x)"
    then obtain x where g': "good ra n b'" and x: "length x = e" "content b' = out @ [z] @ body @ x"
      and bl: "unat (blen b') = length out + 1 + length body + e"
      using e l c by auto
    have "length out + 1 + length body \<le> length (buf b')"
      using g' bl by (auto simp: good_def buf_ok_def)
    moreover have "take (unat len) (drop (unat cs) (buf b')) = body"
    proof -
      have "take (unat len) (drop (unat cs) (buf b')) = take (unat len) (drop (unat cs) (content b'))"
        using bl cs by (simp add: content_def drop_take min_absorb1)
      then show ?thesis using cs x by simp
    qed
    moreover have p1: "length (take (unat cs + e) (content b')) = unat cs + e"
      and p2: "unat cs + e + length body \<le> unat (blen b')" using bl cs x by auto
    moreover obtain b'' where "poke (unat cs + e) body b' = Some b''" "good ra n b''"
        "content b'' = take (unat cs + e) (content b') @ body @ drop (unat cs + e + length body) (content b')"
      using poke_good [OF g' p1 p2] by blast
    moreover have "take (unat cs + e) (content b') = out @ [z] @ take e (body @ x)"
      using cs x by simp
    ultimately show "outcome bad_buffer
       (if length (buf b') < unat cs + unat len then None
        else map_option (\<lambda>b. (True, b)) (poke (unat cs + e) (take (unat len) (drop (unat cs) (buf b'))) b'))
       (\<lambda>b'. good ra n b' \<and> (\<exists>y. length y = e \<and> content b' = out @ [z] @ y @ body)) True"
      using cs x by (auto simp: outcome_def intro!: exI [of _ "take e (body @ x)"])
  qed (use e l cs in auto)
qed

end

lemma asn1_length_cases:
  "asn1_length len =
     (if 0xfffffffe < unat len then None
      else if unat len < 128 then Some (1, word_of_nat (unat len), 0)
      else Some (Suc (length_size (unat len)), word_of_nat (length_size (unat len)) OR 0x80, len))"
  by (auto simp: asn1_length_def length_size_def word_less_nat_alt)

context reallocator
begin

lemma asn1_child_outcome:
  assumes b: "buffer s = Some b" "good ra n b" "content b = out @ [0] @ body"
    and i: "unat (pending_len_len (cbbs s i)) = 1" "unat (offset (cbbs s i)) = length out" "c \<noteq> i"
      "pending_is_asn1 (cbbs s i)" and cs: "unat cs = length out + 1"
  shows "outcome failed (flush_child ra c i cs s)
    (\<lambda>s'. length body \<le> 0xfffffffe \<and> (\<exists>b' x.
        s' = s\<lparr>buffer := Some b', cbbs := (cbbs s)(i := x, c := (cbbs s c)\<lparr>child := None\<rparr>)\<rparr>
        \<and> good ra n b' \<and> content b' = out @ der_length (length body) @ body))
    (length body \<le> 0xfffffffe \<and> length (out @ der_length (length body) @ body) \<le> n)"
proof -
  have ok: "buf_ok b" using b(2) by (simp add: good_def)
  note l = content_small [OF ok b(3)]
  define len where "len = blen b - cs"
  have len: "unat len = length body"
    unfolding len_def using l cs by (subst unat_sub) (auto simp: word_le_nat_alt)
  have pend: "pending_len_len (cbbs s i) = 1" using i(1) by (simp add: word_unat_eq_iff)
  have e: "flush_child ra c i cs s = (case flush_asn1_length ra i cs len s of
       None \<Rightarrow> None | Some None \<Rightarrow> fail_with_error s | Some (Some (len, s)) \<Rightarrow> flush_length_bytes c i len s)"
    by (simp add: flush_child_def b(1) i(4) Let_def len_def)
  have off: "unat (offset (cbbs s i) + 1) = length out + 1"
    using i(2) l by (subst unat_plus_small) auto
  let ?s = "\<lambda>b' w. upd i (\<lambda>c. c\<lparr>offset := offset c + 1, pending_len_len := word_of_nat w\<rparr>) (s\<lparr>buffer := Some b'\<rparr>)"
  consider "0xfffffffe < length body" | "length body < 128" | "128 \<le> length body" "length body \<le> 0xfffffffe"
    by linarith
  then show ?thesis
  proof cases
    case 1
    then have "flush_asn1_length ra i cs len s = Some None"
      by (simp add: flush_asn1_length_def pend asn1_length_cases len)
    with 1 show ?thesis unfolding e by (auto intro: fail_with_error_failed [OF b(1) ok])
  next
    case 2
    define byte :: u8 where "byte = word_of_nat (length body)"
    obtain b' where b': "poke (length out) [byte] b = Some b'" "good ra n b'" "content b' = (out @ [byte]) @ body"
      using poke_good [OF b(2), of "length out" "[byte]"] l by (auto simp: b(3))
    have a: "flush_asn1_length ra i cs len s = Some (Some (0, ?s b' 0))"
      using 2 by (simp add: flush_asn1_length_def pend asn1_length_cases len b(1) i(2) ret_true_def b'(1) flip: byte_def)
    have "outcome failed (flush_length_bytes c i 0 (?s b' 0))
      (\<lambda>s'. unat (0 :: u64) < 256 ^ 0 \<and> (\<exists>b'' x. s' = (?s b' 0)\<lparr>buffer := Some b'', cbbs := (cbbs (?s b' 0))(i := x, c := (cbbs (?s b' 0) c)\<lparr>child := None\<rparr>)\<rparr>
        \<and> good ra n b'' \<and> content b'' = (out @ [byte]) @ be_bytes 0 (0 :: u64) @ body)) (unat (0 :: u64) < 256 ^ 0)"
      by (rule length_bytes_outcome [where ph = "[]" and b = b']) (use b' i off in \<open>auto simp: upd_def\<close>)
    then show ?thesis unfolding e a using 2 i(3)
      by (auto elim!: outcome_weaken simp: upd_def der_length_def byte_def)
  next
    case 3
    define w where "w = length_size (length body)"
    define byte :: u8 where "byte = word_of_nat w OR 0x80"
    have w: "0 < w" "w \<le> 4" using length_size_cases [of "length body"] by (auto simp: w_def)
    have dl: "der_length (length body) = byte # be_bytes w len"
      using 3 by (simp add: der_length_def byte_def w_def flip: len)
    have w256: "unat len < 256 ^ w"
      using length_size_bounds(1) [of "length body"] 3 len by (simp add: w_def power_mult)
    have mv: "outcome bad_buffer (move_contents ra cs w len b)
      (\<lambda>b'. good ra n b' \<and> (\<exists>y. length y = w \<and> content b' = out @ [0] @ y @ body))
      (length (out @ [0] @ body) + w \<le> n)"
      by (rule move_outcome [OF b(2,3) cs len]) (use w in simp)
    have fa: "flush_asn1_length ra i cs len s =
      (case move_contents ra cs w len b of
         None \<Rightarrow> None | Some (False, b) \<Rightarrow> Some None
       | Some (True, b) \<Rightarrow> (case poke (length out) [byte] b of None \<Rightarrow> None | Some b \<Rightarrow> Some (Some (len, ?s b w))))"
      using 3 w by (simp add: flush_asn1_length_def pend asn1_length_cases len b(1) flip: byte_def w_def)
        (unfold i(2) diff_Suc_1, rule refl)
    from mv consider b1 y where "move_contents ra cs w len b = Some (True, b1)" "good ra n b1" "length y = w"
        "content b1 = out @ [0] @ y @ body"
      | b1 where "move_contents ra cs w len b = Some (False, b1)" "\<not> length (out @ [0] @ body) + w \<le> n"
      by (auto simp: outcome_def)
    then show ?thesis
    proof cases
      case 1
      obtain b' where b': "poke (length out) [byte] b1 = Some b'" "good ra n b'" "content b' = (out @ [byte]) @ y @ body"
        using poke_good [OF 1(2), of "length out" "[byte]"] content_small [OF good_simps(1) [OF 1(2)] 1(4)]
        by (auto simp: 1(4))
      have "outcome failed (flush_length_bytes c i len (?s b' w))
        (\<lambda>s'. unat len < 256 ^ w \<and> (\<exists>b'' x. s' = (?s b' w)\<lparr>buffer := Some b'', cbbs := (cbbs (?s b' w))(i := x, c := (cbbs (?s b' w) c)\<lparr>child := None\<rparr>)\<rparr>
          \<and> good ra n b'' \<and> content b'' = (out @ [byte]) @ be_bytes w len @ body)) (unat len < 256 ^ w)"
        by (rule length_bytes_outcome [where ph = y and b = b'])
          (use b' i off 1(3) w in \<open>auto simp: upd_def unat_word_of_nat_small\<close>)
      then show ?thesis unfolding e fa using 1(1) b'(1) i(3) 3 w256
        by (auto elim!: outcome_weaken simp: upd_def dl)
    next
      case 2
      then show ?thesis unfolding e fa by (auto simp: dl intro: fail_with_error_failed [OF b(1) ok])
    qed
  qed
qed

end

end
