(* ===== verification/Cbb_Ops.thy ===== *)
theory Cbb_Ops
  imports Cbb_Refine
begin

text \<open>
  The operations of the builder refine the abstract one: flushing closes the open parts,
  adding appends after closing them, and a child is an open part of its parent. The locale
  \<open>reallocator\<close> is interpreted on the model of \<^verbatim>\<open>OPENSSL_realloc\<close> at the end.
\<close>

context reallocator
begin

section \<open>Flushing\<close>

lemma flush_child_outcome:
  assumes b: "buffer s = Some b" "good ra n b" "content b = out @ placeholder k @ body"
    and i: "unat (pending_len_len (cbbs s i)) = width k" "unat (offset (cbbs s i)) = length out" "c \<noteq> i"
      "pending_is_asn1 (cbbs s i) = (k = Asn1)" and cs: "unat cs = length out + width k"
  shows "outcome failed (flush_child ra c i cs s)
    (\<lambda>s'. \<exists>p. prefix_bytes k (length body) = Some p \<and> (\<exists>b' x.
        s' = s\<lparr>buffer := Some b', cbbs := (cbbs s)(i := x, c := (cbbs s c)\<lparr>child := None\<rparr>)\<rparr>
        \<and> good ra n b' \<and> content b' = out @ p @ body))
    (\<exists>p. prefix_bytes k (length body) = Some p \<and> length (out @ p @ body) \<le> n)"
proof (cases k)
  case (Fixed w)
  note l = content_small [OF good_simps(1) [OF b(2)] b(3)]
  have len: "unat (blen b - cs) = length body" "blen b - cs = word_of_nat (length body)"
  proof -
    show u: "unat (blen b - cs) = length body"
      using l cs by (subst unat_sub) (auto simp: word_le_nat_alt)
    show "blen b - cs = word_of_nat (length body)" by (simp flip: u)
  qed
  have "outcome failed (flush_length_bytes c i (blen b - cs) s)
    (\<lambda>s'. unat (blen b - cs) < 256 ^ w \<and> (\<exists>b' x.
        s' = s\<lparr>buffer := Some b', cbbs := (cbbs s)(i := x, c := (cbbs s c)\<lparr>child := None\<rparr>)\<rparr>
        \<and> good ra n b' \<and> content b' = out @ be_bytes w (blen b - cs) @ body))
    (unat (blen b - cs) < 256 ^ w)"
    by (rule length_bytes_outcome [OF b(1,2)]) (use b(3) i Fixed in auto)
  moreover have "flush_child ra c i cs s = flush_length_bytes c i (blen b - cs) s"
    using i(4) by (simp add: flush_child_def b(1) Fixed)
  moreover have "unat (word_of_nat (length body) :: u64) = length body" by (simp flip: len)
  ultimately show ?thesis using Fixed
    by (auto simp: len(2) outcome_def)
next
  case Asn1
  then show ?thesis
    using asn1_child_outcome [OF b(1,2), of out body i c cs] b(3) i cs by (auto elim!: outcome_weaken)
qed

lemma view_child:
  "view ra n s c out ((i, k, x) # fs) \<Longrightarrow> view ra n s i (out @ placeholder k @ x) fs"
  by (auto simp: view_def add.assoc)

lemma closed_length: "closed fs = Some t \<Longrightarrow> length (layout fs) \<le> length t"
proof (induction fs arbitrary: t)
  case (Cons f fs)
  obtain i k x where f: "f = (i, k, x)" by (cases f)
  then obtain t' p where t: "closed fs = Some t'" "prefix_bytes k (length (x @ t')) = Some p" "t = p @ x @ t'"
    using Cons.prems by (auto split: option.splits)
  have "width k \<le> length p" using t(2) by (cases k) (auto simp: der_length_def split: if_splits)
  with Cons.IH [OF t(1)] t f show ?case by simp
qed simp

text \<open>Flushing closes the open parts.\<close>

lemma flush_outcome:
  assumes "view ra n s c out fs"
  shows "outcome failed (CBB_flush ra c s)
    (\<lambda>s'. \<exists>t. closed fs = Some t \<and> view ra n s' c (out @ t) [] \<and> framed s s' c (ids fs))
    (\<exists>t. closed fs = Some t \<and> length out + length t \<le> n)"
  using assms
proof (induction fs arbitrary: s c out)
  case Nil
  then obtain b where b: "buffer s = Some b" "good ra n b" "base (cbbs s c)" "child (cbbs s c) = None"
    by (auto simp: view_def)
  then have "CBB_flush ra c s = ret_true s" by (subst CBB_flush.simps) (simp add: good_def)
  moreover have "framed s s c []" unfolding framed_def by (auto intro: exI [of _ "child (cbbs s c)"])
  ultimately show ?case using Nil by auto
next
  case (Cons f fs)
  obtain i k x where f: "f = (i, k, x)" by (cases f)
  with Cons.prems obtain b where b: "buffer s = Some b" "good ra n b" "base (cbbs s c)"
      "child (cbbs s c) = Some i" "unat (offset (cbbs s i)) = length out"
      "unat (pending_len_len (cbbs s i)) = width k" "pending_is_asn1 (cbbs s i) = (k = Asn1)" "proper k"
      "content b = out @ placeholder k @ x @ layout fs" and d: "distinct (c # i # ids fs)"
    by (auto simp: view_def)
  note l = content_small [OF good_simps(1) [OF b(2)] b(9)]
  define cs where "cs = offset (cbbs s i) + ucast (pending_len_len (cbbs s i))"
  have cs: "unat cs = length out + width k"
    unfolding cs_def using b(5,6) l width_proper [OF b(8)]
    by (subst unat_plus_small) (simp_all add: unat_ucast_up)
  let ?after = "\<lambda>(ok, s). case buffer s of None \<Rightarrow> None
      | Some b \<Rightarrow> if \<not> ok \<or> cs < offset (cbbs s i) \<or> blen b < cs then fail_with_error s
        else flush_child ra c i cs s"
  have "pending_len_len (cbbs s i) \<noteq> 0" using b(6) width_proper [OF b(8)] by auto
  then have e: "CBB_flush ra c s = Option.bind (CBB_flush ra i s) ?after"
    using b(1-4) by (subst CBB_flush.simps) (simp add: good_def Let_def flip: cs_def)
  from Cons.IH [OF view_child [OF Cons.prems [unfolded f]]]
  consider s1 t where "CBB_flush ra i s = Some (True, s1)" "closed fs = Some t"
      "view ra n s1 i ((out @ placeholder k @ x) @ t) []" "framed s s1 i (ids fs)"
    | s1 where "CBB_flush ra i s = Some (False, s1)" "failed s1"
      "\<not> (\<exists>t. closed fs = Some t \<and> length (out @ placeholder k @ x) + length t \<le> n)"
    by (auto simp: outcome_def)
  then show ?case
  proof cases
    case 1
    then obtain b1 where b1: "buffer s1 = Some b1" "good ra n b1" "content b1 = out @ placeholder k @ x @ t"
      and m1: "\<And>j. j \<noteq> i \<Longrightarrow> j \<notin> set (ids fs) \<Longrightarrow> cbbs s1 j = cbbs s j"
        "\<exists>ch. cbbs s1 i = (cbbs s i)\<lparr>child := ch\<rparr>"
      by (auto simp: view_def framed_def)
    note l1 = content_small [OF good_simps(1) [OF b1(2)] b1(3)]
    have i1: "offset (cbbs s1 i) = offset (cbbs s i)" "pending_len_len (cbbs s1 i) = pending_len_len (cbbs s i)"
        "pending_is_asn1 (cbbs s1 i) = pending_is_asn1 (cbbs s i)" using m1(2) by auto
    have "?after (True, s1) = flush_child ra c i cs s1"
      using l1 b(5) i1(1) cs by (auto simp: b1(1) word_less_nat_alt)
    moreover have "outcome failed (flush_child ra c i cs s1)
        (\<lambda>s'. \<exists>p. prefix_bytes k (length (x @ t)) = Some p \<and> (\<exists>b' y.
          s' = s1\<lparr>buffer := Some b', cbbs := (cbbs s1)(i := y, c := (cbbs s1 c)\<lparr>child := None\<rparr>)\<rparr>
          \<and> good ra n b' \<and> content b' = out @ p @ x @ t))
        (\<exists>p. prefix_bytes k (length (x @ t)) = Some p \<and> length (out @ p @ x @ t) \<le> n)"
      by (rule flush_child_outcome [OF b1]) (use b i1 d cs in auto)
    moreover have "cbbs s1 c = cbbs s c" using m1(1) d by simp
    ultimately show ?thesis unfolding e 1(1) f
      using 1(2) m1 d b(3) by (auto elim!: outcome_weaken simp: view_def framed_def)
  next
    case 2
    then obtain b1 where "buffer s1 = Some b1" "buf_ok b1" by (auto simp: failed_def bad_buffer_def)
    then have bad: "outcome failed (CBB_flush ra c s) P False" for P
      unfolding e 2(1) by (auto intro: fail_with_error_failed)
    have "\<not> (\<exists>t. closed (f # fs) = Some t \<and> length out + length t \<le> n)"
    proof
      assume "\<exists>t. closed (f # fs) = Some t \<and> length out + length t \<le> n"
      then obtain t p where t: "closed fs = Some t" "prefix_bytes k (length (x @ t)) = Some p"
          "length out + length (p @ x @ t) \<le> n" using f by (auto split: option.splits)
      moreover have "width k \<le> length p" using t(2) by (cases k) (auto simp: der_length_def split: if_splits)
      ultimately show False using 2(3) by auto
    qed
    then show ?thesis by (intro outcome_weaken [OF bad]) blast+
  qed
qed

end

section \<open>Appending\<close>

text \<open>
  The call \<open>r\<close> from the state \<open>s\<close> closes the open parts \<open>fs\<close> of \<open>c\<close> and appends \<open>bs\<close>; it
  touches no other object than \<open>c\<close>, those of the open parts and those in \<open>ex\<close>. It fails only when
  \<open>C\<close> does not hold, a part has too many contents for its prefix, or there is no room.
\<close>

definition appended :: "reallocate \<Rightarrow> nat \<Rightarrow> nat list \<Rightarrow> builder \<Rightarrow> nat \<Rightarrow> u8 list \<Rightarrow> frame list \<Rightarrow> u8 list
    \<Rightarrow> bool \<Rightarrow> builder cres \<Rightarrow> bool" where
  "appended ra n ex s c out fs bs C r \<longleftrightarrow>
     outcome failed r
       (\<lambda>s'. C \<and> (\<exists>t. closed fs = Some t \<and> view ra n s' c (out @ t @ bs) [] \<and> framed s s' c (ex @ ids fs)))
       (C \<and> (\<exists>t. closed fs = Some t \<and> length (out @ t @ bs) \<le> n))"

lemma same_child [simp]: "\<exists>ch. c = (c :: cbb)\<lparr>child := ch\<rparr>"
  by (rule exI [of _ "child c"]) simp

lemma framed_refl [simp]: "framed s s c is"
  by (simp add: framed_def)

lemma framed_cbbs: "cbbs s' = cbbs s \<Longrightarrow> framed s s' c is"
  by (simp add: framed_def)

lemma framed_mono: "framed s s' c is \<Longrightarrow> set is \<subseteq> set ks \<Longrightarrow> framed s s' c ks"
  unfolding framed_def by blast

lemma framed_trans: "framed s s1 c is \<Longrightarrow> framed s1 s2 c js \<Longrightarrow> set is \<union> set js \<subseteq> set ks \<Longrightarrow> framed s s2 c ks"
  unfolding framed_def by (metis UnCI cbb.surjective cbb.update_convs(2) subsetD)

lemma framed_child: "framed s s' i is \<Longrightarrow> i \<noteq> c \<Longrightarrow> c \<notin> set is \<Longrightarrow> framed s s' c (i # is)"
  unfolding framed_def by (metis cbb.surjective cbb.update_convs(2) list.set_intros)

context reallocator
begin

lemma appended_and_then:
  assumes r: "appended ra n ex s c out fs bs1 C1 r"
    and f: "\<And>s1 out1. view ra n s1 c out1 [] \<Longrightarrow> appended ra n ex s1 c out1 [] bs2 C2 (f s1)"
  shows "appended ra n ex s c out fs (bs1 @ bs2) (C1 \<and> C2) (and_then r f)"
  unfolding appended_def
proof (rule outcome_and_then [OF r [unfolded appended_def]])
  fix s1
  assume a: "C1 \<and> (\<exists>t. closed fs = Some t \<and> view ra n s1 c (out @ t @ bs1) [] \<and> framed s s1 c (ex @ ids fs))"
  then obtain t where t: "closed fs = Some t" "view ra n s1 c (out @ t @ bs1) []" "framed s s1 c (ex @ ids fs)"
    by blast
  show "outcome failed (f s1)
      (\<lambda>s'. (C1 \<and> C2) \<and> (\<exists>t. closed fs = Some t \<and> view ra n s' c (out @ t @ bs1 @ bs2) [] \<and> framed s s' c (ex @ ids fs)))
      (C2 \<and> (\<exists>t. closed fs = Some t \<and> length (out @ t @ bs1 @ bs2) \<le> n))"
    by (rule outcome_weaken [OF f [OF t(2), unfolded appended_def]])
      (use a t in \<open>auto intro: framed_trans [OF t(3)]\<close>)
qed auto

lemma appended_Nil: "view ra n s c out [] \<Longrightarrow> appended ra n ex s c out [] [] True (ret_true s)"
  by (auto simp: appended_def)

lemma appended_flush: "view ra n s c out fs \<Longrightarrow> appended ra n ex s c out fs [] True (CBB_flush ra c s)"
  unfolding appended_def
  by (rule outcome_weaken [OF flush_outcome]) (auto elim!: framed_mono)

lemma appended_weaken:
  "appended ra n ex s c out fs bs C r \<Longrightarrow> set ex \<subseteq> set ex' \<Longrightarrow> C = C' \<Longrightarrow> bs = bs' \<Longrightarrow> appended ra n ex' s c out fs bs' C' r"
  unfolding appended_def by (erule outcome_weaken) (auto elim!: framed_mono, blast)

lemma with_base_appended:
  assumes v: "view ra n s c out []"
    and f: "\<And>b. good ra n b \<Longrightarrow> outcome bad_buffer (f b) (\<lambda>b'. C \<and> good ra n b' \<and> content b' = content b @ bs)
      (C \<and> unat (blen b) + length bs \<le> n)"
  shows "appended ra n ex s c out [] bs C (with_base c f s)"
proof -
  from v obtain b where b: "buffer s = Some b" "good ra n b" "content b = out" "base (cbbs s c)" "child (cbbs s c) = None"
    by (auto simp: view_def)
  show ?thesis unfolding appended_def
    by (rule outcome_weaken [OF with_base_outcome [where f = f and b = b, OF b(4,1) f [OF b(2)]]])
      (use b content_small [OF good_simps(1) [OF b(2)] b(3)] in \<open>auto simp: view_def intro: framed_cbbs\<close>)
qed

lemma flush_with_base:
  assumes v: "view ra n s c out fs"
    and f: "\<And>b. good ra n b \<Longrightarrow> outcome bad_buffer (f b) (\<lambda>b'. C \<and> good ra n b' \<and> content b' = content b @ bs)
      (C \<and> unat (blen b) + length bs \<le> n)"
  shows "appended ra n ex s c out fs bs C (and_then (CBB_flush ra c s) (with_base c f))"
  using appended_and_then [OF appended_flush [OF v] with_base_appended [OF _ f]] by simp

lemma add_bytes_appended:
  assumes "view ra n s c out fs" and "length data < 2 ^ 63"
  shows "appended ra n ex s c out fs data True (CBB_add_bytes ra c data s)"
  unfolding CBB_add_bytes_def Let_def
proof (rule flush_with_base [OF assms(1)])
  fix b assume "good ra n b"
  from put_outcome [OF this, of "word_of_nat (length data)" data] assms(2)
  show "outcome bad_buffer (and_then (cbb_buffer_add ra (word_of_nat (length data)) b)
       (\<lambda>ba. map_option (\<lambda>b. (True, b)) (poke (unat (blen b)) data ba)))
     (\<lambda>b'. True \<and> good ra n b' \<and> content b' = content b @ data) (True \<and> unat (blen b) + length data \<le> n)"
    by (simp add: unat_word_of_nat_small)
qed

lemma buffer_add_u_outcome:
  assumes g: "good ra n b" and l: "0 < len" "len \<le> 8"
  shows "outcome bad_buffer (cbb_buffer_add_u ra v len b)
    (\<lambda>b'. unat v < 256 ^ len \<and> good ra n b' \<and> content b' = content b @ be_bytes len v)
    (unat v < 256 ^ len \<and> unat (blen b) + length (be_bytes len v) \<le> n)"
proof -
  have p: "(256 :: nat) ^ len = 2 ^ (8 * len)" by (simp add: power_mult)
  have e: "cbb_buffer_add_u ra v len b =
    and_then (and_then (cbb_buffer_add ra (word_of_nat len) b)
        (\<lambda>b'. map_option (\<lambda>b. (True, b)) (poke (unat (blen b)) (be_bytes len v) b')))
      (\<lambda>b. if drop_bit (8 * len) v \<noteq> 0 then ret_false (set_error b) else ret_true b)"
    using l by (auto simp: cbb_buffer_add_u_def store_be_bytes and_then_def split: option.splits)
  have "outcome bad_buffer (and_then (cbb_buffer_add ra (word_of_nat len) b)
        (\<lambda>b'. map_option (\<lambda>b. (True, b)) (poke (unat (blen b)) (be_bytes len v) b')))
      (\<lambda>b'. good ra n b' \<and> content b' = content b @ be_bytes len v) (unat (blen b) + length (be_bytes len v) \<le> n)"
    by (rule put_outcome [OF g]) (use l in \<open>auto simp: unat_word_of_nat_small\<close>)
  then show ?thesis unfolding e
    by (rule outcome_and_then [where okf = "unat v < 256 ^ len"])
      (auto simp: p drop_bit_zero outcome_ret outcome_false good_simps intro!: outcome_ret outcome_false)
qed

lemma add_u_appended:
  assumes "view ra n s c out fs" and "0 < len" "len \<le> 8"
  shows "appended ra n ex s c out fs (be_bytes len v) (unat v < 256 ^ len) (add_u ra c v len s)"
  unfolding add_u_def by (rule flush_with_base [OF assms(1) buffer_add_u_outcome [OF _ assms(2,3)]])

lemma ucast_8_64_8 [simp]: "ucast (ucast (v :: u8) :: u64) = v"
  by (rule bit_word_eqI) (auto simp: bit_ucast_iff)

lemma add_u8_appended:
  assumes "view ra n s c out fs"
  shows "appended ra n ex s c out fs [v] True (CBB_add_u8 ra c v s)"
proof -
  have "unat (ucast v :: u64) < 256 ^ 1" using unat_bound [of v] by (simp add: unat_ucast_up)
  moreover have "be_bytes 1 (ucast v :: u64) = [v]" by (simp add: be_bytes_Suc)
  ultimately show ?thesis
    using add_u_appended [OF assms, of 1 ex "ucast v"] by (simp add: CBB_add_u8_def)
qed

end

end
