(* ===== verification/Cbb_Der.thy ===== *)
theory Cbb_Der
  imports Cbb_Ops
begin

text \<open>
  Parts of the builder: opening a child, writing to it and flushing the parent is appending
  one length-prefixed part; and the DER writers of the builder append the DER encodings that
  the reader of \<^verbatim>\<open>cbs.c\<close> accepts.
\<close>

section \<open>Base-128 numbers\<close>

fun b128_highs :: "u64 \<Rightarrow> nat \<Rightarrow> u8 list" where
  "b128_highs v 0 = []"
| "b128_highs v (Suc i) = (ucast (drop_bit (7 * i) v AND 0x7f) OR 0x80) # b128_highs v i"

lemma b128_highs_snoc:
  "b128_highs v (Suc i) = b128_highs (drop_bit 7 v) i @ [ucast (v AND 0x7f) OR 0x80]"
  by (induction i) (simp_all add: drop_bit_drop_bit ac_simps)

lemma and_127: "(ucast (v AND 0x7f) :: u8) = word_of_nat (unat v mod 128)" for v :: u64
proof -
  have "v AND 0x7f = take_bit 7 v" by (simp add: take_bit_eq_mask mask_eq_exp_minus_1)
  then have "unat (v AND 0x7f) = take_bit 7 (unat v)" by (simp only: unsigned_take_bit_eq)
  then have "unat (v AND 0x7f) = unat v mod 128" using take_bit_eq_mod [of 7 "unat v"] by simp
  then have "word_of_nat (unat (v AND 0x7f)) = (word_of_nat (unat v mod 128) :: u8)" by simp
  then show ?thesis by simp
qed

lemma b128_highs_size: "b128_highs v (base128_size v) = b128_high (unat v)"
proof (induction v rule: base128_size.induct)
  case (1 v)
  show ?case
  proof (cases "v = 0")
    case False
    then have "unat v \<noteq> 0" by (simp add: unat_eq_0)
    with False 1 show ?thesis
      by (subst base128_size.simps, subst b128_high.simps)
        (simp add: b128_highs_snoc and_127 unat_drop_bit del: b128_highs.simps)
  qed (simp add: base128_size.simps)
qed

lemma base128_size_drop: "v \<noteq> 0 \<Longrightarrow> base128_size v = Suc (base128_size (drop_bit 7 v))"
  by (simp add: base128_size.simps [of v])

fun b128_written :: "u64 \<Rightarrow> nat \<Rightarrow> u8 list" where
  "b128_written v 0 = []"
| "b128_written v (Suc i) =
     (let byte = ucast (drop_bit (7 * i) v AND 0x7f)
      in (if i \<noteq> 0 then byte OR 0x80 else byte) # b128_written v i)"

lemma b128_written_highs: "b128_written v (Suc i) = b128_highs (drop_bit 7 v) i @ [ucast (v AND 0x7f)]"
  by (induction i) (simp_all add: drop_bit_drop_bit ac_simps)

lemma b128_written_bytes:
  "b128_written v (if base128_size v = 0 then 1 else base128_size v) = b128_bytes (unat v)"
proof (cases "v = 0")
  case True
  then show ?thesis by (simp add: base128_size.simps b128_bytes_def)
next
  case False
  then show ?thesis
    using b128_highs_size [of "drop_bit 7 v"]
    by (simp add: base128_size_drop b128_written_highs b128_bytes_def and_127 unat_drop_bit del: b128_written.simps)
qed

section \<open>Parts\<close>

text \<open>The call opens the part \<open>o\<close> with the prefix \<open>k\<close> behind \<open>h\<close>.\<close>

definition opened :: "reallocate \<Rightarrow> nat \<Rightarrow> nat list \<Rightarrow> builder \<Rightarrow> nat \<Rightarrow> u8 list \<Rightarrow> frame list \<Rightarrow> u8 list
    \<Rightarrow> nat \<Rightarrow> prefix \<Rightarrow> builder cres \<Rightarrow> bool" where
  "opened ra n ex s c out fs h i k r \<longleftrightarrow>
     outcome failed r
       (\<lambda>s'. \<exists>t. closed fs = Some t \<and> view ra n s' c (out @ t @ h) [(i, k, [])] \<and> framed s s' c (i # ex @ ids fs))
       (\<exists>t. closed fs = Some t \<and> length (out @ t @ h @ placeholder k) \<le> n)"

lemma open_child_view:
  assumes v: "view ra n s c (out @ placeholder k) []" and i: "i \<noteq> c"
    and off: "unat off = length out" and w: "unat w = width k" "proper k" and a: "a = (k = Asn1)"
  shows "view ra n (open_child c i off w a s) c out [(i, k, [])] \<and> framed s (open_child c i off w a s) c [i]"
  using assms by (auto simp: view_def framed_def open_child_def Let_def upd_def zero_cbb_def)

lemma view_base_len: "view ra n s c out [] \<Longrightarrow> unat (base_len s) = length out"
  by (auto simp: view_def base_len_def dest: content_small [OF good_simps(1)])

context reallocator
begin

lemma base128_loop_appended:
  "view ra n s c out [] \<Longrightarrow> appended ra n ex s c out [] (b128_written v k) True (add_base128_loop ra c v k s)"
proof (induction k arbitrary: s out)
  case 0
  then show ?case by (simp add: appended_Nil)
next
  case (Suc i)
  have "appended ra n ex s c out [] ([if i \<noteq> 0 then ucast (drop_bit (7 * i) v AND 0x7f) OR 0x80
        else ucast (drop_bit (7 * i) v AND 0x7f)] @ b128_written v i) (True \<and> True)
      (add_base128_loop ra c v (Suc i) s)"
    unfolding add_base128_loop.simps Let_def
    by (rule appended_and_then [OF add_u8_appended [OF Suc.prems] Suc.IH])
  then show ?case by (simp add: Let_def)
qed

lemma base128_appended:
  "view ra n s c out [] \<Longrightarrow> appended ra n ex s c out [] (b128_bytes (unat v)) True (add_base128_integer ra c v s)"
  unfolding add_base128_integer_def Let_def b128_written_bytes [symmetric] by (rule base128_loop_appended)

lemma tag_appended:
  assumes "view ra n s c out fs"
  shows "appended ra n ex s c out fs (der_tag tag) True
    (and_then (CBB_flush ra c s) (\<lambda>s.
       if 0x1f \<le> tag AND 0x1FFFFFFF then
         and_then (CBB_add_u8 ra c ((ucast (drop_bit 24 tag) AND 0xe0) OR 0x1f) s)
           (add_base128_integer ra c (ucast (tag AND 0x1FFFFFFF)))
       else CBB_add_u8 ra c ((ucast (drop_bit 24 tag) AND 0xe0) OR ucast (tag AND 0x1FFFFFFF)) s))"
proof -
  have "appended ra n ex s1 c out1 [] (der_tag tag) True
     (if 0x1f \<le> tag AND 0x1FFFFFFF then
         and_then (CBB_add_u8 ra c ((ucast (drop_bit 24 tag) AND 0xe0) OR 0x1f) s1)
           (add_base128_integer ra c (ucast (tag AND 0x1FFFFFFF)))
       else CBB_add_u8 ra c ((ucast (drop_bit 24 tag) AND 0xe0) OR ucast (tag AND 0x1FFFFFFF)) s1)"
    if "view ra n s1 c out1 []" for s1 out1
  proof (cases "tag AND 0x1FFFFFFF < 0x1f")
    case True
    then have "\<not> 0x1f \<le> tag AND 0x1FFFFFFF" by simp
    then show ?thesis using add_u8_appended [OF that] True unfolding der_tag_def Let_def by presburger
  next
    case False
    then have "0x1f \<le> tag AND 0x1FFFFFFF" by simp
    then show ?thesis
      using appended_and_then [OF add_u8_appended [OF that] base128_appended, of ex _ "ucast (tag AND 0x1FFFFFFF)"] False
      unfolding der_tag_def Let_def by simp
  qed
  from appended_and_then [OF appended_flush [OF assms] this] show ?thesis by simp
qed

lemma opened_after:
  assumes r: "appended ra n ex s c out fs h True r"
    and f: "\<And>s1 out1. view ra n s1 c out1 [] \<Longrightarrow> opened ra n ex s1 c out1 [] h' i k (f s1)"
  shows "opened ra n ex s c out fs (h @ h') i k (and_then r f)"
  unfolding opened_def
proof (rule outcome_and_then [OF r [unfolded appended_def]])
  fix s1
  assume "True \<and> (\<exists>t. closed fs = Some t \<and> view ra n s1 c (out @ t @ h) [] \<and> framed s s1 c (ex @ ids fs))"
  then obtain t where t: "closed fs = Some t" "view ra n s1 c (out @ t @ h) []" "framed s s1 c (ex @ ids fs)"
    by blast
  show "outcome failed (f s1)
     (\<lambda>s'. \<exists>t. closed fs = Some t \<and> view ra n s' c (out @ t @ h @ h') [(i, k, [])] \<and> framed s s' c (i # ex @ ids fs))
     (\<exists>t. closed fs = Some t \<and> length (out @ t @ (h @ h') @ placeholder k) \<le> n)"
    by (rule outcome_weaken [OF f [OF t(2), unfolded opened_def]])
      (use t in \<open>auto intro: framed_trans [OF t(3)]\<close>)
qed auto

lemma open_prefix:
  assumes v: "view ra n s c out []" and i: "i \<noteq> c"
    and k: "unat w = width k" "proper k" "a = (k = Asn1)"
    and r: "appended ra n ex s c out [] (placeholder k) True r"
  shows "opened ra n ex s c out [] [] i k
    (and_then r (\<lambda>s'. ret_true (open_child c i (base_len s) w a s')))"
  unfolding opened_def
proof (rule outcome_and_then [OF r [unfolded appended_def]])
  fix s1
  assume "True \<and> (\<exists>t. closed [] = Some t \<and> view ra n s1 c (out @ t @ placeholder k) [] \<and> framed s s1 c (ex @ ids []))"
  then have s1: "view ra n s1 c (out @ placeholder k) []" "framed s s1 c ex" by auto
  from open_child_view [OF s1(1) i view_base_len [OF v] k]
  show "outcome failed (ret_true (open_child c i (base_len s) w a s1))
     (\<lambda>s'. \<exists>t. closed [] = Some t \<and> view ra n s' c (out @ t @ []) [(i, k, [])] \<and> framed s s' c (i # ex @ ids []))
     True"
    by (auto intro!: outcome_ret intro: framed_trans [OF s1(2)])
qed auto

lemma add_asn1_opened:
  assumes "view ra n s c out fs" and "i \<noteq> c"
  shows "opened ra n ex s c out fs (der_tag tag) i Asn1 (CBB_add_asn1 ra c i tag s)"
proof -
  have assoc: "and_then (and_then r f) g = and_then r (\<lambda>s. and_then (f s) g)" for r :: "builder cres" and f g
    by (auto simp: and_then_def split: option.splits)
  have "opened ra n ex s1 c out1 [] [] i Asn1 (and_then (CBB_add_u8 ra c 0 s1) (\<lambda>s.
          ret_true (open_child c i (base_len s1) 1 True s)))" if v: "view ra n s1 c out1 []" for s1 out1
    by (rule open_prefix [OF v assms(2)]) (use add_u8_appended [OF v, of ex 0] in auto)
  from opened_after [OF tag_appended [OF assms(1), of ex tag] this]
  show ?thesis by (simp add: CBB_add_asn1_def Let_def assoc)
qed

lemma length_prefixed_opened:
  assumes "view ra n s c out fs" and "i \<noteq> c" and "proper (Fixed (unat w))"
  shows "opened ra n ex s c out fs [] i (Fixed (unat w)) (cbb_add_length_prefixed ra c i w s)"
proof -
  have w: "unat (ucast w :: u64) = unat w" by (simp add: unat_ucast_up)
  have "opened ra n ex s1 c out1 [] [] i (Fixed (unat w))
      (let off = base_len s1 in
       and_then (with_base c (\<lambda>b.
           and_then (cbb_buffer_add ra (ucast w) b) (\<lambda>b.
             map_option (\<lambda>b. (True, b)) (poke (unat off) (replicate (unat w) 0) b))) s1) (\<lambda>s.
         ret_true (open_child c i off w False s)))" if v: "view ra n s1 c out1 []" for s1 out1
    unfolding Let_def
  proof (rule open_prefix [OF v assms(2)])
    from v obtain b where b: "buffer s1 = Some b" "good ra n b" by (auto simp: view_def)
    then have bl: "base_len s1 = blen b" by (simp add: base_len_def)
    have "appended ra n ex s1 c out1 [] (replicate (unat w) 0) True
      (with_base c (\<lambda>b'. and_then (cbb_buffer_add ra (ucast w) b') (\<lambda>b''.
        map_option (\<lambda>b. (True, b)) (poke (unat (blen b')) (replicate (unat w) 0) b''))) s1)"
      by (rule with_base_appended [OF v], simp only: simp_thms length_replicate, rule put_outcome [THEN outcome_weaken])
        (use assms(3) w in auto)
    moreover have "with_base c (\<lambda>b'. and_then (cbb_buffer_add ra (ucast w) b') (\<lambda>b''.
        map_option (\<lambda>b. (True, b)) (poke (unat (blen b')) (replicate (unat w) 0) b''))) s1
      = with_base c (\<lambda>b'. and_then (cbb_buffer_add ra (ucast w) b') (\<lambda>b''.
        map_option (\<lambda>b. (True, b)) (poke (unat (base_len s1)) (replicate (unat w) 0) b''))) s1"
      by (simp add: with_base_def b(1) bl)
    ultimately show "appended ra n ex s1 c out1 [] (placeholder (Fixed (unat w))) True
      (with_base c (\<lambda>b. and_then (cbb_buffer_add ra (ucast w) b) (\<lambda>b.
             map_option (\<lambda>b. (True, b)) (poke (unat (base_len s1)) (replicate (unat w) 0) b))) s1)"
      by simp
  qed (use assms(3) in auto)
  from opened_after [OF appended_flush [OF assms(1), of ex] this]
  show ?thesis by (simp add: cbb_add_length_prefixed_def)
qed

text \<open>A call on the innermost child, seen from its parent.\<close>

lemma child_outcome:
  assumes v: "view ra n s c out [(i, k, x)]"
    and r: "\<And>out1. view ra n s i out1 [] \<Longrightarrow> appended ra n ex s i out1 [] bs C r" and c: "c \<notin> set ex" "i \<notin> set ex"
  shows "outcome failed r (\<lambda>s'. C \<and> view ra n s' c out [(i, k, x @ bs)] \<and> framed s s' c (i # ex))
    (C \<and> length (out @ placeholder k @ x @ bs) \<le> n)"
proof -
  have i: "i \<noteq> c" using v by (auto simp: view_def)
  have vi: "view ra n s i (out @ placeholder k @ x) []" by (rule view_child [OF v])
  show ?thesis
    by (rule outcome_weaken [OF r [OF vi, unfolded appended_def]])
      (use v i c in \<open>auto simp: view_def framed_def add.assoc\<close>)
qed

text \<open>Open, fill, flush.\<close>

lemma part_appended:
  assumes o: "opened ra n ex s c out fs h i k r" and i: "i \<noteq> c" "c \<notin> set ex" "i \<notin> set ex"
    and f: "\<And>s1 out1. view ra n s1 i out1 [] \<Longrightarrow> appended ra n ex s1 i out1 [] bs C (f s1)"
    and p: "\<And>p. prefix_bytes k (length bs) = Some p \<Longrightarrow> p = q"
  shows "appended ra n (i # ex) s c out fs (h @ q @ bs) (C \<and> prefix_bytes k (length bs) \<noteq> None)
    (and_then r (\<lambda>s. and_then (f s) (CBB_flush ra c)))"
  unfolding appended_def
proof (rule outcome_and_then [OF o [unfolded opened_def]])
  fix s1
  assume "\<exists>t. closed fs = Some t \<and> view ra n s1 c (out @ t @ h) [(i, k, [])] \<and> framed s s1 c (i # ex @ ids fs)"
  then obtain t where t: "closed fs = Some t" "view ra n s1 c (out @ t @ h) [(i, k, [])]"
      "framed s s1 c (i # ex @ ids fs)" by blast
  show "outcome failed (and_then (f s1) (CBB_flush ra c))
      (\<lambda>s'. (C \<and> prefix_bytes k (length bs) \<noteq> None) \<and> (\<exists>t. closed fs = Some t \<and>
          view ra n s' c (out @ t @ h @ q @ bs) [] \<and> framed s s' c ((i # ex) @ ids fs)))
      ((C \<and> prefix_bytes k (length bs) \<noteq> None) \<and> (\<exists>t. closed fs = Some t \<and> length (out @ t @ h @ q @ bs) \<le> n))"
  proof (rule outcome_and_then [OF child_outcome [OF t(2) f i(2,3)]])
    fix s2
    assume a: "C \<and> view ra n s2 c (out @ t @ h) [(i, k, [] @ bs)] \<and> framed s1 s2 c (i # ex)"
    then have v2: "view ra n s2 c (out @ t @ h) [(i, k, bs)]" by simp
    have f2: "framed s s2 c (i # ex @ ids fs)"
      by (rule framed_trans [OF t(3), of _ "i # ex"]) (use a in auto)
    show "outcome failed (CBB_flush ra c s2)
       (\<lambda>s'. (C \<and> prefix_bytes k (length bs) \<noteq> None) \<and> (\<exists>t. closed fs = Some t \<and>
          view ra n s' c (out @ t @ h @ q @ bs) [] \<and> framed s s' c ((i # ex) @ ids fs)))
       ((C \<and> prefix_bytes k (length bs) \<noteq> None) \<and> (\<exists>t. closed fs = Some t \<and> length (out @ t @ h @ q @ bs) \<le> n))"
    proof (rule outcome_weaken [OF flush_outcome [OF v2]])
      fix s3
      assume "\<exists>u. closed [(i, k, bs)] = Some u \<and> view ra n s3 c ((out @ t @ h) @ u) [] \<and> framed s2 s3 c (ids [(i, k, bs)])"
      then show "(C \<and> prefix_bytes k (length bs) \<noteq> None) \<and> (\<exists>t. closed fs = Some t \<and>
          view ra n s3 c (out @ t @ h @ q @ bs) [] \<and> framed s s3 c ((i # ex) @ ids fs))"
        using a t(1) p by (auto intro!: framed_trans [OF f2, of _ "[i]"])
    qed (use t(1) p in auto)
  next
    assume "(C \<and> prefix_bytes k (length bs) \<noteq> None) \<and> (\<exists>t. closed fs = Some t \<and> length (out @ t @ h @ q @ bs) \<le> n)"
    moreover have "width k \<le> length p" if "prefix_bytes k (length bs) = Some p" for p
      using that by (cases k) (auto simp: der_length_def split: if_splits)
    ultimately show "(C \<and> length ((out @ t @ h) @ placeholder k @ [] @ bs) \<le> n)
        \<and> ((C \<and> prefix_bytes k (length bs) \<noteq> None) \<and> (\<exists>t. closed fs = Some t \<and> length (out @ t @ h @ q @ bs) \<le> n))"
      using t(1) p by fastforce
  qed
next
  assume a: "(C \<and> prefix_bytes k (length bs) \<noteq> None) \<and> (\<exists>t. closed fs = Some t \<and> length (out @ t @ h @ q @ bs) \<le> n)"
  moreover have "width k \<le> length p" if "prefix_bytes k (length bs) = Some p" for p
    using that by (cases k) (auto simp: der_length_def split: if_splits)
  ultimately show "(\<exists>t. closed fs = Some t \<and> length (out @ t @ h @ placeholder k) \<le> n)
    \<and> ((C \<and> prefix_bytes k (length bs) \<noteq> None) \<and> (\<exists>t. closed fs = Some t \<and> length (out @ t @ h @ q @ bs) \<le> n))"
    using p by fastforce
qed

section \<open>DER values\<close>

lemma element_appended:
  assumes v: "view ra n s c out fs" and i: "i \<noteq> c"
    and f: "\<And>s1 out1. view ra n s1 i out1 [] \<Longrightarrow> appended ra n [] s1 i out1 [] bs True (f s1)"
  shows "appended ra n [i] s c out fs (der tag bs) (length bs \<le> 0xfffffffe)
    (and_then (CBB_add_asn1 ra c i tag s) (\<lambda>s. and_then (f s) (CBB_flush ra c)))"
  by (rule appended_weaken [OF part_appended [where ex = "[]" and q = "der_length (length bs)",
        OF add_asn1_opened [OF v i, of "[]" tag] i _ _ f]])
    (auto simp: der_def der_header_def split: if_splits)

lemma length_prefixed_appended:
  assumes v: "view ra n s c out fs" and i: "i \<noteq> c" and w: "proper (Fixed (unat w))"
    and f: "\<And>s1 out1. view ra n s1 i out1 [] \<Longrightarrow> appended ra n [] s1 i out1 [] bs True (f s1)"
  shows "appended ra n [i] s c out fs (be_bytes (unat w) (word_of_nat (length bs) :: u64) @ bs) (length bs < 256 ^ unat w)
    (and_then (cbb_add_length_prefixed ra c i w s) (\<lambda>s. and_then (f s) (CBB_flush ra c)))"
  by (rule appended_weaken [OF part_appended [where ex = "[]"
          and q = "be_bytes (unat w) (word_of_nat (length bs) :: u64)",
        OF length_prefixed_opened [OF v i w, of "[]"] i _ _ f]])
    (auto split: if_splits)

lemma octet_string_appended:
  assumes "view ra n s c out fs" "i \<noteq> c" "length data < 2 ^ 63"
  shows "appended ra n [i] s c out fs (der 4 data) (length data \<le> 0xfffffffe)
    (CBB_add_asn1_octet_string ra c i data s)"
  unfolding CBB_add_asn1_octet_string_def
  by (rule element_appended [OF assms(1,2) add_bytes_appended [OF _ assms(3)]])

lemma bool_appended:
  assumes "view ra n s c out fs" "i \<noteq> c"
  shows "appended ra n [i] s c out fs (der 1 (der_bool v)) True (CBB_add_asn1_bool ra c i v s)"
  using element_appended [OF assms add_u8_appended, of 1 "if v then 0xff else 0"]
  by (simp add: CBB_add_asn1_bool_def der_bool_def)

lemma int64_loop_appended:
  "view ra n s c out [] \<Longrightarrow> appended ra n ex s c out [] (rev (take k bytes)) True (add_int64_loop ra c bytes k s)"
  if "k \<le> length bytes" for k
  using that
proof (induction k arbitrary: s out)
  case 0
  then show ?case by (simp add: appended_Nil)
next
  case (Suc k)
  have "appended ra n ex s c out [] ([bytes ! k] @ rev (take k bytes)) (True \<and> True)
     (and_then (CBB_add_u8 ra c (bytes ! k) s) (add_int64_loop ra c bytes k))"
    by (rule appended_and_then [OF add_u8_appended [OF Suc.prems(1)] Suc.IH]) (use Suc.prems in auto)
  then show ?case using Suc.prems(2) by (simp add: take_Suc_conv_app_nth)
qed

end

lemma be_bytes_top: "be_bytes (Suc n) v = byte_at n v # be_bytes n v"
  by (simp add: be_bytes_def le_bytes_def)

fun uint64_written :: "u64 \<Rightarrow> nat \<Rightarrow> bool \<Rightarrow> u8 list" where
  "uint64_written v 0 started = (if started then [] else [0])"
| "uint64_written v (Suc n) started =
     (if \<not> started \<and> byte_at n v = 0 then uint64_written v n False
      else (if \<not> started \<and> byte_at n v AND 0x80 \<noteq> 0 then [0] else []) @ byte_at n v # uint64_written v n True)"

lemma uint64_written_started: "uint64_written v n True = be_bytes n v"
  by (induction n) (simp_all add: be_bytes_top)

lemma uint64_written_der: "uint64_written v 8 False = der_uint v"
proof -
  have "uint64_written v n False = (let bs = dropWhile (\<lambda>b. b = 0) (be_bytes n v) in
      if bs = [] then [0] else if unat (hd bs) < 128 then bs else 0 # bs)" for n
    by (induction n) (simp_all add: be_bytes_top uint64_written_started msb_byte)
  from this [of 8] show ?thesis unfolding der_uint_def by simp
qed

lemma strip_sign_nonneg:
  "bs \<noteq> [] \<Longrightarrow> unat (hd bs) < 128 \<Longrightarrow> strip_sign bs =
     (let d = dropWhile (\<lambda>b. b = 0) bs in if d = [] then [0] else if unat (hd d) < 128 then d else 0 # d)"
  by (induction bs rule: strip_sign.induct) (auto simp: Let_def)

lemma strip_sign_negative:
  "k < length bytes \<Longrightarrow> \<not> unat (bytes ! k) < 128 \<Longrightarrow>
    rev (take (Suc (int64_start bytes k)) bytes) = strip_sign (rev (take (Suc k) bytes))"
proof (induction k)
  case 0
  then show ?case by (simp add: take_Suc_conv_app_nth)
next
  case (Suc k)
  have e: "rev (take (Suc (Suc k)) bytes) = bytes ! Suc k # bytes ! k # rev (take k bytes)"
    using Suc.prems by (simp add: take_Suc_conv_app_nth)
  have e': "rev (take (Suc k) bytes) = bytes ! k # rev (take k bytes)"
    using Suc.prems by (simp add: take_Suc_conv_app_nth)
  have s: "strip_sign (rev (take (Suc (Suc k)) bytes)) =
      (if bytes ! Suc k = 0xff \<and> \<not> unat (bytes ! k) < 128 then strip_sign (rev (take (Suc k) bytes))
       else rev (take (Suc (Suc k)) bytes))"
    unfolding e e' using Suc.prems(2) by auto
  show ?case unfolding s using Suc by (simp add: msb_byte)
qed

lemma byte_sign: "unat b < 128 \<longleftrightarrow> \<not> bit (b :: u8) 7"
proof -
  have "bit b 7 \<longleftrightarrow> bit (unat b) 7" by (simp add: bit_unsigned_iff)
  also have "\<dots> \<longleftrightarrow> odd (unat b div 128)" by (simp add: bit_iff_odd)
  finally have "bit b 7 \<longleftrightarrow> odd (unat b div 128)" .
  moreover have "unat b div 128 = 0 \<or> unat b div 128 = 1" using unat_bound [of b] by auto
  ultimately show ?thesis by (auto simp: div_eq_0_iff)
qed

lemma sint_sign: "0 \<le> sint v \<longleftrightarrow> unat (byte_at 7 v) < 128" for v :: u64
  using bit_last_iff [of v] by (simp add: byte_sign bit_byte_at not_less)

lemma der_int_nonneg: "0 \<le> sint v \<Longrightarrow> der_int v = der_uint v"
proof -
  assume "0 \<le> sint v"
  moreover have "be_bytes 8 v = byte_at 7 v # be_bytes 7 v" using be_bytes_top [of 7 v] by simp
  ultimately show ?thesis
    using strip_sign_nonneg [of "be_bytes 8 v"] by (simp add: der_int_def der_uint_def sint_sign)
qed

lemma der_int_negative:
  "\<not> 0 \<le> sint v \<Longrightarrow> rev (take (int64_start (le_bytes 8 v) 7 + 1) (le_bytes 8 v)) = der_int v"
  using strip_sign_negative [of 7 "le_bytes 8 v"]
  by (simp add: sint_sign der_int_def be_bytes_def)

context reallocator
begin

lemma uint64_loop_appended:
  "view ra n s c out [] \<Longrightarrow>
     appended ra n ex s c out [] (uint64_written v k started) True (add_uint64_loop ra c v k started s)"
proof (induction k arbitrary: s out started)
  case 0
  then show ?case by (auto simp: appended_Nil add_u8_appended)
next
  case (Suc k)
  show ?case
  proof (cases "\<not> started \<and> byte_at k v = 0")
    case True
    then show ?thesis using Suc by (simp add: Let_def ucast_drop_bit_and_255)
  next
    case False
    let ?pad = "\<not> started \<and> byte_at k v AND 0x80 \<noteq> 0"
    have "appended ra n ex s c out [] ((if ?pad then [0] else []) @ [byte_at k v] @ uint64_written v k True) (True \<and> True \<and> True)
       (and_then (if ?pad then CBB_add_u8 ra c 0 s else ret_true s)
         (\<lambda>s. and_then (CBB_add_u8 ra c (byte_at k v) s) (add_uint64_loop ra c v k True)))"
    proof (rule appended_and_then)
      show "appended ra n ex s c out [] (if ?pad then [0] else []) True (if ?pad then CBB_add_u8 ra c 0 s else ret_true s)"
        using add_u8_appended [OF Suc.prems] appended_Nil [OF Suc.prems] by simp
    qed (rule appended_and_then [OF add_u8_appended Suc.IH])
    moreover have "(\<not> started \<and> byte_at k v = 0) = False" using False by blast
    ultimately show ?thesis
      by (simp only: add_uint64_loop.simps uint64_written.simps Let_def ucast_drop_bit_and_255 if_False
          append_Cons append_Nil simp_thms)
  qed
qed

lemma uint64_appended:
  assumes "view ra n s c out fs" "i \<noteq> c"
  shows "appended ra n [i] s c out fs (der 2 (der_uint v)) True (CBB_add_asn1_uint64 ra c i v s)"
proof -
  have "appended ra n [] s1 i out1 [] (der_uint v) True (add_uint64_loop ra i v 8 False s1)"
    if "view ra n s1 i out1 []" for s1 out1
    using uint64_loop_appended [OF that, of "[]" v 8 False] by (simp add: uint64_written_der)
  from element_appended [OF assms this, of 2] show ?thesis
    using length_der_uint(2) [of v] by (simp add: CBB_add_asn1_uint64_def)
qed

lemma int64_appended:
  assumes "view ra n s c out fs" "i \<noteq> c"
  shows "appended ra n [i] s c out fs (der 2 (der_int v)) True (CBB_add_asn1_int64 ra c i v s)"
proof (cases "0 \<le> sint v")
  case True
  then show ?thesis using uint64_appended [OF assms, of v] by (simp add: CBB_add_asn1_int64_def der_int_nonneg)
next
  case False
  let ?k = "int64_start (le_bytes 8 v) 7"
  have k: "?k + 1 \<le> length (le_bytes 8 v)"
  proof -
    have "int64_start bs k \<le> k" for bs k by (induction k) auto
    from this [of "le_bytes 8 v" 7] show ?thesis by simp
  qed
  have "appended ra n [] s1 i out1 [] (der_int v) True (add_int64_loop ra i (le_bytes 8 v) (?k + 1) s1)"
    if "view ra n s1 i out1 []" for s1 out1
    using int64_loop_appended [OF k that, of "[]"] unfolding der_int_negative [OF False] .
  from element_appended [OF assms this, of 2] show ?thesis
    using False length_strip_sign [of "be_bytes 8 v"] by (simp add: CBB_add_asn1_int64_def Let_def der_int_def)
qed

end

end
