(* ===== verification/Cbb_Nested.thy ===== *)
theory Cbb_Nested
  imports Cbb_Der
begin

text \<open>
  The builder as a whole: calls on any open object of a stack of parts, the life of a builder
  from \<^verbatim>\<open>CBB_init\<close> to \<^verbatim>\<open>CBB_finish\<close>, and the interpretation of the allocator's interface.
\<close>

section \<open>The allocator\<close>

lemma sound_header:
  "length b + 8 < 2 ^ 63 \<Longrightarrow> sound_block (le_bytes 8 (word_of_nat (length b) :: u64) @ b)"
  by (simp add: sound_block_def block_size_def user_bytes_def le_word_le_bytes_full unat_word_of_nat_small)

interpretation grow: reallocator "buf_realloc heap" for heap
proof
  fix b :: "u8 list" and n :: u64
  assume b: "length b + 8 < 2 ^ 63" "length b \<le> unat n" and n: "unat n < 2 ^ 64 - 8"
  show "buf_realloc heap b n = Some None \<or>
    (\<exists>r. buf_realloc heap b n = Some (Some r) \<and> length r = unat n \<and> length r + 8 < 2 ^ 63 \<and> take (length b) r = b)"
  proof (cases "b = []")
    case True
    show ?thesis
    proof (cases "OPENSSL_malloc heap n")
      case None
      with malloc_sound(1) [OF n] show ?thesis by blast
    next
      case (Some r)
      have "8 \<le> length ptr" if "sound_block ptr" for ptr using that by (simp add: sound_block_def)
      then show ?thesis using True Some malloc_sound(2) [OF n, of heap]
        by (cases r) (fastforce simp: buf_realloc_def OPENSSL_realloc_def sound_block_def length_user_bytes)+
    qed
  next
    case False
    let ?p = "le_bytes 8 (word_of_nat (length b) :: u64) @ b"
    have u: "user_bytes ?p = b" by (simp add: user_bytes_def)
    have m: "min (length b) (unat n) = length b" using b(2) by simp
    from realloc_sound [OF n sound_header [OF b(1)], of heap]
    consider "OPENSSL_realloc heap (Some ?p) n = Some (None, None)"
      | ret x where "OPENSSL_realloc heap (Some ?p) n = Some (Some ret, x)" "sound_block ret" "block_size ret = n"
        "take (length b) (user_bytes ret) = b"
      unfolding u m Let_def by auto
    then show ?thesis
    proof cases
      case 1
      with False show ?thesis by (simp add: buf_realloc_def)
    next
      case 2
      then have "length (user_bytes ret) = unat n" "length (user_bytes ret) + 8 < 2 ^ 63"
        by (auto simp: sound_block_def length_user_bytes)
      with 2 False show ?thesis by (simp add: buf_realloc_def)
    qed
  qed
qed

section \<open>Nested parts\<close>

text \<open>
  A call on an open object \<open>c\<close>, with the parts \<open>fs2\<close> open inside it, seen from an object
  \<open>r\<close> around it: the parts in between stay as they are.
\<close>

context reallocator
begin

lemma nested_outcome:
  assumes "view ra n s r out (fs1 @ (c, k, x) # fs2)"
    and "\<And>out1. view ra n s c out1 fs2 \<Longrightarrow> appended ra n ex s c out1 fs2 bs C q"
    and "set ex \<inter> set (r # ids fs1 @ [c]) = {}"
  shows "outcome failed q (\<lambda>s'. C \<and> framed s s' c (ex @ ids fs2)
      \<and> (\<exists>t. closed fs2 = Some t \<and> view ra n s' r out (fs1 @ [(c, k, x @ t @ bs)])))
    (C \<and> (\<exists>t. closed fs2 = Some t \<and> length (out @ layout (fs1 @ [(c, k, x @ t @ bs)])) \<le> n))"
  using assms
proof (induction fs1 arbitrary: r out)
  case Nil
  have c: "c \<noteq> r" "c \<notin> set ex" "r \<notin> set ex" "r \<notin> set (ids fs2)" "c \<notin> set (ids fs2)"
    using Nil by (auto simp: view_def)
  have v: "view ra n s c (out @ placeholder k @ x) fs2" using Nil(1) by (auto intro: view_child)
  show ?case
    by (rule outcome_weaken [OF Nil(2) [OF v, unfolded appended_def]])
      (use Nil(1) c in \<open>auto simp: view_def framed_def add.assoc\<close>)
next
  case (Cons f fs1)
  obtain j k' y where f: "f = (j, k', y)" by (cases f)
  have v: "view ra n s j (out @ placeholder k' @ y) (fs1 @ (c, k, x) # fs2)"
    using Cons.prems(1) unfolding f by (simp add: view_child)
  have ids: "ids (fs1 @ (c, k, x) # fs2) = ids fs1 @ c # ids fs2" by (simp add: ids_def)
  have r: "r \<noteq> c" "r \<notin> set ex" "r \<notin> set (ids fs2)" "j \<noteq> c" "j \<notin> set ex" "j \<notin> set (ids fs2)" "r \<noteq> j"
      "r \<notin> set (ids fs1)" "j \<notin> set (ids fs1)"
    using Cons.prems(1,3) unfolding f by (auto simp: view_def ids)
  have d: "set ex \<inter> set (j # ids fs1 @ [c]) = {}" using Cons.prems(3) f by auto
  show ?case
  proof (rule outcome_weaken [OF Cons.IH [OF v Cons.prems(2) d]], assumption)
    fix s'
    assume a: "C \<and> framed s s' c (ex @ ids fs2)
      \<and> (\<exists>t. closed fs2 = Some t \<and> view ra n s' j (out @ placeholder k' @ y) (fs1 @ [(c, k, x @ t @ bs)]))"
    then obtain t where t: "closed fs2 = Some t"
        "view ra n s' j (out @ placeholder k' @ y) (fs1 @ [(c, k, x @ t @ bs)])" by blast
    have "cbbs s' r = cbbs s r" "cbbs s' j = cbbs s j" using a r by (auto simp: framed_def)
    moreover have "ids (fs1 @ [(c, k, x @ t @ bs)]) = ids fs1 @ [c]" by (simp add: ids_def)
    ultimately have "view ra n s' r out ((f # fs1) @ [(c, k, x @ t @ bs)])"
      using Cons.prems(1) t(2) r unfolding f by (auto simp: view_def add.assoc)
    then show "C \<and> framed s s' c (ex @ ids fs2)
      \<and> (\<exists>t. closed fs2 = Some t \<and> view ra n s' r out ((f # fs1) @ [(c, k, x @ t @ bs)]))"
      using a t(1) by blast
  qed (use f in auto)
qed

section \<open>Finishing\<close>

lemma finish_outcome:
  assumes v: "view ra n s c out fs" and c: "\<not> is_child (cbbs s c)"
  shows "(\<exists>d l s' t. CBB_finish ra c False False s = Some (Some (d, l), s') \<and> closed fs = Some t \<and> take (unat l) d = out @ t
          \<and> buffer s' = None)
      \<or> \<not> (\<exists>t. closed fs = Some t \<and> length out + length t \<le> n) \<and> (\<exists>s'. CBB_finish ra c False False s = Some (None, s') \<and> failed s')"
proof -
  from flush_outcome [OF v]
  consider s1 t where "CBB_flush ra c s = Some (True, s1)" "closed fs = Some t" "view ra n s1 c (out @ t) []"
      "framed s s1 c (ids fs)"
    | s1 where "CBB_flush ra c s = Some (False, s1)" "failed s1"
      "\<not> (\<exists>t. closed fs = Some t \<and> length out + length t \<le> n)"
    by (auto simp: outcome_def)
  then show ?thesis
  proof cases
    case 1
    then obtain b where b: "buffer s1 = Some b" "content b = out @ t" "base (cbbs s1 c)" "child (cbbs s1 c) = None"
      by (auto simp: view_def)
    have "is_child (cbbs s1 c) = is_child (cbbs s c)" using 1(4) by (auto simp: framed_def)
    with b c 1 show ?thesis by (auto simp: CBB_finish_def CBB_cleanup_def content_def upd_def)
  next
    case 2
    with c show ?thesis by (auto simp: CBB_finish_def)
  qed
qed

end

section \<open>Starting\<close>

lemma malloc_available:
  assumes "\<forall>m. heap m \<noteq> None" and "unat sz + 8 < 2 ^ 63"
  shows "\<exists>p. OPENSSL_malloc heap sz = Some (Some p)"
proof -
  have u: "unat (sz + 8) = unat sz + 8" using assms(2) by (simp add: unat_word_ariths)
  have "unat sz < 2 ^ 64 - 8" using assms(2) by simp
  moreover have "OPENSSL_malloc heap sz \<noteq> Some None"
  proof -
    obtain f where "heap (sz + 8) = Some f" using assms(1) by blast
    with assms(2) u show ?thesis by (simp add: OPENSSL_malloc_def sys_malloc_def)
  qed
  ultimately show ?thesis using malloc_sound(1) [of sz heap] by (cases "OPENSSL_malloc heap sz") auto
qed

text \<open>A heap that gives every size up to \<open>2 * n\<close>.\<close>

definition supplies :: "heap \<Rightarrow> nat \<Rightarrow> bool" where
  "supplies heap n \<longleftrightarrow> (\<forall>m. heap m \<noteq> None) \<and> 2 * n + 8 < 2 ^ 63"

lemma supplies_roomy: "supplies heap n \<Longrightarrow> unat m \<le> 2 * n \<Longrightarrow> buf_realloc heap x m \<noteq> Some None"
  using malloc_available [of heap m]
  by (auto simp: supplies_def buf_realloc_def OPENSSL_realloc_def Let_def split: if_splits)

lemma init_outcome:
  assumes cap0: "unat cap0 < 2 ^ 63 - 8" and n: "n = 0 \<or> supplies heap n"
  shows "(\<exists>s'. CBB_init heap c cap0 s = Some (True, s') \<and> view (buf_realloc heap) n s' c [] [] \<and> \<not> is_child (cbbs s' c)
        \<and> (\<forall>i. i \<noteq> c \<longrightarrow> cbbs s' i = cbbs s i))
     \<or> \<not> supplies heap n \<and> (\<exists>s'. CBB_init heap c cap0 s = Some (False, s') \<and> \<not> is_child (cbbs s' c))"
proof -
  have c64: "unat cap0 < 2 ^ 64 - 8" using cap0 by simp
  have m32: "OPENSSL_malloc heap 32 \<noteq> None" "supplies heap n \<Longrightarrow> OPENSSL_malloc heap 32 \<noteq> Some None"
      "supplies heap n \<Longrightarrow> OPENSSL_malloc heap cap0 \<noteq> Some None"
    using malloc_sound(1) [of 32 heap] malloc_available [of heap 32] malloc_available [of heap cap0] cap0
    by (auto simp: supplies_def)
  have start: "view (buf_realloc heap) n (upd c (\<lambda>c. c\<lparr>base := True, is_child := False\<rparr>)
      ((CBB_zero c s)\<lparr>buffer := Some \<lparr>buf = x, blen = 0, cap = cap0, can_resize = True, error = False\<rparr>\<rparr>)) c [] []"
    if "length x = unat cap0" "length x + 8 < 2 ^ 63" for x
    using that n supplies_roomy [of heap n]
    by (auto simp: view_def good_def buf_ok_def roomy_def content_def upd_def CBB_zero_def zero_cbb_def)
  note defs = CBB_init_def cbb_init_def ret_true_def ret_false_def upd_def CBB_zero_def Let_def zero_cbb_def
  show ?thesis
  proof (cases "OPENSSL_malloc heap cap0")
    case None
    with malloc_sound(1) [OF c64] show ?thesis by blast
  next
    case (Some p)
    show ?thesis
    proof (cases p)
      case None
      with Some m32 start [of "[]"] show ?thesis
        by (cases "cap0 = 0"; cases "OPENSSL_malloc heap 32"; cases "the (OPENSSL_malloc heap 32)")
          (auto simp: defs word_greater_zero_iff)
    next
      case (Some ptr)
      with \<open>OPENSSL_malloc heap cap0 = Some p\<close> have "sound_block ptr" "block_size ptr = cap0"
        using malloc_sound(2) [OF c64] by auto
      then have "length (user_bytes ptr) = unat cap0" "length (user_bytes ptr) + 8 < 2 ^ 63"
        by (auto simp: sound_block_def length_user_bytes)
      with Some \<open>OPENSSL_malloc heap cap0 = Some p\<close> m32 start [of "user_bytes ptr"] show ?thesis
        by (cases "OPENSSL_malloc heap 32"; cases "the (OPENSSL_malloc heap 32)") (auto simp: defs)
    qed
  qed
qed

lemma init_fixed_outcome:
  assumes "unat len = length x" and "length x < 2 ^ 63"
  shows "(\<exists>s'. CBB_init_fixed heap c x len s = Some (True, s') \<and> view ra (length x) s' c [] []
        \<and> \<not> is_child (cbbs s' c) \<and> (\<forall>i. i \<noteq> c \<longrightarrow> cbbs s' i = cbbs s i))
     \<or> OPENSSL_malloc heap 32 = Some None \<and> (\<exists>s'. CBB_init_fixed heap c x len s = Some (False, s'))"
proof -
  have "OPENSSL_malloc heap 32 \<noteq> None" by (rule malloc_sound(1)) simp
  with assms show ?thesis
    by (cases "OPENSSL_malloc heap 32"; cases "the (OPENSSL_malloc heap 32)")
      (auto simp: CBB_init_fixed_def cbb_init_def ret_true_def ret_false_def upd_def CBB_zero_def zero_cbb_def
        view_def good_def buf_ok_def roomy_def content_def)
qed

end
