(* ===== verification/Cbb_Set_Of.thy ===== *)
theory Cbb_Set_Of
  imports Cbb_Nested "HOL-Library.Multiset"
begin

text \<open>
  The order of a DER SET OF: \<^verbatim>\<open>compare_set_of_element\<close> is the lexicographic order of the
  encodings, and \<^verbatim>\<open>CBB_flush_asn1_set_of\<close> sorts the elements of an object by it.
\<close>

section \<open>The order\<close>

abbreviation bytewise :: "(u8 \<times> u8) set" where
  "bytewise \<equiv> {(a, b). a < b}"

lemma memcmp_lexord:
  "(let ret = OPENSSL_memcmp a b (min (length a) (length b)) in
     if ret \<noteq> 0 then ret else if length a = length b then 0 else if length a < length b then -1 else 1)
   = (if a = b then 0 else if (a, b) \<in> lexord bytewise then -1 else 1)"
proof (induction a arbitrary: b)
  case Nil
  then show ?case by (cases b) auto
next
  case (Cons x a)
  show ?case
  proof (cases b)
    case Nil
    then show ?thesis by simp
  next
    case (Cons y b')
    have m: "min (length (x # a)) (length b) = Suc (min (length a) (length b'))" by (simp add: Cons)
    consider "x < y" | "y < x" | "x = y" by (meson linorder_less_linear)
    then show ?thesis
    proof cases
      case 3
      then show ?thesis using Cons.IH [of b'] unfolding m unfolding Cons
        by (simp add: Let_def split del: if_split cong: if_cong)
    qed (unfold m, unfold Cons, auto simp: Let_def)
  qed
qed

lemma compare_lexord:
  "compare_set_of_element a b = (if a = b then 0 else if (a, b) \<in> lexord bytewise then -1 else 1)"
  unfolding memcmp_lexord [symmetric]
  by (simp add: compare_set_of_element_def CBS_len_def CBS_data_def Let_def min_def)

definition der_le :: "u8 list \<Rightarrow> u8 list \<Rightarrow> bool" where
  "der_le a b \<longleftrightarrow> a = b \<or> (a, b) \<in> lexord bytewise"

lemma der_le_trans: "der_le a b \<Longrightarrow> der_le b c \<Longrightarrow> der_le a c"
  unfolding der_le_def using lexord_trans [of a b bytewise c] by (fastforce simp: trans_def)

lemma compare_less: "compare_set_of_element a b < 0 \<longleftrightarrow> a \<noteq> b \<and> der_le a b"
  by (auto simp: compare_lexord der_le_def)

lemma compare_not_less: "\<not> compare_set_of_element a b < 0 \<Longrightarrow> der_le b a"
  using lexord_linear [of bytewise a b] by (fastforce simp: compare_lexord der_le_def split: if_splits)

lemma mset_insert_by: "mset (insert_by cmp x xs) = add_mset x (mset xs)"
  by (induction xs) auto

lemma mset_qsort: "mset (qsort cmp xs) = mset xs"
  by (induction xs) (simp_all add: qsort_def mset_insert_by)

lemma set_insert_by: "set (insert_by cmp x xs) = insert x (set xs)"
  using mset_insert_by [of cmp x xs] by (metis set_mset_add_mset_insert set_mset_mset)

lemma sorted_insert_by:
  "sorted_wrt der_le xs \<Longrightarrow> sorted_wrt der_le (insert_by compare_set_of_element x xs)"
proof (induction xs)
  case (Cons y xs)
  show ?case
  proof (cases "compare_set_of_element y x < 0")
    case True
    with Cons show ?thesis by (auto simp: set_insert_by compare_less)
  next
    case False
    with Cons.prems show ?thesis using compare_not_less [OF False] by (auto intro: der_le_trans)
  qed
qed simp

lemma sorted_qsort: "sorted_wrt der_le (qsort compare_set_of_element xs)"
  by (induction xs) (simp_all add: qsort_def sorted_insert_by)

lemma length_concat_mset: "mset xs = mset ys \<Longrightarrow> length (concat xs) = length (concat ys)"
  by (metis length_concat mset_map sum_mset_sum_list)

section \<open>The elements\<close>

lemma set_of_children_concat: "set_of_children x = Some es \<Longrightarrow> concat es = x"
proof (induction x arbitrary: es rule: set_of_children.induct)
  case (1 x)
  show ?case
  proof (cases "x = []")
    case True
    with 1(2) show ?thesis by (subst (asm) set_of_children.simps) (simp add: CBS_len_def)
  next
    case False
    with 1(2) obtain out tag hl rest es' where e: "CBS_get_any_asn1_element x = (Some (out, tag, hl), rest)"
        "set_of_children rest = Some es'" "es = out # es'"
      by (subst (asm) set_of_children.simps) (auto simp: CBS_len_def split: prod.splits option.splits)
    then have "x = out @ rest" by (auto simp: CBS_get_any_asn1_element_def any_element_iff)
    moreover have "concat es' = rest" using 1(1) [OF _ e(1) [symmetric]] e(2) False by (auto simp: CBS_len_def)
    ultimately show ?thesis using e(3) by simp
  qed
qed

context reallocator
begin

lemma add_children_appended:
  "view ra n s c out [] \<Longrightarrow> \<forall>e \<in> set es. length e < 2 ^ 63 \<Longrightarrow>
    appended ra n ex s c out [] (concat es) True (add_children ra c es s)"
proof (induction es arbitrary: s out)
  case Nil
  then show ?case by (simp add: appended_Nil)
next
  case (Cons e es)
  have "appended ra n ex s c out [] (e @ concat es) (True \<and> True)
      (and_then (CBB_add_bytes ra c e s) (add_children ra c es))"
    by (rule appended_and_then [OF add_bytes_appended [OF Cons.prems(1)] Cons.IH]) (use Cons.prems in auto)
  then show ?case by (simp add: CBS_data_def)
qed

end

section \<open>Sorting in place\<close>

text \<open>An object with the contents \<open>x\<close> behind \<open>out\<close>, with no part open in it.\<close>

definition contents_at :: "builder \<Rightarrow> nat \<Rightarrow> u8 list \<Rightarrow> bool" where
  "contents_at s c out \<longleftrightarrow> unat (offset (cbbs s c)) + unat (pending_len_len (cbbs s c)) = length out"

lemma contents_data:
  assumes v: "view ra n s c (out @ x) []" and a: "contents_at s c out"
  shows "CBB_len c s = Some (word_of_nat (length x))" and "length x < 2 ^ 63"
    and "\<exists>d. CBB_data c s = Some d \<and> take (length x) d = x"
    and "unat (offset (cbbs s c) + ucast (pending_len_len (cbbs s c))) = length out"
proof -
  from v obtain b where b: "buffer s = Some b" "good ra n b" "content b = out @ x" "base (cbbs s c)"
      "child (cbbs s c) = None" by (auto simp: view_def)
  note l = content_small [OF good_simps(1) [OF b(2)] b(3)]
  show p: "unat (offset (cbbs s c) + ucast (pending_len_len (cbbs s c))) = length out"
    using a l by (subst unat_plus_small) (simp_all add: contents_at_def unat_ucast_up)
  show "length x < 2 ^ 63" using l by simp
  have "blen b - (offset (cbbs s c) + ucast (pending_len_len (cbbs s c))) = word_of_nat (length x)"
    using l p by (simp add: word_unat_eq_iff unat_sub word_le_nat_alt unat_word_of_nat_small)
  then show "CBB_len c s = Some (word_of_nat (length x))"
    using b l p by (simp add: CBB_len_def word_less_nat_alt diff_diff_eq)
  have "take (length x) (drop (length out) (buf b)) = drop (length out) (content b)"
    using l by (simp add: content_def drop_take)
  with b p show "\<exists>d. CBB_data c s = Some d \<and> take (length x) d = x" by (simp add: CBB_data_def)
qed

lemma memdup_start:
  assumes "OPENSSL_memdup heap data k = Some (Some copy)" and "0 < k" and "k < 2 ^ 63"
  shows "take k (user_bytes copy) = take k data"
proof -
  obtain ret where r: "OPENSSL_malloc heap (word_of_nat k) = Some (Some ret)" "k \<le> length data" "k \<le> length (user_bytes ret)"
      "copy = take 8 ret @ take k data @ drop k (user_bytes ret)"
    using assms(1,2) by (auto simp: OPENSSL_memdup_def split: option.splits if_splits)
  have "unat (word_of_nat k :: u64) < 2 ^ 64 - 8" using assms(3) by (simp add: unat_word_of_nat_small)
  from malloc_sound(2) [OF this r(1)] have "8 \<le> length ret" by (simp add: sound_block_def)
  with r show ?thesis by (simp add: user_bytes_def)
qed

lemma memdup_defined:
  "0 < k \<Longrightarrow> k < 2 ^ 63 \<Longrightarrow> k \<le> length data \<Longrightarrow> OPENSSL_memdup heap data k \<noteq> None"
proof -
  assume k: "0 < k" "k < 2 ^ 63" "k \<le> length data"
  then have u: "unat (word_of_nat k :: u64) = k" by (simp add: unat_word_of_nat_small)
  with k have "unat (word_of_nat k :: u64) < 2 ^ 64 - 8" by simp
  from malloc_sound(1) [OF this, of heap] malloc_sound(2) [OF this, of heap] k u show ?thesis
    by (auto simp: OPENSSL_memdup_def sound_block_def split: option.splits)
qed

lemma children_count: "set_of_children x = Some es \<Longrightarrow> length es \<le> length x"
proof (induction x arbitrary: es rule: set_of_children.induct)
  case (1 x)
  show ?case
  proof (cases "x = []")
    case True
    with 1(2) show ?thesis by (subst (asm) set_of_children.simps) (simp add: CBS_len_def)
  next
    case False
    with 1(2) obtain out tag hl rest es' where e: "CBS_get_any_asn1_element x = (Some (out, tag, hl), rest)"
        "set_of_children rest = Some es'" "es = out # es'"
      by (subst (asm) set_of_children.simps) (auto simp: CBS_len_def split: prod.splits option.splits)
    then have "length rest < length x" by (metis any_element_shorter)
    with 1(1) [OF _ e(1) [symmetric]] e(2,3) False show ?thesis by (fastforce simp: CBS_len_def)
  qed
qed

definition sorted_set_of :: "u8 list list \<Rightarrow> u8 list list \<Rightarrow> bool" where
  "sorted_set_of es es' \<longleftrightarrow> mset es' = mset es \<and> sorted_wrt der_le es'"

lemma rewind_view:
  assumes "view ra n s c (out @ x) []" and "contents_at s c out"
  shows "view ra n (s\<lparr>buffer := map_option (\<lambda>b. b\<lparr>blen := offset (cbbs s c) + ucast (pending_len_len (cbbs s c))\<rparr>) (buffer s)\<rparr>) c out []"
proof -
  from assms obtain b where b: "buffer s = Some b" "good ra n b" "content b = out @ x" "base (cbbs s c)"
      "child (cbbs s c) = None" by (auto simp: view_def)
  note l = content_small [OF good_simps(1) [OF b(2)] b(3)]
  have p: "unat (offset (cbbs s c) + ucast (pending_len_len (cbbs s c))) = length out"
    by (rule contents_data(4) [OF assms])
  let ?b = "b\<lparr>blen := offset (cbbs s c) + ucast (pending_len_len (cbbs s c))\<rparr>"
  have "good ra n ?b" using b(2) l p by (auto simp: good_def buf_ok_def roomy_def)
  moreover have "content ?b = out"
  proof -
    have "content ?b = take (length out) (content b)" using l p by (simp add: content_def min_absorb1)
    with b(3) show ?thesis by simp
  qed
  ultimately show ?thesis using b by (simp add: view_def)
qed

lemma sort_outcome:
  assumes v: "view (buf_realloc heap) n s c (out @ x) []" and a: "contents_at s c out"
    and es: "set_of_children x = Some es" and len: "k = length x"
  shows "outcome (\<lambda>_. True)
     (and_then (add_children (buf_realloc heap) c (qsort compare_set_of_element es)
        (s\<lparr>buffer := map_option (\<lambda>b. b\<lparr>blen := offset (cbbs s c) + ucast (pending_len_len (cbbs s c))\<rparr>) (buffer s)\<rparr>))
       (\<lambda>s'. if CBB_len c s' \<noteq> Some (word_of_nat k) then None else ret_true s'))
     (\<lambda>s'. \<exists>es'. sorted_set_of es es' \<and> view (buf_realloc heap) n s' c (out @ concat es') [])
     (length (out @ x) \<le> n)"
proof -
  let ?s = "s\<lparr>buffer := map_option (\<lambda>b. b\<lparr>blen := offset (cbbs s c) + ucast (pending_len_len (cbbs s c))\<rparr>) (buffer s)\<rparr>"
  let ?es = "qsort compare_set_of_element es"
  have x: "length (concat ?es) = length x"
    using set_of_children_concat [OF es] length_concat_mset [OF mset_qsort] by metis
  have "\<forall>e \<in> set ?es. length e < 2 ^ 63"
  proof
    fix e assume "e \<in> set ?es"
    then have "length e \<le> length (concat ?es)" by (simp add: length_concat member_le_sum_list)
    with x contents_data(2) [OF v a] show "length e < 2 ^ 63" by simp
  qed
  note ap = grow.add_children_appended [OF rewind_view [OF v a] this, of "[]", unfolded appended_def]
  show ?thesis
  proof (rule outcome_and_then [OF outcome_weaken_bad [OF ap]])
    fix s'
    assume "True \<and> (\<exists>t. closed [] = Some t \<and> view (buf_realloc heap) n s' c (out @ t @ concat ?es) []
        \<and> framed ?s s' c ([] @ ids []))"
    then have s': "view (buf_realloc heap) n s' c (out @ concat ?es) []" "framed ?s s' c []" by auto
    then have "contents_at s' c out" using a by (auto simp: contents_at_def framed_def)
    from contents_data(1) [OF s'(1) this] have "CBB_len c s' = Some (word_of_nat k)" using x len by simp
    moreover have "sorted_set_of es ?es" by (simp add: sorted_set_of_def mset_qsort sorted_qsort)
    ultimately show "outcome (\<lambda>_. True) (if CBB_len c s' \<noteq> Some (word_of_nat k) then None else ret_true s')
       (\<lambda>s'. \<exists>es'. sorted_set_of es es' \<and> view (buf_realloc heap) n s' c (out @ concat es') []) True"
      using s'(1) by auto
  qed (use x in auto)
qed

lemma set_of_outcome:
  assumes v: "view (buf_realloc heap) n s c (out @ x) []" and a: "contents_at s c out"
  shows "outcome (\<lambda>_. True) (CBB_flush_asn1_set_of heap c s)
    (\<lambda>s'. \<exists>es es'. set_of_children x = Some es \<and> sorted_set_of es es' \<and> view (buf_realloc heap) n s' c (out @ concat es') [])
    (set_of_children x \<noteq> None \<and> length (out @ x) \<le> n \<and> length x < 2 ^ 58 \<and> (\<forall>m. heap m \<noteq> None))"
proof -
  have fl: "CBB_flush (buf_realloc heap) c s = ret_true s"
    using v by (subst CBB_flush.simps) (auto simp: view_def good_def)
  obtain d where d: "CBB_data c s = Some d" "take (length x) d = x" using contents_data(3) [OF v a] by blast
  note cl = contents_data(1) [OF v a] and xl = contents_data(2) [OF v a]
  have u: "unat (word_of_nat (length x) :: u64) = length x" using xl by (simp add: unat_word_of_nat_small)
  note unf = CBB_flush_asn1_set_of_def Let_def fl and_then_ret d(1) cl prod.case option.case u CBS_init_def d(2)
  show ?thesis
  proof (cases "set_of_children x")
    case None
    then show ?thesis unfolding unf by auto
  next
    case (Some es)
    consider "length es < 2" | "2 \<le> length es" "(2 ^ 64 - 1) div 16 < length es"
      | "2 \<le> length es" "\<not> (2 ^ 64 - 1) div 16 < length es" by linarith
    then show ?thesis
    proof cases
      case 1
      then have "sorted_wrt der_le es" by (cases es; cases "tl es") auto
      then have "sorted_set_of es es" by (simp add: sorted_set_of_def)
      with 1 Some v show ?thesis unfolding unf using set_of_children_concat [OF Some] by auto
    next
      case 2
      have "\<not> length x < 2 ^ 58" using 2 children_count [OF Some] by simp
      with 2 Some show ?thesis unfolding unf by auto
    next
      case 3
      have x0: "0 < length x" "length x \<le> length d"
        using 3 children_count [OF Some] arg_cong [OF d(2), of length] by auto
      let ?w = "word_of_nat (length es * 16) :: u64"
      have w: "unat ?w = length es * 16" using 3 by (intro unat_word_of_nat_small) simp
      have md: "OPENSSL_memdup heap d (length x) \<noteq> None" by (rule memdup_defined [OF x0(1) xl x0(2)])
      have ml: "OPENSSL_malloc heap ?w \<noteq> None" by (rule malloc_sound(1)) (use w 3 in simp)
      let ?ok = "set_of_children x \<noteq> None \<and> length (out @ x) \<le> n \<and> length x < 2 ^ 58 \<and> (\<forall>m. heap m \<noteq> None)"
      consider copy p where "OPENSSL_memdup heap d (length x) = Some (Some copy)" "OPENSSL_malloc heap ?w = Some (Some p)"
        | "OPENSSL_memdup heap d (length x) = Some None" | "OPENSSL_malloc heap ?w = Some None"
        using md ml by (metis option.exhaust)
      then show ?thesis
      proof cases
        case c: 1
        have "take (length x) (user_bytes copy) = x" using memdup_start [OF c(1) x0(1) xl] d(2) by simp
        then have "CBB_flush_asn1_set_of heap c s =
          and_then (add_children (buf_realloc heap) c (qsort compare_set_of_element es)
            (s\<lparr>buffer := map_option (\<lambda>b. b\<lparr>blen := offset (cbbs s c) + ucast (pending_len_len (cbbs s c))\<rparr>) (buffer s)\<rparr>))
            (\<lambda>s'. if CBB_len c s' \<noteq> Some (word_of_nat (length x)) then None else ret_true s')"
          using 3 c Some unfolding unf by simp
        then show ?thesis
          using sort_outcome [OF v a Some refl] Some by (auto elim!: outcome_weaken)
      next
        case 2
        have "\<not> ?ok"
        proof
          assume ok: ?ok
          have "unat (word_of_nat (length x) :: u64) + 8 < 2 ^ 63" using ok u by simp
          then have "\<exists>p. OPENSSL_malloc heap (word_of_nat (length x)) = Some (Some p)"
            using malloc_available ok by blast
          then show False using 2 x0(1) by (auto simp: OPENSSL_memdup_def split: if_splits)
        qed
        moreover have "CBB_flush_asn1_set_of heap c s = ret_false s"
          using 2 3 Some ml unfolding unf by (auto split: option.split)
        ultimately show ?thesis using outcome_false [of "\<lambda>_. True", OF TrueI] by (simp only:)
      next
        case e: 3
        have "\<not> ?ok"
        proof
          assume ok: ?ok
          have "unat ?w + 8 < 2 ^ 63" using ok w children_count [OF Some] by simp
          then have "\<exists>p. OPENSSL_malloc heap ?w = Some (Some p)" using malloc_available ok by blast
          then show False using e by simp
        qed
        moreover have "CBB_flush_asn1_set_of heap c s = ret_false s"
          using e 3 Some md unfolding unf by (auto split: option.split)
        ultimately show ?thesis using outcome_false [of "\<lambda>_. True", OF TrueI] by (simp only:)
      qed
    qed
  qed
qed

end
