(* ===== verification/Cbb_Oid.thy ===== *)
theory Cbb_Oid
  imports Cbb_Nested
begin

text \<open>
  Object identifiers between text and DER: what \<^verbatim>\<open>parse_dotted_decimal\<close> accepts is the decimal
  notation without leading zeros, and the writers of both directions agree.
\<close>

section \<open>Dotted decimals\<close>

definition digit :: "nat \<Rightarrow> u8" where
  "digit d = word_of_nat (48 + d)"

lemma decimal_small: "d < 10 \<Longrightarrow> decimal d = [digit d]"
  by (simp add: decimal.simps [of d] digit_def)

lemma decimal_snoc: "0 < n \<Longrightarrow> d < 10 \<Longrightarrow> decimal (n * 10 + d) = decimal n @ [digit d]"
  by (subst decimal.simps) (simp add: digit_def)

lemma decimal_not_Nil [simp]: "decimal n \<noteq> []"
  by (subst decimal.simps) simp

lemma digit_byte:
  assumes "\<not> u < 48" and "\<not> 57 < u"
  shows "u = digit (unat u - 48)" and "unat u - 48 < 10" and "unat (ucast u - 48 :: u64) = unat u - 48"
proof -
  have u: "48 \<le> unat u" "unat u \<le> 57" using assms by (simp_all add: word_less_nat_alt)
  then show "u = digit (unat u - 48)" by (simp add: digit_def)
  show "unat u - 48 < 10" using u by simp
  have "unat (ucast u :: u64) = unat u" by (rule unat_ucast_up) simp
  with u show "unat (ucast u - 48 :: u64) = unat u - 48" by (subst unat_sub) (simp_all add: word_le_nat_alt)
qed

text \<open>What a call has read: the digits of a number and, if anything is left, the dot.\<close>

definition component :: "cbs \<Rightarrow> u8 list \<Rightarrow> cbs \<Rightarrow> bool" where
  "component cbs ds rest \<longleftrightarrow> (if rest = [] then cbs = ds else cbs = ds @ 46 # rest)"

lemma dotted_loop_reads:
  assumes "dotted_loop out seen cbs = (Some v, rest)" and "seen \<or> out = 0"
  shows "\<exists>ds. component cbs ds rest \<and> decimal (unat v) = (if seen then decimal (unat out) else []) @ ds"
  using assms
proof (induction out seen cbs rule: dotted_loop.induct)
  case (1 out seen)
  then show ?case by (auto simp: component_def split: if_splits)
next
  case (2 out seen u cbs)
  show ?case
  proof (cases "u = 46 \<and> 0 < CBS_len cbs")
    case True
    then show ?thesis using 2 by (auto simp: component_def CBS_len_def split: if_splits)
  next
    case False
    define d where "d = unat u - 48"
    from 2(2) False have c: "\<not> u < 48" "\<not> 57 < u" "\<not> (seen \<and> out = 0)" "unat out \<le> (2 ^ 64 - 1) div 10"
        "unat (out * 10) \<le> (2 ^ 64 - 1) - d"
      and r: "dotted_loop (out * 10 + (ucast u - 48)) True cbs = (Some v, rest)"
      by (auto simp: d_def split: if_splits)
    note u = digit_byte [OF c(1,2), folded d_def]
    have ten: "unat (out * 10) = unat out * 10" using c(4) by (simp add: unat_word_ariths)
    have out': "unat (out * 10 + (ucast u - 48)) = unat out * 10 + d"
      using c(5) u(2) ten by (subst unat_plus_small) (simp_all add: u(3))
    have dec: "decimal (unat out * 10 + d) = (if seen then decimal (unat out) else []) @ [u]"
    proof (cases seen)
      case True
      then have "0 < unat out" using c(3) by (simp add: unat_gt_0)
      with True show ?thesis using decimal_snoc [of "unat out" d] u by simp
    next
      case False
      with 2(3) show ?thesis using decimal_small [OF u(2)] u(1) by simp
    qed
    from 2(1) [OF False _ r] c obtain ds where ds: "component cbs ds rest"
        "decimal (unat v) = decimal (unat (out * 10 + (ucast u - 48))) @ ds"
      by (auto simp: d_def)
    then have "component (u # cbs) (u # ds) rest" by (auto simp: component_def split: if_splits)
    then show ?thesis using ds(2) unfolding out' dec by (intro exI [of _ "u # ds"]) simp
  qed
qed

lemma parse_dotted_reads:
  "parse_dotted_decimal cbs = (Some v, rest) \<Longrightarrow> component cbs (decimal (unat v)) rest"
  using dotted_loop_reads [of 0 False cbs v rest] by (auto simp: parse_dotted_decimal_def)

section \<open>Text and numbers\<close>

function oid_numbers :: "cbs \<Rightarrow> u64 list option" where
  "oid_numbers cbs =
     (if cbs = [] then Some []
      else case parse_dotted_decimal cbs of
          (None, _) \<Rightarrow> None
        | (Some a, cbs) \<Rightarrow> map_option (Cons a) (oid_numbers cbs))"
  by auto
termination by (relation "measure length") (auto dest: parse_dotted_shorter [OF sym])

declare oid_numbers.simps [simp del]

text \<open>The first two numbers share a component of the encoding.\<close>

definition first_pair :: "u64 \<Rightarrow> u64 \<Rightarrow> bool" where
  "first_pair a b \<longleftrightarrow> \<not> (2 < a \<or> (a < 2 \<and> 39 < b) \<or> word_of_nat (2 ^ 64 - 1) - 80 < b)"

fun oid_content :: "u64 list \<Rightarrow> u8 list option" where
  "oid_content (a # b # vs) =
     (if first_pair a b then Some (b128_bytes (unat (40 * a + b)) @ concat (map (\<lambda>v. b128_bytes (unat v)) vs)) else None)"
| "oid_content _ = None"

fun dotted :: "u64 list \<Rightarrow> u8 list" where
  "dotted [] = []"
| "dotted (v # vs) = decimal (unat v) @ concat (map (\<lambda>w. 46 # decimal (unat w)) vs)"

lemma oid_numbers_dotted: "oid_numbers cbs = Some vs \<Longrightarrow> cbs = dotted vs \<and> (cbs = [] \<longleftrightarrow> vs = [])"
proof (induction cbs arbitrary: vs rule: oid_numbers.induct)
  case (1 cbs)
  show ?case
  proof (cases "cbs = []")
    case True
    with 1(2) show ?thesis by (subst (asm) oid_numbers.simps) simp
  next
    case False
    with 1(2) obtain a rest ws where a: "parse_dotted_decimal cbs = (Some a, rest)" "oid_numbers rest = Some ws" "vs = a # ws"
      by (subst (asm) oid_numbers.simps) (auto split: prod.splits option.splits)
    from parse_dotted_reads [OF a(1)] 1(1) [OF False a(1) [symmetric] refl a(2)]
    show ?thesis using a(3) False by (cases ws) (auto simp: component_def split: if_splits)
  qed
qed

section \<open>From text\<close>

context reallocator
begin

lemma oid_components_outcome:
  "view ra n s c out [] \<Longrightarrow> outcome (\<lambda>_. True) (add_oid_components ra c cbs s)
     (\<lambda>s'. \<exists>vs. oid_numbers cbs = Some vs \<and> view ra n s' c (out @ concat (map (\<lambda>v. b128_bytes (unat v)) vs)) [])
     (\<exists>vs. oid_numbers cbs = Some vs \<and> length (out @ concat (map (\<lambda>v. b128_bytes (unat v)) vs)) \<le> n)"
proof (induction cbs arbitrary: s out rule: oid_numbers.induct)
  case (1 cbs)
  show ?case
  proof (cases "cbs = []")
    case True
    with 1(2) show ?thesis
      by (subst add_oid_components.simps) (auto simp: CBS_len_def oid_numbers.simps)
  next
    case False
    show ?thesis
    proof (cases "parse_dotted_decimal cbs")
      case (Pair r rest)
      show ?thesis
      proof (cases r)
        case None
        with Pair False show ?thesis
          by (subst add_oid_components.simps) (auto simp: CBS_len_def oid_numbers.simps [of cbs])
      next
        case (Some a)
        have e: "add_oid_components ra c cbs s = and_then (add_base128_integer ra c a s) (add_oid_components ra c rest)"
          using False Pair Some by (subst add_oid_components.simps) (simp add: CBS_len_def)
        have o: "oid_numbers cbs = map_option (Cons a) (oid_numbers rest)"
          using False Pair Some by (subst oid_numbers.simps) simp
        note b = base128_appended [OF 1(2), of "[]" a, unfolded appended_def]
        show ?thesis unfolding e o
        proof (rule outcome_and_then [OF outcome_weaken_bad [OF b]])
          fix s1
          assume "True \<and> (\<exists>t. closed [] = Some t \<and> view ra n s1 c (out @ t @ b128_bytes (unat a)) [] \<and> framed s s1 c ([] @ ids []))"
          then have v1: "view ra n s1 c (out @ b128_bytes (unat a)) []" by simp
          show "outcome (\<lambda>_. True) (add_oid_components ra c rest s1)
            (\<lambda>s'. \<exists>vs. map_option (Cons a) (oid_numbers rest) = Some vs \<and> view ra n s' c (out @ concat (map (\<lambda>v. b128_bytes (unat v)) vs)) [])
            (\<exists>vs. map_option (Cons a) (oid_numbers rest) = Some vs \<and> length (out @ concat (map (\<lambda>v. b128_bytes (unat v)) vs)) \<le> n)"
            by (rule outcome_weaken [OF 1(1) [OF False Pair [symmetric] Some v1]]) auto
        qed auto
      qed
    qed
  qed
qed

lemma oid_from_text_outcome:
  assumes "view ra n s c out fs"
  shows "outcome (\<lambda>_. True) (CBB_add_asn1_oid_from_text ra c txt len s)
    (\<lambda>s'. \<exists>vs e t. oid_numbers (take len txt) = Some vs \<and> oid_content vs = Some e \<and> closed fs = Some t
        \<and> view ra n s' c (out @ t @ e) [])
    (\<exists>vs e t. oid_numbers (take len txt) = Some vs \<and> oid_content vs = Some e \<and> closed fs = Some t
        \<and> length (out @ t @ e) \<le> n)"
    (is "outcome _ _ ?P ?ok")
  unfolding CBB_add_asn1_oid_from_text_def CBS_init_def
proof (rule outcome_and_then [OF outcome_weaken_bad [OF flush_outcome [OF assms]]])
  fix s1
  assume "\<exists>t. closed fs = Some t \<and> view ra n s1 c (out @ t) [] \<and> framed s s1 c (ids fs)"
  then obtain t where t: "closed fs = Some t" "view ra n s1 c (out @ t) []" by blast
  let ?txt = "take len txt"
  have no: "outcome (\<lambda>_. True) (ret_false s1) ?P ?ok" if "\<nexists>vs e. oid_numbers ?txt = Some vs \<and> oid_content vs = Some e"
    using that by auto
  have one: "\<nexists>vs e. oid_numbers x = Some vs \<and> oid_content vs = Some e"
    if "parse_dotted_decimal x = (None, rest)" for x rest
    using that by (subst oid_numbers.simps) (auto simp: parse_dotted_decimal_def)
  have numbers: "oid_numbers x = map_option (Cons a) (oid_numbers rest)"
    if "parse_dotted_decimal x = (Some a, rest)" for x a rest
    using that by (subst oid_numbers.simps) (auto simp: parse_dotted_decimal_def)
  show "outcome (\<lambda>_. True)
      (case parse_dotted_decimal ?txt of
         (None, _) \<Rightarrow> ret_false s1
       | (Some a, cbs) \<Rightarrow>
           (case parse_dotted_decimal cbs of
              (None, _) \<Rightarrow> ret_false s1
            | (Some b, cbs) \<Rightarrow>
                if 2 < a \<or> (a < 2 \<and> 39 < b) \<or> word_of_nat (2 ^ 64 - 1) - 80 < b then ret_false s1
                else and_then (add_base128_integer ra c (40 * a + b) s1) (add_oid_components ra c cbs))) ?P ?ok"
  proof (cases "parse_dotted_decimal ?txt")
    case p: (Pair r rest)
    show ?thesis
    proof (cases r)
      case None
      with no [OF one [of ?txt rest]] p show ?thesis by simp
    next
      case a: (Some a)
      show ?thesis
      proof (cases "parse_dotted_decimal rest")
        case q: (Pair r2 rest2)
        show ?thesis
        proof (cases r2)
          case None
          have "\<nexists>vs e. oid_numbers ?txt = Some vs \<and> oid_content vs = Some e"
          proof
            assume "\<exists>vs e. oid_numbers ?txt = Some vs \<and> oid_content vs = Some e"
            then obtain ws e where "oid_numbers rest = Some ws" "oid_content (a # ws) = Some e"
              using numbers [OF p [unfolded a]] by auto
            then show False using q None
              by (cases ws) (auto simp: parse_dotted_decimal_def oid_numbers.simps [of rest] split: if_splits)
          qed
          with no p q a None show ?thesis by simp
        next
          case b: (Some b)
          have o: "oid_numbers ?txt = map_option (\<lambda>vs. a # b # vs) (oid_numbers rest2)"
            unfolding numbers [OF p [unfolded a]] numbers [OF q [unfolded b]] by (simp add: option.map_comp comp_def)
          show ?thesis
          proof (cases "first_pair a b")
            case False
            then have "\<nexists>vs e. oid_numbers ?txt = Some vs \<and> oid_content vs = Some e" unfolding o by auto
            from no [OF this] False p q a b show ?thesis by (simp add: first_pair_def)
          next
            case True
            note ap = base128_appended [OF t(2), of "[]" "40 * a + b", unfolded appended_def]
            have "outcome (\<lambda>_. True) (and_then (add_base128_integer ra c (40 * a + b) s1) (add_oid_components ra c rest2)) ?P ?ok"
            proof (rule outcome_and_then [OF outcome_weaken_bad [OF ap]])
              fix s2
              assume "True \<and> (\<exists>u. closed [] = Some u \<and> view ra n s2 c ((out @ t) @ u @ b128_bytes (unat (40 * a + b))) []
                \<and> framed s1 s2 c ([] @ ids []))"
              then have v2: "view ra n s2 c (out @ t @ b128_bytes (unat (40 * a + b))) []" by simp
              show "outcome (\<lambda>_. True) (add_oid_components ra c rest2 s2) ?P ?ok"
                by (rule outcome_weaken [OF oid_components_outcome [OF v2]]) (use True t(1) o in auto)
            next
              assume ?ok
              then show "(True \<and> (\<exists>u. closed [] = Some u \<and> length ((out @ t) @ u @ b128_bytes (unat (40 * a + b))) \<le> n)) \<and> ?ok"
                using o True t(1) by auto
            qed
            then show ?thesis
              unfolding p q a b prod.case option.case if_not_P [OF True [unfolded first_pair_def]] .
          qed
        qed
      qed
    qed
  qed
qed auto

section \<open>To text\<close>

lemma decimal_appended:
  "view ra n s c out fs \<Longrightarrow> appended ra n ex s c out fs (decimal (unat v)) True (add_decimal ra c v s)"
proof -
  have len: "m < 10 ^ Suc k \<Longrightarrow> length (decimal m) \<le> Suc k" for m k
  proof (induction k arbitrary: m)
    case (Suc k)
    then have "m div 10 < 10 ^ Suc k" by (simp add: div_less_iff_less_mult)
    from Suc.IH [OF this] show ?case by (subst decimal.simps) simp
  qed (simp add: decimal_small)
  have "unat v < 10 ^ Suc 19" using unat_bound [of v] by simp
  from len [OF this] show "view ra n s c out fs \<Longrightarrow> ?thesis"
    unfolding add_decimal_def by (intro add_bytes_appended) simp_all
qed

lemma text_components_appended:
  "view ra n s c out [] \<Longrightarrow> appended ra n ex s c out [] (concat (map (\<lambda>w. 46 # decimal (unat w)) vs)) True
     (oid_text_components ra c (concat (map (\<lambda>v. b128_bytes (unat v)) vs)) s)" for vs :: "u64 list"
proof (induction vs arbitrary: s out)
  case Nil
  then show ?case by (subst oid_text_components.simps) (simp add: CBS_len_def appended_Nil)
next
  case (Cons v vs)
  let ?rest = "concat (map (\<lambda>v. b128_bytes (unat v)) vs)"
  have "parse_base128_integer (b128_bytes (unat v) @ ?rest) = (Some v, ?rest)" by (simp add: parse_base128_iff)
  then have e: "oid_text_components ra c (concat (map (\<lambda>v. b128_bytes (unat v)) (v # vs))) s =
      and_then (CBB_add_u8 ra c 46 s) (\<lambda>s. and_then (add_decimal ra c v s) (oid_text_components ra c ?rest))"
    by (subst oid_text_components.simps) (simp add: CBS_len_def)
  have "appended ra n ex s c out [] ([46] @ decimal (unat v) @ concat (map (\<lambda>w. 46 # decimal (unat w)) vs)) (True \<and> True \<and> True)
      (and_then (CBB_add_u8 ra c 46 s) (\<lambda>s. and_then (add_decimal ra c v s) (oid_text_components ra c ?rest)))"
    by (rule appended_and_then [OF add_u8_appended [OF Cons.prems] appended_and_then [OF decimal_appended Cons.IH]])
  then show ?case unfolding e by simp
qed

lemma first_pair_value:
  assumes "first_pair a b"
  shows "a < 2 \<Longrightarrow> \<not> 80 \<le> 40 * a + b \<and> (40 * a + b) div 40 = a \<and> (40 * a + b) mod 40 = b"
    and "\<not> a < 2 \<Longrightarrow> a = 2 \<and> 80 \<le> 40 * a + b \<and> 40 * a + b - 80 = b"
proof -
  note d = assms [unfolded first_pair_def word_less_nat_alt]
  have ab: "unat (40 * a + b) = 40 * unat a + unat b"
  proof -
    have m: "unat (40 * a) = 40 * unat a" using d by (simp add: unat_word_ariths)
    have "unat (word_of_nat (2 ^ 64 - 1) - 80 :: u64) = 2 ^ 64 - 81" by simp
    then have "unat b \<le> 2 ^ 64 - 81" using d by linarith
    then show ?thesis using m d by (subst unat_plus_small) auto
  qed
  { assume "a < 2"
    then have "unat a < 2" "unat b \<le> 39" using d by (auto simp: word_less_nat_alt)
    then show "\<not> 80 \<le> 40 * a + b \<and> (40 * a + b) div 40 = a \<and> (40 * a + b) mod 40 = b"
      using ab by (auto simp: word_le_nat_alt word_unat_eq_iff unat_div unat_mod) }
  { assume "\<not> a < 2"
    then have "unat a = 2" using d by (simp add: word_less_nat_alt)
    then show "a = 2 \<and> 80 \<le> 40 * a + b \<and> 40 * a + b - 80 = b"
      using ab by (simp add: word_le_nat_alt word_unat_eq_iff unat_sub) }
qed

lemma oid_text_appended:
  assumes v: "view ra n s c out []" and e: "oid_content vs = Some e"
  shows "appended ra n ex s c out [] (dotted vs @ [0]) True (oid_text ra c e s)"
proof -
  from e obtain a b ws where vs: "vs = a # b # ws" "first_pair a b"
      "e = b128_bytes (unat (40 * a + b)) @ concat (map (\<lambda>v. b128_bytes (unat v)) ws)"
    by (cases vs rule: oid_content.cases) (auto split: if_splits)
  let ?rest = "concat (map (\<lambda>v. b128_bytes (unat v)) ws)"
  have p: "parse_base128_integer e = (Some (40 * a + b), ?rest)" by (simp add: parse_base128_iff vs(3))
  have f: "appended ra n ex s c out [] (decimal (unat a) @ [46] @ decimal (unat b)) True
      (if 80 \<le> 40 * a + b then and_then (CBB_add_bytes ra c [50, 46] s) (add_decimal ra c (40 * a + b - 80))
       else and_then (add_decimal ra c ((40 * a + b) div 40) s) (\<lambda>s.
         and_then (CBB_add_u8 ra c 46 s) (add_decimal ra c ((40 * a + b) mod 40))))"
  proof (cases "a < 2")
    case True
    then show ?thesis
      using appended_and_then [OF decimal_appended [OF v] appended_and_then [OF add_u8_appended decimal_appended]]
      by (simp add: first_pair_value [OF vs(2)])
  next
    case False
    have "decimal 2 = [50]" by (simp add: decimal_small digit_def)
    moreover have h: "a = 2" "80 \<le> 40 * a + b" "40 * a + b - 80 = b"
      using first_pair_value(2) [OF vs(2) False] by auto
    ultimately show ?thesis
      unfolding if_P [OF h(2)] h(3)
      using appended_and_then [OF add_bytes_appended [OF v, of "[50, 46]"] decimal_appended] by (simp add: h(1))
  qed
  have "appended ra n ex s c out [] ((decimal (unat a) @ [46] @ decimal (unat b))
      @ concat (map (\<lambda>w. 46 # decimal (unat w)) ws) @ [0]) (True \<and> True \<and> True) (oid_text ra c e s)"
    unfolding oid_text_def p prod.case option.case
    by (rule appended_and_then [OF f appended_and_then [OF text_components_appended add_u8_appended]])
  then show ?thesis by (simp add: vs(1))
qed

end

section \<open>Calls on an object with no open part\<close>

text \<open>They change the buffer only, also when they fail.\<close>

definition keeps :: "builder \<Rightarrow> builder cres \<Rightarrow> bool" where
  "keeps s r \<longleftrightarrow> (\<forall>ok s'. r = Some (ok, s') \<longrightarrow> cbbs s' = cbbs s)"

lemma keeps_ret [intro]: "cbbs s' = cbbs s \<Longrightarrow> keeps s (ret_true s')" "cbbs s' = cbbs s \<Longrightarrow> keeps s (ret_false s')"
  by (auto simp: keeps_def ret_true_def ret_false_def)

lemma keeps_and_then:
  "keeps s r \<Longrightarrow> (\<And>s'. cbbs s' = cbbs s \<Longrightarrow> keeps s (f s')) \<Longrightarrow> keeps s (and_then r f)"
  unfolding keeps_def by (metis and_then_cases)

lemma keeps_call:
  assumes "child (cbbs s c) = None" and "cbbs s' = cbbs s"
  shows "keeps s (and_then (CBB_flush ra c s') (with_base c f))"
proof -
  have "keeps s (CBB_flush ra c s')"
    using assms by (subst CBB_flush.simps) (auto simp: keeps_def ret_true_def ret_false_def split: option.splits)
  moreover have "keeps s (with_base c f s'')" if "cbbs s'' = cbbs s" for s''
    using that by (auto simp: with_base_def keeps_def ret_false_def split: option.splits)
  ultimately show ?thesis by (rule keeps_and_then)
qed

lemma keeps_add:
  assumes "child (cbbs s c) = None" and "cbbs s' = cbbs s"
  shows "keeps s (CBB_add_u8 ra c v s')" and "keeps s (CBB_add_bytes ra c data s')" and "keeps s (add_decimal ra c w s')"
  using keeps_call [OF assms] by (simp_all add: CBB_add_u8_def add_u_def CBB_add_bytes_def add_decimal_def)

lemma keeps_text_components:
  "child (cbbs s c) = None \<Longrightarrow> cbbs s' = cbbs s \<Longrightarrow> keeps s (oid_text_components ra c cbs s')"
proof (induction cbs arbitrary: s' rule: measure_induct_rule [where f = length])
  case (less cbs)
  show ?case
  proof (cases "CBS_len cbs = 0")
    case True
    then show ?thesis using less by (subst oid_text_components.simps) auto
  next
    case False
    show ?thesis
    proof (cases "parse_base128_integer cbs")
      case (Pair r rest)
      have "keeps s (and_then (CBB_add_u8 ra c 46 s') (\<lambda>s.
          and_then (add_decimal ra c v s) (oid_text_components ra c rest)))" if r: "r = Some v" for v
      proof (intro keeps_and_then keeps_add less.prems)
        fix s1 s2 :: builder assume s2: "cbbs s1 = cbbs s" "cbbs s2 = cbbs s"
        have "length rest < length cbs" using parse_base128_shorter [of v rest cbs] Pair r by simp
        with less s2 show "keeps s (oid_text_components ra c rest s2)" by blast
      qed
      then show ?thesis using False Pair less.prems
        by (subst oid_text_components.simps) (auto split: option.split)
    qed
  qed
qed

lemma keeps_oid_text: "child (cbbs s c) = None \<Longrightarrow> keeps s (oid_text ra c cbs s)"
  unfolding oid_text_def
  by (auto split: option.split prod.split intro!: keeps_and_then keeps_add keeps_text_components)

lemma oid_to_text:
  assumes e: "oid_content vs = Some e"
  shows "CBS_asn1_oid_to_text heap e = Some (Some (dotted vs @ [0]))
    \<or> \<not> supplies heap (length (dotted vs @ [0])) \<and> CBS_asn1_oid_to_text heap e = Some None"
proof -
  let ?n = "length (dotted vs @ [0])"
  define n where "n = (if supplies heap ?n then ?n else 0)"
  let ?s = "\<lparr>buffer = None, cbbs = \<lambda>_. zero_cbb\<rparr>"
  let ?ra = "buf_realloc heap"
  have nn: "n = 0 \<or> supplies heap n" by (simp add: n_def)
  consider s1 where "CBB_init heap 0 32 ?s = Some (True, s1)" "view ?ra n s1 0 [] []" "\<not> is_child (cbbs s1 0)"
    | s1 where "\<not> supplies heap n" "CBB_init heap 0 32 ?s = Some (False, s1)" "\<not> is_child (cbbs s1 0)"
    using init_outcome [OF _ nn, of 32 0 ?s] by auto
  then show ?thesis
  proof cases
    case 1
    have c1: "child (cbbs s1 0) = None" using 1(2) by (auto simp: view_def)
    from grow.oid_text_appended [OF 1(2) e, of "[]", unfolded appended_def]
    consider s2 where "oid_text ?ra 0 e s1 = Some (True, s2)" "view ?ra n s2 0 (dotted vs @ [0]) []"
      | s2 where "oid_text ?ra 0 e s1 = Some (False, s2)" by (auto simp: outcome_def)
    then show ?thesis
    proof cases
      case 2
      then have "cbbs s2 = cbbs s1" using keeps_oid_text [OF c1] unfolding keeps_def by blast
      then have "CBS_asn1_oid_to_text heap e = Some None"
        using 1 2 by (simp add: CBS_asn1_oid_to_text_def Let_def CBB_cleanup_def)
      moreover have "\<not> supplies heap ?n"
      proof
        assume "supplies heap ?n"
        then have "n = ?n" by (simp add: n_def)
        with outcome_no_error [OF grow.oid_text_appended [OF 1(2) e, of "[]", unfolded appended_def]] 2
        show False by auto
      qed
      ultimately show ?thesis by blast
    next
      case t: 1
      then have "cbbs s2 = cbbs s1" using keeps_oid_text [OF c1] unfolding keeps_def by blast
      then have r: "\<not> is_child (cbbs s2 0)" using 1(3) by simp
      have fl: "CBB_flush ?ra 0 s2 = ret_true s2"
        using t(2) by (subst CBB_flush.simps) (auto simp: view_def good_def)
      from grow.finish_outcome [OF t(2) r]
      show ?thesis
      proof (elim disjE exE conjE)
        fix d l s' u
        assume "CBB_finish ?ra 0 False False s2 = Some (Some (d, l), s')" "closed [] = Some u"
          "take (unat l) d = (dotted vs @ [0]) @ u"
        then show ?thesis using 1(1) t(1) by (simp add: CBS_asn1_oid_to_text_def Let_def)
      next
        fix s' assume "CBB_finish ?ra 0 False False s2 = Some (None, s')"
        moreover obtain b where "buffer s2 = Some b" using t(2) by (auto simp: view_def)
        ultimately show ?thesis using r by (simp add: CBB_finish_def fl ret_true_def CBB_cleanup_def)
      qed
    qed
  next
    case 2
    then have "CBS_asn1_oid_to_text heap e = Some None"
      by (simp add: CBS_asn1_oid_to_text_def Let_def CBB_cleanup_def)
    moreover have "\<not> supplies heap ?n" using 2(1) by (auto simp: n_def split: if_splits)
    ultimately show ?thesis by blast
  qed
qed

end
