(* ===== verification/Cbs_Properties.thy ===== *)
theory Cbs_Properties
  imports Der_Values
begin

text \<open>
  The properties of the byte string reader. Each parser is characterised by an equivalence: it
  gives a result and a rest exactly when its input is the one encoding of that result followed by
  that rest. So a parser inverts its encoding, accepts nothing else, and no two encodings mix.
\<close>

section \<open>Bytes and integers\<close>

lemma xor_zero: "x XOR y = 0 \<longleftrightarrow> x = (y :: 'a::len word)"
  by (auto simp: bit_eq_iff bit_xor_iff)

lemma memcmp_zero:
  "foldl (\<lambda>x (p, q). x OR (p XOR q)) (x :: u8) zs = 0 \<longleftrightarrow> x = 0 \<and> (\<forall>(p, q) \<in> set zs. p = q)"
  by (induction zs arbitrary: x) (auto simp: or_eq_0_iff xor_zero)

lemma memcmp_equal: "length a = length b \<Longrightarrow> CRYPTO_memcmp a b = 0 \<longleftrightarrow> a = b"
proof (induction a b rule: list_induct2)
  case (Cons x xs y ys)
  then show ?case unfolding CRYPTO_memcmp_def memcmp_zero by auto
qed (simp add: CRYPTO_memcmp_def)

text \<open>The constant-time comparison is an exact equality test: CRYPTO_memcmp, which ORs the XOR of every
  pair of bytes and never stops early, makes CBS_mem_equal true for the very bytes of the CBS and for
  no others.\<close>

theorem mem_equal_exact: "CBS_mem_equal cbs data \<longleftrightarrow> cbs = data"
  using memcmp_equal [of cbs data] by (auto simp: CBS_mem_equal_def CBS_len_def)

lemma be_word_inj:
  assumes "length bs = n" and "8 * n \<le> LENGTH('a::len)"
  shows "be_word bs = (v :: 'a word) \<longleftrightarrow> bs = be_bytes n v \<and> unat v < 2 ^ (8 * n)"
proof
  assume "be_word bs = v"
  moreover have "unat (be_word bs :: 'a word) < 2 ^ (8 * n)"
  proof (cases "8 * n < LENGTH('a)")
    case True
    with be_word_less [of bs, where 'a = 'a] assms show ?thesis by simp
  next
    case False
    with assms(2) have "LENGTH('a) = 8 * n" by simp
    with unat_bound [of "be_word bs :: 'a word"] show ?thesis by simp
  qed
  ultimately show "bs = be_bytes n v \<and> unat v < 2 ^ (8 * n)" using be_bytes_be_word [OF assms] by simp
next
  assume "bs = be_bytes n v \<and> unat v < 2 ^ (8 * n)"
  then show "be_word bs = v" by (simp add: be_word_be_bytes_small)
qed

lemma get_u_iff:
  assumes "n \<le> 8"
  shows "cbs_get_u cbs n = (Some v, rest) \<longleftrightarrow> unat v < 2 ^ (8 * n) \<and> cbs = be_bytes n v @ rest"
proof (cases "length cbs < n")
  case True
  then show ?thesis by (auto simp: cbs_get_u_def cbs_get_def)
next
  case False
  then have "cbs_get_u cbs n = (Some v, rest) \<longleftrightarrow> be_word (take n cbs) = v \<and> drop n cbs = rest"
    by (simp add: cbs_get_u_def cbs_get_def)
  also have "\<dots> \<longleftrightarrow> take n cbs = be_bytes n v \<and> unat v < 2 ^ (8 * n) \<and> drop n cbs = rest"
    using False assms be_word_inj [of "take n cbs" n v] by auto
  also have "\<dots> \<longleftrightarrow> unat v < 2 ^ (8 * n) \<and> cbs = be_bytes n v @ rest"
    using False by (metis append_eq_conv_conj append_take_drop_id length_be_bytes)
  finally show ?thesis .
qed

text \<open>The big-endian readers are exact: a number that CBS_get_u24 or CBS_get_u64 gives has 3 or 8 bytes,
  those bytes in big-endian order were in front of the input and are gone, and any input that starts
  with them is accepted.\<close>

theorem big_endian_exact:
  "(CBS_get_u24 cbs = (Some v, rest) \<longleftrightarrow> unat v < 2 ^ 24 \<and> cbs = be_bytes 3 v @ rest)
   \<and> (CBS_get_u64 cbs = (Some w, rest) \<longleftrightarrow> cbs = be_bytes 8 w @ rest)"
proof
  show "CBS_get_u64 cbs = (Some w, rest) \<longleftrightarrow> cbs = be_bytes 8 w @ rest"
    using get_u_iff [of 8 cbs w rest] unat_bound [of w] by (simp add: CBS_get_u64_def)
  show "CBS_get_u24 cbs = (Some v, rest) \<longleftrightarrow> unat v < 2 ^ 24 \<and> cbs = be_bytes 3 v @ rest"
  proof (cases "length cbs < 3")
    case True
    then show ?thesis by (auto simp: CBS_get_u24_def cbs_get_u_def cbs_get_def)
  next
    case False
    have cut: "ucast (be_word bs :: u64) = (be_word bs :: u32)" for bs
      by (rule bit_word_eqI) (auto simp: bit_ucast_iff be_word_le_word bit_le_word)
    have "CBS_get_u24 cbs = (Some v, rest) \<longleftrightarrow> be_word (take 3 cbs) = v \<and> drop 3 cbs = rest"
      using False by (simp add: CBS_get_u24_def cbs_get_u_def cbs_get_def cut)
    also have "\<dots> \<longleftrightarrow> take 3 cbs = be_bytes 3 v \<and> unat v < 2 ^ 24 \<and> drop 3 cbs = rest"
      using False be_word_inj [of "take 3 cbs" 3 v] by auto
    also have "\<dots> \<longleftrightarrow> unat v < 2 ^ 24 \<and> cbs = be_bytes 3 v @ rest"
      using False by (metis append_eq_conv_conj append_take_drop_id length_be_bytes)
    finally show ?thesis .
  qed
qed

text \<open>A length prefix frames exactly its contents: CBS_get_u16_length_prefixed gives contents and rest
  exactly when the input is the two-byte big-endian length of the contents, the contents and the rest;
  a prefix that promises more bytes than there are is refused.\<close>

lemma length_prefix_iff:
  "CBS_get_u16_length_prefixed cbs = (Some p, rest) \<longleftrightarrow>
     length p < 2 ^ 16 \<and> cbs = be_bytes 2 (word_of_nat (length p) :: u64) @ p @ rest"
proof
  assume "CBS_get_u16_length_prefixed cbs = (Some p, rest)"
  then obtain len cbs' where u: "cbs_get_u cbs 2 = (Some len, cbs')" and b: "CBS_get_bytes cbs' (unat len) = (Some p, rest)"
    by (auto simp: CBS_get_u16_length_prefixed_def cbs_get_length_prefixed_def split: prod.splits option.splits)
  from b have p: "length p = unat len" "cbs' = p @ rest"
    by (auto simp: CBS_get_bytes_def cbs_get_def split: if_splits)
  with u show "length p < 2 ^ 16 \<and> cbs = be_bytes 2 (word_of_nat (length p) :: u64) @ p @ rest"
    by (simp add: get_u_iff)
next
  assume a: "length p < 2 ^ 16 \<and> cbs = be_bytes 2 (word_of_nat (length p) :: u64) @ p @ rest"
  then have n: "unat (word_of_nat (length p) :: u64) = length p" by (intro unat_word_of_nat_small) simp
  have "cbs_get_u cbs 2 = (Some (word_of_nat (length p)), p @ rest)" using a n by (simp add: get_u_iff)
  with n show "CBS_get_u16_length_prefixed cbs = (Some p, rest)"
    by (simp add: CBS_get_u16_length_prefixed_def cbs_get_length_prefixed_def CBS_get_bytes_def cbs_get_def)
qed

section \<open>DER\<close>

text \<open>Base-128 numbers have one encoding: parse_base128_integer gives \<open>v\<close> exactly on the minimal encoding
  of \<open>v\<close>, for every 64-bit \<open>v\<close>. Leading 0x80 bytes, numbers of more than 64 bits and inputs that end inside a
  number are refused.\<close>

theorem base128_exact:
  "parse_base128_integer cbs = (Some v, rest) \<longleftrightarrow> cbs = b128_bytes (unat v) @ rest"
  by (rule parse_base128_iff)

text \<open>Identifier octets have one encoding: parse_asn1_tag gives the 32-bit tag \<open>t\<close> exactly on the shortest
  identifier octets of \<open>t\<close>, in the low form for tag numbers below 31 and in the high form for the others, and
  every 32-bit tag can be read.\<close>

theorem tag_exact: "parse_asn1_tag cbs = (Some t, rest) \<longleftrightarrow> cbs = der_tag t @ rest"
  by (rule parse_tag_iff)

text \<open>C11: the element parser accepts DER and nothing else: CBS_get_any_asn1 gives payload and tag exactly when
  the input starts with their DER encoding (shortest identifier octets, shortest definite length, payload
  below $2^{32}$ bytes). Indefinite lengths, long forms of short lengths, leading zero length bytes and
  truncated elements are all refused, without reading past the input.\<close>

theorem any_asn1_exact:
  "CBS_get_any_asn1 cbs = (Some (payload, tag), rest) \<longleftrightarrow> length payload < 2 ^ 32 \<and> cbs = der tag payload @ rest"
  by (rule get_any_asn1_iff)

text \<open>DER is unambiguous: two elements that agree on the bytes of a common input have the same tag and
  payload and leave the same rest, so no DER element is a proper prefix of another. This is the claim by which
  compare_set_of_element calls its length comparison unreachable.\<close>

theorem der_prefix_free:
  assumes "length p < 2 ^ 32" and "length q < 2 ^ 32" and "der s p @ x = der t q @ y"
  shows "s = t \<and> p = q \<and> x = y"
proof -
  have "CBS_get_any_asn1 (der s p @ x) = (Some (p, s), x)" using assms(1) by (simp add: get_any_asn1_iff)
  moreover have "CBS_get_any_asn1 (der s p @ x) = (Some (q, t), y)"
    unfolding assms(3) using assms(2) by (simp add: get_any_asn1_iff)
  ultimately show ?thesis by simp
qed

theorem der_prefix_free_witness: "\<not> (\<exists>x y. der 2 [7] @ x = der 2 [7, 8] @ y)"
  using der_prefix_free [of "[7]" "[7, 8]" 2 _ 2] by force

text \<open>CBS_get_asn1_uint64 reads exactly the non-negative INTEGERs below $2^{64}$ in DER: it gives \<open>v\<close> exactly
  on the element with the minimal contents of \<open>v\<close>. Empty contents, negative numbers, superfluous leading zeros and
  numbers of more than 64 bits are refused.\<close>

theorem asn1_uint64_exact: "CBS_get_asn1_uint64 cbs = (Some v, rest) \<longleftrightarrow> cbs = der 2 (der_uint v) @ rest"
  by (rule get_uint64_iff)

text \<open>C12: CBS_get_asn1_int64 reads exactly the INTEGERs of the 64-bit two's complement numbers in DER, sign
  extension included: it gives \<open>v\<close> exactly on the element with the minimal two's complement contents of \<open>v\<close>.\<close>

theorem asn1_int64_exact: "CBS_get_asn1_int64 cbs = (Some v, rest) \<longleftrightarrow> cbs = der 2 (der_int v) @ rest"
  by (rule get_int64_iff)

lemma peek_iff: "CBS_peek_asn1_tag cbs tag \<longleftrightarrow> (\<exists>r. cbs = der_tag tag @ r)"
proof
  assume "CBS_peek_asn1_tag cbs tag"
  then have "fst (parse_asn1_tag cbs) = Some tag" by (simp add: CBS_peek_asn1_tag_def split: if_splits)
  then show "\<exists>r. cbs = der_tag tag @ r"
    using parse_tag_canonical [of cbs tag "snd (parse_asn1_tag cbs)"] by (metis prod.collapse)
next
  assume "\<exists>r. cbs = der_tag tag @ r"
  then obtain r where r: "cbs = der_tag tag @ r" by blast
  then have "parse_asn1_tag cbs = (Some tag, r)" by (simp add: parse_tag_iff)
  with r length_der_tag(1) [of tag] show "CBS_peek_asn1_tag cbs tag"
    by (simp add: CBS_peek_asn1_tag_def CBS_len_def)
qed

text \<open>Optional elements with a default: CBS_get_optional_asn1_uint64 gives the number inside when the
  explicitly tagged element is there, the default with the input untouched when the next tag is another one or
  the input is empty, and fails when the tag is there and the element is not a DER INTEGER that fills it.\<close>

theorem optional_uint64_exact:
  "CBS_get_optional_asn1_uint64 cbs tag dflt = (Some v, rest) \<longleftrightarrow>
     (if \<exists>r. cbs = der_tag tag @ r then cbs = der tag (der 2 (der_uint v)) @ rest
      else v = dflt \<and> rest = cbs)"
proof (cases "CBS_peek_asn1_tag cbs tag")
  case False
  then show ?thesis
    by (auto simp: CBS_get_optional_asn1_uint64_def CBS_get_optional_asn1_def simp flip: peek_iff)
next
  case True
  have small: "length (der 2 (der_uint v)) < 2 ^ 32"
    using length_der_uint(2) [of v] length_der_tag(2) [of 2] length_der_length [of "length (der_uint v)"]
    by (simp add: der_def der_header_def)
  have child: "whole_child (CBS_get_asn1_uint64 child) = Some v \<longleftrightarrow> child = der 2 (der_uint v)" for child
    using get_uint64_iff [of child v "[]"]
    by (auto simp: whole_child_def CBS_len_def split: prod.splits option.splits)
  have "CBS_get_optional_asn1_uint64 cbs tag dflt = (Some v, rest) \<longleftrightarrow>
      (\<exists>child. CBS_get_asn1 cbs tag = (Some child, rest) \<and> whole_child (CBS_get_asn1_uint64 child) = Some v)"
    using True
    by (cases "CBS_get_asn1 cbs tag"; cases "fst (CBS_get_asn1 cbs tag)")
      (auto simp: CBS_get_optional_asn1_uint64_def CBS_get_optional_asn1_def)
  also have "\<dots> \<longleftrightarrow> cbs = der tag (der 2 (der_uint v)) @ rest"
    using small by (auto simp: child get_asn1_iff)
  finally show ?thesis using True peek_iff [of cbs tag] by simp
qed

end
