(* ===== verification/Cbb_Properties.thy ===== *)
theory Cbb_Properties
  imports Cbb_Set_Of Cbb_Oid Cbs_Properties
begin

text \<open>
  The properties of the byte string builder: flushing and appending refine the abstract
  builder, what is written is what the reader reads, and no call leaves the buffer.
\<close>

section \<open>Refinement\<close>

text \<open>C13: CBB_flush refines the abstract flush: for a builder whose buffer holds \<open>out\<close> followed by the open parts \<open>fs\<close>
  of the object \<open>c\<close>, it closes the parts from the inside out, each with the prefix of its kind (the big-endian
  length, or DER length octets with the contents moved along) in front of its contents, and leaves all other
  objects alone; it fails, with the error flag set, only when a part is too long for its prefix or the buffer
  cannot grow. It never touches a byte outside the buffer.\<close>

theorem flush_closes_parts:
  assumes "view (buf_realloc heap) n s c out fs"
  shows "outcome failed (CBB_flush (buf_realloc heap) c s)
    (\<lambda>s'. \<exists>t. closed fs = Some t \<and> view (buf_realloc heap) n s' c (out @ t) [] \<and> framed s s' c (ids fs))
    (\<exists>t. closed fs = Some t \<and> length out + length t \<le> n)"
  by (rule grow.flush_outcome [OF assms])

text \<open>A fixed buffer of eight bytes with the byte 9 and an open one-byte prefix behind it, whose contents are \<open>x\<close>.\<close>

definition sample :: "u8 list \<Rightarrow> builder" where
  "sample x = \<lparr>buffer = Some \<lparr>buf = 9 # 0 # x @ replicate (6 - length x) 7, blen = word_of_nat (2 + length x), cap = 8,
       can_resize = False, error = False\<rparr>,
     cbbs = (\<lambda>_. zero_cbb)(0 := zero_cbb\<lparr>base := True, child := Some 1\<rparr>,
       1 := zero_cbb\<lparr>base := True, is_child := True, offset := 1, pending_len_len := 1\<rparr>)\<rparr>"

lemma sample_view:
  "length x \<le> 6 \<Longrightarrow> view ra 8 (sample x) 0 [9] [(1, Fixed 1, x)]"
proof -
  assume x: "length x \<le> 6"
  then have "unat (word_of_nat (2 + length x) :: u64) = 2 + length x" by (intro unat_word_of_nat_small) simp
  with x show ?thesis
    by (auto simp: view_def sample_def good_def buf_ok_def roomy_def content_def zero_cbb_def ids_def)
qed

theorem flush_closes_parts_witness:
  "\<exists>s'. CBB_flush (buf_realloc (\<lambda>_. None)) 0 (sample [5, 6]) = Some (True, s')
     \<and> map_option content (buffer s') = Some [9, 2, 5, 6]"
proof -
  have c: "closed [(1, Fixed 1, [5, 6])] = Some [2, 5, 6]" by code_simp
  from outcome_no_error [OF flush_closes_parts [OF sample_view [of "[5, 6]" "buf_realloc (\<lambda>_. None)"]]] c
  show ?thesis by (auto simp: view_def)
qed

text \<open>C14: appending inside nested parts: CBB_add_bytes on any open object \<open>c\<close> of the stack first closes the parts that
  are open inside \<open>c\<close> and then appends the data to the contents of \<open>c\<close>, while the parts around \<open>c\<close>, their objects and
  everything in front of them stay as they are. The only failures are a part that is too long and a buffer
  that cannot grow.\<close>

theorem add_bytes_nested:
  assumes "view (buf_realloc heap) n s r out (fs1 @ (c, k, x) # fs2)" and "length data < 2 ^ 63"
  shows "outcome failed (CBB_add_bytes (buf_realloc heap) c data s)
    (\<lambda>s'. framed s s' c (ids fs2)
      \<and> (\<exists>t. closed fs2 = Some t \<and> view (buf_realloc heap) n s' r out (fs1 @ [(c, k, x @ t @ data)])))
    (\<exists>t. closed fs2 = Some t \<and> length (out @ layout (fs1 @ [(c, k, x @ t @ data)])) \<le> n)"
  using grow.nested_outcome [where ex = "[]", OF assms(1) grow.add_bytes_appended [OF _ assms(2)]] by simp

theorem add_bytes_nested_witness:
  "\<exists>s'. CBB_add_bytes (buf_realloc (\<lambda>_. None)) 1 [6, 7] (sample [5]) = Some (True, s')
     \<and> map_option content (buffer s') = Some [9, 0, 5, 6, 7]"
  using outcome_no_error [OF add_bytes_nested [of "\<lambda>_. None" 8 "sample [5]" 0 "[9]" "[]" 1 "Fixed 1" "[5]" "[]" "[6, 7]"]]
    sample_view [of "[5]"] by (auto simp: view_def)

section \<open>Writing and reading back\<close>

text \<open>C16: length-prefixed parts round trip: data written into a child that CBB_add_u16_length_prefixed opens is, after
  the parent is flushed, exactly what CBS_get_u16_length_prefixed reads at the place where the part starts. Data
  of $2^{16}$ bytes or more is refused at the flush.\<close>

theorem length_prefixed_roundtrip:
  assumes "view (buf_realloc heap) n s c out []" and "i \<noteq> c" and "length data < 2 ^ 63"
  shows "outcome failed
    (and_then (CBB_add_u16_length_prefixed (buf_realloc heap) c i s) (\<lambda>s.
      and_then (CBB_add_bytes (buf_realloc heap) i data s) (CBB_flush (buf_realloc heap) c)))
    (\<lambda>s'. \<exists>b. buffer s' = Some b \<and> take (length out) (content b) = out
        \<and> CBS_get_u16_length_prefixed (drop (length out) (content b)) = (Some data, []))
    (length data < 2 ^ 16 \<and> length out + 2 + length data \<le> n)"
proof -
  have "appended (buf_realloc heap) n [i] s c out [] (be_bytes (unat (2 :: u8)) (word_of_nat (length data) :: u64) @ data)
      (length data < 256 ^ unat (2 :: u8))
    (and_then (cbb_add_length_prefixed (buf_realloc heap) c i 2 s) (\<lambda>s.
      and_then (CBB_add_bytes (buf_realloc heap) i data s) (CBB_flush (buf_realloc heap) c)))"
    by (rule grow.length_prefixed_appended [OF assms(1,2) _ grow.add_bytes_appended [OF _ assms(3)]]) simp
  then show ?thesis unfolding CBB_add_u16_length_prefixed_def appended_def
    by (rule outcome_weaken) (auto simp: view_def length_prefix_iff)
qed

theorem length_prefixed_roundtrip_witness:
  "\<exists>s'. and_then (CBB_add_u16_length_prefixed (buf_realloc (\<lambda>_. None)) 1 2 (sample [])) (\<lambda>s.
      and_then (CBB_add_bytes (buf_realloc (\<lambda>_. None)) 2 [5] s) (CBB_flush (buf_realloc (\<lambda>_. None)) 1)) = Some (True, s')"
proof -
  have "view (buf_realloc (\<lambda>_. None)) 8 (sample []) 1 ([9] @ placeholder (Fixed 1) @ []) []"
    by (rule grow.view_child) (rule sample_view, simp)
  from outcome_no_error [OF length_prefixed_roundtrip [OF this, of 2 "[5]"]] show ?thesis by auto
qed

text \<open>C15: DER integers round trip through a whole builder: in a caller's buffer of at least eleven bytes, for every 64-bit
  value, CBB_init_fixed, CBB_add_asn1_int64 and CBB_finish succeed, and CBS_get_asn1_int64 reads the value from
  the finished bytes and uses them up.\<close>

theorem asn1_int64_roundtrip:
  assumes "11 \<le> length x" and "length x < 2 ^ 63" and "unat len = length x" and "OPENSSL_malloc heap 32 \<noteq> Some None"
  shows "\<exists>s1 s2 s3 d l. CBB_init_fixed heap 0 x len s = Some (True, s1)
    \<and> CBB_add_asn1_int64 (buf_realloc heap) 0 1 v s1 = Some (True, s2)
    \<and> CBB_finish (buf_realloc heap) 0 False False s2 = Some (Some (d, l), s3)
    \<and> CBS_get_asn1_int64 (take (unat l) d) = (Some v, [])"
proof -
  obtain s1 where s1: "CBB_init_fixed heap 0 x len s = Some (True, s1)" "view (buf_realloc heap) (length x) s1 0 [] []"
      "\<not> is_child (cbbs s1 0)"
    using init_fixed_outcome [OF assms(3,2), of heap 0 s "buf_realloc heap"] assms(4) by blast
  have l: "length (der 2 (der_int v)) \<le> 11"
  proof -
    have "length (der_int v) \<le> 8" using length_strip_sign [of "be_bytes 8 v"] by (simp add: der_int_def)
    moreover have "length (der_tag 2) = 1" by code_simp
    ultimately show ?thesis by (simp add: der_def der_header_def der_length_def)
  qed
  obtain s2 where s2: "CBB_add_asn1_int64 (buf_realloc heap) 0 1 v s1 = Some (True, s2)"
      "view (buf_realloc heap) (length x) s2 0 (der 2 (der_int v)) []" "framed s1 s2 0 [1]"
    using outcome_no_error [OF grow.int64_appended [OF s1(2), of 1 v, unfolded appended_def]] l assms(1) by auto
  have "\<not> is_child (cbbs s2 0)" using s1(3) s2(3) by (auto simp: framed_def)
  from grow.finish_outcome [OF s2(2) this] l assms(1)
  obtain d l s3 where "CBB_finish (buf_realloc heap) 0 False False s2 = Some (Some (d, l), s3)"
      "take (unat l) d = der 2 (der_int v)" by fastforce
  moreover have "CBS_get_asn1_int64 (der 2 (der_int v)) = (Some v, [])" by (simp add: get_int64_iff)
  ultimately show ?thesis using s1(1) s2(1) by auto
qed

text \<open>DER unsigned integers are appended in their one encoding: whatever parts are open, CBB_add_asn1_uint64
  closes them and appends the element that CBS_get_asn1_uint64 accepts for the value, and it fails only when
  a part is too long or the buffer cannot grow.\<close>

theorem asn1_uint64_written:
  assumes "view (buf_realloc heap) n s c out fs" and "i \<noteq> c"
  shows "outcome failed (CBB_add_asn1_uint64 (buf_realloc heap) c i v s)
    (\<lambda>s'. \<exists>t e. closed fs = Some t \<and> view (buf_realloc heap) n s' c (out @ t @ e) []
        \<and> CBS_get_asn1_uint64 e = (Some v, []))
    (\<exists>t. closed fs = Some t \<and> length out + length t + 11 \<le> n)"
proof -
  have "length (der 2 (der_uint v)) \<le> 11"
  proof -
    have "length (der_tag 2) = 1" by code_simp
    with length_der_uint(2) [of v] show ?thesis by (simp add: der_def der_header_def der_length_def)
  qed
  moreover have "CBS_get_asn1_uint64 (der 2 (der_uint v)) = (Some v, [])" by (simp add: get_uint64_iff)
  ultimately show ?thesis
    by (intro outcome_weaken [OF grow.uint64_appended [OF assms, of v, unfolded appended_def]]) auto
qed

theorem asn1_uint64_written_witness:
  "\<exists>s'. CBB_add_asn1_uint64 (buf_realloc (\<lambda>_. Some (\<lambda>_. 0))) 0 7 300
      (\<lparr>buffer = Some \<lparr>buf = replicate 16 0, blen = 1, cap = 16, can_resize = True, error = False\<rparr>,
        cbbs = (\<lambda>_. zero_cbb)(0 := zero_cbb\<lparr>base := True\<rparr>)\<rparr>) = Some (True, s')"
proof -
  have "view (buf_realloc (\<lambda>_. Some (\<lambda>_. 0))) 16
      (\<lparr>buffer = Some \<lparr>buf = replicate 16 0, blen = 1, cap = 16, can_resize = True, error = False\<rparr>,
        cbbs = (\<lambda>_. zero_cbb)(0 := zero_cbb\<lparr>base := True\<rparr>)\<rparr>) 0 [0] []"
    by (simp add: view_def good_def buf_ok_def roomy_def content_def zero_cbb_def)
  from outcome_no_error [OF asn1_uint64_written [OF this, of 7 300]] show ?thesis by auto
qed

theorem asn1_int64_roundtrip_witness:
  "\<exists>s1 s2 s3 d l. CBB_init_fixed (\<lambda>_. Some (\<lambda>_. 0)) 0 (replicate 11 0) 11 (sample []) = Some (True, s1)
    \<and> CBB_add_asn1_int64 (buf_realloc (\<lambda>_. Some (\<lambda>_. 0))) 0 1 (- 300) s1 = Some (True, s2)
    \<and> CBB_finish (buf_realloc (\<lambda>_. Some (\<lambda>_. 0))) 0 False False s2 = Some (Some (d, l), s3)
    \<and> CBS_get_asn1_int64 (take (unat l) d) = (Some (- 300), [])"
proof -
  have "OPENSSL_malloc (\<lambda>_. Some (\<lambda>_. 0)) 32 \<noteq> Some None"
    by (simp add: OPENSSL_malloc_def sys_malloc_def)
  from asn1_int64_roundtrip [of "replicate 11 0", OF _ _ _ this] show ?thesis by simp
qed

text \<open>C17: CBB_flush_asn1_set_of sorts: the contents of the object are its DER elements one after the other, and they are
  put back in ascending lexicographic order of their encodings (\<open>der_le\<close>, an order on byte strings), each as often as
  before, at the same place and with the same total length; contents that are not a sequence of DER elements are
  refused.\<close>

theorem set_of_sorted:
  assumes "view (buf_realloc heap) n s c (out @ x) []" and "contents_at s c out"
  shows "outcome (\<lambda>_. True) (CBB_flush_asn1_set_of heap c s)
    (\<lambda>s'. \<exists>es es'. set_of_children x = Some es \<and> concat es = x \<and> mset es' = mset es \<and> sorted_wrt der_le es'
        \<and> view (buf_realloc heap) n s' c (out @ concat es') [])
    (set_of_children x \<noteq> None \<and> length (out @ x) \<le> n \<and> length x < 2 ^ 58 \<and> (\<forall>m. heap m \<noteq> None))"
  using set_of_children_concat
  by (intro outcome_weaken [OF set_of_outcome [OF assms]]) (auto simp: sorted_set_of_def)

theorem set_of_sorted_witness:
  "\<exists>s'. CBB_flush_asn1_set_of (\<lambda>_. Some (\<lambda>_. 0)) 1 (sample [4, 1, 9, 4, 1, 7]) = Some (True, s')"
proof -
  have v: "view (buf_realloc (\<lambda>_. Some (\<lambda>_. 0))) 8 (sample [4, 1, 9, 4, 1, 7]) 1 ([9, 0] @ [4, 1, 9, 4, 1, 7]) []"
    using grow.view_child [OF sample_view, of "[4, 1, 9, 4, 1, 7]"] by simp
  have a: "contents_at (sample [4, 1, 9, 4, 1, 7]) 1 [9, 0]" by (simp add: contents_at_def sample_def zero_cbb_def)
  have "set_of_children [4, 1, 9, 4, 1, 7] \<noteq> None" by code_simp
  with outcome_no_error [OF set_of_sorted [OF v a]] show ?thesis by auto
qed

text \<open>Compare_set_of_element is a total order on encodings: it is 0 for equal encodings only, it is antisymmetric and
  transitive, so the result of the sort does not depend on the sorting algorithm.\<close>

theorem set_of_order:
  "(compare_set_of_element a b = 0 \<longleftrightarrow> a = b)
   \<and> compare_set_of_element a b = - compare_set_of_element b a
   \<and> \<not> (compare_set_of_element a b \<le> 0 \<and> compare_set_of_element b d \<le> 0 \<and> 0 < compare_set_of_element a d)"
proof -
  have le: "compare_set_of_element p q \<le> 0 \<longleftrightarrow> der_le p q" for p q by (auto simp: compare_lexord der_le_def)
  have anti: "(p, q) \<in> lexord bytewise \<Longrightarrow> (q, p) \<notin> lexord bytewise" for p q
    by (rule lexord_asymmetric) (auto intro: asymI)
  show ?thesis
  proof (intro conjI)
    show "compare_set_of_element a b = - compare_set_of_element b a"
      using anti [of a b] lexord_linear [of bytewise a b] by (fastforce simp: compare_lexord)
    show "\<not> (compare_set_of_element a b \<le> 0 \<and> compare_set_of_element b d \<le> 0 \<and> 0 < compare_set_of_element a d)"
      using der_le_trans [of a b d] by (auto simp flip: le simp: not_le)
  qed (simp add: compare_lexord)
qed

text \<open>C18: object identifiers round trip: when CBB_add_asn1_oid_from_text accepts a text, CBS_asn1_oid_to_text of the
  bytes it appended gives exactly that text, terminated, unless memory runs out. It accepts every text that is
  a sequence of decimal numbers (\<open>oid_numbers\<close>) whose first two fit one component (\<open>oid_content\<close>).\<close>

theorem oid_text_roundtrip:
  assumes "view (buf_realloc heap) n s c out fs" and "supplies heap2 (length txt + 1)"
  shows "outcome (\<lambda>_. True) (CBB_add_asn1_oid_from_text (buf_realloc heap) c txt (length txt) s)
    (\<lambda>s'. \<exists>t e. closed fs = Some t \<and> view (buf_realloc heap) n s' c (out @ t @ e) []
       \<and> CBS_asn1_oid_to_text heap2 e = Some (Some (txt @ [0])))
    (\<exists>vs e t. oid_numbers txt = Some vs \<and> oid_content vs = Some e \<and> closed fs = Some t \<and> length (out @ t @ e) \<le> n)"
proof -
  have "CBS_asn1_oid_to_text heap2 e = Some (Some (txt @ [0]))"
    if "oid_numbers txt = Some vs" "oid_content vs = Some e" for vs e
    using oid_to_text [OF that(2), of heap2] oid_numbers_dotted [OF that(1)] assms(2) by auto
  then show ?thesis
    by (intro outcome_weaken [OF grow.oid_from_text_outcome [OF assms(1), of "txt" "length txt"]]) auto
qed

theorem oid_text_roundtrip_witness:
  "\<exists>s'. CBB_add_asn1_oid_from_text (buf_realloc (\<lambda>_. None)) 1 [49, 46, 50, 46, 56, 52, 48] 7 (sample []) = Some (True, s')"
proof -
  have v: "view (buf_realloc (\<lambda>_. None)) 8 (sample []) 1 ([9] @ placeholder (Fixed 1) @ []) []"
    by (rule grow.view_child) (rule sample_view, simp)
  have h: "supplies (\<lambda>_. Some (\<lambda>_. 0)) (length [49, 46, 50, 46, 56, 52, 48 :: u8] + 1)" by (simp add: supplies_def)
  have "oid_numbers [49, 46, 50, 46, 56, 52, 48] = Some [1, 2, 840]"
    by (simp add: oid_numbers.simps parse_dotted_decimal_def CBS_len_def)
  moreover have "oid_content [1, 2, 840] = Some [42, 134, 72]"
    by (simp add: first_pair_def b128_bytes_def b128_high.simps)
  ultimately have "\<exists>vs e t. oid_numbers [49, 46, 50, 46, 56, 52, 48] = Some vs \<and> oid_content vs = Some e
      \<and> closed [] = Some t \<and> length (([9] @ placeholder (Fixed 1) @ []) @ t @ e) \<le> 8"
    by simp
  from outcome_no_error [OF oid_text_roundtrip [OF v h] this] show ?thesis by (auto simp: eval_nat_numeral)
qed

section \<open>Errors and bounds\<close>

text \<open>C20: an error of the builder is final: once its error flag is set, each of the functions listed here, which are those
  that add, reserve, open, flush or finish, gives 0 and changes nothing, on every object of the builder. CBB_did_write
  and CBB_discard_child are not among them: they do not look at the flag.\<close>

theorem errors_are_final:
  assumes "buffer s = Some b" and "error b" and "base (cbbs s c)"
  shows "CBB_flush ra c s = Some (False, s) \<and> CBB_add_bytes ra c data s = Some (False, s)
    \<and> CBB_add_u8 ra c v8 s = Some (False, s) \<and> CBB_add_u16 ra c v16 s = Some (False, s)
    \<and> CBB_add_u16le ra c v16 s = Some (False, s) \<and> CBB_add_u24 ra c v32 s = Some (False, s)
    \<and> CBB_add_u32 ra c v32 s = Some (False, s) \<and> CBB_add_u32le ra c v32 s = Some (False, s)
    \<and> CBB_add_u64 ra c v64 s = Some (False, s) \<and> CBB_add_u64le ra c v64 s = Some (False, s)
    \<and> CBB_add_space ra c len s = Some (False, s) \<and> CBB_reserve ra c len s = Some (False, s)
    \<and> CBB_add_u8_length_prefixed ra c i s = Some (False, s) \<and> CBB_add_u16_length_prefixed ra c i s = Some (False, s)
    \<and> CBB_add_u24_length_prefixed ra c i s = Some (False, s) \<and> CBB_add_asn1 ra c i tag s = Some (False, s)
    \<and> CBB_add_asn1_int64 ra c i v64 s = Some (False, s) \<and> CBB_add_asn1_uint64 ra c i v64 s = Some (False, s)
    \<and> CBB_add_asn1_octet_string ra c i data s = Some (False, s) \<and> CBB_add_asn1_bool ra c i v s = Some (False, s)
    \<and> CBB_add_asn1_oid_from_text ra c data n s = Some (False, s)
    \<and> CBB_flush_asn1_set_of heap c s = Some (False, s) \<and> CBB_finish ra c x y s = Some (None, s)"
proof -
  have f: "CBB_flush ra c s = Some (False, s)" for ra
    using assms by (subst CBB_flush.simps) (simp add: ret_false_def)
  have a: "CBB_add_asn1 ra c i tag s = Some (False, s)" for tag by (simp add: CBB_add_asn1_def f)
  have u: "add_u ra c w k s = Some (False, s)" for w k by (simp add: add_u_def f)
  show ?thesis
    by (simp add: f a u CBB_add_asn1_int64_def CBB_add_asn1_uint64_def Let_def CBB_finish_def CBB_add_bytes_def
        CBB_add_u8_def CBB_add_u16_def CBB_add_u16le_def CBB_add_u24_def CBB_add_u32_def CBB_add_u32le_def
        CBB_add_u64_def CBB_add_u64le_def CBB_add_space_def CBB_reserve_def CBB_add_u8_length_prefixed_def
        CBB_add_u16_length_prefixed_def CBB_add_u24_length_prefixed_def cbb_add_length_prefixed_def
        CBB_add_asn1_octet_string_def CBB_add_asn1_bool_def CBB_add_asn1_oid_from_text_def CBB_flush_asn1_set_of_def)
qed

theorem errors_are_final_witness:
  "let s = \<lparr>buffer = Some \<lparr>buf = [], blen = 0, cap = 0, can_resize = True, error = True\<rparr>,
        cbbs = (\<lambda>_. zero_cbb\<lparr>base := True\<rparr>)\<rparr> in CBB_add_u8 (buf_realloc (\<lambda>_. None)) 0 1 s = Some (False, s)"
proof -
  let ?b = "\<lparr>buf = [], blen = 0, cap = 0, can_resize = True, error = True\<rparr>"
  show ?thesis using errors_are_final [of "\<lparr>buffer = Some ?b, cbbs = (\<lambda>_. zero_cbb\<lparr>base := True\<rparr>)\<rparr>" ?b 0
    "buf_realloc (\<lambda>_. None)" _ 1] by simp
qed

text \<open>C19: a caller's buffer is never grown or overrun: on a fixed buffer CBB_add_bytes succeeds exactly when the data
  fits behind what is there, and then it changes these bytes only; otherwise it sets the error flag and changes no
  byte.\<close>

theorem fixed_buffer_exact:
  assumes "view ra n s c out []" and "buffer s = Some b" and "\<not> can_resize b" and "length data < 2 ^ 63"
  shows "CBB_add_bytes ra c data s =
    (if length out + length data \<le> length (buf b) then
       Some (True, s\<lparr>buffer := Some (b\<lparr>buf := out @ data @ drop (length out + length data) (buf b),
         blen := word_of_nat (length out + length data)\<rparr>)\<rparr>)
     else Some (False, s\<lparr>buffer := Some (b\<lparr>error := True\<rparr>)\<rparr>))"
proof -
  from assms have b: "good ra n b" "content b = out" "base (cbbs s c)" "child (cbbs s c) = None"
    by (auto simp: view_def)
  note l = content_small [OF good_simps(1) [OF b(1)] b(2)]
  have cap: "unat (cap b) = length (buf b)" "length (buf b) < 2 ^ 63" "length out \<le> length (buf b)"
    using b(1) l by (auto simp: good_def buf_ok_def)
  have d: "unat (word_of_nat (length data) :: u64) = length data" using assms(4) by (simp add: unat_word_of_nat_small)
  have len: "unat (blen b + word_of_nat (length data)) = length out + length data"
    using l d assms(4) by (subst unat_plus_small) auto
  have len': "blen b + word_of_nat (length data) = word_of_nat (length out + length data)"
    by (simp flip: len)
  have t: "take (length out) (buf b) = out" using b(2) l by (simp add: content_def)
  have fl: "CBB_flush ra c s = ret_true s"
    using b assms(2) by (subst CBB_flush.simps) (simp add: good_def)
  show ?thesis
  proof (cases "length out + length data \<le> length (buf b)")
    case True
    then have "cbb_buffer_add ra (word_of_nat (length data)) b = ret_true (b\<lparr>blen := word_of_nat (length out + length data)\<rparr>)"
      using cap len l by (simp add: cbb_buffer_add_def cbb_buffer_reserve_def Let_def word_less_nat_alt len' [simplified])
    with True show ?thesis
      by (simp add: CBB_add_bytes_def fl with_base_def b(3) assms(2) poke_def l t Let_def)
  next
    case False
    then have "cbb_buffer_add ra (word_of_nat (length data)) b = ret_false (set_error b)"
      using cap len l assms(3) by (simp add: cbb_buffer_add_def cbb_buffer_reserve_def Let_def word_less_nat_alt)
    with False show ?thesis
      by (simp add: CBB_add_bytes_def fl with_base_def b(3) assms(2) Let_def set_error_def ret_false_def)
  qed
qed

theorem fixed_buffer_exact_witness:
  "\<exists>s'. CBB_add_bytes (buf_realloc (\<lambda>_. None)) 1 [1, 2, 3, 4, 5, 6, 7] (sample []) = Some (False, s')"
proof -
  have "view (buf_realloc (\<lambda>_. None)) 8 (sample []) 1 ([9] @ placeholder (Fixed 1) @ []) []"
    by (rule grow.view_child) (rule sample_view, simp)
  from fixed_buffer_exact [OF this, of _ "[1, 2, 3, 4, 5, 6, 7]"] show ?thesis
    by (simp add: sample_def)
qed

text \<open>CBB_discard_child undoes: whatever was written to the open parts of an object, discarding its child leaves exactly
  what was there before the child was opened, with no part open, and the child can no longer be written to.\<close>

theorem discard_child_undoes:
  assumes "view ra n s c out ((i, k, x) # fs)"
  shows "\<exists>s'. CBB_discard_child c s = Some s' \<and> view ra n s' c out [] \<and> CBB_add_bytes ra i data s' = Some (False, s')"
proof -
  from assms obtain b where b: "buffer s = Some b" "good ra n b" "content b = out @ placeholder k @ x @ layout fs"
      "base (cbbs s c)" "child (cbbs s c) = Some i" "unat (offset (cbbs s i)) = length out" "i \<noteq> c"
    by (auto simp: view_def)
  note l = content_small [OF good_simps(1) [OF b(2)] b(3)]
  let ?b = "b\<lparr>blen := offset (cbbs s i)\<rparr>"
  have "good ra n ?b" using b(2,6) l by (auto simp: good_def buf_ok_def roomy_def)
  moreover have "content ?b = take (length out) (content b)" using l b(6) by (simp add: content_def min_absorb1)
  moreover have "CBB_flush ra i (s\<lparr>buffer := bo, cbbs := (cbbs s)(i := y\<lparr>base := False\<rparr>, c := z)\<rparr>)
      = Some (False, s\<lparr>buffer := bo, cbbs := (cbbs s)(i := y\<lparr>base := False\<rparr>, c := z)\<rparr>)" for bo y z
    using b(7) by (subst CBB_flush.simps) (simp add: ret_false_def)
  ultimately show ?thesis using b by (auto simp: CBB_discard_child_def view_def upd_def CBB_add_bytes_def)
qed

theorem discard_child_undoes_witness:
  "\<exists>s'. CBB_discard_child 0 (sample [5, 6]) = Some s' \<and> map_option content (buffer s') = Some [9]"
  using discard_child_undoes [OF sample_view [of "[5, 6]" "\<lambda>_ _. None"], of "[]"] by (auto simp: view_def)

end
