(* ===== verification/Constant_Time.thy ===== *)
theory Constant_Time
  imports Prelude
begin

text \<open>
  BoringSSL's constant-time comparisons and selections (\<^verbatim>\<open>crypto/internal.h\<close>) on
  \<^verbatim>\<open>crypto_word_t\<close>, 64 bits here, and what they compute. \<^verbatim>\<open>value_barrier_w\<close> returns its argument.
\<close>

definition value_barrier_w :: "u64 \<Rightarrow> u64" where
  "value_barrier_w a = a"

definition constant_time_msb_w :: "u64 \<Rightarrow> u64" where
  "constant_time_msb_w a = 0 - drop_bit (8 * 8 - 1) a"

definition constant_time_lt_w :: "u64 \<Rightarrow> u64 \<Rightarrow> u64" where
  "constant_time_lt_w a b = constant_time_msb_w (a XOR ((a XOR b) OR ((a - b) XOR a)))"

definition constant_time_lt_8 :: "u64 \<Rightarrow> u64 \<Rightarrow> u8" where
  "constant_time_lt_8 a b = ucast (constant_time_lt_w a b)"

definition constant_time_ge_w :: "u64 \<Rightarrow> u64 \<Rightarrow> u64" where
  "constant_time_ge_w a b = NOT (constant_time_lt_w a b)"

definition constant_time_ge_8 :: "u64 \<Rightarrow> u64 \<Rightarrow> u8" where
  "constant_time_ge_8 a b = ucast (constant_time_ge_w a b)"

definition constant_time_is_zero_w :: "u64 \<Rightarrow> u64" where
  "constant_time_is_zero_w a = constant_time_msb_w (NOT a AND (a - 1))"

definition constant_time_is_zero_8 :: "u64 \<Rightarrow> u8" where
  "constant_time_is_zero_8 a = ucast (constant_time_is_zero_w a)"

definition constant_time_eq_w :: "u64 \<Rightarrow> u64 \<Rightarrow> u64" where
  "constant_time_eq_w a b = constant_time_is_zero_w (a XOR b)"

definition constant_time_eq_8 :: "u64 \<Rightarrow> u64 \<Rightarrow> u8" where
  "constant_time_eq_8 a b = ucast (constant_time_eq_w a b)"

definition constant_time_eq_int :: "u32 \<Rightarrow> u32 \<Rightarrow> u64" where
  "constant_time_eq_int a b = constant_time_eq_w (scast a) (scast b)"

definition constant_time_eq_int_8 :: "u32 \<Rightarrow> u32 \<Rightarrow> u8" where
  "constant_time_eq_int_8 a b = constant_time_eq_8 (scast a) (scast b)"

definition constant_time_select_w :: "u64 \<Rightarrow> u64 \<Rightarrow> u64 \<Rightarrow> u64" where
  "constant_time_select_w m a b = (value_barrier_w m AND a) OR (value_barrier_w (NOT m) AND b)"

definition constant_time_select_8 :: "u8 \<Rightarrow> u8 \<Rightarrow> u8 \<Rightarrow> u8" where
  "constant_time_select_8 m a b = ucast (constant_time_select_w (ucast m) (ucast a) (ucast b))"

definition constant_time_select_int :: "u64 \<Rightarrow> u32 \<Rightarrow> u32 \<Rightarrow> u32" where
  "constant_time_select_int m a b = ucast (constant_time_select_w m (scast a) (scast b))"

section \<open>What they compute\<close>

lemma top_bit: "bit w 63 \<longleftrightarrow> 2 ^ 63 \<le> unat (w :: u64)"
proof -
  have "bit w 63 \<longleftrightarrow> bit (unat w) 63" by (simp add: bit_unsigned_iff)
  also have "\<dots> \<longleftrightarrow> odd (unat w div 2 ^ 63)" by (simp add: bit_iff_odd)
  also have "unat w div 2 ^ 63 = 0 \<or> unat w div 2 ^ 63 = 1" using unat_bound [of w] by auto
  then have "odd (unat w div 2 ^ 63) \<longleftrightarrow> \<not> unat w < 2 ^ 63" by (auto simp: div_eq_0_iff)
  finally show ?thesis by (simp add: not_less)
qed

lemma msb_w: "constant_time_msb_w a = (if bit a 63 then - 1 else 0)"
proof -
  have "unat (drop_bit 63 a) = unat a div 2 ^ 63" by (rule unat_drop_bit)
  moreover have "unat a div 2 ^ 63 = (if 2 ^ 63 \<le> unat a then 1 else 0)" using unat_bound [of a] by auto
  ultimately have "drop_bit 63 a = (if bit a 63 then 1 else 0)" by (auto simp: top_bit word_unat_eq_iff)
  then show ?thesis by (simp add: constant_time_msb_w_def)
qed

lemma lt_w: "constant_time_lt_w a b = (if a < b then - 1 else 0)"
proof -
  have "bit (a XOR ((a XOR b) OR ((a - b) XOR a))) 63 \<longleftrightarrow> a < b"
    unfolding bit_xor_iff bit_or_iff unfolding top_bit word_less_nat_alt unat_sub_if'
    using unat_bound [of a] unat_bound [of b] by auto
  then show ?thesis by (simp add: constant_time_lt_w_def msb_w)
qed

lemma is_zero_w: "constant_time_is_zero_w a = (if a = 0 then - 1 else 0)"
proof -
  have "bit (NOT a AND (a - 1)) 63 \<longleftrightarrow> a = 0"
  proof (cases "a = 0")
    case False
    then have "unat (a - 1) = unat a - 1" by (simp add: unat_minus_one)
    then show ?thesis using False unat_bound [of a]
      unfolding bit_and_iff bit_not_iff unfolding top_bit by auto
  qed simp
  then show ?thesis by (simp add: constant_time_is_zero_w_def msb_w)
qed

lemma eq_w: "constant_time_eq_w a b = (if a = b then - 1 else 0)"
proof -
  have "a XOR b = 0 \<longleftrightarrow> a = b" by (auto simp: bit_eq_iff bit_xor_iff)
  then show ?thesis by (simp add: constant_time_eq_w_def is_zero_w)
qed

lemma all_ones_8 [simp]: "ucast (- 1 :: u64) = (0xff :: u8)"
  by code_simp

lemma eq_8: "constant_time_eq_8 a b = (if a = b then 0xff else 0)"
  by (simp add: constant_time_eq_8_def eq_w)

lemma select_w: "constant_time_select_w (- 1) a b = a" "constant_time_select_w 0 a b = b"
  by (simp_all add: constant_time_select_w_def value_barrier_w_def)

lemma select_8: "constant_time_select_8 0xff a b = a" "constant_time_select_8 0 a b = b"
proof -
  have m: "ucast (0xff :: u8) = (mask 8 :: u64)" by (simp add: mask_eq_exp_minus_1)
  show "constant_time_select_8 0xff a b = a"
    unfolding constant_time_select_8_def constant_time_select_w_def value_barrier_w_def m
    by (rule bit_word_eqI)
      (auto simp: bit_ucast_iff bit_or_iff bit_and_iff bit_not_iff bit_mask_iff)
  show "constant_time_select_8 0 a b = b"
    unfolding constant_time_select_8_def constant_time_select_w_def value_barrier_w_def
    by (rule bit_word_eqI) (auto simp: bit_ucast_iff)
qed

lemma select_8_if [simp]: "constant_time_select_8 (if p then 0xff else 0) a b = (if p then a else b)"
  by (simp add: select_8)

lemma select_int: "constant_time_select_int (- 1) a b = a" "constant_time_select_int 0 a b = b"
  unfolding constant_time_select_int_def select_w
  by (rule bit_word_eqI, simp add: bit_ucast_iff bit_signed_iff)+

text \<open>C24: the constant-time masks are exact for every pair of 64-bit words: lt, ge, eq and is_zero give all ones
  where the comparison holds and zero where it does not, and the selections pick their first argument for all
  ones and the second for zero.\<close>

theorem constant_time_exact:
  "constant_time_lt_w a b = (if a < b then - 1 else 0) \<and> constant_time_ge_w a b = (if b \<le> a then - 1 else 0)
   \<and> constant_time_eq_w a b = (if a = b then - 1 else 0) \<and> constant_time_is_zero_w a = (if a = 0 then - 1 else 0)
   \<and> constant_time_select_w (constant_time_lt_w a b) c d = (if a < b then c else d)
   \<and> constant_time_select_8 (constant_time_lt_8 a b) x y = (if a < b then x else y)
   \<and> constant_time_select_int (constant_time_eq_w a b) i j = (if a = b then i else j)"
  by (auto simp: lt_w eq_w is_zero_w constant_time_ge_w_def constant_time_lt_8_def select_w select_int select_8 not_less)

end
