(* ===== verification/Base64.thy ===== *)
theory Base64
  imports Constant_Time
begin

text \<open>
  BoringSSL's base64 codec (\<^verbatim>\<open>crypto/base64/base64.c\<close>): blocks, and streams in an
  \<^verbatim>\<open>EVP_ENCODE_CTX\<close>. Bytes written through an output pointer are the list of them, from where
  the pointer was on. \<open>None\<close> as the outermost value is a failed assertion or an access outside an object.
  The numbers in the definitions are ASCII codes: \<open>43\<close> is \<open>+\<close>, \<open>47\<close> is \<open>/\<close>, \<open>48\<close> is \<open>0\<close>, \<open>61\<close> is \<open>=\<close>,
  \<open>65\<close> is \<open>A\<close> and \<open>97\<close> is \<open>a\<close>.
\<close>

record encode_ctx =
  data_used :: nat
  ctx_data :: "u8 list"
  eof_seen :: bool
  error_encountered :: bool

abbreviation (input) "CTX_SIZE \<equiv> 48 :: nat"
abbreviation (input) "INT_MAX \<equiv> 0x7fffffff :: u64"

section \<open>Characters\<close>

definition constant_time_lt_args_8 :: "u8 \<Rightarrow> u8 \<Rightarrow> u8" where
  "constant_time_lt_args_8 a b = ucast (constant_time_msb_w (ucast a - ucast b))"

definition constant_time_in_range_8 :: "u8 \<Rightarrow> u8 \<Rightarrow> u8 \<Rightarrow> u8" where
  "constant_time_in_range_8 a lo hi = constant_time_lt_args_8 (a - lo) (hi - lo + 1)"

definition conv_bin2ascii :: "u8 \<Rightarrow> u8" where
  "conv_bin2ascii a =
     (let a = a AND 0x3f;
          ret = constant_time_select_8 (constant_time_eq_8 (ucast a) 62) 43 47;
          ret = constant_time_select_8 (constant_time_lt_args_8 a 62) (a - 52 + 48) ret;
          ret = constant_time_select_8 (constant_time_lt_args_8 a 52) (a - 26 + 97) ret
      in constant_time_select_8 (constant_time_lt_args_8 a 26) (a + 65) ret)"

definition base64_ascii_to_bin :: "u8 \<Rightarrow> u8" where
  "base64_ascii_to_bin a =
     (let is_upper = constant_time_in_range_8 a 65 90;
          is_lower = constant_time_in_range_8 a 97 122;
          is_digit = constant_time_in_range_8 a 48 57;
          is_plus = constant_time_eq_8 (ucast a) 43;
          is_slash = constant_time_eq_8 (ucast a) 47;
          is_equals = constant_time_eq_8 (ucast a) 61;
          ret = 0xff;
          ret = constant_time_select_8 is_upper (a - 65) ret;
          ret = constant_time_select_8 is_lower (a - 97 + 26) ret;
          ret = constant_time_select_8 is_digit (a - 48 + 52) ret;
          ret = constant_time_select_8 is_plus 62 ret;
          ret = constant_time_select_8 is_slash 63 ret
      in constant_time_select_8 is_equals 0 ret)"

section \<open>Encoding\<close>

definition EVP_EncodedLength :: "u64 \<Rightarrow> u64 option" where
  "EVP_EncodedLength len =
     (if len + 2 < len then None
      else let len = (len + 2) div 3 in
        if drop_bit 2 (push_bit 2 len) \<noteq> len then None
        else let len = push_bit 2 len in
          if len + 1 < len then None else Some (len + 1))"

text \<open>The loop of \<^verbatim>\<open>EVP_EncodeBlock\<close>: the characters and \<open>ret\<close>.\<close>

fun encode_quads :: "u8 list \<Rightarrow> nat \<Rightarrow> u8 list \<times> nat" where
  "encode_quads [] ret = ([], ret)"
| "encode_quads [a] ret =
     (let l = push_bit 16 (ucast a) :: u32 in
      ([conv_bin2ascii (ucast (drop_bit 18 l)), conv_bin2ascii (ucast (drop_bit 12 l)), 61, 61], ret + 4))"
| "encode_quads [a, b] ret =
     (let l = push_bit 16 (ucast a) OR push_bit 8 (ucast b) :: u32 in
      ([conv_bin2ascii (ucast (drop_bit 18 l)), conv_bin2ascii (ucast (drop_bit 12 l)),
        conv_bin2ascii (ucast (drop_bit 6 l)), 61], ret + 4))"
| "encode_quads (a # b # c # src) ret =
     (let l = push_bit 16 (ucast a) OR push_bit 8 (ucast b) OR ucast c :: u32 in
      case encode_quads src (ret + 4) of
        (dst, ret) \<Rightarrow>
          ([conv_bin2ascii (ucast (drop_bit 18 l)), conv_bin2ascii (ucast (drop_bit 12 l)),
            conv_bin2ascii (ucast (drop_bit 6 l)), conv_bin2ascii (ucast l)] @ dst, ret))"

definition EVP_EncodeBlock :: "u8 list \<Rightarrow> u8 list \<times> nat" where
  "EVP_EncodeBlock src = (case encode_quads src 0 of (dst, ret) \<Rightarrow> (dst @ [0], ret))"

definition EVP_EncodeInit :: encode_ctx where
  "EVP_EncodeInit = \<lparr>data_used = 0, ctx_data = replicate CTX_SIZE 0, eof_seen = False, error_encountered = False\<rparr>"

text \<open>\<^verbatim>\<open>OPENSSL_memcpy(&ctx->data[pos], in, n)\<close>.\<close>

definition ctx_store :: "nat \<Rightarrow> u8 list \<Rightarrow> encode_ctx \<Rightarrow> encode_ctx option" where
  "ctx_store pos bs ctx =
     (if length (ctx_data ctx) < pos + length bs then None
      else Some (ctx\<lparr>ctx_data := take pos (ctx_data ctx) @ bs @ drop (pos + length bs) (ctx_data ctx)\<rparr>))"

text \<open>The output so far, without the zero byte behind it, which the next line overwrites.\<close>

definition add_line :: "u8 list \<Rightarrow> u8 list \<Rightarrow> u8 list \<times> nat" where
  "add_line out src = (case EVP_EncodeBlock src of (dst, encoded) \<Rightarrow> (out @ take encoded dst @ [10], encoded))"

text \<open>The lines from full blocks of the input: the rest of the input, the output, and \<open>total\<close>, or \<open>None\<close>
  where it overflows.\<close>

function encode_lines :: "u8 list \<Rightarrow> u8 list \<Rightarrow> u64 \<Rightarrow> u8 list \<times> u8 list \<times> u64 option" where
  "encode_lines input out tot =
     (if CTX_SIZE \<le> length input then
        (case add_line out (take CTX_SIZE input) of
           (out, encoded) \<Rightarrow>
             if tot + word_of_nat encoded + 1 < tot then (drop CTX_SIZE input, out, None)
             else encode_lines (drop CTX_SIZE input) out (tot + word_of_nat encoded + 1))
      else (input, out, Some tot))"
  by auto
termination by (relation "measure (\<lambda>(input, out, tot). length input)") auto

declare encode_lines.simps [simp del]

text \<open>The zero byte behind the output.\<close>

definition terminated :: "u8 list \<Rightarrow> u8 list" where
  "terminated out = (if out = [] then [] else out @ [0])"

definition EVP_EncodeUpdate :: "encode_ctx \<Rightarrow> u8 list \<Rightarrow> (encode_ctx \<times> u8 list \<times> int) option" where
  "EVP_EncodeUpdate ctx input =
     (if length input = 0 then Some (ctx, [], 0)
      else if \<not> data_used ctx < CTX_SIZE then None
      else if length input < CTX_SIZE - data_used ctx then
        map_option (\<lambda>ctx. (ctx\<lparr>data_used := data_used ctx + length input\<rparr>, [], 0))
          (ctx_store (data_used ctx) input ctx)
      else
        let todo = CTX_SIZE - data_used ctx in
        case (if data_used ctx \<noteq> 0 then
                map_option (\<lambda>ctx. case add_line [] (ctx_data ctx) of
                    (out, encoded) \<Rightarrow> (ctx\<lparr>data_used := 0\<rparr>, drop todo input, out, word_of_nat encoded + 1))
                  (ctx_store (data_used ctx) (take todo input) ctx)
              else Some (ctx, input, [], 0 :: u64)) of
          None \<Rightarrow> None
        | Some (ctx, input, out, tot) \<Rightarrow>
            (case encode_lines input out tot of
               (_, out, None) \<Rightarrow> Some (ctx, terminated out, 0)
             | (input, out, Some tot) \<Rightarrow>
                 map_option (\<lambda>ctx. (ctx\<lparr>data_used := length input\<rparr>, terminated out,
                     if INT_MAX < tot then 0 else int (unat tot)))
                   (ctx_store 0 input ctx)))"

definition EVP_EncodeFinal :: "encode_ctx \<Rightarrow> (encode_ctx \<times> u8 list \<times> int) option" where
  "EVP_EncodeFinal ctx =
     (if data_used ctx = 0 then Some (ctx, [], 0)
      else if length (ctx_data ctx) < data_used ctx then None
      else case EVP_EncodeBlock (take (data_used ctx) (ctx_data ctx)) of
          (dst, encoded) \<Rightarrow>
            if unat INT_MAX < encoded + 1 then None
            else Some (ctx\<lparr>data_used := 0\<rparr>, take encoded dst @ [10, 0], int (encoded + 1)))"

section \<open>Decoding\<close>

definition EVP_DecodedLength :: "nat \<Rightarrow> nat option" where
  "EVP_DecodedLength len = (if len mod 4 \<noteq> 0 then None else Some ((len div 4) * 3))"

definition EVP_DecodeInit :: encode_ctx where
  "EVP_DecodeInit = \<lparr>data_used = 0, ctx_data = replicate CTX_SIZE 0, eof_seen = False, error_encountered = False\<rparr>"

text \<open>The bytes written; their number is \<^verbatim>\<open>*out_num_bytes\<close>.\<close>

definition base64_decode_quad :: "u8 \<Rightarrow> u8 \<Rightarrow> u8 \<Rightarrow> u8 \<Rightarrow> u8 list option" where
  "base64_decode_quad in0 in1 in2 in3 =
     (let a = base64_ascii_to_bin in0; b = base64_ascii_to_bin in1;
          c = base64_ascii_to_bin in2; d = base64_ascii_to_bin in3 in
      if a = 0xff \<or> b = 0xff \<or> c = 0xff \<or> d = 0xff then None
      else let v = push_bit 18 (ucast a) OR push_bit 12 (ucast b) OR push_bit 6 (ucast c) OR ucast d :: u32;
               padding_pattern = (in0 = 61, in1 = 61, in2 = 61, in3 = 61)
        in if padding_pattern = (False, False, False, False)
           then Some [ucast (drop_bit 16 v), ucast (drop_bit 8 v), ucast v]
           else if padding_pattern = (False, False, False, True)
           then Some [ucast (drop_bit 16 v), ucast (drop_bit 8 v)]
           else if padding_pattern = (False, False, True, True)
           then Some [ucast (drop_bit 16 v)]
           else None)"

definition is_space :: "u8 \<Rightarrow> bool" where
  "is_space c \<longleftrightarrow> c = 32 \<or> c = 9 \<or> c = 13 \<or> c = 10"

text \<open>The loop of \<^verbatim>\<open>EVP_DecodeUpdate\<close>: whether it runs to its end, the context and the bytes.\<close>

fun decode_chars :: "u8 list \<Rightarrow> encode_ctx \<Rightarrow> u8 list \<Rightarrow> (bool \<times> encode_ctx \<times> u8 list) option" where
  "decode_chars [] ctx out = Some (True, ctx, out)"
| "decode_chars (c # input) ctx out =
     (if is_space c then decode_chars input ctx out
      else if eof_seen ctx then Some (False, ctx\<lparr>error_encountered := True\<rparr>, out)
      else if length (ctx_data ctx) \<le> data_used ctx then None
      else let ctx = ctx\<lparr>ctx_data := (ctx_data ctx)[data_used ctx := c], data_used := data_used ctx + 1\<rparr> in
        if data_used ctx = 4 then
          (case base64_decode_quad (ctx_data ctx ! 0) (ctx_data ctx ! 1) (ctx_data ctx ! 2) (ctx_data ctx ! 3) of
             None \<Rightarrow> Some (False, ctx\<lparr>error_encountered := True\<rparr>, out)
           | Some bs \<Rightarrow>
               let ctx = ctx\<lparr>data_used := 0\<rparr> in
               decode_chars input (if length bs < 3 then ctx\<lparr>eof_seen := True\<rparr> else ctx) (out @ bs))
        else decode_chars input ctx out)"

text \<open>The return value, the context, the bytes written and \<^verbatim>\<open>*out_len\<close>.\<close>

definition EVP_DecodeUpdate :: "encode_ctx \<Rightarrow> u8 list \<Rightarrow> (int \<times> encode_ctx \<times> u8 list \<times> int) option" where
  "EVP_DecodeUpdate ctx input =
     (if error_encountered ctx then Some (- 1, ctx, [], 0)
      else case decode_chars input ctx [] of
          None \<Rightarrow> None
        | Some (False, ctx, out) \<Rightarrow> Some (- 1, ctx, out, 0)
        | Some (True, ctx, out) \<Rightarrow>
            if unat INT_MAX < length out then Some (- 1, ctx\<lparr>error_encountered := True\<rparr>, out, 0)
            else Some (if eof_seen ctx then 0 else 1, ctx, out, int (length out)))"

definition EVP_DecodeFinal :: "encode_ctx \<Rightarrow> int \<times> int" where
  "EVP_DecodeFinal ctx = (if error_encountered ctx \<or> data_used ctx \<noteq> 0 then - 1 else 1, 0)"

text \<open>The loop over the quads; only the last one may have padding.\<close>

fun decode_quads :: "u8 list \<Rightarrow> u8 list option" where
  "decode_quads (a # b # c # d # input) =
     (case base64_decode_quad a b c d of
        None \<Rightarrow> None
      | Some bs \<Rightarrow>
          if length bs \<noteq> 3 \<and> input \<noteq> [] then None else map_option (\<lambda>out. bs @ out) (decode_quads input))"
| "decode_quads _ = Some []"

definition EVP_DecodeBase64 :: "nat \<Rightarrow> u8 list \<Rightarrow> u8 list option" where
  "EVP_DecodeBase64 max_out input =
     (if length input mod 4 \<noteq> 0 then None
      else case EVP_DecodedLength (length input) of
          None \<Rightarrow> None
        | Some max_len \<Rightarrow> if max_out < max_len then None else decode_quads input)"

text \<open>The bytes written and the return value, \<open>None\<close> for \<open>-1\<close>.\<close>

definition EVP_DecodeBlock :: "u8 list \<Rightarrow> (u8 list \<times> nat) option" where
  "EVP_DecodeBlock src =
     (let src = dropWhile (\<lambda>c. c = 32 \<or> c = 9) src;
          src = rev (dropWhile is_space (rev src))
      in case EVP_DecodedLength (length src) of
          None \<Rightarrow> None
        | Some dst_len \<Rightarrow>
            if unat INT_MAX < dst_len then None
            else case EVP_DecodeBase64 dst_len src of
                None \<Rightarrow> None
              | Some dst \<Rightarrow>
                  let dst = dst @ replicate ((3 - length dst mod 3) mod 3) 0 in Some (dst, length dst))"

end
