(* ===== verification/Base64_Correct.thy ===== *)
theory Base64_Correct
  imports Base64
begin

text \<open>
  The base64 codec is right: decoding inverts encoding for blocks and for streams, however the
  data and the text are cut into pieces.
\<close>

section \<open>Characters\<close>

lemma lt_args_8 [simp]: "constant_time_lt_args_8 a b = (if a < b then 0xff else 0)"
proof -
  have u: "unat (ucast x :: u64) = unat x" "unat (ucast x :: u64) < 256" for x :: u8
    using unat_bound [of x] by (simp_all add: unat_ucast_up)
  have "bit (ucast a - ucast b :: u64) 63 \<longleftrightarrow> a < b"
    unfolding top_bit word_less_nat_alt unat_sub_if' u(1) using u(2) [of a] u(2) [of b] by (auto simp: u(1))
  then show ?thesis by (simp add: constant_time_lt_args_8_def msb_w)
qed

lemma conv_mask: "conv_bin2ascii a = conv_bin2ascii (a AND 0x3f)"
  by (simp add: conv_bin2ascii_def and.assoc)

lemma in_range_8:
  assumes "lo \<le> hi" and "unat hi - unat lo < 255"
  shows "constant_time_in_range_8 a lo hi = (if lo \<le> a \<and> a \<le> hi then 0xff else 0)"
proof -
  have d: "unat (hi - lo) = unat hi - unat lo" using assms(1) by (simp add: unat_sub word_le_nat_alt)
  then have "unat (hi - lo + 1) = unat hi - unat lo + 1" using assms(2) by (subst unat_plus_small) simp_all
  moreover have "unat (a - lo) = (if lo \<le> a then unat a - unat lo else 256 + unat a - unat lo)"
    by (auto simp: unat_sub_if' word_le_nat_alt)
  ultimately have "a - lo < hi - lo + 1 \<longleftrightarrow> lo \<le> a \<and> a \<le> hi"
    using assms unat_bound [of lo] unat_bound [of hi] unfolding word_less_nat_alt word_le_nat_alt
    by (auto split: if_splits)
  then show ?thesis by (simp add: constant_time_in_range_8_def)
qed

lemma ucast_8_64_eq: "ucast (a :: u8) = (n :: u64) \<longleftrightarrow> unat a = unat n"
  by (simp add: word_unat_eq_iff unat_ucast_up)

lemma conv_if:
  "conv_bin2ascii a = (let n = unat (a AND 0x3f) in word_of_nat
     (if n < 26 then n + 65 else if n < 52 then n + 71 else if n < 62 then n - 4 else if n = 62 then 43 else 47))"
proof -
  have w: "a AND 0x3f = word_of_nat (unat (a AND 0x3f))" by simp
  show ?thesis
    by (simp only: conv_bin2ascii_def Let_def lt_args_8 eq_8 select_8_if ucast_8_64_eq word_less_nat_alt)
      (auto simp: of_nat_diff)
qed

lemma ascii_if:
  "base64_ascii_to_bin a = (if unat a = 61 then 0 else if unat a = 47 then 63 else if unat a = 43 then 62
     else if 48 \<le> unat a \<and> unat a \<le> 57 then a + 4 else if 97 \<le> unat a \<and> unat a \<le> 122 then a - 71
     else if 65 \<le> unat a \<and> unat a \<le> 90 then a - 65 else 0xff)"
  by (simp add: base64_ascii_to_bin_def Let_def in_range_8 eq_8 ucast_8_64_eq word_le_nat_alt)

lemma sextet: "unat (a AND 0x3f :: u8) < 64"
proof -
  have "a AND 0x3f = take_bit 6 a" by (simp add: take_bit_eq_mask mask_eq_exp_minus_1)
  then have "unat (a AND 0x3f) = take_bit 6 (unat a)" by (simp only: unsigned_take_bit_eq)
  then show ?thesis using take_bit_nat_less_exp [of 6 "unat a"] by simp
qed

lemma characters:
  "base64_ascii_to_bin (conv_bin2ascii a) = a AND 0x3f" (is ?inv)
  "conv_bin2ascii a \<noteq> 61" (is ?eq) "\<not> is_space (conv_bin2ascii a)" (is ?sp)
proof -
  define n where "n = unat (a AND 0x3f)"
  have n: "n < 64" "a AND 0x3f = word_of_nat n" using sextet [of a] by (simp_all add: n_def)
  define k where "k = (if n < 26 then n + 65 else if n < 52 then n + 71 else if n < 62 then n - 4 else if n = 62 then 43 else 47)"
  have c: "conv_bin2ascii a = word_of_nat k" by (simp add: conv_if k_def n_def Let_def)
  have k: "unat (word_of_nat k :: u8) = k" using n by (intro unat_word_of_nat_small) (auto simp: k_def)
  show ?inv unfolding c ascii_if k n(2)
    using n(1) by (cases "n = 63"; cases "n = 62") (auto simp: k_def of_nat_diff)
  show ?eq unfolding c word_unat_eq_iff k using n(1) by (auto simp: k_def)
  show ?sp unfolding c is_space_def word_unat_eq_iff k using n(1) by (auto simp: k_def)
qed

section \<open>Quads\<close>

lemma sextets_join:
  "push_bit 18 (ucast (ucast (drop_bit 18 l) AND 0x3f :: u8)) OR push_bit 12 (ucast (ucast (drop_bit 12 l) AND 0x3f :: u8))
     OR push_bit 6 (ucast (ucast (drop_bit 6 l) AND 0x3f :: u8)) OR ucast (ucast l AND 0x3f :: u8)
   = take_bit 24 (l :: u32)" (is "?join = _")
proof -
  have m: "(0x3f :: u8) = mask 6" by (simp add: mask_eq_exp_minus_1)
  show ?thesis
  proof (rule bit_word_eqI)
    fix i assume "i < LENGTH(32)"
    consider "i < 6" | "6 \<le> i" "i < 12" | "12 \<le> i" "i < 18" | "18 \<le> i" "i < 24" | "24 \<le> i" by linarith
    then show "bit ?join i = bit (take_bit 24 l) i" unfolding m
      by cases (auto simp: bit_or_iff bit_push_bit_iff bit_ucast_iff bit_and_iff bit_mask_iff bit_drop_bit_eq bit_take_bit_iff)
  qed
qed

lemma quad_bytes:
  "(ucast (drop_bit 16 (take_bit 24 (push_bit 16 (ucast a) OR push_bit 8 (ucast b) OR ucast c :: u32))) :: u8) = a"
  "(ucast (drop_bit 8 (take_bit 24 (push_bit 16 (ucast a) OR push_bit 8 (ucast b) OR ucast c :: u32))) :: u8) = b"
  "(ucast (take_bit 24 (push_bit 16 (ucast a) OR push_bit 8 (ucast b) OR ucast c :: u32)) :: u8) = c"
  for a b c :: u8
  by (rule bit_word_eqI, auto simp: bit_or_iff bit_push_bit_iff bit_ucast_iff bit_drop_bit_eq bit_take_bit_iff
      dest: bit_imp_le_length)+

lemma sextet_valid: "x AND 0x3f \<noteq> (0xff :: u8)"
  using sextet [of x] by (auto simp: word_unat_eq_iff)

lemma equals_bin: "base64_ascii_to_bin 61 = 0"
  by (simp add: ascii_if)

lemma decode_quad_3:
  fixes a b c :: u8
  defines "l \<equiv> push_bit 16 (ucast a) OR push_bit 8 (ucast b) OR ucast c :: u32"
  shows "base64_decode_quad (conv_bin2ascii (ucast (drop_bit 18 l))) (conv_bin2ascii (ucast (drop_bit 12 l)))
    (conv_bin2ascii (ucast (drop_bit 6 l))) (conv_bin2ascii (ucast l)) = Some [a, b, c]"
  unfolding base64_decode_quad_def characters(1) Let_def sextets_join
  using quad_bytes [of a b c] by (simp add: characters(2) sextet_valid l_def)

lemma decode_quad_2:
  fixes a b :: u8
  defines "l \<equiv> push_bit 16 (ucast a) OR push_bit 8 (ucast b) :: u32"
  shows "base64_decode_quad (conv_bin2ascii (ucast (drop_bit 18 l))) (conv_bin2ascii (ucast (drop_bit 12 l)))
    (conv_bin2ascii (ucast (drop_bit 6 l))) 61 = Some [a, b]"
proof -
  have "(ucast l AND 0x3f :: u8) = 0"
    unfolding l_def by (rule bit_word_eqI) (auto simp: bit_and_iff bit_ucast_iff bit_or_iff bit_push_bit_iff)
  then have j: "push_bit 18 (ucast (ucast (drop_bit 18 l) AND 0x3f :: u8)) OR push_bit 12 (ucast (ucast (drop_bit 12 l) AND 0x3f :: u8))
     OR push_bit 6 (ucast (ucast (drop_bit 6 l) AND 0x3f :: u8)) OR ucast (0 :: u8) = take_bit 24 l"
    using sextets_join [of l] by simp
  show ?thesis
    unfolding base64_decode_quad_def characters(1) equals_bin Let_def j
    using quad_bytes [of a b 0] by (simp add: characters(2) sextet_valid l_def)
qed

lemma decode_quad_1:
  fixes a :: u8
  defines "l \<equiv> push_bit 16 (ucast a) :: u32"
  shows "base64_decode_quad (conv_bin2ascii (ucast (drop_bit 18 l))) (conv_bin2ascii (ucast (drop_bit 12 l))) 61 61 = Some [a]"
proof -
  have "(ucast l AND 0x3f :: u8) = 0" "(ucast (drop_bit 6 l) AND 0x3f :: u8) = 0"
    unfolding l_def by (rule bit_word_eqI; auto simp: bit_and_iff bit_ucast_iff bit_push_bit_iff bit_drop_bit_eq)+
  then have j: "push_bit 18 (ucast (ucast (drop_bit 18 l) AND 0x3f :: u8)) OR push_bit 12 (ucast (ucast (drop_bit 12 l) AND 0x3f :: u8))
     OR push_bit 6 (ucast (0 :: u8)) OR ucast (0 :: u8) = take_bit 24 l"
    using sextets_join [of l] by simp
  show ?thesis
    unfolding base64_decode_quad_def characters(1) equals_bin Let_def j
    using quad_bytes [of a 0 0] by (simp add: characters(2) sextet_valid l_def)
qed

section \<open>Blocks\<close>

definition quad3 :: "u8 \<Rightarrow> u8 \<Rightarrow> u8 \<Rightarrow> u8 list" where
  "quad3 a b c =
     (let l = push_bit 16 (ucast a) OR push_bit 8 (ucast b) OR ucast c :: u32 in
      [conv_bin2ascii (ucast (drop_bit 18 l)), conv_bin2ascii (ucast (drop_bit 12 l)),
       conv_bin2ascii (ucast (drop_bit 6 l)), conv_bin2ascii (ucast l)])"

lemma encode_quads_Cons:
  "encode_quads (a # b # c # src) ret =
     (quad3 a b c @ fst (encode_quads src (ret + 4)), snd (encode_quads src (ret + 4)))"
  by (simp add: quad3_def Let_def split: prod.split)

declare encode_quads.simps(4) [simp del]
declare encode_quads_Cons [simp]

text \<open>A quad of characters that are none of the white space and decode to \<open>bs\<close>.\<close>

definition quad_of :: "u8 list \<Rightarrow> u8 list \<Rightarrow> bool" where
  "quad_of q bs \<longleftrightarrow> (\<exists>p0 p1 p2 p3. q = [p0, p1, p2, p3] \<and> base64_decode_quad p0 p1 p2 p3 = Some bs
     \<and> list_all (\<lambda>p. \<not> is_space p) q)"

lemma quad_ofI:
  "base64_decode_quad p0 p1 p2 p3 = Some bs \<Longrightarrow> \<not> is_space p0 \<Longrightarrow> \<not> is_space p1 \<Longrightarrow> \<not> is_space p2 \<Longrightarrow> \<not> is_space p3
    \<Longrightarrow> quad_of [p0, p1, p2, p3] bs"
  by (simp add: quad_of_def)

lemma quad_of_encoded:
  "quad_of (quad3 a b c) [a, b, c]"
  "quad_of (fst (encode_quads [a, b] ret)) [a, b]"
  "quad_of (fst (encode_quads [a] ret)) [a]"
proof -
  have s: "\<not> is_space 61" by (simp add: is_space_def)
  show "quad_of (quad3 a b c) [a, b, c]"
    unfolding quad3_def Let_def by (rule quad_ofI [OF decode_quad_3]) (rule characters(3))+
  show "quad_of (fst (encode_quads [a, b] ret)) [a, b]"
    unfolding encode_quads.simps Let_def fst_conv by (rule quad_ofI [OF decode_quad_2 _ _ _ s]) (rule characters(3))+
  show "quad_of (fst (encode_quads [a] ret)) [a]"
    unfolding encode_quads.simps Let_def fst_conv by (rule quad_ofI [OF decode_quad_1 _ _ s s]) (rule characters(3))+
qed

lemma decode_quads_quad:
  "quad_of q bs \<Longrightarrow> length bs = 3 \<or> t = [] \<Longrightarrow> decode_quads (q @ t) = map_option ((@) bs) (decode_quads t)"
  by (auto simp: quad_of_def)

lemma length_quad3 [simp]: "length (quad3 a b c) = 4"
  by (simp add: quad3_def Let_def)

lemma div3_step: "(5 + n) div 3 = Suc (Suc (Suc n) div 3)" for n :: nat
  by presburger

lemma encode_quads_length:
  "length (fst (encode_quads x ret)) = 4 * ((length x + 2) div 3) \<and> snd (encode_quads x ret) = ret + 4 * ((length x + 2) div 3)"
  by (induction x ret rule: encode_quads.induct) (auto simp: Let_def div3_step)

lemma decode_encode_quads: "decode_quads (fst (encode_quads x ret)) = Some x"
proof (induction x ret rule: encode_quads.induct)
  case (2 a ret)
  show ?case using decode_quads_quad [OF quad_of_encoded(3) [of a ret], of "[]"] by simp
next
  case (3 a b ret)
  show ?case using decode_quads_quad [OF quad_of_encoded(2) [of a b ret], of "[]"] by simp
next
  case (4 a b c src ret)
  then show ?case using decode_quads_quad [OF quad_of_encoded(1) [of a b c]] by simp
qed simp

text \<open>The characters of a whole input.\<close>

fun encoded :: "u8 list \<Rightarrow> u8 list" where
  "encoded (a # b # c # src) = quad3 a b c @ encoded src"
| "encoded src = fst (encode_quads src 0)"

lemma encode_quads_encoded: "fst (encode_quads x ret) = encoded x"
  by (induction x ret rule: encode_quads.induct) (simp_all add: Let_def)

lemma encode_block: "EVP_EncodeBlock x = (encoded x @ [0], length (encoded x))"
  using encode_quads_length [of x 0] encode_quads_encoded [of x 0]
  by (cases "encode_quads x 0") (simp add: EVP_EncodeBlock_def)

lemma length_encoded: "length (encoded x) = 4 * ((length x + 2) div 3)"
  using encode_quads_length [of x 0] by (simp add: encode_quads_encoded)

text \<open>C22: base64 blocks round trip: EVP_DecodeBase64 of the characters that EVP_EncodeBlock writes for any bytes, padding
  included, gives these bytes back, given room for the size that EVP_DecodedLength computes; and
  EVP_EncodedLength is the exact space of the characters and the zero byte behind them.\<close>

theorem base64_block_roundtrip:
  "EVP_EncodeBlock x = (txt, n) \<Longrightarrow> EVP_DecodedLength n = Some room \<Longrightarrow> room \<le> max_out \<Longrightarrow>
     EVP_DecodeBase64 max_out (take n txt) = Some x
     \<and> (length x < 2 ^ 62 \<longrightarrow> EVP_EncodedLength (word_of_nat (length x)) = Some (word_of_nat (length txt)))"
proof -
  assume e: "EVP_EncodeBlock x = (txt, n)" and d: "EVP_DecodedLength n = Some room" "room \<le> max_out"
  then have n: "n = length (encoded x)" "txt = encoded x @ [0]" "n mod 4 = 0"
    by (auto simp: encode_block length_encoded)
  have "decode_quads (encoded x) = Some x" using decode_encode_quads [of x 0] by (simp add: encode_quads_encoded)
  with n d have 1: "EVP_DecodeBase64 max_out (take n txt) = Some x" by (simp add: EVP_DecodeBase64_def)
  have 2: "EVP_EncodedLength (word_of_nat (length x)) = Some (word_of_nat (length txt))" if l: "length x < 2 ^ 62"
  proof -
    let ?k = "(length x + 2) div 3"
    have k: "?k < 2 ^ 61" using l by simp
    have u: "unat (word_of_nat (length x) :: u64) = length x" using l by (simp add: unat_word_of_nat_small)
    then have u2: "unat (word_of_nat (length x) + 2 :: u64) = length x + 2" using l by (subst unat_plus_small) simp_all
    have uk: "unat (word_of_nat ?k :: u64) = ?k" using k by (intro unat_word_of_nat_small) simp
    with u2 have q: "(word_of_nat (length x) + 2) div 3 = (word_of_nat ?k :: u64)"
      by (simp add: word_unat_eq_iff unat_div)
    have p: "unat (push_bit 2 (word_of_nat ?k) :: u64) = 4 * ?k"
      using uk k by (simp add: push_bit_eq_mult unat_word_ariths)
    then have b: "drop_bit 2 (push_bit 2 (word_of_nat ?k)) = (word_of_nat ?k :: u64)"
      unfolding word_unat_eq_iff unat_drop_bit p uk by simp
    have p1: "unat (push_bit 2 (word_of_nat ?k) + 1 :: u64) = 4 * ?k + 1"
      using p k by (subst unat_plus_small) simp_all
    have r: "push_bit 2 (word_of_nat ?k) + 1 = (word_of_nat (4 * ?k + 1) :: u64)"
      by (simp add: push_bit_eq_mult mult.commute)
    have t: "word_of_nat (length txt) = push_bit 2 (word_of_nat ?k) + (1 :: u64)"
      unfolding r by (simp add: n(2) length_encoded)
    show ?thesis
      unfolding EVP_EncodedLength_def Let_def q b t using u u2 p p1 by (simp add: word_less_nat_alt)
  qed
  from 1 2 show ?thesis by blast
qed

theorem base64_block_roundtrip_witness:
  "EVP_DecodeBase64 3 (take 4 (fst (EVP_EncodeBlock [102, 111]))) = Some [102, 111]"
  using base64_block_roundtrip [of "[102, 111]" "fst (EVP_EncodeBlock [102, 111])" 4 3 3]
  by (simp add: EVP_EncodeBlock_def EVP_DecodedLength_def Let_def)

end
