(* ===== verification/Base64_Stream.thy ===== *)
theory Base64_Stream
  imports Base64_Correct
begin

text \<open>
  Streams of base64: \<^verbatim>\<open>EVP_EncodeUpdate\<close> gives one line of text for every 48 bytes, however the
  data is cut into calls, and \<^verbatim>\<open>EVP_DecodeUpdate\<close> gives the data back, however the text is cut.
\<close>

section \<open>Encoding\<close>

definition line :: "u8 list \<Rightarrow> u8 list" where
  "line x = encoded x @ [10]"

text \<open>The lines of the full blocks of the data, and what is left.\<close>

function full_lines :: "u8 list \<Rightarrow> u8 list" where
  "full_lines x = (if 48 \<le> length x then line (take 48 x) @ full_lines (drop 48 x) else [])"
  by auto
termination by (relation "measure length") auto

declare full_lines.simps [simp del]

function left_over :: "u8 list \<Rightarrow> u8 list" where
  "left_over x = (if 48 \<le> length x then left_over (drop 48 x) else x)"
  by auto
termination by (relation "measure length") auto

declare left_over.simps [simp del]

lemma full_lines_short [simp]: "length x < 48 \<Longrightarrow> full_lines x = []"
  by (subst full_lines.simps) simp

lemma left_over_short [simp]: "length x < 48 \<Longrightarrow> left_over x = x"
  by (subst left_over.simps) simp

lemma full_lines_block: "length b = 48 \<Longrightarrow> full_lines (b @ x) = line b @ full_lines x"
  by (subst full_lines.simps) simp

lemma left_over_block: "length b = 48 \<Longrightarrow> left_over (b @ x) = left_over x"
  by (subst left_over.simps) simp

lemma length_left_over: "length (left_over x) < 48"
  by (induction x rule: left_over.induct) (subst left_over.simps, auto)

lemma full_lines_append: "full_lines (x @ y) = full_lines x @ full_lines (left_over x @ y)"
proof (induction x rule: full_lines.induct)
  case (1 x)
  show ?case
  proof (cases "48 \<le> length x")
    case True
    then have "full_lines (x @ y) = line (take 48 x) @ full_lines (drop 48 x @ y)"
      by (subst full_lines.simps) simp
    moreover have "full_lines x = line (take 48 x) @ full_lines (drop 48 x)" "left_over x = left_over (drop 48 x)"
      using True by (subst full_lines.simps left_over.simps; simp)+
    ultimately show ?thesis using 1 [OF True] by simp
  qed simp
qed

lemma left_over_append: "left_over (left_over x @ y) = left_over (x @ y)"
proof (induction x rule: left_over.induct)
  case (1 x)
  show ?case
  proof (cases "48 \<le> length x")
    case True
    then have "left_over (x @ y) = left_over (drop 48 x @ y)" "left_over x = left_over (drop 48 x)"
      by (subst left_over.simps; simp)+
    with 1 [OF True] show ?thesis by simp
  qed simp
qed

lemma length_line: "length x = 48 \<Longrightarrow> length (line x) = 65"
  by (simp add: line_def length_encoded)

lemma length_full_lines: "length (full_lines x) = 65 * (length x div 48)"
proof (induction x rule: full_lines.induct)
  case (1 x)
  show ?case
  proof (cases "48 \<le> length x")
    case True
    then have "length x div 48 = Suc (length (drop 48 x) div 48)" by (simp add: le_div_geq)
    with 1 [OF True] True show ?thesis by (subst full_lines.simps) (simp add: length_line)
  qed simp
qed

lemma add_line: "add_line out x = (out @ line x, length (encoded x))"
  by (simp add: add_line_def encode_block line_def)

lemma encode_lines_full:
  assumes "unat tot + 65 * (length x div 48) < 2 ^ 63"
  shows "encode_lines x out tot = (left_over x, out @ full_lines x, Some (tot + word_of_nat (65 * (length x div 48))))"
  using assms
proof (induction x out tot rule: encode_lines.induct)
  case (1 x out tot)
  show ?case
  proof (cases "48 \<le> length x")
    case True
    have d: "length x div 48 = Suc (length (drop 48 x) div 48)" using True by (simp add: le_div_geq)
    have e: "length (encoded (take 48 x)) = 64" using True by (simp add: length_encoded)
    have tot: "unat (tot + 64 + 1) = unat tot + 65"
    proof -
      have "unat (tot + 65) = unat tot + 65" using 1(2) d by (subst unat_plus_small) simp_all
      then show ?thesis by (simp add: add.assoc)
    qed
    have "\<not> tot + 64 + 1 < tot" using tot by (simp add: word_less_nat_alt)
    then have "encode_lines x out tot = encode_lines (drop 48 x) (out @ line (take 48 x)) (tot + 64 + 1)"
      using True by (subst encode_lines.simps) (simp add: add_line e)
    also have "\<dots> = (left_over (drop 48 x), (out @ line (take 48 x)) @ full_lines (drop 48 x),
        Some (tot + 64 + 1 + word_of_nat (65 * (length (drop 48 x) div 48))))"
      using 1(1) [OF True] 1(2) d tot \<open>\<not> tot + 64 + 1 < tot\<close> by (simp add: add_line e)
    also have "tot + 64 + 1 + word_of_nat (65 * (length (drop 48 x) div 48)) = tot + word_of_nat (65 * (length x div 48))"
      unfolding d by (simp add: algebra_simps)
    finally show ?thesis using True by (simp add: full_lines.simps [of x] left_over.simps [of x])
  next
    case False
    then show ?thesis by (subst encode_lines.simps) simp
  qed
qed

text \<open>An encoder that has kept the bytes \<open>p\<close>.\<close>

definition pending :: "encode_ctx \<Rightarrow> u8 list \<Rightarrow> bool" where
  "pending ctx p \<longleftrightarrow> length (ctx_data ctx) = 48 \<and> data_used ctx < 48 \<and> take (data_used ctx) (ctx_data ctx) = p"

lemma pending_length: "pending ctx p \<Longrightarrow> length p = data_used ctx"
  by (auto simp: pending_def)

lemma ctx_store_pending:
  assumes "length (ctx_data ctx) = 48" and "pos + length bs \<le> 48"
  shows "\<exists>ctx'. ctx_store pos bs ctx = Some ctx' \<and> length (ctx_data ctx') = 48 \<and> data_used ctx' = data_used ctx
    \<and> take (pos + length bs) (ctx_data ctx') = take pos (ctx_data ctx) @ bs"
  using assms by (auto simp: ctx_store_def)

lemma encode_update:
  assumes p: "pending ctx p" and small: "65 * ((length p + length x) div 48) < 2 ^ 31"
  shows "\<exists>ctx' out. EVP_EncodeUpdate ctx x = Some (ctx', out, int (length (full_lines (p @ x))))
    \<and> take (length (full_lines (p @ x))) out = full_lines (p @ x) \<and> pending ctx' (left_over (p @ x))"
proof -
  note pl = pending_length [OF p]
  have c: "length (ctx_data ctx) = 48" "data_used ctx < 48" "take (data_used ctx) (ctx_data ctx) = p"
    using p by (auto simp: pending_def)
  consider "x = []" | "x \<noteq> []" "length x < 48 - length p" | "x \<noteq> []" "48 - length p \<le> length x" by linarith
  then show ?thesis
  proof cases
    case 1
    then show ?thesis using p c pl by (simp add: EVP_EncodeUpdate_def)
  next
    case 2
    have le: "data_used ctx + length x \<le> 48" using 2 pl by linarith
    obtain ctx1 where "ctx_store (data_used ctx) x ctx = Some ctx1" "length (ctx_data ctx1) = 48"
        "data_used ctx1 = data_used ctx" "take (data_used ctx + length x) (ctx_data ctx1) = p @ x"
      using ctx_store_pending [OF c(1) le] c(3) by auto
    then show ?thesis using 2 pl c(2) by (simp add: EVP_EncodeUpdate_def pending_def)
  next
    case 3
    define todo where "todo = 48 - length p"
    have q: "\<exists>ctx1 y out tot. (if data_used ctx \<noteq> 0 then
                map_option (\<lambda>ctx. case add_line [] (ctx_data ctx) of
                    (out, n) \<Rightarrow> (ctx\<lparr>data_used := 0\<rparr>, drop todo x, out, word_of_nat n + 1))
                  (ctx_store (data_used ctx) (take todo x) ctx)
              else Some (ctx, x, [], 0 :: u64)) = Some (ctx1, y, out, tot)
        \<and> length (ctx_data ctx1) = 48 \<and> out @ full_lines y = full_lines (p @ x) \<and> left_over y = left_over (p @ x)
        \<and> unat tot = length out \<and> (tot = 0 \<or> tot = 65) \<and> length out + length (full_lines y) = length (full_lines (p @ x))"
    proof (cases "data_used ctx = 0")
      case True
      then show ?thesis using c pl by simp
    next
      case False
      obtain ctx1 where s: "ctx_store (data_used ctx) (take todo x) ctx = Some ctx1" "length (ctx_data ctx1) = 48"
          "take (data_used ctx + length (take todo x)) (ctx_data ctx1) = p @ take todo x"
        using ctx_store_pending [OF c(1), of "data_used ctx" "take todo x"] c(2,3) pl 3 by (auto simp: todo_def)
      have "length (take todo x) = todo" using 3 by (simp add: todo_def)
      then have d: "ctx_data ctx1 = p @ take todo x" "length (p @ take todo x) = 48"
        using s(2,3) pl c(2) by (simp_all add: todo_def)
      have x: "p @ x = (p @ take todo x) @ drop todo x" by simp
      show ?thesis using False s(1,2) d(2)
        unfolding x full_lines_block [OF d(2)] left_over_block [OF d(2)]
        by (simp add: add_line d(1) length_line) (simp add: length_encoded)
    qed
    then obtain ctx1 y out tot where q: "(if data_used ctx \<noteq> 0 then
                map_option (\<lambda>ctx. case add_line [] (ctx_data ctx) of
                    (out, n) \<Rightarrow> (ctx\<lparr>data_used := 0\<rparr>, drop todo x, out, word_of_nat n + 1))
                  (ctx_store (data_used ctx) (take todo x) ctx)
              else Some (ctx, x, [], 0 :: u64)) = Some (ctx1, y, out, tot)"
        "length (ctx_data ctx1) = 48" "out @ full_lines y = full_lines (p @ x)" "left_over y = left_over (p @ x)"
        "unat tot = length out" "length out + length (full_lines y) = length (full_lines (p @ x))" by blast
    have len: "length out + 65 * (length y div 48) = length (full_lines (p @ x))"
      using q(6) by (simp add: length_full_lines)
    have lt: "length (full_lines (p @ x)) < 2 ^ 31" using small by (simp add: length_full_lines)
    have el: "encode_lines y out tot = (left_over y, out @ full_lines y, Some (tot + word_of_nat (65 * (length y div 48))))"
      by (rule encode_lines_full) (use len lt q(5) in simp)
    have ut: "unat (tot + word_of_nat (65 * (length y div 48))) = length (full_lines (p @ x))"
    proof -
      have "unat (word_of_nat (65 * (length y div 48)) :: u64) = 65 * (length y div 48)"
        using len lt by (intro unat_word_of_nat_small) simp
      then show ?thesis using len lt q(5) by (subst unat_plus_small) simp_all
    qed
    obtain ctx2 where s2: "ctx_store 0 (left_over y) ctx1 = Some ctx2" "length (ctx_data ctx2) = 48"
        "take (length (left_over y)) (ctx_data ctx2) = left_over y"
      using ctx_store_pending [OF q(2), of 0 "left_over y"] length_left_over [of y] by auto
    have guards: "length x \<noteq> 0" "\<not> \<not> data_used ctx < 48" "\<not> length x < todo" and todo: "48 - data_used ctx = todo"
      using 3 c(2) pl by (simp_all add: todo_def)
    have "EVP_EncodeUpdate ctx x =
        Some (ctx2\<lparr>data_used := length (left_over y)\<rparr>, terminated (full_lines (p @ x)), int (length (full_lines (p @ x))))"
      unfolding EVP_EncodeUpdate_def Let_def todo if_not_P [OF guards(1)] if_not_P [OF guards(2)] if_not_P [OF guards(3)] q(1)
      using ut lt by (simp add: el s2(1) q(3) word_less_nat_alt)
    moreover have "take (length (full_lines (p @ x))) (terminated (full_lines (p @ x))) = full_lines (p @ x)"
      by (simp add: terminated_def)
    ultimately show ?thesis using s2 q(4) length_left_over [of y] by (auto simp: pending_def)
  qed
qed

section \<open>Whole streams\<close>

text \<open>A caller that encodes the pieces one after the other and keeps the text of each call.\<close>

fun encode_pieces :: "encode_ctx \<Rightarrow> u8 list list \<Rightarrow> u8 list option" where
  "encode_pieces ctx [] = map_option (\<lambda>(_, out, n). take (nat n) out) (EVP_EncodeFinal ctx)"
| "encode_pieces ctx (x # xs) =
     (case EVP_EncodeUpdate ctx x of
        None \<Rightarrow> None
      | Some (ctx, out, n) \<Rightarrow> map_option (\<lambda>t. take (nat n) out @ t) (encode_pieces ctx xs))"

text \<open>The text of a whole input: a line for every 48 bytes and one for the rest.\<close>

definition base64_text :: "u8 list \<Rightarrow> u8 list" where
  "base64_text x = full_lines x @ (if left_over x = [] then [] else line (left_over x))"

lemma encode_final: "pending ctx p \<Longrightarrow> \<exists>ctx'. EVP_EncodeFinal ctx = Some (ctx',
    if p = [] then [] else line p @ [0], if p = [] then 0 else int (length (line p)))"
proof -
  assume p: "pending ctx p"
  have "length (encoded p) \<le> 64" if "length p < 48"
    using that div_le_mono [of "length p + 2" 49 3] unfolding length_encoded by simp
  with p pending_length [OF p] show ?thesis
    by (auto simp: EVP_EncodeFinal_def pending_def encode_block line_def)
qed

lemma encode_pieces_from:
  "pending ctx p \<Longrightarrow> 65 * ((length p + length (concat xs)) div 48) < 2 ^ 31 \<Longrightarrow>
    encode_pieces ctx xs = Some (base64_text (p @ concat xs))"
proof (induction xs arbitrary: ctx p)
  case Nil
  obtain ctx' where "EVP_EncodeFinal ctx = Some (ctx', if p = [] then [] else line p @ [0],
      if p = [] then 0 else int (length (line p)))" using encode_final [OF Nil(1)] by blast
  moreover have "length p < 48" using Nil(1) pending_length [OF Nil(1)] by (simp add: pending_def)
  ultimately show ?case by (simp add: base64_text_def)
next
  case (Cons x xs)
  have "65 * ((length p + length x) div 48) \<le> 65 * ((length p + length (concat (x # xs))) div 48)"
    by (intro mult_le_mono div_le_mono) simp_all
  then have s: "65 * ((length p + length x) div 48) < 2 ^ 31" using Cons.prems(2) by linarith
  obtain ctx' out where u: "EVP_EncodeUpdate ctx x = Some (ctx', out, int (length (full_lines (p @ x))))"
      "take (length (full_lines (p @ x))) out = full_lines (p @ x)" "pending ctx' (left_over (p @ x))"
    using encode_update [OF Cons.prems(1) s] by blast
  have "length (left_over (p @ x)) \<le> length p + length x"
  proof -
    have "length (left_over z) \<le> length z" for z
      by (induction z rule: left_over.induct) (subst left_over.simps, auto)
    from this [of "p @ x"] show ?thesis by simp
  qed
  then have "65 * ((length (left_over (p @ x)) + length (concat xs)) div 48) \<le> 65 * ((length p + length (concat (x # xs))) div 48)"
    by (intro mult_le_mono div_le_mono) simp_all
  then have "65 * ((length (left_over (p @ x)) + length (concat xs)) div 48) < 2 ^ 31" using Cons.prems(2) by linarith
  from Cons.IH [OF u(3) this] u
  show ?case by (simp add: base64_text_def full_lines_append [of "p @ x", simplified] left_over_append [of "p @ x", simplified])
qed

section \<open>Decoding\<close>

text \<open>A caller that decodes the pieces; \<open>None\<close> when a call reports an error.\<close>

fun decode_pieces :: "encode_ctx \<Rightarrow> u8 list list \<Rightarrow> u8 list option" where
  "decode_pieces ctx [] = (if EVP_DecodeFinal ctx = (1, 0) then Some [] else None)"
| "decode_pieces ctx (x # xs) =
     (case EVP_DecodeUpdate ctx x of
        None \<Rightarrow> None
      | Some (r, ctx, out, n) \<Rightarrow>
          if r = - 1 then None else map_option (\<lambda>t. take (nat n) out @ t) (decode_pieces ctx xs))"

lemma decode_chars_append:
  "decode_chars (x @ y) ctx out =
     (case decode_chars x ctx out of
        None \<Rightarrow> None
      | Some (False, ctx, out) \<Rightarrow> Some (False, ctx, out)
      | Some (True, ctx, out) \<Rightarrow> decode_chars y ctx out)"
  by (induction x ctx out rule: decode_chars.induct) (auto simp: Let_def split: option.split)

lemma decode_chars_out:
  "decode_chars x ctx (a @ b) = map_option (\<lambda>(ok, ctx, out). (ok, ctx, a @ out)) (decode_chars x ctx b)"
  by (induction x arbitrary: ctx b) (auto simp: Let_def split: option.split)

text \<open>A decoder between two quads, and what a sequence of quads does to it.\<close>

definition ready :: "encode_ctx \<Rightarrow> bool \<Rightarrow> bool" where
  "ready ctx eof \<longleftrightarrow> length (ctx_data ctx) = 48 \<and> data_used ctx = 0 \<and> eof_seen ctx = eof \<and> \<not> error_encountered ctx"

lemma decode_quad_chars:
  assumes "ready ctx False" and "quad_of q bs"
  shows "\<exists>ctx'. ready ctx' (length bs < 3) \<and> decode_chars q ctx out = Some (True, ctx', out @ bs)"
proof -
  obtain p0 p1 p2 p3 where q: "q = [p0, p1, p2, p3]" "base64_decode_quad p0 p1 p2 p3 = Some bs"
    "\<not> is_space p0" "\<not> is_space p1" "\<not> is_space p2" "\<not> is_space p3"
    using assms(2) by (auto simp: quad_of_def)
  obtain d0 d1 d2 d3 r where "ctx_data ctx = d0 # d1 # d2 # d3 # r"
    using assms(1) by (auto simp: ready_def eval_nat_numeral length_Suc_conv)
  with assms(1) q show ?thesis by (auto simp: ready_def Let_def eval_nat_numeral)
qed

lemma decode_tail:
  assumes "ready ctx False"
  shows "\<exists>ctx'. ready ctx' (length [a] mod 3 \<noteq> 0) \<and> decode_chars (encoded [a]) ctx out = Some (True, ctx', out @ [a])"
    and "\<exists>ctx'. ready ctx' (length [a, b] mod 3 \<noteq> 0) \<and> decode_chars (encoded [a, b]) ctx out = Some (True, ctx', out @ [a, b])"
  using decode_quad_chars [OF assms quad_of_encoded(3) [of a 0]] decode_quad_chars [OF assms quad_of_encoded(2) [of a b 0]]
  by auto

lemma decode_encoded:
  "ready ctx False \<Longrightarrow> \<exists>ctx'. ready ctx' (length x mod 3 \<noteq> 0) \<and> decode_chars (encoded x) ctx out = Some (True, ctx', out @ x)"
proof (induction x arbitrary: ctx out rule: encoded.induct)
  case (1 a b c src)
  obtain ctx1 where "ready ctx1 False" "decode_chars (quad3 a b c) ctx out = Some (True, ctx1, out @ [a, b, c])"
    using decode_quad_chars [OF 1(2) quad_of_encoded(1)] by fastforce
  moreover from 1(1) [OF this(1)] obtain ctx2 where "ready ctx2 (length src mod 3 \<noteq> 0)"
      "decode_chars (encoded src) ctx1 (out @ [a, b, c]) = Some (True, ctx2, (out @ [a, b, c]) @ src)" by blast
  moreover have "length (a # b # c # src) mod 3 = length src mod 3" by simp
  ultimately show ?case by (auto simp: decode_chars_append)
next
  case "2_1"
  then show ?case by auto
next
  case "2_2"
  then show ?case by (rule decode_tail(1))
next
  case "2_3"
  then show ?case by (rule decode_tail(2))
qed

lemma decode_line:
  "ready ctx False \<Longrightarrow> \<exists>ctx'. ready ctx' (length x mod 3 \<noteq> 0) \<and> decode_chars (line x) ctx out = Some (True, ctx', out @ x)"
  using decode_encoded [of ctx x out] by (auto simp: line_def decode_chars_append is_space_def)

lemma decode_full_lines:
  "ready ctx False \<Longrightarrow> \<exists>ctx' y. ready ctx' False \<and> decode_chars (full_lines x) ctx out = Some (True, ctx', out @ y) \<and> x = y @ left_over x"
proof (induction x arbitrary: ctx out rule: full_lines.induct)
  case (1 x)
  show ?case
  proof (cases "48 \<le> length x")
    case True
    then have m: "length (take 48 x) mod 3 = 0" by simp
    obtain ctx1 where c: "ready ctx1 False" "decode_chars (line (take 48 x)) ctx out = Some (True, ctx1, out @ take 48 x)"
      using decode_line [OF 1(2), of "take 48 x" out] unfolding m by auto
    obtain ctx2 y where d: "ready ctx2 False" "decode_chars (full_lines (drop 48 x)) ctx1 (out @ take 48 x) = Some (True, ctx2, (out @ take 48 x) @ y)"
        "drop 48 x = y @ left_over (drop 48 x)"
      using 1(1) [OF True c(1)] by blast
    have f: "full_lines x = line (take 48 x) @ full_lines (drop 48 x)" "left_over x = left_over (drop 48 x)"
      using True by (subst full_lines.simps left_over.simps; simp)+
    have "x = take 48 x @ y @ left_over (drop 48 x)" unfolding d(3) [symmetric] by simp
    with d(1,2) f c(2) show ?thesis
      by (intro exI [of _ ctx2] exI [of _ "take 48 x @ y"]) (simp add: decode_chars_append)
  qed (use 1(2) in auto)
qed

lemma decode_text:
  assumes "ready ctx False"
  shows "\<exists>ctx' eof. ready ctx' eof \<and> decode_chars (base64_text x) ctx [] = Some (True, ctx', x)"
proof -
  obtain ctx1 y where 1: "ready ctx1 False" "decode_chars (full_lines x) ctx [] = Some (True, ctx1, y)" "x = y @ left_over x"
    using decode_full_lines [OF assms, of x "[]"] by auto
  show ?thesis
  proof (cases "left_over x = []")
    case True
    with 1 show ?thesis by (auto simp: base64_text_def)
  next
    case False
    obtain ctx2 where "ready ctx2 (length (left_over x) mod 3 \<noteq> 0)"
        "decode_chars (line (left_over x)) ctx1 y = Some (True, ctx2, y @ left_over x)"
      using decode_line [OF 1(1), of "left_over x" y] by blast
    with 1 False show ?thesis by (auto simp: base64_text_def decode_chars_append)
  qed
qed

lemma decode_chars_errorless:
  "decode_chars x ctx out = Some (True, ctx', out') \<Longrightarrow> error_encountered ctx' = error_encountered ctx"
  by (induction x ctx out rule: decode_chars.induct) (auto simp: Let_def split: if_splits option.splits)

lemma decode_pieces_chars:
  assumes "decode_chars (concat ys) ctx [] = Some (True, ctx', x)" and "ready ctx' eof" and "\<not> error_encountered ctx"
    and "length x < 2 ^ 31"
  shows "decode_pieces ctx ys = Some x"
  using assms
proof (induction ys arbitrary: ctx x)
  case Nil
  then show ?case by (auto simp: ready_def EVP_DecodeFinal_def)
next
  case (Cons y ys)
  from Cons.prems(1) obtain ctx1 out where y: "decode_chars y ctx [] = Some (True, ctx1, out)"
      "decode_chars (concat ys) ctx1 out = Some (True, ctx', x)"
    by (auto simp: decode_chars_append split: option.splits prod.splits bool.splits)
  then obtain x' where x': "decode_chars (concat ys) ctx1 [] = Some (True, ctx', x')" "x = out @ x'"
    using decode_chars_out [of "concat ys" ctx1 out "[]"] by (cases "decode_chars (concat ys) ctx1 []") auto
  have e: "\<not> error_encountered ctx1" using decode_chars_errorless [OF y(1)] Cons.prems(3) by simp
  have "decode_pieces ctx1 ys = Some x'" by (rule Cons.IH [OF x'(1) Cons.prems(2) e]) (use Cons.prems(4) x'(2) in simp)
  then show ?case using y(1) x'(2) Cons.prems(3,4) by (simp add: EVP_DecodeUpdate_def)
qed

text \<open>C23: base64 streams do not depend on how they are cut: whatever pieces the data is encoded in, the calls of
  EVP_EncodeUpdate and EVP_EncodeFinal give the one text of the data, a line for every 48 bytes; and whatever
  pieces that text is decoded in, the calls of EVP_DecodeUpdate and EVP_DecodeFinal succeed and give the data.\<close>

theorem base64_stream_roundtrip:
  assumes "length (concat xs) < 2 ^ 30"
  shows "\<exists>txt. encode_pieces EVP_EncodeInit xs = Some txt
    \<and> (\<forall>zs. concat zs = concat xs \<longrightarrow> encode_pieces EVP_EncodeInit zs = Some txt)
    \<and> (\<forall>ys. concat ys = txt \<longrightarrow> decode_pieces EVP_DecodeInit ys = Some (concat xs))"
proof -
  have p: "pending EVP_EncodeInit []" by (simp add: pending_def EVP_EncodeInit_def)
  have s: "65 * ((length [] + length (concat zs)) div 48) < 2 ^ 31" if "concat zs = concat xs" for zs
    using assms that by simp
  have e: "encode_pieces EVP_EncodeInit zs = Some (base64_text (concat xs))" if "concat zs = concat xs" for zs
    using encode_pieces_from [OF p s [OF that]] that by simp
  have r: "ready EVP_DecodeInit False" by (simp add: ready_def EVP_DecodeInit_def)
  obtain ctx eof where d: "ready ctx eof" "decode_chars (base64_text (concat xs)) EVP_DecodeInit [] = Some (True, ctx, concat xs)"
    using decode_text [OF r] by blast
  have "decode_pieces EVP_DecodeInit ys = Some (concat xs)" if "concat ys = base64_text (concat xs)" for ys
    by (rule decode_pieces_chars [OF _ d(1)]) (use that d(2) r assms in \<open>simp_all add: ready_def\<close>)
  with e show ?thesis by blast
qed

theorem base64_stream_roundtrip_witness:
  "encode_pieces EVP_EncodeInit [[102], [], [111]] = encode_pieces EVP_EncodeInit [[102, 111]]"
proof -
  obtain t where t: "encode_pieces EVP_EncodeInit [[102, 111]] = Some t"
      "\<forall>zs. concat zs = concat [[102, 111]] \<longrightarrow> encode_pieces EVP_EncodeInit zs = Some t"
    using base64_stream_roundtrip [of "[[102, 111]]"] by auto
  from t(2) [rule_format, of "[[102], [], [111]]"] t(1) show ?thesis by simp
qed

end
