(* ===== verification/Lhash.thy ===== *)
theory Lhash
  imports Mem
begin

text \<open>
  BoringSSL's hash table (\<^verbatim>\<open>crypto/lhash/lhash.c\<close>), a table of chains of items. A chain is the
  list of its items, and a pointer to the pointer to an item is the number of its bucket and its position in the
  chain; past the last item it is the null pointer at the end of the chain. The comparison and the hash
  function belong to the user; \<open>None\<close> is a call with undefined behaviour, as it is for the operations
  here. The memory of the items and of the array of buckets is not modelled beyond whether
  \<^verbatim>\<open>OPENSSL_malloc\<close> gives it.
\<close>

record 'v lhash_item =
  item_data :: 'v
  item_hash :: u32

record 'v lhash =
  num_items :: u64
  buckets :: "'v lhash_item list list"
  num_buckets :: u64
  callback_depth :: u32
  comp_func :: "'v \<Rightarrow> 'v \<Rightarrow> int option"
  hash_func :: "'v \<Rightarrow> u32 option"

abbreviation (input) "kMinNumBuckets \<equiv> 16 :: u64"
abbreviation (input) "kMaxAverageChainLength \<equiv> 2 :: u64"
abbreviation (input) "kMinAverageChainLength \<equiv> 1 :: u64"

text \<open>Whether a call of \<^verbatim>\<open>OPENSSL_malloc\<close> gives memory.\<close>

definition allocated :: "heap \<Rightarrow> u64 \<Rightarrow> bool option" where
  "allocated heap sz = map_option (\<lambda>p. p \<noteq> None) (OPENSSL_malloc heap sz)"

text \<open>The sizes are \<^verbatim>\<open>sizeof(_LHASH)\<close> and, below, \<^verbatim>\<open>sizeof(LHASH_ITEM)\<close>. \<open>Some None\<close> is \<^verbatim>\<open>NULL\<close>.\<close>

definition lh_new :: "heap \<Rightarrow> ('v \<Rightarrow> u32 option) \<Rightarrow> ('v \<Rightarrow> 'v \<Rightarrow> int option) \<Rightarrow> 'v lhash option option" where
  "lh_new heap hash cmp =
     (case allocated heap 48 of
        None \<Rightarrow> None
      | Some False \<Rightarrow> Some None
      | Some True \<Rightarrow>
          (case allocated heap (8 * kMinNumBuckets) of
             None \<Rightarrow> None
           | Some False \<Rightarrow> Some None
           | Some True \<Rightarrow>
               Some (Some \<lparr>num_items = 0, buckets = replicate (unat kMinNumBuckets) [], num_buckets = kMinNumBuckets,
                 callback_depth = 0, comp_func = cmp, hash_func = hash\<rparr>)))"

definition lh_num_items :: "'v lhash \<Rightarrow> u64" where
  "lh_num_items lh = num_items lh"

section \<open>Searching\<close>

text \<open>The position of the first item that is equal, or the end of the chain.\<close>

fun chain_search :: "('v \<Rightarrow> int option) \<Rightarrow> 'v lhash_item list \<Rightarrow> nat option" where
  "chain_search cmp [] = Some 0"
| "chain_search cmp (cur # chain) =
     (case cmp (item_data cur) of
        None \<Rightarrow> None
      | Some r \<Rightarrow> if r = 0 then Some 0 else map_option Suc (chain_search cmp chain))"

definition search_bucket :: "'v lhash \<Rightarrow> u32 \<Rightarrow> ('v \<Rightarrow> int option) \<Rightarrow> (nat \<times> nat) option" where
  "search_bucket lh hash cmp =
     (if num_buckets lh = 0 then None
      else let b = unat (ucast hash mod num_buckets lh) in
        if length (buckets lh) \<le> b then None
        else map_option (\<lambda>k. (b, k)) (chain_search cmp (buckets lh ! b)))"

definition get_next_ptr_and_hash :: "'v lhash \<Rightarrow> 'v \<Rightarrow> ((nat \<times> nat) \<times> u32) option" where
  "get_next_ptr_and_hash lh data =
     (case hash_func lh data of
        None \<Rightarrow> None
      | Some hash \<Rightarrow> map_option (\<lambda>ptr. (ptr, hash)) (search_bucket lh hash (\<lambda>x. comp_func lh x data)))"

definition get_next_ptr_by_key :: "'v lhash \<Rightarrow> 'k \<Rightarrow> u32 \<Rightarrow> ('k \<Rightarrow> 'v \<Rightarrow> int option) \<Rightarrow> (nat \<times> nat) option" where
  "get_next_ptr_by_key lh key key_hash cmp_key = search_bucket lh key_hash (cmp_key key)"

text \<open>\<^verbatim>\<open>*next_ptr\<close>.\<close>

definition item_at :: "'v lhash \<Rightarrow> nat \<times> nat \<Rightarrow> 'v lhash_item option" where
  "item_at lh ptr = (case ptr of (b, k) \<Rightarrow> if k < length (buckets lh ! b) then Some (buckets lh ! b ! k) else None)"

definition lh_retrieve :: "'v lhash \<Rightarrow> 'v \<Rightarrow> 'v option option" where
  "lh_retrieve lh data =
     map_option (\<lambda>(next_ptr, _). map_option item_data (item_at lh next_ptr)) (get_next_ptr_and_hash lh data)"

definition lh_retrieve_key :: "'v lhash \<Rightarrow> 'k \<Rightarrow> u32 \<Rightarrow> ('k \<Rightarrow> 'v \<Rightarrow> int option) \<Rightarrow> 'v option option" where
  "lh_retrieve_key lh key key_hash cmp_key =
     map_option (\<lambda>next_ptr. map_option item_data (item_at lh next_ptr)) (get_next_ptr_by_key lh key key_hash cmp_key)"

section \<open>Resizing\<close>

text \<open>Every item goes to the head of its new chain.\<close>

fun place_items :: "u64 \<Rightarrow> 'v lhash_item list \<Rightarrow> 'v lhash_item list list \<Rightarrow> 'v lhash_item list list option" where
  "place_items new_num_buckets [] new_buckets = Some new_buckets"
| "place_items new_num_buckets (cur # items) new_buckets =
     (if new_num_buckets = 0 then None
      else let new_bucket = unat (ucast (item_hash cur) mod new_num_buckets) in
        place_items new_num_buckets items (new_buckets[new_bucket := cur # new_buckets ! new_bucket]))"

text \<open>The items in the order of the two loops, over the buckets and over each chain.\<close>

definition items_in_order :: "'v lhash \<Rightarrow> 'v lhash_item list option" where
  "items_in_order lh =
     (if length (buckets lh) < unat (num_buckets lh) then None
      else Some (concat (take (unat (num_buckets lh)) (buckets lh))))"

definition lh_rebucket :: "heap \<Rightarrow> 'v lhash \<Rightarrow> u64 \<Rightarrow> 'v lhash option" where
  "lh_rebucket heap lh new_num_buckets =
     (let alloc_size = 8 * new_num_buckets in
      if alloc_size div 8 \<noteq> new_num_buckets then Some lh
      else case allocated heap alloc_size of
          None \<Rightarrow> None
        | Some False \<Rightarrow> Some lh
        | Some True \<Rightarrow>
            (case items_in_order lh of
               None \<Rightarrow> None
             | Some items \<Rightarrow>
                 map_option (\<lambda>new_buckets. lh\<lparr>num_buckets := new_num_buckets, buckets := new_buckets\<rparr>)
                   (place_items new_num_buckets items (replicate (unat new_num_buckets) []))))"

definition lh_maybe_resize :: "heap \<Rightarrow> 'v lhash \<Rightarrow> 'v lhash option" where
  "lh_maybe_resize heap lh =
     (if 0 < callback_depth lh then Some lh
      else if num_buckets lh < kMinNumBuckets then None
      else let avg_chain_length = num_items lh div num_buckets lh in
        if kMaxAverageChainLength < avg_chain_length then
          let new_num_buckets = num_buckets lh * 2 in
          if num_buckets lh < new_num_buckets then lh_rebucket heap lh new_num_buckets else Some lh
        else if avg_chain_length < kMinAverageChainLength \<and> kMinNumBuckets < num_buckets lh then
          let new_num_buckets = num_buckets lh div 2;
              new_num_buckets = if new_num_buckets < kMinNumBuckets then kMinNumBuckets else new_num_buckets
          in lh_rebucket heap lh new_num_buckets
        else Some lh)"

section \<open>Changing the table\<close>

text \<open>The return value and \<^verbatim>\<open>*old_data\<close>.\<close>

definition lh_insert :: "heap \<Rightarrow> 'v lhash \<Rightarrow> 'v \<Rightarrow> ((bool \<times> 'v option) \<times> 'v lhash) option" where
  "lh_insert heap lh data =
     (case get_next_ptr_and_hash lh data of
        None \<Rightarrow> None
      | Some ((b, k), hash) \<Rightarrow>
          (case item_at lh (b, k) of
             Some item \<Rightarrow>
               Some ((True, Some (item_data item)),
                 lh\<lparr>buckets := (buckets lh)[b := (buckets lh ! b)[k := item\<lparr>item_data := data\<rparr>]]\<rparr>)
           | None \<Rightarrow>
               (case allocated heap 24 of
                  None \<Rightarrow> None
                | Some False \<Rightarrow> Some ((False, None), lh)
                | Some True \<Rightarrow>
                    map_option (\<lambda>lh. ((True, None), lh))
                      (lh_maybe_resize heap
                        (lh\<lparr>buckets := (buckets lh)[b := buckets lh ! b @ [\<lparr>item_data = data, item_hash = hash\<rparr>]],
                            num_items := num_items lh + 1\<rparr>)))))"

definition lh_delete :: "heap \<Rightarrow> 'v lhash \<Rightarrow> 'v \<Rightarrow> ('v option \<times> 'v lhash) option" where
  "lh_delete heap lh data =
     (case get_next_ptr_and_hash lh data of
        None \<Rightarrow> None
      | Some ((b, k), _) \<Rightarrow>
          (case item_at lh (b, k) of
             None \<Rightarrow> Some (None, lh)
           | Some item \<Rightarrow>
               map_option (\<lambda>lh. (Some (item_data item), lh))
                 (lh_maybe_resize heap
                   (lh\<lparr>buckets := (buckets lh)[b := take k (buckets lh ! b) @ drop (Suc k) (buckets lh ! b)],
                       num_items := num_items lh - 1\<rparr>))))"

text \<open>
  \<^verbatim>\<open>func\<close> acts on the state behind \<^verbatim>\<open>arg\<close>. A callback that changes the table itself is outside of the
  model: it may free the item that the loop has taken as the next one.
\<close>

definition lh_doall_arg :: "heap \<Rightarrow> 'v lhash \<Rightarrow> ('v \<Rightarrow> 's \<Rightarrow> 's) \<Rightarrow> 's \<Rightarrow> ('s \<times> 'v lhash) option" where
  "lh_doall_arg heap lh func arg =
     (let lh = if callback_depth lh < - 1 then lh\<lparr>callback_depth := callback_depth lh + 1\<rparr> else lh in
      case items_in_order lh of
        None \<Rightarrow> None
      | Some items \<Rightarrow>
          let arg = fold (\<lambda>cur. func (item_data cur)) items arg;
              lh = if callback_depth lh < - 1 then lh\<lparr>callback_depth := callback_depth lh - 1\<rparr> else lh
          in map_option (\<lambda>lh. (arg, lh)) (lh_maybe_resize heap lh))"

definition lh_strhash :: "u8 list option \<Rightarrow> u32 option" where
  "lh_strhash c =
     (case c of
        None \<Rightarrow> Some 0
      | Some c \<Rightarrow> map_option (\<lambda>n. OPENSSL_hash32 (take n c)) (strlen c))"

section \<open>Memory\<close>

lemma allocated_some: "unat sz + 8 < 2 ^ 64 \<Longrightarrow> \<exists>ok. allocated heap sz = Some ok"
proof -
  assume s: "unat sz + 8 < 2 ^ 64"
  then have u: "unat (sz + 8) = unat sz + 8" by (subst unat_plus_small) simp_all
  show ?thesis
    by (auto simp: allocated_def OPENSSL_malloc_def sys_malloc_def u split: option.split)
qed

end
