(* ===== verification/Lhash_Refine.thy ===== *)
theory Lhash_Refine
  imports Lhash "HOL-Library.Multiset"
begin

text \<open>
  The hash table refines a finite map from keys: the locale \<open>hash_keys\<close> states what the table relies on in
  its user functions, and its lemmas give every operation as an operation of the map.
\<close>

section \<open>Abstraction\<close>

abbreviation (input) item_key :: "('v \<Rightarrow> 'k) \<Rightarrow> 'v lhash_item \<Rightarrow> 'k" where
  "item_key key i \<equiv> key (item_data i)"

text \<open>The items are the elements of the map.\<close>

definition holds :: "('v \<Rightarrow> 'k) \<Rightarrow> 'v lhash_item list \<Rightarrow> ('k \<rightharpoonup> 'v) \<Rightarrow> bool" where
  "holds key items m \<longleftrightarrow> distinct (map (item_key key) items)
     \<and> (\<forall>k v. m k = Some v \<longleftrightarrow> (\<exists>i\<in>set items. item_key key i = k \<and> item_data i = v))"

text \<open>An item that may be in the bucket \<open>b\<close> of \<open>n\<close>.\<close>

definition belongs :: "('v \<Rightarrow> bool) \<Rightarrow> ('v \<Rightarrow> 'k) \<Rightarrow> ('k \<Rightarrow> u32) \<Rightarrow> nat \<Rightarrow> nat \<Rightarrow> 'v lhash_item \<Rightarrow> bool" where
  "belongs valid key code n b i \<longleftrightarrow> valid (item_data i) \<and> item_hash i = code (item_key key i) \<and> unat (code (item_key key i)) mod n = b"

definition placed :: "('v \<Rightarrow> bool) \<Rightarrow> ('v \<Rightarrow> 'k) \<Rightarrow> ('k \<Rightarrow> u32) \<Rightarrow> nat \<Rightarrow> 'v lhash_item list list \<Rightarrow> bool" where
  "placed valid key code n bs \<longleftrightarrow> length bs = n \<and> (\<forall>b<n. \<forall>i\<in>set (bs ! b). belongs valid key code n b i)"

lemma holds_perm: "mset xs = mset ys \<Longrightarrow> holds key xs m \<Longrightarrow> holds key ys m"
proof -
  assume p: "mset xs = mset ys" and h: "holds key xs m"
  from p have "mset (map (item_key key) xs) = mset (map (item_key key) ys)" by simp
  then have "distinct (map (item_key key) ys)" using h mset_eq_imp_distinct_iff by (metis holds_def)
  with h mset_eq_setD [OF p] show ?thesis by (simp add: holds_def)
qed

lemma holds_insert:
  "holds key items m \<Longrightarrow> m (item_key key i) = None \<Longrightarrow> holds key (i # items) (m(item_key key i \<mapsto> item_data i))"
  unfolding holds_def by (auto simp: image_iff) (metis option.distinct(1))+

lemma holds_remove: "holds key (i # items) m \<Longrightarrow> holds key items (m(item_key key i := None))"
  unfolding holds_def by (auto simp: image_iff)

lemma holds_element: "holds key items m \<Longrightarrow> i \<in> set items \<Longrightarrow> m (item_key key i) = Some (item_data i)"
  by (auto simp: holds_def)

lemma holds_no_key: "holds key items m \<Longrightarrow> m k = None \<longleftrightarrow> k \<notin> item_key key ` set items"
  unfolding holds_def by (auto simp: image_iff) (metis not_None_eq)+

lemma holds_values:
  assumes "holds key items m"
  shows "distinct (map item_data items)" and "set (map item_data items) = ran m"
    and "dom m = item_key key ` set items" and "card (dom m) = length items"
proof -
  have d: "distinct (map key (map item_data items))" using assms by (simp add: holds_def comp_def)
  then show "distinct (map item_data items)" using distinct_map by blast
  show "set (map item_data items) = ran m" using assms by (auto simp: holds_def ran_def)
  show dm: "dom m = item_key key ` set items" using holds_no_key [OF assms] by (auto simp: dom_def)
  have "card (set (map (item_key key) items)) = length items"
    using assms distinct_card [of "map (item_key key) items"] by (simp add: holds_def)
  then show "card (dom m) = length items" by (simp add: dm)
qed

lemma placed_update:
  assumes "placed valid key code n (as @ c # bs)" and "\<forall>i\<in>set c'. belongs valid key code n (length as) i"
  shows "placed valid key code n (as @ c' # bs)"
  using assms by (auto simp: placed_def nth_append nth_Cons split: nat.splits)

section \<open>The operations\<close>

locale hash_keys =
  fixes hash :: "'v \<Rightarrow> u32 option"
    and cmp :: "'v \<Rightarrow> 'v \<Rightarrow> int option"
    and valid :: "'v \<Rightarrow> bool"
    and key :: "'v \<Rightarrow> 'k"
    and code :: "'k \<Rightarrow> u32"
  assumes hash_code: "valid a \<Longrightarrow> hash a = Some (code (key a))"
    and cmp_key: "valid a \<Longrightarrow> valid b \<Longrightarrow> \<exists>c. cmp a b = Some c \<and> (c = 0 \<longleftrightarrow> key a = key b)"
begin

definition represents :: "'v lhash \<Rightarrow> ('k \<rightharpoonup> 'v) \<Rightarrow> bool" where
  "represents lh m \<longleftrightarrow> comp_func lh = cmp \<and> hash_func lh = hash \<and> callback_depth lh = 0
     \<and> (\<exists>k\<ge>4. unat (num_buckets lh) = 2 ^ k) \<and> placed valid key code (unat (num_buckets lh)) (buckets lh)
     \<and> holds key (concat (buckets lh)) m \<and> unat (num_items lh) = length (concat (buckets lh))"

lemma representsD:
  assumes "represents lh m"
  shows "comp_func lh = cmp" "hash_func lh = hash" "callback_depth lh = 0"
    "\<exists>k\<ge>4. unat (num_buckets lh) = 2 ^ k" "placed valid key code (unat (num_buckets lh)) (buckets lh)"
    "holds key (concat (buckets lh)) m" "unat (num_items lh) = length (concat (buckets lh))"
    "length (buckets lh) = unat (num_buckets lh)" "num_buckets lh \<noteq> 0"
proof -
  note R = assms [unfolded represents_def]
  show p: "comp_func lh = cmp" "hash_func lh = hash" "callback_depth lh = 0"
    "\<exists>k\<ge>4. unat (num_buckets lh) = 2 ^ k" "placed valid key code (unat (num_buckets lh)) (buckets lh)"
    "holds key (concat (buckets lh)) m" "unat (num_items lh) = length (concat (buckets lh))"
    using R by simp_all
  show "length (buckets lh) = unat (num_buckets lh)" using p(5) by (simp add: placed_def)
  show "num_buckets lh \<noteq> 0" using p(4) by auto
qed

text \<open>A comparison with the key \<open>kd\<close>.\<close>

definition finds :: "('v \<Rightarrow> int option) \<Rightarrow> 'k \<Rightarrow> bool" where
  "finds f kd \<longleftrightarrow> (\<forall>x. valid x \<longrightarrow> (\<exists>c. f x = Some c \<and> (c = 0 \<longleftrightarrow> key x = kd)))"

lemma finds_cmp: "valid d \<Longrightarrow> finds (\<lambda>x. cmp x d) (key d)"
  using cmp_key by (simp add: finds_def)

lemma chain_search_split:
  "\<forall>i\<in>set c. valid (item_data i) \<Longrightarrow> finds f kd \<Longrightarrow>
    \<exists>xs ys. c = xs @ ys \<and> chain_search f c = Some (length xs) \<and> kd \<notin> item_key key ` set xs
      \<and> (ys = [] \<or> item_key key (hd ys) = kd)"
proof (induction c)
  case (Cons i c)
  obtain r where r: "f (item_data i) = Some r" "r = 0 \<longleftrightarrow> key (item_data i) = kd"
    using Cons.prems by (auto simp: finds_def)
  show ?case
  proof (cases "r = 0")
    case True
    with r show ?thesis by (intro exI [of _ "[]"] exI [of _ "i # c"]) simp
  next
    case False
    obtain xs ys where "c = xs @ ys" "chain_search f c = Some (length xs)" "kd \<notin> item_key key ` set xs"
        "ys = [] \<or> item_key key (hd ys) = kd" using Cons.IH Cons.prems by auto
    with r False show ?thesis by (intro exI [of _ "i # xs"] exI [of _ ys]) auto
  qed
qed simp

lemma search_split:
  assumes r: "represents lh m" and f: "finds f kd"
  obtains as c1 c2 bs where "buckets lh = as @ (c1 @ c2) # bs"
    and "length as = unat (code kd) mod unat (num_buckets lh)"
    and "search_bucket lh (code kd) f = Some (length as, length c1)"
    and "c2 = [] \<and> m kd = None \<or> (\<exists>i c. c2 = i # c \<and> item_key key i = kd \<and> m kd = Some (item_data i))"
proof -
  note R = representsD [OF r]
  define n where "n = unat (num_buckets lh)"
  define b where "b = unat (code kd) mod n"
  have n: "n \<noteq> 0" using R(4) by (auto simp: n_def)
  then have b: "b < n" by (simp add: b_def)
  have ub: "unat (ucast (code kd) mod num_buckets lh) = b" by (simp add: unat_mod b_def n_def)
  define c where "c = buckets lh ! b"
  have split: "buckets lh = take b (buckets lh) @ c # drop (Suc b) (buckets lh)" "length (take b (buckets lh)) = b"
    using b R(8) by (simp_all add: c_def n_def id_take_nth_drop)
  have pl: "\<forall>i\<in>set c. belongs valid key code n b i" using R(5) b by (simp add: placed_def n_def c_def)
  obtain xs ys where xy: "c = xs @ ys" "chain_search f c = Some (length xs)" "kd \<notin> item_key key ` set xs"
      "ys = [] \<or> item_key key (hd ys) = kd"
    using chain_search_split [OF _ f, of c] pl by (auto simp: belongs_def)
  have get: "search_bucket lh (code kd) f = Some (b, length xs)"
    using R(8,9) b xy(2) by (simp add: search_bucket_def Let_def ub c_def n_def)
  have m: "ys = [] \<and> m kd = None \<or> (\<exists>i c. ys = i # c \<and> item_key key i = kd \<and> m kd = Some (item_data i))"
  proof (cases ys)
    case Nil
    have "kd \<notin> item_key key ` set (concat (buckets lh))"
    proof
      assume "kd \<in> item_key key ` set (concat (buckets lh))"
      then obtain b' i where i: "b' < n" "i \<in> set (buckets lh ! b')" "item_key key i = kd"
        using R(8) by (fastforce simp: in_set_conv_nth n_def)
      then have "belongs valid key code n b' i" using R(5) by (simp add: placed_def n_def)
      then have "b' = b" using i(3) by (simp add: belongs_def b_def)
      with i xy(1,3) Nil show False by (auto simp: c_def image_iff)
    qed
    with Nil show ?thesis using holds_no_key [OF R(6)] by blast
  next
    case (Cons i c')
    have "i \<in> set (concat (buckets lh))" by (subst split(1)) (simp add: xy(1) Cons)
    from holds_element [OF R(6) this] show ?thesis using Cons xy(4) by auto
  qed
  show ?thesis
    by (rule that [of "take b (buckets lh)" xs ys "drop (Suc b) (buckets lh)"])
      (use split get m xy(1) in \<open>simp_all add: b_def n_def\<close>)
qed

lemma next_ptr: "represents lh m \<Longrightarrow> valid d \<Longrightarrow>
  get_next_ptr_and_hash lh d = map_option (\<lambda>p. (p, code (key d))) (search_bucket lh (code (key d)) (\<lambda>x. cmp x d))"
  by (simp add: get_next_ptr_and_hash_def representsD(1,2) hash_code)

lemma search_map: "represents lh m \<Longrightarrow> finds f kd \<Longrightarrow>
  map_option (\<lambda>p. map_option item_data (item_at lh p)) (search_bucket lh (code kd) f) = Some (m kd)"
proof -
  assume "represents lh m" "finds f kd"
  then obtain as c1 c2 bs where "buckets lh = as @ (c1 @ c2) # bs"
      "search_bucket lh (code kd) f = Some (length as, length c1)"
      "c2 = [] \<and> m kd = None \<or> (\<exists>i c. c2 = i # c \<and> item_key key i = kd \<and> m kd = Some (item_data i))"
    by (rule search_split)
  then show ?thesis by (auto simp: item_at_def)
qed

lemma retrieve_map: "represents lh m \<Longrightarrow> valid d \<Longrightarrow> lh_retrieve lh d = Some (m (key d))"
  using search_map [OF _ finds_cmp] by (simp add: lh_retrieve_def next_ptr option.map_comp comp_def)

lemma retrieve_key_map:
  "represents lh m \<Longrightarrow> finds (cmp_key k) kd \<Longrightarrow> lh_retrieve_key lh k (code kd) cmp_key = Some (m kd)"
  using search_map by (simp add: lh_retrieve_key_def get_next_ptr_by_key_def)

subsection \<open>Resizing\<close>

lemma place_items_placed:
  assumes "unat n \<noteq> 0" and "placed valid key code (unat n) bs"
    and "\<forall>i\<in>set items. valid (item_data i) \<and> item_hash i = code (item_key key i)"
  shows "\<exists>bs'. place_items n items bs = Some bs' \<and> placed valid key code (unat n) bs'
    \<and> mset (concat bs') = mset items + mset (concat bs)"
  using assms(2,3)
proof (induction items arbitrary: bs)
  case (Cons i items)
  define b where "b = unat (item_hash i) mod unat n"
  have b: "b < unat n" using assms(1) by (simp add: b_def)
  have ub: "unat (ucast (item_hash i) mod n) = b" by (simp add: unat_mod b_def)
  obtain as c cs where s: "bs = as @ c # cs" "length as = b"
    using id_take_nth_drop [of b bs] Cons.prems(1) b by (metis length_take less_or_eq_imp_le min_absorb2 placed_def)
  have "placed valid key code (unat n) (as @ (i # c) # cs)"
  proof (rule placed_update [OF Cons.prems(1) [unfolded s(1)]])
    have "\<forall>j\<in>set c. belongs valid key code (unat n) b j"
      using Cons.prems(1) b unfolding placed_def s by (metis nth_append_length s(2))
    then show "\<forall>j\<in>set (i # c). belongs valid key code (unat n) (length as) j"
      using Cons.prems(2) by (simp add: s(2) belongs_def b_def)
  qed
  from Cons.IH [OF this] Cons.prems(2) obtain bs' where
    "place_items n items (as @ (i # c) # cs) = Some bs'" "placed valid key code (unat n) bs'"
    "mset (concat bs') = mset items + mset (concat (as @ (i # c) # cs))" by auto
  moreover have "bs[b := i # bs ! b] = as @ (i # c) # cs" by (simp add: s(1) flip: s(2))
  ultimately show ?case using assms(1) by (simp add: Let_def ub s(1) unat_eq_0)
qed simp

lemma rebucket:
  assumes r: "represents lh m" and n: "\<exists>k\<ge>4. unat n = 2 ^ k"
  shows "\<exists>lh'. lh_rebucket heap lh n = Some lh' \<and> represents lh' m"
proof (cases "8 * n div 8 = n")
  case False
  with r show ?thesis by (simp add: lh_rebucket_def)
next
  case True
  note R = representsD [OF r]
  obtain k where k: "unat n = 2 ^ k" "4 \<le> k" using n by blast
  have "k < 61"
  proof (rule ccontr)
    assume "\<not> k < 61"
    then have "(2 :: nat) ^ 64 dvd 2 ^ (k + 3)" by (intro le_imp_power_dvd) simp
    then have "unat (8 * n) = 0" by (simp add: unat_word_ariths k(1) power_add mult.commute)
    then have "n = 0" using True by (simp add: unat_eq_0)
    with k(1) show False by simp
  qed
  then have "(2 :: nat) ^ k \<le> 2 ^ 60" by (intro power_increasing) simp_all
  then have "unat (8 * n) + 8 < 2 ^ 64" using k(1) by (simp add: unat_word_ariths)
  then obtain ok where ok: "allocated heap (8 * n) = Some ok" using allocated_some by blast
  have items: "items_in_order lh = Some (concat (buckets lh))" using R(8) by (simp add: items_in_order_def)
  have "\<forall>i\<in>set (concat (buckets lh)). valid (item_data i) \<and> item_hash i = code (item_key key i)"
    using R(5) unfolding placed_def belongs_def by (fastforce simp: in_set_conv_nth)
  moreover have "placed valid key code (unat n) (replicate (unat n) [])" by (simp add: placed_def)
  ultimately obtain bs where bs: "place_items n (concat (buckets lh)) (replicate (unat n) []) = Some bs"
      "placed valid key code (unat n) bs" "mset (concat bs) = mset (concat (buckets lh))"
    using place_items_placed [of n "replicate (unat n) []" "concat (buckets lh)"] k(1) by auto
  from bs(3) have "length (concat bs) = length (concat (buckets lh))" by (rule mset_eq_length)
  then have "represents (lh\<lparr>num_buckets := n, buckets := bs\<rparr>) m"
    using R bs(2) n holds_perm [OF bs(3) [symmetric] R(6)] by (simp add: represents_def)
  with True ok items bs(1) r show ?thesis by (cases ok) (simp_all add: lh_rebucket_def)
qed

lemma resize:
  assumes r: "represents lh m"
  shows "\<exists>lh'. lh_maybe_resize heap lh = Some lh' \<and> represents lh' m"
proof -
  note R = representsD [OF r]
  obtain k where k: "unat (num_buckets lh) = 2 ^ k" "4 \<le> k" using R(4) by blast
  have "(2 :: nat) ^ 4 \<le> 2 ^ k" using k(2) by (intro power_increasing) simp_all
  then have min: "\<not> num_buckets lh < 16" using k(1) by (simp add: word_less_nat_alt)
  have up: "\<exists>lh'. lh_rebucket heap lh (num_buckets lh * 2) = Some lh' \<and> represents lh' m"
    if "num_buckets lh < num_buckets lh * 2"
  proof (rule rebucket [OF r])
    have "2 ^ (k + 1) < (2 :: nat) ^ 64"
    proof (rule ccontr)
      assume "\<not> 2 ^ (k + 1) < (2 :: nat) ^ 64"
      then have "64 \<le> k + 1" using power_strict_increasing_iff [of "2 :: nat" "k + 1" 64] by linarith
      then have "(2 :: nat) ^ 64 dvd 2 ^ (k + 1)" by (rule le_imp_power_dvd)
      then have "unat (num_buckets lh * 2) = 0" by (simp add: unat_word_ariths k(1) mult.commute)
      with that show False by (simp add: word_less_nat_alt)
    qed
    then have "unat (num_buckets lh * 2) = 2 ^ (k + 1)" by (simp add: unat_word_ariths k(1) mult.commute)
    then show "\<exists>k\<ge>4. unat (num_buckets lh * 2) = 2 ^ k" using k(2) by (intro exI [of _ "k + 1"]) simp
  qed
  have down: "\<exists>lh'. lh_rebucket heap lh (if num_buckets lh div 2 < 16 then 16 else num_buckets lh div 2) = Some lh' \<and> represents lh' m"
    if "16 < num_buckets lh"
  proof (rule rebucket [OF r])
    have "k \<noteq> 4" using that k(1) by (auto simp: word_less_nat_alt)
    then obtain j where j: "k = Suc j" "4 \<le> j" using k(2) by (cases k) auto
    then have u: "unat (num_buckets lh div 2) = 2 ^ j" by (simp add: unat_div k(1))
    have "(2 :: nat) ^ 4 \<le> 2 ^ j" using j(2) by (intro power_increasing) simp_all
    then have "\<not> num_buckets lh div 2 < 16" by (simp add: word_less_nat_alt u)
    with u j(2) show "\<exists>k\<ge>4. unat (if num_buckets lh div 2 < 16 then 16 else num_buckets lh div 2) = 2 ^ k" by auto
  qed
  show ?thesis using min up down r R(3) unfolding lh_maybe_resize_def Let_def by (auto split del: if_split split: if_split)
qed

subsection \<open>Changes\<close>

lemma new_table: "lh_new heap hash cmp = Some (Some lh) \<Longrightarrow> represents lh Map.empty"
  by (auto simp: lh_new_def represents_def placed_def holds_def split: option.splits bool.splits intro!: exI [of _ 4])

lemma bucket_belongs:
  assumes r: "represents lh m" and b: "buckets lh = as @ c # bs"
  shows "\<forall>i\<in>set c. belongs valid key code (unat (num_buckets lh)) (length as) i"
proof -
  have "length as < length (buckets lh)" by (simp add: b)
  with representsD(5) [OF r] have "\<forall>i\<in>set (buckets lh ! length as). belongs valid key code (unat (num_buckets lh)) (length as) i"
    by (simp add: placed_def)
  then show ?thesis by (simp add: b)
qed

lemma representsI:
  assumes r: "represents lh m" and b: "buckets lh = as @ c # bs"
    and p: "\<forall>i\<in>set c'. i \<in> set c \<or> belongs valid key code (unat (num_buckets lh)) (length as) i"
    and h: "holds key (concat as @ c' @ concat bs) m'" and n: "unat ni = length (concat as) + length c' + length (concat bs)"
  shows "represents (lh\<lparr>buckets := as @ c' # bs, num_items := ni\<rparr>) m'"
proof -
  note R = representsD [OF r]
  from bucket_belongs [OF r b] have "placed valid key code (unat (num_buckets lh)) (as @ c' # bs)"
    using p by (intro placed_update [OF R(5) [unfolded b]]) blast
  with R(1-4) h n show ?thesis by (simp add: represents_def)
qed

lemma insert_map:
  assumes r: "represents lh m" and d: "valid d" and room: "card (dom m) + 1 < 2 ^ 64"
  shows "\<exists>lh'. lh_insert heap lh d = Some ((True, m (key d)), lh') \<and> represents lh' (m(key d \<mapsto> d))
    \<or> m (key d) = None \<and> lh_insert heap lh d = Some ((False, None), lh)"
proof -
  note R = representsD [OF r]
  obtain as c1 c2 bs where s: "buckets lh = as @ (c1 @ c2) # bs"
      "length as = unat (code (key d)) mod unat (num_buckets lh)"
      "search_bucket lh (code (key d)) (\<lambda>x. cmp x d) = Some (length as, length c1)"
      "c2 = [] \<and> m (key d) = None \<or> (\<exists>i c. c2 = i # c \<and> item_key key i = key d \<and> m (key d) = Some (item_data i))"
    by (rule search_split [OF r finds_cmp [OF d]])
  have nx: "get_next_ptr_and_hash lh d = Some ((length as, length c1), code (key d))"
    by (simp add: next_ptr [OF r d] s(3))
  have len: "length (concat (buckets lh)) = card (dom m)" using holds_values(4) [OF R(6)] by simp
  from s(4) show ?thesis
  proof (elim disjE exE conjE)
    assume c2: "c2 = []" and new: "m (key d) = None"
    define i where "i = \<lparr>item_data = d, item_hash = code (key d)\<rparr>"
    obtain ok where ok: "allocated heap 24 = Some ok" using allocated_some [of 24 heap] by auto
    have "represents (lh\<lparr>buckets := as @ (c1 @ [i]) # bs, num_items := num_items lh + 1\<rparr>) (m(key d \<mapsto> d))"
    proof (rule representsI [OF r s(1)])
      have "holds key (i # concat (buckets lh)) (m(key d \<mapsto> d))"
        using holds_insert [OF R(6), of i] new by (simp add: i_def)
      then show "holds key (concat as @ (c1 @ [i]) @ concat bs) (m(key d \<mapsto> d))"
        by (rule holds_perm [rotated]) (simp add: s(1) c2)
      have "unat (num_items lh + 1) = unat (num_items lh) + 1"
        using room R(7) len by (subst unat_plus_small) simp_all
      then show "unat (num_items lh + 1) = length (concat as) + length (c1 @ [i]) + length (concat bs)"
        by (simp add: R(7) s(1) c2)
    qed (use s(2) d in \<open>auto simp: i_def belongs_def c2\<close>)
    with resize [OF this, of heap] obtain lh' where
      "lh_maybe_resize heap (lh\<lparr>buckets := as @ (c1 @ [i]) # bs, num_items := num_items lh + 1\<rparr>) = Some lh'"
      "represents lh' (m(key d \<mapsto> d))" by blast
    then show ?thesis using ok new
      by (cases ok) (simp_all add: lh_insert_def nx item_at_def s(1) c2 i_def)
  next
    fix i c
    assume c2: "c2 = i # c" and k: "item_key key i = key d" and old: "m (key d) = Some (item_data i)"
    define j where "j = i\<lparr>item_data := d\<rparr>"
    have "represents (lh\<lparr>buckets := as @ (c1 @ j # c) # bs, num_items := num_items lh\<rparr>) (m(key d \<mapsto> d))"
    proof (rule representsI [OF r s(1)])
      have "holds key (i # concat as @ c1 @ c @ concat bs) m"
        by (rule holds_perm [OF _ R(6)]) (simp add: s(1) c2)
      from holds_insert [OF holds_remove [OF this], of j]
      have "holds key (j # concat as @ c1 @ c @ concat bs) (m(key d \<mapsto> d))" by (simp add: j_def k)
      then show "holds key (concat as @ (c1 @ j # c) @ concat bs) (m(key d \<mapsto> d))"
        by (rule holds_perm [rotated]) simp
      show "unat (num_items lh) = length (concat as) + length (c1 @ j # c) + length (concat bs)"
        by (simp add: R(7) s(1) c2)
      have "belongs valid key code (unat (num_buckets lh)) (length as) i"
        using bucket_belongs [OF r s(1)] by (simp add: c2)
      then show "\<forall>x\<in>set (c1 @ j # c). x \<in> set (c1 @ c2) \<or> belongs valid key code (unat (num_buckets lh)) (length as) x"
        using d by (auto simp: c2 j_def belongs_def k)
    qed
    moreover have "lh_insert heap lh d = Some ((True, m (key d)), lh\<lparr>buckets := as @ (c1 @ j # c) # bs\<rparr>)"
      by (simp add: lh_insert_def nx item_at_def s(1) c2 j_def old)
    ultimately show ?thesis by simp
  qed
qed

lemma delete_map:
  assumes r: "represents lh m" and d: "valid d"
  shows "\<exists>lh'. lh_delete heap lh d = Some (m (key d), lh') \<and> represents lh' (m(key d := None))"
proof -
  note R = representsD [OF r]
  obtain as c1 c2 bs where s: "buckets lh = as @ (c1 @ c2) # bs"
      "search_bucket lh (code (key d)) (\<lambda>x. cmp x d) = Some (length as, length c1)"
      "c2 = [] \<and> m (key d) = None \<or> (\<exists>i c. c2 = i # c \<and> item_key key i = key d \<and> m (key d) = Some (item_data i))"
    by (rule search_split [OF r finds_cmp [OF d]])
  have nx: "get_next_ptr_and_hash lh d = Some ((length as, length c1), code (key d))"
    by (simp add: next_ptr [OF r d] s(2))
  from s(3) show ?thesis
  proof (elim disjE exE conjE)
    assume "c2 = []" and new: "m (key d) = None"
    then have "lh_delete heap lh d = Some (m (key d), lh)" by (simp add: lh_delete_def nx item_at_def s(1))
    moreover have "m(key d := None) = m" using new by auto
    ultimately show ?thesis using r by simp
  next
    fix i c
    assume c2: "c2 = i # c" and k: "item_key key i = key d" and old: "m (key d) = Some (item_data i)"
    have "represents (lh\<lparr>buckets := as @ (c1 @ c) # bs, num_items := num_items lh - 1\<rparr>) (m(key d := None))"
    proof (rule representsI [OF r s(1)])
      have "holds key (i # concat as @ c1 @ c @ concat bs) m"
        by (rule holds_perm [OF _ R(6)]) (simp add: s(1) c2)
      from holds_remove [OF this] show "holds key (concat as @ (c1 @ c) @ concat bs) (m(key d := None))"
        by (simp add: k)
      have "num_items lh \<noteq> 0" using R(7) by (auto simp: s(1) c2)
      then show "unat (num_items lh - 1) = length (concat as) + length (c1 @ c) + length (concat bs)"
        using R(7) by (simp add: unat_minus_one s(1) c2)
    qed (auto simp: c2)
    from resize [OF this, of heap] obtain lh' where
      "lh_maybe_resize heap (lh\<lparr>buckets := as @ (c1 @ c) # bs, num_items := num_items lh - 1\<rparr>) = Some lh'"
      "represents lh' (m(key d := None))" by blast
    then show ?thesis using old by (simp add: lh_delete_def nx item_at_def s(1) c2)
  qed
qed

lemma doall_map:
  assumes r: "represents lh m"
  shows "\<exists>vs lh'. lh_doall_arg heap lh f arg = Some (fold f vs arg, lh') \<and> represents lh' m
    \<and> distinct vs \<and> set vs = ran m"
proof -
  note R = representsD [OF r]
  have i: "items_in_order lh = Some (concat (buckets lh))" using R(8) by (simp add: items_in_order_def)
  have i': "items_in_order (lh\<lparr>callback_depth := n\<rparr>) = Some (concat (buckets lh))" for n
    using R(8) by (simp add: items_in_order_def)
  have same: "lh\<lparr>callback_depth := 0\<rparr> = lh" using R(3) by (cases lh) simp
  have lt: "(0 :: u32) < - 1" "(1 :: u32) < - 1" by code_simp+
  have "lh_doall_arg heap lh f arg
      = map_option (\<lambda>lh'. (fold f (map item_data (concat (buckets lh))) arg, lh')) (lh_maybe_resize heap lh)"
    by (simp add: lh_doall_arg_def Let_def R(3) lt same i' fold_map comp_def)
  moreover obtain lh' where "lh_maybe_resize heap lh = Some lh'" "represents lh' m" using resize [OF r] by blast
  ultimately show ?thesis using holds_values(1,2) [OF R(6)]
    by (intro exI [of _ "map item_data (concat (buckets lh))"] exI [of _ lh']) simp
qed

end

end
