(* ===== verification/Lhash_Properties.thy ===== *)
theory Lhash_Properties
  imports Lhash_Refine
begin

text \<open>
  Hash tables of C strings, and the property of the table: it is a finite map, for every sequence of operations.
\<close>

section \<open>Strings as keys\<close>

text \<open>\<^verbatim>\<open>strcmp\<close> compares bytes as \<^verbatim>\<open>unsigned char\<close>.\<close>

fun strcmp :: "u8 list \<Rightarrow> u8 list \<Rightarrow> int option" where
  "strcmp (a # s) (b # t) = (if a < b then Some (- 1) else if b < a then Some 1 else if a = 0 then Some 0 else strcmp s t)"
| "strcmp _ _ = None"

definition c_string :: "u8 list \<Rightarrow> bool" where
  "c_string s \<longleftrightarrow> 0 \<in> set s"

definition characters_of :: "u8 list \<Rightarrow> u8 list" where
  "characters_of s = takeWhile (\<lambda>c. c \<noteq> 0) s"

lemma strlen_c_string: "c_string s \<Longrightarrow> strlen s = Some (length (characters_of s))"
  by (induction s) (auto simp: c_string_def characters_of_def)

lemma strcmp_eq: "c_string s \<Longrightarrow> c_string t \<Longrightarrow> \<exists>c. strcmp s t = Some c \<and> (c = 0 \<longleftrightarrow> characters_of s = characters_of t)"
  by (induction s t rule: strcmp.induct) (auto simp: c_string_def characters_of_def word_gt_0)

lemma strhash_characters: "c_string s \<Longrightarrow> lh_strhash (Some s) = Some (OPENSSL_hash32 (characters_of s))"
proof -
  have "take (length (characters_of s)) s = characters_of s"
    unfolding characters_of_def by (metis append_eq_conv_conj takeWhile_dropWhile_id)
  then show "c_string s \<Longrightarrow> ?thesis" by (simp add: lh_strhash_def strlen_c_string)
qed

interpretation strings: hash_keys "\<lambda>s. lh_strhash (Some s)" strcmp c_string characters_of OPENSSL_hash32
  by unfold_locales (auto simp: strhash_characters strcmp_eq)

section \<open>Memory that does not run out\<close>

definition gives :: "heap \<Rightarrow> bool" where
  "gives heap \<longleftrightarrow> (\<forall>sz. heap sz \<noteq> None)"

lemma gives_malloc: "gives heap \<Longrightarrow> unat sz + 8 < 2 ^ 63 \<Longrightarrow> \<exists>ptr. OPENSSL_malloc heap sz = Some (Some ptr)"
proof -
  assume g: "gives heap" and sz: "unat sz + 8 < 2 ^ 63"
  then have u: "unat (sz + 8) = unat sz + 8" by (simp add: unat_word_ariths)
  obtain f where "heap (sz + 8) = Some f" using g unfolding gives_def by blast
  with u sz show ?thesis by (simp add: OPENSSL_malloc_def sys_malloc_def)
qed

lemma gives_allocated: "gives heap \<Longrightarrow> unat sz + 8 < 2 ^ 63 \<Longrightarrow> allocated heap sz = Some True"
  using gives_malloc [of heap sz] by (auto simp: allocated_def)

lemma insert_given: "gives heap \<Longrightarrow> lh_insert heap lh d = Some ((ok, old), lh') \<Longrightarrow> ok"
  using gives_allocated [of heap 24] by (auto simp: lh_insert_def Let_def split: option.splits if_splits prod.splits)

abbreviation (input) "zero_heap \<equiv> (\<lambda>_. Some (\<lambda>_. 0)) :: heap"

lemma gives_zero: "gives zero_heap"
  by (simp add: gives_def)

section \<open>Sequences of operations\<close>

datatype 'v lh_op = Insert 'v | Delete 'v | Retrieve 'v | Walk

datatype 'v lh_answer = Inserted "'v option" | No_Memory | Deleted "'v option" | Retrieved "'v option" | Walked "'v list"

fun lh_step :: "heap \<Rightarrow> 'v lh_op \<Rightarrow> 'v lhash \<Rightarrow> ('v lh_answer \<times> 'v lhash) option" where
  "lh_step heap (Insert d) lh =
     map_option (\<lambda>((ok, old), lh). (if ok then Inserted old else No_Memory, lh)) (lh_insert heap lh d)"
| "lh_step heap (Delete d) lh = map_option (\<lambda>(old, lh). (Deleted old, lh)) (lh_delete heap lh d)"
| "lh_step heap (Retrieve d) lh = map_option (\<lambda>v. (Retrieved v, lh)) (lh_retrieve lh d)"
| "lh_step heap Walk lh = map_option (\<lambda>(vs, lh). (Walked vs, lh)) (lh_doall_arg heap lh (\<lambda>v vs. vs @ [v]) [])"

text \<open>Each operation meets a memory allocator of its own.\<close>

fun lh_run :: "(heap \<times> 'v lh_op) list \<Rightarrow> 'v lhash \<Rightarrow> ('v lh_answer list \<times> 'v lhash) option" where
  "lh_run [] lh = Some ([], lh)"
| "lh_run ((heap, op) # ops) lh =
     (case lh_step heap op lh of
        None \<Rightarrow> None
      | Some (a, lh) \<Rightarrow> map_option (\<lambda>(as, lh). (a # as, lh)) (lh_run ops lh))"

fun op_valid :: "('v \<Rightarrow> bool) \<Rightarrow> 'v lh_op \<Rightarrow> bool" where
  "op_valid valid (Insert d) = valid d"
| "op_valid valid (Delete d) = valid d"
| "op_valid valid (Retrieve d) = valid d"
| "op_valid valid Walk = True"

text \<open>The same operations of a finite map. Only an insertion of a new key may run out of memory.\<close>

inductive map_step :: "('v \<Rightarrow> 'k) \<Rightarrow> ('k \<rightharpoonup> 'v) \<Rightarrow> 'v lh_op \<Rightarrow> 'v lh_answer \<Rightarrow> ('k \<rightharpoonup> 'v) \<Rightarrow> bool"
  for key :: "'v \<Rightarrow> 'k" where
  insert: "map_step key m (Insert d) (Inserted (m (key d))) (m(key d \<mapsto> d))"
| no_memory: "m (key d) = None \<Longrightarrow> map_step key m (Insert d) No_Memory m"
| delete: "map_step key m (Delete d) (Deleted (m (key d))) (m(key d := None))"
| retrieve: "map_step key m (Retrieve d) (Retrieved (m (key d))) m"
| walk: "distinct vs \<Longrightarrow> set vs = ran m \<Longrightarrow> map_step key m Walk (Walked vs) m"

inductive map_run :: "('v \<Rightarrow> 'k) \<Rightarrow> ('k \<rightharpoonup> 'v) \<Rightarrow> 'v lh_op list \<Rightarrow> 'v lh_answer list \<Rightarrow> ('k \<rightharpoonup> 'v) \<Rightarrow> bool"
  for key :: "'v \<Rightarrow> 'k" where
  nil: "map_run key m [] [] m"
| cons: "map_step key m op a m' \<Longrightarrow> map_run key m' ops as m'' \<Longrightarrow> map_run key m (op # ops) (a # as) m''"

inductive_cases map_stepE: "map_step key m op a m'"
inductive_simps map_run_simps: "map_run key m [] as m'" "map_run key m (op # ops) as m'"

lemma fold_snoc: "fold (\<lambda>v vs. vs @ [v]) xs ys = ys @ xs"
  by (induction xs arbitrary: ys) auto

lemma map_step_card:
  assumes "map_step key m op a m'" and "finite (dom m)"
  shows "finite (dom m')" and "card (dom m') \<le> Suc (card (dom m))"
  using assms by (auto elim!: map_stepE simp: card_insert_if intro: le_SucI [OF card_Diff1_le])

context hash_keys
begin

lemma step_refines:
  assumes r: "represents lh m" and v: "op_valid valid op" and room: "card (dom m) + 1 < 2 ^ 64"
  shows "\<exists>a lh' m'. lh_step heap op lh = Some (a, lh') \<and> map_step key m op a m' \<and> represents lh' m'"
proof (cases op)
  case (Insert d)
  then have "valid d" using v by simp
  from insert_map [OF r this room, of heap] show ?thesis
    using Insert r by (auto intro: map_step.intros)
next
  case (Delete d)
  then have "valid d" using v by simp
  from delete_map [OF r this, of heap] show ?thesis using Delete by (auto intro: map_step.intros)
next
  case (Retrieve d)
  then have "valid d" using v by simp
  from retrieve_map [OF r this] show ?thesis using Retrieve r by (auto intro: map_step.intros)
next
  case Walk
  from doall_map [OF r, of heap "\<lambda>v vs. vs @ [v]" "[]"] show ?thesis
    using Walk by (auto simp: fold_snoc intro: map_step.intros)
qed

lemma run_refines:
  "represents lh m \<Longrightarrow> \<forall>op\<in>set (map snd ops). op_valid valid op \<Longrightarrow> card (dom m) + length ops < 2 ^ 64 \<Longrightarrow>
    \<exists>as lh' m'. lh_run ops lh = Some (as, lh') \<and> map_run key m (map snd ops) as m' \<and> represents lh' m'"
proof (induction ops arbitrary: lh m)
  case Nil
  then show ?case by (auto simp: map_run_simps)
next
  case (Cons p ops)
  obtain heap op where p: "p = (heap, op)" by (cases p)
  obtain a lh1 m1 where s: "lh_step heap op lh = Some (a, lh1)" "map_step key m op a m1" "represents lh1 m1"
    using step_refines [OF Cons.prems(1), of op heap] Cons.prems(2,3) by (auto simp: p)
  have "finite (dom m)" using holds_values(3) [OF representsD(6) [OF Cons.prems(1)]] by simp
  from map_step_card(2) [OF s(2) this] have "card (dom m1) + length ops < 2 ^ 64" using Cons.prems(3) by simp
  from Cons.IH [OF s(3) _ this] Cons.prems(2) obtain as lh' m' where
    "lh_run ops lh1 = Some (as, lh')" "map_run key m1 (map snd ops) as m'" "represents lh' m'" by auto
  with s show ?case by (auto simp: p intro: map_run.cons)
qed

lemma represents_num_items: "represents lh m \<Longrightarrow> lh_num_items lh = word_of_nat (card (dom m))"
proof -
  assume r: "represents lh m"
  have "card (dom m) = unat (num_items lh)"
    using representsD(7) [OF r] holds_values(4) [OF representsD(6) [OF r]] by simp
  then show ?thesis by (simp add: lh_num_items_def)
qed

end

text \<open>C25: the hash table is a finite map from keys, for every hash and comparison function that agree on the
  keys, every sequence of insertions, deletions, lookups and walks from lh_new on, and whatever the allocator
  refuses: no run has undefined behaviour or fails an assertion, each answer is the answer of the map, a walk meets every
  element once, only an insertion of a new key may fail and it leaves the map as it was, and lh_num_items counts
  the elements. Growing and shrinking the array of buckets in between changes nothing.\<close>

theorem lhash_refines_map:
  assumes "hash_keys hash cmp valid key code" and "lh_new heap hash cmp = Some (Some lh)"
    and "\<forall>op\<in>set (map snd ops). op_valid valid op" and "length ops < 2 ^ 64"
  shows "\<exists>as lh' m. lh_run ops lh = Some (as, lh') \<and> map_run key Map.empty (map snd ops) as m
    \<and> lh_num_items lh' = word_of_nat (card (dom m))"
  using hash_keys.run_refines [OF assms(1) hash_keys.new_table [OF assms(1,2)] assms(3)] assms(4)
    hash_keys.represents_num_items [OF assms(1)] by fastforce

theorem lhash_refines_map_witness:
  "\<exists>lh as lh' m. lh_new (\<lambda>_. Some (\<lambda>_. 0)) (\<lambda>s. lh_strhash (Some s)) strcmp = Some (Some lh)
    \<and> lh_run [(\<lambda>_. Some (\<lambda>_. 0), Insert [97, 0]), (\<lambda>_. None, Retrieve [97, 0, 98])] lh = Some (as, lh')
    \<and> map_run characters_of Map.empty [Insert [97, 0], Retrieve [97, 0, 98]] as m"
proof -
  let ?h = "(\<lambda>_. Some (\<lambda>_. 0)) :: heap"
  obtain lh where lh: "lh_new ?h (\<lambda>s. lh_strhash (Some s)) strcmp = Some (Some lh)"
    by (auto simp: lh_new_def allocated_def OPENSSL_malloc_def sys_malloc_def)
  from lhash_refines_map [OF strings.hash_keys_axioms lh, of "[(?h, Insert [97, 0]), (\<lambda>_. None, Retrieve [97, 0, 98])]"]
  show ?thesis using lh by (auto simp: c_string_def)
qed

end
