(* ===== verification/Stack.thy ===== *)
theory Stack
  imports Lhash
begin

text \<open>
  BoringSSL's stacks (\<^verbatim>\<open>crypto/stack/stack.c\<close>), growing arrays of pointers. A pointer is an
  option, \<open>None\<close> the null pointer; \<^verbatim>\<open>data\<close> is the list of the \<^verbatim>\<open>num_alloc\<close> pointers of the array. The
  comparison function is a name, which \<open>call\<close> (\<^verbatim>\<open>call_cmp_func\<close>) calls. \<open>junk\<close> is what
  fresh memory contains. \<open>None\<close> as the outermost value is undefined behaviour or a failed assertion.
\<close>

type_synonym 'p ptr = "'p option"
type_synonym ('c, 'p) call_cmp = "'c \<Rightarrow> 'p ptr \<Rightarrow> 'p ptr \<Rightarrow> int option"

record ('c, 'p) stack =
  num :: u64
  sk_data :: "'p ptr list"
  sorted_flag :: bool
  num_alloc :: u64
  sk_comp :: "'c option"

abbreviation (input) "kMinSize \<equiv> 4 :: u64"

section \<open>Elements\<close>

text \<open>The first size is \<^verbatim>\<open>sizeof(_STACK)\<close>.\<close>

definition sk_new :: "heap \<Rightarrow> 'c option \<Rightarrow> ('c, 'p) stack option option" where
  "sk_new heap cmp =
     (case allocated heap 40 of
        None \<Rightarrow> None
      | Some False \<Rightarrow> Some None
      | Some True \<Rightarrow>
          (case allocated heap (8 * kMinSize) of
             None \<Rightarrow> None
           | Some False \<Rightarrow> Some None
           | Some True \<Rightarrow>
               Some (Some \<lparr>num = 0, sk_data = replicate (unat kMinSize) None, sorted_flag = False,
                 num_alloc = kMinSize, sk_comp = cmp\<rparr>)))"

definition sk_new_null :: "heap \<Rightarrow> ('c, 'p) stack option option" where
  "sk_new_null heap = sk_new heap None"

definition sk_num :: "('c, 'p) stack option \<Rightarrow> u64" where
  "sk_num sk = (case sk of None \<Rightarrow> 0 | Some sk \<Rightarrow> num sk)"

definition sk_zero :: "('c, 'p) stack option \<Rightarrow> ('c, 'p) stack option option" where
  "sk_zero sk =
     (case sk of
        None \<Rightarrow> Some None
      | Some sk \<Rightarrow>
          if num sk = 0 then Some (Some sk)
          else if length (sk_data sk) < unat (num sk) then None
          else Some (Some (sk\<lparr>sk_data := replicate (unat (num sk)) None @ drop (unat (num sk)) (sk_data sk),
              num := 0, sorted_flag := False\<rparr>)))"

definition sk_value :: "('c, 'p) stack option \<Rightarrow> u64 \<Rightarrow> 'p ptr option" where
  "sk_value sk i =
     (case sk of
        None \<Rightarrow> Some None
      | Some sk \<Rightarrow>
          if num sk \<le> i then Some None
          else if length (sk_data sk) \<le> unat i then None else Some (sk_data sk ! unat i))"

definition sk_set :: "('c, 'p) stack option \<Rightarrow> u64 \<Rightarrow> 'p ptr \<Rightarrow> ('p ptr \<times> ('c, 'p) stack option) option" where
  "sk_set sk i v =
     (case sk of
        None \<Rightarrow> Some (None, sk)
      | Some s \<Rightarrow>
          if num s \<le> i then Some (None, sk)
          else if length (sk_data s) \<le> unat i then None
          else Some (v, Some (s\<lparr>sk_data := (sk_data s)[unat i := v]\<rparr>)))"

section \<open>Insertion and deletion\<close>

definition grow_overflows :: "u64 \<Rightarrow> u64 \<Rightarrow> bool" where
  "grow_overflows old_alloc new_alloc \<longleftrightarrow> new_alloc < old_alloc \<or> new_alloc * 8 div 8 \<noteq> new_alloc"

text \<open>\<^verbatim>\<open>OPENSSL_realloc\<close> of an array of pointers.\<close>

definition resized :: "(nat \<Rightarrow> 'p ptr) \<Rightarrow> 'p ptr list \<Rightarrow> nat \<Rightarrow> 'p ptr list" where
  "resized junk data n = take n data @ map junk [length data..<n]"

text \<open>\<open>Some None\<close> where \<^verbatim>\<open>sk_insert\<close> returns zero.\<close>

definition make_room :: "heap \<Rightarrow> (nat \<Rightarrow> 'p ptr) \<Rightarrow> ('c, 'p) stack \<Rightarrow> ('c, 'p) stack option option" where
  "make_room heap junk sk =
     (if num_alloc sk \<le> num sk + 1 then
        let new_alloc = push_bit 1 (num_alloc sk);
            new_alloc = if grow_overflows (num_alloc sk) new_alloc then num_alloc sk + 1 else new_alloc
        in if grow_overflows (num_alloc sk) new_alloc then Some None
           else case allocated heap (new_alloc * 8) of
               None \<Rightarrow> None
             | Some False \<Rightarrow> Some None
             | Some True \<Rightarrow>
                 Some (Some (sk\<lparr>sk_data := resized junk (sk_data sk) (unat new_alloc), num_alloc := new_alloc\<rparr>))
      else Some (Some sk))"

definition sk_insert :: "heap \<Rightarrow> (nat \<Rightarrow> 'p ptr) \<Rightarrow> ('c, 'p) stack option \<Rightarrow> 'p ptr \<Rightarrow> u64
    \<Rightarrow> (u64 \<times> ('c, 'p) stack option) option" where
  "sk_insert heap junk sk p pos =
     (case sk of
        None \<Rightarrow> Some (0, sk)
      | Some s \<Rightarrow>
          (case make_room heap junk s of
             None \<Rightarrow> None
           | Some None \<Rightarrow> Some (0, sk)
           | Some (Some s) \<Rightarrow>
               let n = unat (num s) in
               if length (sk_data s) \<le> n then None
               else let data = (if num s \<le> pos then (sk_data s)[n := p]
                          else take (unat pos) (sk_data s) @ p # take (n - unat pos) (drop (unat pos) (sk_data s))
                            @ drop (n + 1) (sk_data s))
                 in Some (num s + 1, Some (s\<lparr>sk_data := data, num := num s + 1, sorted_flag := False\<rparr>))))"

definition sk_delete :: "('c, 'p) stack option \<Rightarrow> u64 \<Rightarrow> ('p ptr \<times> ('c, 'p) stack option) option" where
  "sk_delete sk pos =
     (case sk of
        None \<Rightarrow> Some (None, sk)
      | Some s \<Rightarrow>
          if num s \<le> pos then Some (None, sk)
          else let n = unat (num s); w = unat pos in
            if length (sk_data s) < n then None
            else let data = (if pos \<noteq> num s - 1
                       then take w (sk_data s) @ take (n - w - 1) (drop (w + 1) (sk_data s)) @ drop (n - 1) (sk_data s)
                       else sk_data s)
              in Some (sk_data s ! w, Some (s\<lparr>sk_data := data, num := num s - 1\<rparr>)))"

text \<open>The first index below \<open>n\<close> whose pointer satisfies \<open>P\<close>; a call in \<open>P\<close> may be undefined.\<close>

fun first_index :: "('p ptr \<Rightarrow> bool option) \<Rightarrow> 'p ptr list \<Rightarrow> nat option option" where
  "first_index P [] = Some None"
| "first_index P (x # xs) =
     (case P x of
        None \<Rightarrow> None
      | Some True \<Rightarrow> Some (Some 0)
      | Some False \<Rightarrow> map_option (map_option Suc) (first_index P xs))"

definition sk_delete_ptr :: "('c, 'p) stack option \<Rightarrow> 'p ptr \<Rightarrow> ('p ptr \<times> ('c, 'p) stack option) option" where
  "sk_delete_ptr sk p =
     (case sk of
        None \<Rightarrow> Some (None, sk)
      | Some s \<Rightarrow>
          if length (sk_data s) < unat (num s) then None
          else case first_index (\<lambda>x. Some (x = p)) (take (unat (num s)) (sk_data s)) of
              None \<Rightarrow> None
            | Some None \<Rightarrow> Some (None, sk)
            | Some (Some i) \<Rightarrow> sk_delete sk (word_of_nat i))"

definition sk_shift :: "('c, 'p) stack option \<Rightarrow> ('p ptr \<times> ('c, 'p) stack option) option" where
  "sk_shift sk =
     (case sk of
        None \<Rightarrow> Some (None, sk)
      | Some s \<Rightarrow> if num s = 0 then Some (None, sk) else sk_delete sk 0)"

definition sk_push :: "heap \<Rightarrow> (nat \<Rightarrow> 'p ptr) \<Rightarrow> ('c, 'p) stack option \<Rightarrow> 'p ptr \<Rightarrow> (u64 \<times> ('c, 'p) stack option) option" where
  "sk_push heap junk sk p =
     (case sk of
        None \<Rightarrow> None
      | Some s \<Rightarrow> sk_insert heap junk sk p (num s))"

definition sk_pop :: "('c, 'p) stack option \<Rightarrow> ('p ptr \<times> ('c, 'p) stack option) option" where
  "sk_pop sk =
     (case sk of
        None \<Rightarrow> Some (None, sk)
      | Some s \<Rightarrow> if num s = 0 then Some (None, sk) else sk_delete sk (num s - 1))"

section \<open>Searching and sorting\<close>

definition sk_is_sorted :: "('c, 'p) stack option \<Rightarrow> bool" where
  "sk_is_sorted sk = (case sk of None \<Rightarrow> True | Some sk \<Rightarrow> sorted_flag sk)"

text \<open>The loop of the binary search, with the comparison of the searched pointer; the result is the index found.\<close>

function binary_search :: "('p ptr \<Rightarrow> int option) \<Rightarrow> 'p ptr list \<Rightarrow> nat \<Rightarrow> nat \<Rightarrow> nat option option" where
  "binary_search cmp data lo hi =
     (if lo < hi then
        let mid = lo + (hi - lo - 1) div 2 in
        if \<not> (lo \<le> mid \<and> mid < hi) \<or> length data \<le> mid then None
        else case cmp (data ! mid) of
            None \<Rightarrow> None
          | Some r \<Rightarrow>
              if 0 < r then binary_search cmp data (mid + 1) hi
              else if r < 0 then binary_search cmp data lo mid
              else if hi - lo = 1 then Some (Some mid)
              else if \<not> mid + 1 < hi then None
              else binary_search cmp data lo (mid + 1)
      else if lo = hi then Some None else None)"
  by auto
termination by (relation "measure (\<lambda>(cmp, data, lo, hi). hi - lo)") auto

declare binary_search.simps [simp del]

text \<open>The return value and \<^verbatim>\<open>*out_index\<close> in one: the index found.\<close>

definition sk_find :: "('c, 'p) call_cmp \<Rightarrow> ('c, 'p) stack option \<Rightarrow> 'p ptr \<Rightarrow> nat option option" where
  "sk_find call sk p =
     (case sk of
        None \<Rightarrow> Some None
      | Some s \<Rightarrow>
          let n = unat (num s) in
          if length (sk_data s) < n then None
          else case sk_comp s of
              None \<Rightarrow> first_index (\<lambda>x. Some (x = p)) (take n (sk_data s))
            | Some cmp \<Rightarrow>
                if p = None then Some None
                else if \<not> sk_is_sorted sk then
                  first_index (\<lambda>elem. map_option (\<lambda>r. r = 0) (call cmp p elem)) (take n (sk_data s))
                else binary_search (call cmp p) (sk_data s) 0 n)"

text \<open>\<open>qs\<close> is the system's \<^verbatim>\<open>qsort\<close>, which may leave equal elements in any order.\<close>

definition sk_sort :: "(('p ptr \<Rightarrow> 'p ptr \<Rightarrow> int option) \<Rightarrow> 'p ptr list \<Rightarrow> 'p ptr list option) \<Rightarrow> ('c, 'p) call_cmp
    \<Rightarrow> ('c, 'p) stack option \<Rightarrow> ('c, 'p) stack option option" where
  "sk_sort qs call sk =
     (case sk of
        None \<Rightarrow> Some sk
      | Some s \<Rightarrow>
          (case sk_comp s of
             None \<Rightarrow> Some sk
           | Some cmp \<Rightarrow>
               if sorted_flag s then Some sk
               else if 2 \<le> num s then
                 (if length (sk_data s) < unat (num s) then None
                  else map_option
                    (\<lambda>xs. Some (s\<lparr>sk_data := xs @ drop (unat (num s)) (sk_data s), sorted_flag := True\<rparr>))
                    (qs (call cmp) (take (unat (num s)) (sk_data s))))
               else Some (Some (s\<lparr>sorted_flag := True\<rparr>))))"

definition sk_set_cmp_func :: "('c, 'p) stack option \<Rightarrow> 'c option \<Rightarrow> ('c option \<times> ('c, 'p) stack option) option" where
  "sk_set_cmp_func sk cmp =
     (case sk of
        None \<Rightarrow> None
      | Some s \<Rightarrow>
          let old = sk_comp s;
              s = (if sk_comp s \<noteq> cmp then s\<lparr>sorted_flag := False\<rparr> else s)
          in Some (old, Some (s\<lparr>sk_comp := cmp\<rparr>)))"

section \<open>Copies and release\<close>

definition sk_dup :: "heap \<Rightarrow> (nat \<Rightarrow> 'p ptr) \<Rightarrow> ('c, 'p) stack option \<Rightarrow> ('c, 'p) stack option option" where
  "sk_dup heap junk sk =
     (case sk of
        None \<Rightarrow> Some None
      | Some s \<Rightarrow>
          (case sk_new heap (sk_comp s) of
             None \<Rightarrow> None
           | Some None \<Rightarrow> Some None
           | Some (Some ret) \<Rightarrow>
               (case allocated heap (8 * num_alloc s) of
                  None \<Rightarrow> None
                | Some False \<Rightarrow> Some None
                | Some True \<Rightarrow>
                    let data = resized junk (sk_data ret) (unat (8 * num_alloc s) div 8); n = unat (num s) in
                    if length (sk_data s) < n \<or> length data < n then None
                    else Some (Some (ret\<lparr>num := num s, sk_data := take n (sk_data s) @ drop n data,
                        sorted_flag := sorted_flag s, num_alloc := num_alloc s, sk_comp := sk_comp s\<rparr>)))))"

text \<open>Copying the elements one by one; on an error the copies made so far are freed.\<close>

fun copy_elements :: "('p \<Rightarrow> 's \<Rightarrow> 'p ptr \<times> 's) \<Rightarrow> ('p \<Rightarrow> 's \<Rightarrow> 's) \<Rightarrow> 'p ptr list \<Rightarrow> 'p ptr list \<Rightarrow> 's \<Rightarrow> 'p ptr list option \<times> 's" where
  "copy_elements copy free copies [] st = (Some copies, st)"
| "copy_elements copy free copies (None # xs) st = copy_elements copy free (copies @ [None]) xs st"
| "copy_elements copy free copies (Some x # xs) st =
     (case copy x st of
        (None, st) \<Rightarrow> (None, fold (\<lambda>c st. case c of None \<Rightarrow> st | Some c \<Rightarrow> free c st) copies st)
      | (Some y, st) \<Rightarrow> copy_elements copy free (copies @ [Some y]) xs st)"

definition sk_deep_copy :: "heap \<Rightarrow> (nat \<Rightarrow> 'p ptr) \<Rightarrow> ('c, 'p) stack option \<Rightarrow> ('p \<Rightarrow> 's \<Rightarrow> 'p ptr \<times> 's)
    \<Rightarrow> ('p \<Rightarrow> 's \<Rightarrow> 's) \<Rightarrow> 's \<Rightarrow> (('c, 'p) stack option \<times> 's) option" where
  "sk_deep_copy heap junk sk copy free st =
     (case sk_dup heap junk sk of
        None \<Rightarrow> None
      | Some None \<Rightarrow> Some (None, st)
      | Some (Some ret) \<Rightarrow>
          (case copy_elements copy free [] (take (unat (num ret)) (sk_data ret)) st of
             (None, st) \<Rightarrow> Some (None, st)
           | (Some xs, st) \<Rightarrow> Some (Some (ret\<lparr>sk_data := xs @ drop (unat (num ret)) (sk_data ret)\<rparr>), st)))"

definition sk_pop_free_ex :: "('c, 'p) stack option \<Rightarrow> ('p \<Rightarrow> 's \<Rightarrow> 's) \<Rightarrow> 's \<Rightarrow> 's option" where
  "sk_pop_free_ex sk free st =
     (case sk of
        None \<Rightarrow> Some st
      | Some s \<Rightarrow>
          if length (sk_data s) < unat (num s) then None
          else Some (fold (\<lambda>c st. case c of None \<Rightarrow> st | Some c \<Rightarrow> free c st) (take (unat (num s)) (sk_data s)) st))"

definition sk_pop_free :: "('c, 'p) stack option \<Rightarrow> ('p \<Rightarrow> 's \<Rightarrow> 's) \<Rightarrow> 's \<Rightarrow> 's option" where
  "sk_pop_free sk free st = sk_pop_free_ex sk free st"

end
