(* ===== verification/Stack_Refine.thy ===== *)
theory Stack_Refine
  imports Stack "HOL-Library.Multiset"
begin

text \<open>
  A stack is a list of pointers, and its sorted flag is true: the locale \<open>ptr_order\<close> states what a comparison
  function promises, and binary search finds what linear search finds.
\<close>

section \<open>The list of a stack\<close>

definition elements :: "('c, 'p) stack \<Rightarrow> 'p ptr list" where
  "elements s = take (unat (num s)) (sk_data s)"

definition stack_ok :: "('c, 'p) stack \<Rightarrow> bool" where
  "stack_ok s \<longleftrightarrow> length (sk_data s) = unat (num_alloc s) \<and> unat (num s) < unat (num_alloc s)
     \<and> unat (num_alloc s) * 8 + 8 < 2 ^ 63"

lemma stack_okD:
  assumes "stack_ok s"
  shows "length (elements s) = unat (num s)" "unat (num s) < length (sk_data s)" "unat (num_alloc s) * 8 + 8 < 2 ^ 63"
    "length (sk_data s) = unat (num_alloc s)"
  using assms by (auto simp: stack_ok_def elements_def)

lemma allocated_True: "allocated heap sz = Some True \<Longrightarrow> unat (sz + 8) < 2 ^ 63"
  by (auto simp: allocated_def OPENSSL_malloc_def sys_malloc_def split: option.splits if_splits)

lemma new_stack: "sk_new heap c = Some (Some s) \<Longrightarrow> stack_ok s \<and> elements s = [] \<and> sk_comp s = c \<and> \<not> sorted_flag s"
  by (auto simp: sk_new_def stack_ok_def elements_def split: option.splits bool.splits)

lemma room:
  assumes ok: "stack_ok s"
  shows "make_room heap junk s = Some None \<or> (\<exists>t. make_room heap junk s = Some (Some t) \<and> stack_ok t
    \<and> elements t = elements s \<and> unat (num t) + 1 < length (sk_data t) \<and> num t = num s \<and> sk_comp t = sk_comp s)"
proof (cases "num_alloc s \<le> num s + 1")
  case False
  then have "make_room heap junk s = Some (Some s)" by (simp add: make_room_def)
  moreover have "unat (num s + 1) = unat (num s) + 1"
    using stack_okD [OF ok] by (subst unat_plus_small) simp_all
  then have "unat (num s) + 1 < length (sk_data s)" using False stack_okD(4) [OF ok] by (simp add: word_le_nat_alt)
  ultimately show ?thesis using ok by simp
next
  case True
  note S = stack_okD [OF ok]
  define n where "n = push_bit 1 (num_alloc s)"
  have un: "unat n = 2 * unat (num_alloc s)" using S(3) by (simp add: n_def push_bit_eq_mult unat_word_ariths)
  have u8: "unat (n * 8) = 16 * unat (num_alloc s)" using S(3) un by (simp add: unat_word_ariths)
  then have "n * 8 div 8 = n" by (simp add: word_unat_eq_iff unat_div un)
  then have g: "\<not> grow_overflows (num_alloc s) n" by (simp add: grow_overflows_def word_less_nat_alt un)
  obtain ok' where a: "allocated heap (n * 8) = Some ok'" using allocated_some [of "n * 8" heap] u8 S(3) by auto
  show ?thesis
  proof (cases ok')
    case False
    then show ?thesis using True g a unfolding make_room_def Let_def n_def [symmetric] by simp
  next
    case yes: True
    have "unat (n * 8 + 8) = unat (n * 8) + 8" using u8 S(3) by (subst unat_plus_small) simp_all
    then have lt: "unat n * 8 + 8 < 2 ^ 63" using allocated_True [of heap "n * 8"] a yes u8 un by simp
    define t where "t = s\<lparr>sk_data := resized junk (sk_data s) (unat n), num_alloc := n\<rparr>"
    have "make_room heap junk s = Some (Some t)" using True g a yes unfolding make_room_def Let_def n_def [symmetric] by (simp add: t_def)
    moreover have "length (sk_data t) = unat n" using S(4) un by (simp add: t_def resized_def)
    moreover have "elements t = elements s" using S un by (simp add: elements_def t_def resized_def)
    ultimately show ?thesis using S lt un by (auto simp: stack_ok_def t_def)
  qed
qed

lemma insert_list:
  assumes ok: "stack_ok s"
  shows "sk_insert heap junk (Some s) p pos = Some (0, Some s)
    \<or> (\<exists>t. sk_insert heap junk (Some s) p pos = Some (word_of_nat (length (elements t)), Some t) \<and> stack_ok t
        \<and> elements t = take (unat pos) (elements s) @ p # drop (unat pos) (elements s) \<and> sk_comp t = sk_comp s \<and> \<not> sorted_flag t)"
proof -
  from room [OF ok, of heap junk] consider "make_room heap junk s = Some None"
    | t where "make_room heap junk s = Some (Some t)" "stack_ok t" "elements t = elements s"
      "unat (num t) + 1 < length (sk_data t)" "num t = num s" "sk_comp t = sk_comp s" by blast
  then show ?thesis
  proof cases
    case 1
    then show ?thesis by (simp add: sk_insert_def)
  next
    case 2
    note T = stack_okD [OF 2(2)]
    define n where "n = unat (num s)"
    define w where "w = unat pos"
    define data where "data = (if num s \<le> pos then (sk_data t)[n := p]
      else take w (sk_data t) @ p # take (n - w) (drop w (sk_data t)) @ drop (n + 1) (sk_data t))"
    have n: "n + 1 < length (sk_data t)" using 2(4,5) by (simp add: n_def)
    have u: "unat (num s + 1) = n + 1" using n T(3,4) unfolding n_def by (subst unat_plus_small) simp_all
    have ins: "sk_insert heap junk (Some s) p pos
        = Some (num s + 1, Some (t\<lparr>sk_data := data, num := num s + 1, sorted_flag := False\<rparr>))"
      using 2(1,5) n by (simp add: sk_insert_def Let_def data_def n_def w_def)
    have el: "elements s = take n (sk_data t)" using 2(3,5) by (simp add: elements_def n_def)
    have d: "take (n + 1) data = take w (elements s) @ p # drop w (elements s)" "length data = length (sk_data t)"
    proof -
      consider "n \<le> w" | "w < n" by linarith
      then have "take (n + 1) data = take w (elements s) @ p # drop w (elements s) \<and> length data = length (sk_data t)"
      proof cases
        case 1
        then have "num s \<le> pos" by (simp add: word_le_nat_alt n_def w_def)
        then show ?thesis using 1 n by (simp add: data_def el take_Suc_conv_app_nth list_update_append)
      next
        case 2
        then have "\<not> num s \<le> pos" by (simp add: word_le_nat_alt n_def w_def)
        moreover have "n + 1 - w = Suc (n - w)" using 2 by simp
        ultimately show ?thesis using 2 n by (simp add: data_def el take_drop)
      qed
      then show "take (n + 1) data = take w (elements s) @ p # drop w (elements s)" "length data = length (sk_data t)" by auto
    qed
    let ?r = "t\<lparr>sk_data := data, num := num s + 1, sorted_flag := False\<rparr>"
    have "stack_ok ?r" using 2(2) n d(2) u T(4) by (simp add: stack_ok_def)
    moreover have "elements ?r = take w (elements s) @ p # drop w (elements s)" using d(1) u by (simp add: elements_def)
    moreover have "length (elements ?r) = unat (num s + 1)" using stack_okD(1) [OF calculation(1)] by simp
    ultimately show ?thesis using ins 2(6) by (intro disjI2 exI [of _ ?r]) (simp add: w_def)
  qed
qed

lemma delete_list:
  assumes ok: "stack_ok s" and w: "unat pos < length (elements s)"
  shows "\<exists>t. sk_delete (Some s) pos = Some (elements s ! unat pos, Some t) \<and> stack_ok t
    \<and> elements t = take (unat pos) (elements s) @ drop (unat pos + 1) (elements s) \<and> sk_comp t = sk_comp s
    \<and> sorted_flag t = sorted_flag s"
proof -
  note S = stack_okD [OF ok]
  define n where "n = unat (num s)"
  define w where "w = unat pos"
  have wn: "w < n" "n < length (sk_data s)" using w S(1,2) by (simp_all add: n_def w_def)
  have u: "unat (num s - 1) = n - 1" using wn by (simp add: n_def) (metis less_nat_zero_code unat_0 unat_minus_one One_nat_def)
  define data where "data = (if pos \<noteq> num s - 1
    then take w (sk_data s) @ take (n - w - 1) (drop (w + 1) (sk_data s)) @ drop (n - 1) (sk_data s) else sk_data s)"
  let ?t = "s\<lparr>sk_data := data, num := num s - 1\<rparr>"
  have "\<not> num s \<le> pos" using wn by (simp add: word_le_nat_alt n_def w_def)
  then have del: "sk_delete (Some s) pos = Some (sk_data s ! w, Some ?t)"
    using wn by (simp add: sk_delete_def Let_def data_def n_def w_def)
  have el: "elements s = take n (sk_data s)" by (simp add: elements_def n_def)
  have "take (n - 1) data = take w (elements s) @ drop (w + 1) (elements s) \<and> length data = length (sk_data s)"
  proof (cases "pos = num s - 1")
    case True
    then have "w = n - 1" using u by (simp add: w_def)
    then show ?thesis using True wn by (simp add: data_def el)
  next
    case False
    then have "w \<noteq> n - 1" using u by (auto simp: w_def word_unat_eq_iff)
    then show ?thesis using False wn by (simp add: data_def el take_drop)
  qed
  with wn u S have "stack_ok ?t" "elements ?t = take w (elements s) @ drop (w + 1) (elements s)"
    by (simp_all add: stack_ok_def elements_def n_def)
  moreover have "sk_data s ! w = elements s ! w" using wn by (simp add: el)
  ultimately show ?thesis using del by (simp add: w_def)
qed

section \<open>Searching\<close>

text \<open>The first index of an element of the rank \<open>k\<close>.\<close>

definition first_of_rank :: "('a \<Rightarrow> 'k) \<Rightarrow> 'k \<Rightarrow> 'a list \<Rightarrow> nat option \<Rightarrow> bool" where
  "first_of_rank rank k xs r \<longleftrightarrow>
     (case r of
        None \<Rightarrow> \<forall>x\<in>set xs. rank x \<noteq> k
      | Some i \<Rightarrow> i < length xs \<and> rank (xs ! i) = k \<and> (\<forall>j<i. rank (xs ! j) \<noteq> k))"

lemma first_index_rank:
  "(\<And>x. x \<in> set xs \<Longrightarrow> P x = Some (rank x = k)) \<Longrightarrow> \<exists>r. first_index P xs = Some r \<and> first_of_rank rank k xs r"
proof (induction xs)
  case (Cons x xs)
  obtain r where r: "first_index P xs = Some r" "first_of_rank rank k xs r" using Cons by auto
  show ?case
  proof (cases "rank x = k")
    case True
    then show ?thesis using Cons.prems [of x] by (simp add: first_of_rank_def)
  next
    case False
    with r Cons.prems [of x] show ?thesis
      by (auto simp: first_of_rank_def nth_Cons less_Suc_eq_0_disj split: option.splits nat.splits)
  qed
qed (simp add: first_of_rank_def)

locale ptr_order =
  fixes cmp :: "'p ptr \<Rightarrow> 'p ptr \<Rightarrow> int option"
    and valid :: "'p ptr \<Rightarrow> bool"
    and rank :: "'p ptr \<Rightarrow> 'k::linorder"
  assumes cmp_rank: "valid a \<Longrightarrow> valid b \<Longrightarrow>
    \<exists>c. cmp a b = Some c \<and> (c < 0 \<longleftrightarrow> rank a < rank b) \<and> (c = 0 \<longleftrightarrow> rank a = rank b)"
begin

definition ascending :: "'p ptr list \<Rightarrow> bool" where
  "ascending xs \<longleftrightarrow> sorted (map rank xs)"

text \<open>The first index below \<open>hi\<close> of an element like \<open>p\<close>; those before it are less.\<close>

definition leftmost :: "'p ptr \<Rightarrow> 'p ptr list \<Rightarrow> nat \<Rightarrow> nat option \<Rightarrow> bool" where
  "leftmost p data hi r \<longleftrightarrow>
     (case r of
        None \<Rightarrow> \<forall>j<hi. rank (data ! j) \<noteq> rank p
      | Some i \<Rightarrow> i < hi \<and> rank (data ! i) = rank p \<and> (\<forall>j<i. rank (data ! j) < rank p))"

lemma binary_search_first:
  assumes p: "valid p" and v: "\<forall>x\<in>set (take n data). valid x" and a: "ascending (take n data)" and n: "n \<le> length data"
  shows "lo \<le> hi \<Longrightarrow> hi \<le> n \<Longrightarrow> \<forall>j<lo. rank (data ! j) < rank p \<Longrightarrow> \<exists>r. binary_search (cmp p) data lo hi = Some r \<and> leftmost p data hi r"
proof (induction "hi - lo" arbitrary: lo hi rule: less_induct)
  case less
  have mono: "rank (data ! i) \<le> rank (data ! j)" if "i \<le> j" "j < n" for i j
    using sorted_nth_mono [of "map rank (take n data)" i j] a that n by (simp add: ascending_def)
  show ?case
  proof (cases "lo < hi")
    case False
    then show ?thesis using less.prems by (subst binary_search.simps) (auto simp: leftmost_def)
  next
    case True
    define mid where "mid = lo + (hi - lo - 1) div 2"
    have mid: "lo \<le> mid" "mid < hi" "mid < length data" using True less.prems(2) n by (auto simp: mid_def)
    have "data ! mid \<in> set (take n data)"
      using mid(2) less.prems(2) n by (auto simp: in_set_conv_nth intro!: exI [of _ mid])
    then obtain c where c: "cmp p (data ! mid) = Some c" "c < 0 \<longleftrightarrow> rank p < rank (data ! mid)" "c = 0 \<longleftrightarrow> rank p = rank (data ! mid)"
      using cmp_rank [OF p] v by blast
    have bs: "binary_search (cmp p) data lo hi =
        (if 0 < c then binary_search (cmp p) data (mid + 1) hi
         else if c < 0 then binary_search (cmp p) data lo mid
         else if hi - lo = 1 then Some (Some mid)
         else if \<not> mid + 1 < hi then None else binary_search (cmp p) data lo (mid + 1))"
      unfolding binary_search.simps [of "cmp p" data lo hi] Let_def mid_def [symmetric] using True mid c(1) by simp
    consider "0 < c" | "c < 0" | "c = 0" by linarith
    then show ?thesis
    proof cases
      case 1
      then have "rank (data ! mid) < rank p" using c by auto
      then have "\<forall>j<mid + 1. rank (data ! j) < rank p"
        using mono [of _ mid] mid(2) less.prems(2) by (auto simp: less_Suc_eq_le intro: le_less_trans)
      with less.hyps [of hi "mid + 1"] mid less.prems(2) show ?thesis using 1 bs by simp
    next
      case 2
      then have gt: "rank p < rank (data ! mid)" using c by simp
      have "mid - lo < hi - lo" using mid by linarith
      have "\<exists>r. binary_search (cmp p) data lo mid = Some r \<and> leftmost p data mid r"
        by (rule less.hyps) (use \<open>mid - lo < hi - lo\<close> mid less.prems in auto)
      then obtain r where r: "binary_search (cmp p) data lo mid = Some r" "leftmost p data mid r" by blast
      have "rank (data ! j) \<noteq> rank p" if "mid \<le> j" "j < hi" for j
        using mono [OF that(1)] that(2) less.prems(2) gt by auto
      with r mid(2) 2 bs show ?thesis by (intro exI [of _ r]) (auto simp: leftmost_def split: option.splits, meson not_less)
    next
      case 3
      then have eq: "rank (data ! mid) = rank p" using c by simp
      show ?thesis
      proof (cases "hi - lo = 1")
        case True
        then have "mid = lo" using mid by simp
        with True 3 bs eq less.prems mid show ?thesis by (simp add: leftmost_def)
      next
        case False
        then have lt: "mid + 1 < hi" using True by (auto simp: mid_def)
        have "mid + 1 - lo < hi - lo" using mid lt by linarith
        have "\<exists>r. binary_search (cmp p) data lo (mid + 1) = Some r \<and> leftmost p data (mid + 1) r"
          by (rule less.hyps) (use \<open>mid + 1 - lo < hi - lo\<close> mid less.prems in auto)
        then obtain r where r: "binary_search (cmp p) data lo (mid + 1) = Some r" "leftmost p data (mid + 1) r" by blast
        with False lt 3 bs eq show ?thesis by (intro exI [of _ r]) (auto simp: leftmost_def split: option.splits)
      qed
    qed
  qed
qed

text \<open>A stack with the comparison function \<open>c\<close> that holds the list \<open>xs\<close>.\<close>

definition represents :: "'c \<Rightarrow> ('c, 'p) stack \<Rightarrow> 'p ptr list \<Rightarrow> bool" where
  "represents c s xs \<longleftrightarrow> stack_ok s \<and> elements s = xs \<and> sk_comp s = Some c
     \<and> (\<forall>x\<in>set xs. valid x) \<and> (sorted_flag s \<longrightarrow> ascending xs)"

lemma representsD:
  assumes "represents c s xs"
  shows "stack_ok s" "elements s = xs" "sk_comp s = Some c" "\<forall>x\<in>set xs. valid x" "sorted_flag s \<Longrightarrow> ascending xs"
    "length xs = unat (num s)" "take (unat (num s)) (sk_data s) = xs" "unat (num s) < length (sk_data s)"
    "num s = word_of_nat (length xs)"
proof -
  show r: "stack_ok s" "elements s = xs" "sk_comp s = Some c" "\<forall>x\<in>set xs. valid x" "sorted_flag s \<Longrightarrow> ascending xs"
    using assms by (simp_all add: represents_def)
  show l: "length xs = unat (num s)" "unat (num s) < length (sk_data s)" using stack_okD(1,2) [OF r(1)] r(2) by simp_all
  show "take (unat (num s)) (sk_data s) = xs" using r(2) by (simp add: elements_def)
  show "num s = word_of_nat (length xs)" using l by simp
qed

lemma find_first:
  assumes r: "represents c s xs" and c: "call c = cmp" and p: "valid p" "p \<noteq> None"
  shows "\<exists>i. sk_find call (Some s) p = Some i \<and> first_of_rank rank (rank p) xs i"
proof (cases "sorted_flag s")
  case True
  note R = representsD [OF r]
  have "\<exists>i. binary_search (cmp p) (sk_data s) 0 (unat (num s)) = Some i \<and> leftmost p (sk_data s) (unat (num s)) i"
    by (rule binary_search_first [OF p(1), of "unat (num s)"]) (use R True in auto)
  then obtain i where i: "binary_search (cmp p) (sk_data s) 0 (unat (num s)) = Some i" "leftmost p (sk_data s) (unat (num s)) i"
    by blast
  have nth: "sk_data s ! j = xs ! j" if "j < unat (num s)" for j using that R(7) by (metis nth_take)
  have "first_of_rank rank (rank p) xs i"
    using i(2) R(6) by (auto simp: leftmost_def first_of_rank_def nth in_set_conv_nth less_imp_neq split: option.splits)
  moreover have "sk_find call (Some s) p = Some i"
    using i(1) R(3,8) True p(2) c by (auto simp: sk_find_def sk_is_sorted_def Let_def)
  ultimately show ?thesis by blast
next
  case False
  note R = representsD [OF r]
  have "\<exists>i. first_index (\<lambda>e. map_option (\<lambda>r. r = 0) (cmp p e)) xs = Some i \<and> first_of_rank rank (rank p) xs i"
  proof (rule first_index_rank)
    fix x assume "x \<in> set xs"
    then obtain c where "cmp p x = Some c" "c = 0 \<longleftrightarrow> rank p = rank x" using cmp_rank [OF p(1)] R(4) by blast
    then show "map_option (\<lambda>r. r = 0) (cmp p x) = Some (rank x = rank p)" by auto
  qed
  then show ?thesis using R(3,7,8) False p(2) c by (auto simp: sk_find_def sk_is_sorted_def Let_def)
qed

lemma insert_represents:
  assumes r: "represents c s xs" and v: "valid p"
  shows "sk_insert heap junk (Some s) p pos = Some (0, Some s)
    \<or> (\<exists>t. sk_insert heap junk (Some s) p pos = Some (word_of_nat (length xs + 1), Some t)
        \<and> represents c t (take (unat pos) xs @ p # drop (unat pos) xs))"
proof -
  note R = representsD [OF r]
  have "length (take (unat pos) xs @ p # drop (unat pos) xs) = length xs + 1" by simp
  moreover have "\<forall>x\<in>set (take (unat pos) xs @ p # drop (unat pos) xs). valid x"
    using R(4) v by (auto dest: in_set_takeD in_set_dropD)
  ultimately show ?thesis using insert_list [OF R(1), of heap junk p pos] R(2,3) by (auto simp: represents_def)
qed

lemma ascending_subseq: "ascending (as @ x # bs) \<Longrightarrow> ascending (as @ bs)"
  by (auto simp: ascending_def sorted_append)

lemma delete_represents:
  assumes r: "represents c s (as @ x # bs)" and i: "unat pos = length as"
  shows "\<exists>t. sk_delete (Some s) pos = Some (x, Some t) \<and> represents c t (as @ bs)"
proof -
  note R = representsD [OF r]
  have "unat pos < length (elements s)" by (simp add: R(2) i)
  from delete_list [OF R(1) this] obtain t where
    "sk_delete (Some s) pos = Some (elements s ! unat pos, Some t)" "stack_ok t"
    "elements t = take (unat pos) (elements s) @ drop (unat pos + 1) (elements s)" "sk_comp t = sk_comp s"
    "sorted_flag t = sorted_flag s" by blast
  then show ?thesis using R(2-5) ascending_subseq by (auto simp: represents_def i)
qed

lemma zero_represents: "represents c s xs \<Longrightarrow> \<exists>t. sk_zero (Some s) = Some (Some t) \<and> represents c t []"
  by (auto simp: sk_zero_def represents_def stack_ok_def elements_def ascending_def)

end

text \<open>The promise of \<^verbatim>\<open>qsort\<close>.\<close>

locale ptr_sorting = ptr_order cmp valid rank
  for cmp :: "'p ptr \<Rightarrow> 'p ptr \<Rightarrow> int option" and valid and rank :: "'p ptr \<Rightarrow> 'k::linorder" +
  fixes qs :: "('p ptr \<Rightarrow> 'p ptr \<Rightarrow> int option) \<Rightarrow> 'p ptr list \<Rightarrow> 'p ptr list option"
  assumes qs_sorts: "\<forall>x\<in>set xs. valid x \<Longrightarrow> \<exists>ys. qs cmp xs = Some ys \<and> mset ys = mset xs \<and> sorted (map rank ys)"
begin

lemma sort_represents:
  assumes r: "represents c s xs" and c: "call c = cmp"
  shows "\<exists>t ys. sk_sort qs call (Some s) = Some (Some t) \<and> represents c t ys \<and> mset ys = mset xs \<and> sorted (map rank ys)"
proof -
  note R = representsD [OF r]
  consider "sorted_flag s" | "\<not> sorted_flag s" "num s < 2" | "\<not> sorted_flag s" "2 \<le> num s" by fastforce
  then show ?thesis
  proof cases
    case 1
    then show ?thesis using r R(3,5) by (auto simp: sk_sort_def ascending_def)
  next
    case 2
    have "length xs \<le> 1" using 2(2) R(6) by (simp add: word_less_nat_alt)
    then have "sorted (map rank xs)" by (cases xs) auto
    moreover have "represents c (s\<lparr>sorted_flag := True\<rparr>) xs"
      using r calculation by (simp add: represents_def stack_ok_def elements_def ascending_def)
    ultimately show ?thesis using 2 R(3) by (auto simp: sk_sort_def not_le)
  next
    case 3
    obtain ys where ys: "qs cmp xs = Some ys" "mset ys = mset xs" "sorted (map rank ys)" using qs_sorts [OF R(4)] by blast
    have l: "length ys = unat (num s)" using mset_eq_length [OF ys(2)] R(6) by simp
    let ?t = "s\<lparr>sk_data := ys @ drop (unat (num s)) (sk_data s), sorted_flag := True\<rparr>"
    have "sk_sort qs call (Some s) = Some (Some ?t)" using 3 R(3,7,8) ys(1) c by (simp add: sk_sort_def)
    moreover have "represents c ?t ys"
      using r l ys R(8) mset_eq_setD [OF ys(2)] by (simp add: represents_def stack_ok_def elements_def ascending_def)
    ultimately show ?thesis using ys by blast
  qed
qed

end

end
