(* ===== verification/Stack_Properties.thy ===== *)
theory Stack_Properties
  imports Stack_Refine Lhash_Properties Cbb_Asn1 "HOL-Library.List_Lexorder"
begin

text \<open>
  Sequences of operations on a stack, the interpretation for stacks of C strings, and the properties.
\<close>

section \<open>Sequences of operations\<close>

datatype 'p sk_op = Push "'p ptr" | Insert_At "'p ptr" u64 | Delete_At u64 | Delete_Ptr "'p ptr" | Pop | Shift | Zero
  | Sort | Find "'p ptr" | Value_At u64 | Count

datatype 'p sk_answer = Size u64 | Pointer "'p ptr" | Index "nat option" | Done

fun sk_step :: "(('p ptr \<Rightarrow> 'p ptr \<Rightarrow> int option) \<Rightarrow> 'p ptr list \<Rightarrow> 'p ptr list option) \<Rightarrow> ('c, 'p) call_cmp
    \<Rightarrow> heap \<Rightarrow> (nat \<Rightarrow> 'p ptr) \<Rightarrow> 'p sk_op \<Rightarrow> ('c, 'p) stack option \<Rightarrow> ('p sk_answer \<times> ('c, 'p) stack option) option" where
  "sk_step qs call heap junk (Push p) sk = map_option (\<lambda>(n, sk). (Size n, sk)) (sk_push heap junk sk p)"
| "sk_step qs call heap junk (Insert_At p i) sk = map_option (\<lambda>(n, sk). (Size n, sk)) (sk_insert heap junk sk p i)"
| "sk_step qs call heap junk (Delete_At i) sk = map_option (\<lambda>(x, sk). (Pointer x, sk)) (sk_delete sk i)"
| "sk_step qs call heap junk (Delete_Ptr p) sk = map_option (\<lambda>(x, sk). (Pointer x, sk)) (sk_delete_ptr sk p)"
| "sk_step qs call heap junk Pop sk = map_option (\<lambda>(x, sk). (Pointer x, sk)) (sk_pop sk)"
| "sk_step qs call heap junk Shift sk = map_option (\<lambda>(x, sk). (Pointer x, sk)) (sk_shift sk)"
| "sk_step qs call heap junk Zero sk = map_option (\<lambda>sk. (Done, sk)) (sk_zero sk)"
| "sk_step qs call heap junk Sort sk = map_option (\<lambda>sk. (Done, sk)) (sk_sort qs call sk)"
| "sk_step qs call heap junk (Find p) sk = map_option (\<lambda>i. (Index i, sk)) (sk_find call sk p)"
| "sk_step qs call heap junk (Value_At i) sk = map_option (\<lambda>x. (Pointer x, sk)) (sk_value sk i)"
| "sk_step qs call heap junk Count sk = Some (Size (sk_num sk), sk)"

text \<open>Each operation meets an allocator and fresh memory of its own.\<close>

fun sk_run :: "(('p ptr \<Rightarrow> 'p ptr \<Rightarrow> int option) \<Rightarrow> 'p ptr list \<Rightarrow> 'p ptr list option) \<Rightarrow> ('c, 'p) call_cmp
    \<Rightarrow> (heap \<times> (nat \<Rightarrow> 'p ptr) \<times> 'p sk_op) list \<Rightarrow> ('c, 'p) stack option \<Rightarrow> ('p sk_answer list \<times> ('c, 'p) stack option) option" where
  "sk_run qs call [] sk = Some ([], sk)"
| "sk_run qs call ((heap, junk, op) # ops) sk =
     (case sk_step qs call heap junk op sk of
        None \<Rightarrow> None
      | Some (a, sk) \<Rightarrow> map_option (\<lambda>(as, sk). (a # as, sk)) (sk_run qs call ops sk))"

fun op_ok :: "('p ptr \<Rightarrow> bool) \<Rightarrow> 'p sk_op \<Rightarrow> bool" where
  "op_ok valid (Push p) = valid p"
| "op_ok valid (Insert_At p i) = valid p"
| "op_ok valid (Find p) = (valid p \<and> p \<noteq> None)"
| "op_ok valid _ = True"

text \<open>The same operations of a list. Only an insertion may fail; it gives zero then.\<close>

inductive list_step :: "('p ptr \<Rightarrow> 'k::linorder) \<Rightarrow> 'p ptr list \<Rightarrow> 'p sk_op \<Rightarrow> 'p sk_answer \<Rightarrow> 'p ptr list \<Rightarrow> bool"
  for rank :: "'p ptr \<Rightarrow> 'k" where
  push: "list_step rank xs (Push p) (Size (word_of_nat (length xs + 1))) (xs @ [p])"
| push_fails: "list_step rank xs (Push p) (Size 0) xs"
| insert: "list_step rank xs (Insert_At p i) (Size (word_of_nat (length xs + 1))) (take (unat i) xs @ p # drop (unat i) xs)"
| insert_fails: "list_step rank xs (Insert_At p i) (Size 0) xs"
| delete: "unat i = length as \<Longrightarrow> list_step rank (as @ x # bs) (Delete_At i) (Pointer x) (as @ bs)"
| delete_none: "length xs \<le> unat i \<Longrightarrow> list_step rank xs (Delete_At i) (Pointer None) xs"
| delete_ptr: "p \<notin> set as \<Longrightarrow> list_step rank (as @ p # bs) (Delete_Ptr p) (Pointer p) (as @ bs)"
| delete_ptr_none: "p \<notin> set xs \<Longrightarrow> list_step rank xs (Delete_Ptr p) (Pointer None) xs"
| pop: "list_step rank (xs @ [x]) Pop (Pointer x) xs"
| pop_none: "list_step rank [] Pop (Pointer None) []"
| shift: "list_step rank (x # xs) Shift (Pointer x) xs"
| shift_none: "list_step rank [] Shift (Pointer None) []"
| zero: "list_step rank xs Zero Done []"
| sort: "mset ys = mset xs \<Longrightarrow> sorted (map rank ys) \<Longrightarrow> list_step rank xs Sort Done ys"
| find: "first_of_rank rank (rank p) xs i \<Longrightarrow> list_step rank xs (Find p) (Index i) xs"
| value_at: "list_step rank xs (Value_At i) (Pointer (if unat i < length xs then xs ! unat i else None)) xs"
| count: "list_step rank xs Count (Size (word_of_nat (length xs))) xs"

inductive list_run :: "('p ptr \<Rightarrow> 'k::linorder) \<Rightarrow> 'p ptr list \<Rightarrow> 'p sk_op list \<Rightarrow> 'p sk_answer list \<Rightarrow> 'p ptr list \<Rightarrow> bool"
  for rank :: "'p ptr \<Rightarrow> 'k" where
  nil: "list_run rank xs [] [] xs"
| cons: "list_step rank xs op a ys \<Longrightarrow> list_run rank ys ops as zs \<Longrightarrow> list_run rank xs (op # ops) (a # as) zs"

lemma first_index_eq:
  "first_index (\<lambda>x. Some (x = p)) xs = Some None \<and> p \<notin> set xs
    \<or> (\<exists>as bs. first_index (\<lambda>x. Some (x = p)) xs = Some (Some (length as)) \<and> xs = as @ p # bs \<and> p \<notin> set as)"
proof (induction xs)
  case (Cons x xs)
  show ?case
  proof (cases "x = p")
    case True
    then show ?thesis by (intro disjI2 exI [of _ "[]"] exI [of _ xs]) simp
  next
    case False
    from Cons show ?thesis
    proof (elim disjE exE conjE)
      fix as bs assume "first_index (\<lambda>x. Some (x = p)) xs = Some (Some (length as))" "xs = as @ p # bs" "p \<notin> set as"
      then show ?thesis using False by (intro disjI2 exI [of _ "x # as"] exI [of _ bs]) simp
    qed (use False in simp)
  qed
qed simp

context ptr_sorting
begin

lemma step_refines:
  assumes r: "represents c s xs" and c: "call c = cmp" and ok: "op_ok valid op"
  shows "\<exists>a t ys. sk_step qs call heap junk op (Some s) = Some (a, Some t) \<and> list_step rank xs op a ys \<and> represents c t ys"
proof -
  note R = representsD [OF r]
  have small: "length xs < 2 ^ 64" using R(6) unat_bound [of "num s"] by simp
  show ?thesis
  proof (cases op)
    case (Push p)
    have "unat (num s) = length xs" using R(6) by simp
    then show ?thesis using insert_represents [OF r, of p heap junk "num s"] Push ok r
      by (auto simp: sk_push_def intro: push_fails push) (use push in fastforce)
  next
    case (Insert_At p i)
    then show ?thesis using insert_represents [OF r, of p heap junk i] ok r
      by (auto intro: list_step.insert_fails list_step.insert) (use list_step.insert in fastforce)
  next
    case (Delete_At i)
    show ?thesis
    proof (cases "unat i < length xs")
      case True
      then have "xs = take (unat i) xs @ xs ! unat i # drop (Suc (unat i)) xs" "unat i = length (take (unat i) xs)"
        by (simp_all add: id_take_nth_drop)
      then show ?thesis using delete_represents [of c s "take (unat i) xs" "xs ! unat i" "drop (Suc (unat i)) xs" i]
          r Delete_At list_step.delete [of i "take (unat i) xs" rank "xs ! unat i" "drop (Suc (unat i)) xs"] by fastforce
    next
      case False
      then show ?thesis using r R(6) Delete_At
        by (auto simp: sk_delete_def word_le_nat_alt intro!: exI [of _ xs] list_step.delete_none)
    qed
  next
    case (Delete_Ptr p)
    from first_index_eq [of p xs] show ?thesis
    proof (elim disjE exE conjE)
      assume "first_index (\<lambda>x. Some (x = p)) xs = Some None" "p \<notin> set xs"
      then show ?thesis using r R(7,8) Delete_Ptr by (auto simp: sk_delete_ptr_def intro: list_step.delete_ptr_none)
    next
      fix as bs assume a: "first_index (\<lambda>x. Some (x = p)) xs = Some (Some (length as))" "xs = as @ p # bs" "p \<notin> set as"
      have "unat (word_of_nat (length as) :: u64) = length as" using small a(2) by (intro unat_word_of_nat_small) simp
      from delete_represents [OF r [unfolded a(2)] this] show ?thesis
        using a R(7,8) Delete_Ptr by (auto simp: sk_delete_ptr_def intro: list_step.delete_ptr)
    qed
  next
    case Pop
    show ?thesis
    proof (cases xs rule: rev_cases)
      case Nil
      then show ?thesis using r R(6) Pop by (auto simp: sk_pop_def unat_eq_0 intro: list_step.pop_none)
    next
      case (snoc ys x)
      then have n: "num s \<noteq> 0" using R(6) by auto
      then have "unat (num s - 1) = length ys" using R(6) by (simp add: unat_minus_one snoc)
      then show ?thesis using delete_represents [of c s ys x "[]" "num s - 1"] r n Pop list_step.pop
        by (fastforce simp: sk_pop_def snoc)
    qed
  next
    case Shift
    show ?thesis
    proof (cases xs)
      case Nil
      then show ?thesis using r R(6) Shift by (auto simp: sk_shift_def unat_eq_0 intro: list_step.shift_none)
    next
      case (Cons x ys)
      then have n: "num s \<noteq> 0" using R(6) by auto
      then show ?thesis using delete_represents [of c s "[]" x ys 0] r Shift list_step.shift
        by (fastforce simp: sk_shift_def Cons)
    qed
  next
    case Zero
    then show ?thesis using zero_represents [OF r] by (auto intro: list_step.zero)
  next
    case Sort
    then show ?thesis using sort_represents [of c s xs call] r c by (auto intro: list_step.sort)
  next
    case (Find p)
    then show ?thesis using find_first [of c s xs call p] r c ok by (auto intro: list_step.find)
  next
    case (Value_At i)
    then show ?thesis using r R(6-8) list_step.value_at [of rank xs i]
      by (auto simp: sk_value_def word_le_nat_alt not_le)
  next
    case Count
    then show ?thesis using r R(9) by (auto simp: sk_num_def intro: list_step.count)
  qed
qed

lemma run_refines:
  "represents c s xs \<Longrightarrow> call c = cmp \<Longrightarrow> \<forall>(_, _, op)\<in>set ops. op_ok valid op \<Longrightarrow>
    \<exists>as t ys. sk_run qs call ops (Some s) = Some (as, Some t) \<and> list_run rank xs (map (\<lambda>(_, _, op). op) ops) as ys
      \<and> represents c t ys"
proof (induction ops arbitrary: s xs)
  case Nil
  then show ?case by (auto intro: list_run.nil)
next
  case (Cons o' ops)
  obtain heap junk op where o': "o' = (heap, junk, op)" by (cases o')
  obtain a t ys where s: "sk_step qs call heap junk op (Some s) = Some (a, Some t)" "list_step rank xs op a ys" "represents c t ys"
    using step_refines [where call = call and c = c, OF Cons.prems(1,2), of op heap junk] Cons.prems(3) by (auto simp: o')
  from Cons.IH [OF s(3) Cons.prems(2)] Cons.prems(3) obtain as u zs where "sk_run qs call ops (Some t) = Some (as, Some u)"
      "list_run rank ys (map (\<lambda>(_, _, op). op) ops) as zs" "represents c u zs" by auto
  with s show ?case
    by (intro exI [of _ "a # as"] exI [of _ u] exI [of _ zs]) (auto simp: o' intro: list_run.cons)
qed

end

section \<open>Stacks of strings\<close>

text \<open>\<^verbatim>\<open>sk_strcmp\<close>; reading a null pointer is undefined.\<close>

fun sk_strcmp :: "u8 list ptr \<Rightarrow> u8 list ptr \<Rightarrow> int option" where
  "sk_strcmp (Some a) (Some b) = strcmp a b"
| "sk_strcmp _ _ = None"

definition string_ptr :: "u8 list ptr \<Rightarrow> bool" where
  "string_ptr p \<longleftrightarrow> (\<exists>s. p = Some s \<and> c_string s)"

definition string_rank :: "u8 list ptr \<Rightarrow> u8 list" where
  "string_rank p = (case p of None \<Rightarrow> [] | Some s \<Rightarrow> characters_of s)"

lemma strcmp_order: "c_string s \<Longrightarrow> c_string t \<Longrightarrow>
  \<exists>c. strcmp s t = Some c \<and> (c < 0 \<longleftrightarrow> characters_of s < characters_of t) \<and> (c = 0 \<longleftrightarrow> characters_of s = characters_of t)"
  by (induction s t rule: strcmp.induct) (auto simp: c_string_def characters_of_def word_gt_0)

text \<open>The insertion sort of \<^verbatim>\<open>Cbb_Asn1\<close> keeps the promise of \<^verbatim>\<open>qsort\<close>.\<close>

definition sort_ptrs :: "('p ptr \<Rightarrow> 'p ptr \<Rightarrow> int option) \<Rightarrow> 'p ptr list \<Rightarrow> 'p ptr list option" where
  "sort_ptrs cmp xs = Some (qsort (\<lambda>a b. the (cmp a b)) xs)"

context ptr_order
begin

lemma mset_insert_ptr: "mset (insert_by f x xs) = add_mset x (mset xs)"
  by (induction xs) auto

lemma insert_ptr_sorted:
  "\<forall>y\<in>set (x # xs). valid y \<Longrightarrow> sorted (map rank xs) \<Longrightarrow>
    sorted (map rank (insert_by (\<lambda>a b. the (cmp a b)) x xs))"
proof (induction xs)
  case (Cons y xs)
  obtain c where c: "cmp y x = Some c" "c < 0 \<longleftrightarrow> rank y < rank x" using cmp_rank [of y x] Cons.prems(1) by auto
  have s: "set (insert_by (\<lambda>a b. the (cmp a b)) x xs) = insert x (set xs)"
    using mset_insert_ptr [of "\<lambda>a b. the (cmp a b)" x xs] by (metis set_mset_add_mset_insert set_mset_mset)
  show ?case
  proof (cases "c < 0")
    case True
    with Cons c s show ?thesis by auto
  next
    case False
    with Cons c show ?thesis by (auto simp: not_less)
  qed
qed simp

lemma sort_ptrs_sorts:
  "\<forall>x\<in>set xs. valid x \<Longrightarrow> \<exists>ys. sort_ptrs cmp xs = Some ys \<and> mset ys = mset xs \<and> sorted (map rank ys)"
proof (induction xs)
  case Nil
  then show ?case by (simp add: sort_ptrs_def qsort_def)
next
  case (Cons x xs)
  then obtain ys where ys: "sort_ptrs cmp xs = Some ys" "mset ys = mset xs" "sorted (map rank ys)" by auto
  have "\<forall>y\<in>set (x # ys). valid y" using Cons.prems mset_eq_setD [OF ys(2)] by simp
  from insert_ptr_sorted [OF this ys(3)] ys(1,2) show ?case
    by (auto simp: sort_ptrs_def qsort_def mset_insert_ptr)
qed

end

interpretation string_order: ptr_order sk_strcmp string_ptr string_rank
  by unfold_locales (auto simp: string_ptr_def string_rank_def dest: strcmp_order)

interpretation names: ptr_sorting sk_strcmp string_ptr string_rank sort_ptrs
  by unfold_locales (rule string_order.sort_ptrs_sorts)

section \<open>Properties\<close>

text \<open>C26: a stack is a list, for every comparison function that orders the elements, every qsort that sorts,
  every sequence of pushes, insertions, deletions, lookups, searches and sorts from sk_new on, and whatever the
  allocator refuses: no run has undefined behaviour or fails an assertion, each answer is the answer of the list, and
  a search gives the first equal element whether it is linear or, after sk_sort, binary. sk_set is not among
  the operations, as it does not reset the sorted flag.\<close>

theorem stack_refines_list:
  assumes "ptr_sorting cmp valid rank qs" and "call c = cmp" and "sk_new heap (Some c) = Some (Some s)"
    and "\<forall>(_, _, op)\<in>set ops. op_ok valid op"
  shows "\<exists>as t. sk_run qs call ops (Some s) = Some (as, Some t)
    \<and> list_run rank [] (map (\<lambda>(_, _, op). op) ops) as (elements t)"
proof -
  have o: "ptr_order cmp valid rank" using assms(1) by (simp add: ptr_sorting_def)
  note rep = ptr_order.represents_def [OF o]
  have "ptr_order.represents valid rank c s []" using new_stack [OF assms(3)] by (auto simp: rep)
  from ptr_sorting.run_refines [where call = call, OF assms(1) this assms(2,4)] show ?thesis by (auto simp: rep)
qed

lemma first_of_rank_unique: "first_of_rank rank k xs i \<Longrightarrow> first_of_rank rank k xs j \<Longrightarrow> i = j"
  by (auto simp: first_of_rank_def split: option.splits) (metis nth_mem linorder_neqE_nat)+

text \<open>C27: the binary search of a sorted stack finds what a linear search of the same stack finds, the
  first element that compares equal, and it ends without a failed assertion.\<close>

theorem binary_search_is_linear:
  assumes "ptr_order (call c) valid rank" and "stack_ok s" and "sk_comp s = Some c" and "sorted (map rank (elements s))"
    and "\<forall>x\<in>set (elements s). valid x" and "valid p" and "p \<noteq> None"
  shows "sk_find call (Some (s\<lparr>sorted_flag := True\<rparr>)) p = sk_find call (Some (s\<lparr>sorted_flag := False\<rparr>)) p
    \<and> sk_find call (Some s) p \<noteq> None"
proof -
  have f: "\<exists>i. sk_find call (Some (s\<lparr>sorted_flag := b\<rparr>)) p = Some i \<and> first_of_rank rank (rank p) (elements s) i" for b
    by (rule ptr_order.find_first [where call = call and c = c, OF assms(1) _ refl assms(6,7)])
      (use assms in \<open>simp add: ptr_order.represents_def [OF assms(1)] ptr_order.ascending_def [OF assms(1)] stack_ok_def elements_def\<close>)
  have "sorted_flag s = b \<Longrightarrow> s\<lparr>sorted_flag := b\<rparr> = s" for b by (cases s) simp
  with f [of True] f [of False] first_of_rank_unique show ?thesis by (metis option.distinct(1))
qed

definition some_heap :: heap where
  "some_heap = (\<lambda>_. Some (\<lambda>_. 0))"

theorem stack_refines_list_witness:
  "\<exists>s as t. sk_new some_heap (Some ()) = Some (Some s)
    \<and> sk_run sort_ptrs (\<lambda>_. sk_strcmp) [(some_heap, \<lambda>_. None, Push (Some [98, 0])), (some_heap, \<lambda>_. None, Push (Some [97, 0])),
        (some_heap, \<lambda>_. None, Sort), (some_heap, \<lambda>_. None, Find (Some [98, 0]))] (Some s) = Some (as, Some t)
    \<and> list_run string_rank [] [Push (Some [98, 0]), Push (Some [97, 0]), Sort, Find (Some [98, 0])] as (elements t)"
proof -
  obtain s where s: "sk_new some_heap (Some ()) = Some (Some (s :: (unit, u8 list) stack))"
    by (auto simp: sk_new_def some_heap_def allocated_def OPENSSL_malloc_def sys_malloc_def)
  from stack_refines_list [OF names.ptr_sorting_axioms _ s, of "\<lambda>_. sk_strcmp"
      "[(some_heap, \<lambda>_. None, Push (Some [98, 0])), (some_heap, \<lambda>_. None, Push (Some [97, 0])),
        (some_heap, \<lambda>_. None, Sort), (some_heap, \<lambda>_. None, Find (Some [98, 0]))]"]
  show ?thesis using s by (auto simp: string_ptr_def c_string_def)
qed

definition two_names :: "(unit, u8 list) stack" where
  "two_names = \<lparr>num = 2, sk_data = [Some [97, 0], Some [98, 0], None, None], sorted_flag = True, num_alloc = 4, sk_comp = Some ()\<rparr>"

theorem binary_search_is_linear_witness:
  "sk_find (\<lambda>_. sk_strcmp) (Some (two_names\<lparr>sorted_flag := True\<rparr>)) (Some [98, 0])
    = sk_find (\<lambda>_. sk_strcmp) (Some (two_names\<lparr>sorted_flag := False\<rparr>)) (Some [98, 0])"
  using binary_search_is_linear [where call = "\<lambda>_. sk_strcmp" and c = "()" and s = two_names and p = "Some [98, 0]",
      OF string_order.ptr_order_axioms]
  by (simp add: two_names_def stack_ok_def elements_def string_rank_def characters_of_def string_ptr_def c_string_def)

text \<open>After \<^verbatim>\<open>sk_set\<close> the flag is still set and the search misses an element that is there.\<close>

lemma sk_set_keeps_the_flag:
  "\<exists>s. sk_set (Some two_names) 0 (Some [99, 0]) = Some (Some [99, 0], Some s)
    \<and> elements s = [Some [99, 0], Some [98, 0]] \<and> sorted_flag s
    \<and> sk_find (\<lambda>_. sk_strcmp) (Some s) (Some [98, 0]) = Some None"
  by (auto simp: two_names_def sk_set_def elements_def sk_find_def sk_is_sorted_def binary_search.simps Let_def)

end
