(* ===== verification/Unicode.thy ===== *)
theory Unicode
  imports Cbb
begin

text \<open>
  BoringSSL's readers and writers of code points (\<^verbatim>\<open>crypto/bytestring/unicode.c\<close>): UTF-8, Latin-1,
  UCS-2 and UTF-32, on \<^verbatim>\<open>CBS\<close> and \<^verbatim>\<open>CBB\<close>.
\<close>

definition is_valid_code_point :: "u32 \<Rightarrow> bool" where
  "is_valid_code_point v \<longleftrightarrow>
     \<not> (0x10ffff < v \<or> v AND 0xfffe = 0xfffe \<or> 0xfdd0 \<le> v \<and> v \<le> 0xfdef \<or> 0xd800 \<le> v \<and> v \<le> 0xdfff)"

definition BOTTOM_BITS :: "nat \<Rightarrow> u8" where
  "BOTTOM_BITS n = ucast (push_bit n 1 - 1 :: u32)"

definition TOP_BITS :: "nat \<Rightarrow> u8" where
  "TOP_BITS n = NOT (BOTTOM_BITS (8 - n))"

section \<open>Reading\<close>

text \<open>The loop over the \<open>n\<close> bytes after the first.\<close>

fun utf8_tail :: "nat \<Rightarrow> u32 \<Rightarrow> cbs \<Rightarrow> u32 parse" where
  "utf8_tail 0 v cbs = (Some v, cbs)"
| "utf8_tail (Suc n) v cbs =
     (case CBS_get_u8 cbs of
        (None, cbs) \<Rightarrow> (None, cbs)
      | (Some c, cbs) \<Rightarrow>
          if c AND TOP_BITS 2 \<noteq> TOP_BITS 1 then (None, cbs)
          else utf8_tail n (push_bit 6 v OR ucast (c AND BOTTOM_BITS 6)) cbs)"

definition cbs_get_utf8 :: "cbs \<Rightarrow> u32 parse" where
  "cbs_get_utf8 cbs =
     (let rest = (\<lambda>v len lower_bound cbs. case utf8_tail len v cbs of
            (None, cbs) \<Rightarrow> (None, cbs)
          | (Some v, cbs) \<Rightarrow> if \<not> is_valid_code_point v \<or> v < lower_bound then (None, cbs) else (Some v, cbs))
      in case CBS_get_u8 cbs of
          (None, cbs) \<Rightarrow> (None, cbs)
        | (Some c, cbs) \<Rightarrow>
            if c \<le> 0x7f then (Some (ucast c), cbs)
            else if c AND TOP_BITS 3 = TOP_BITS 2 then rest (ucast (c AND BOTTOM_BITS 5)) 1 0x80 cbs
            else if c AND TOP_BITS 4 = TOP_BITS 3 then rest (ucast (c AND BOTTOM_BITS 4)) 2 0x800 cbs
            else if c AND TOP_BITS 5 = TOP_BITS 4 then rest (ucast (c AND BOTTOM_BITS 3)) 3 0x10000 cbs
            else (None, cbs))"

definition cbs_get_latin1 :: "cbs \<Rightarrow> u32 parse" where
  "cbs_get_latin1 cbs = (case CBS_get_u8 cbs of (r, cbs) \<Rightarrow> (map_option ucast r, cbs))"

definition cbs_get_ucs2_be :: "cbs \<Rightarrow> u32 parse" where
  "cbs_get_ucs2_be cbs =
     (case CBS_get_u16 cbs of
        (None, cbs) \<Rightarrow> (None, cbs)
      | (Some c, cbs) \<Rightarrow> if \<not> is_valid_code_point (ucast c) then (None, cbs) else (Some (ucast c), cbs))"

definition cbs_get_utf32_be :: "cbs \<Rightarrow> u32 parse" where
  "cbs_get_utf32_be cbs =
     (case CBS_get_u32 cbs of
        (None, cbs) \<Rightarrow> (None, cbs)
      | (Some c, cbs) \<Rightarrow> if is_valid_code_point c then (Some c, cbs) else (None, cbs))"

section \<open>Writing\<close>

definition cbb_get_utf8_len :: "u32 \<Rightarrow> nat" where
  "cbb_get_utf8_len u = (if u \<le> 0x7f then 1 else if u \<le> 0x7ff then 2 else if u \<le> 0xffff then 3 else 4)"

definition cbb_add_utf8 :: "reallocate \<Rightarrow> nat \<Rightarrow> u32 \<Rightarrow> builder \<Rightarrow> builder cres" where
  "cbb_add_utf8 ra cbb u s =
     (let add = (\<lambda>b. CBB_add_u8 ra cbb (ucast (b :: u32)));
          next = (\<lambda>b. add (ucast (TOP_BITS 1) OR (b AND ucast (BOTTOM_BITS 6))))
      in if \<not> is_valid_code_point u then ret_false s
         else if u \<le> 0x7f then add u s
         else if u \<le> 0x7ff then
           and_then (add (ucast (TOP_BITS 2) OR drop_bit 6 u) s) (next u)
         else if u \<le> 0xffff then
           and_then (add (ucast (TOP_BITS 3) OR drop_bit 12 u) s) (\<lambda>s.
             and_then (next (drop_bit 6 u) s) (next u))
         else if u \<le> 0x10ffff then
           and_then (add (ucast (TOP_BITS 4) OR drop_bit 18 u) s) (\<lambda>s.
             and_then (next (drop_bit 12 u) s) (\<lambda>s. and_then (next (drop_bit 6 u) s) (next u)))
         else ret_false s)"

definition cbb_add_latin1 :: "reallocate \<Rightarrow> nat \<Rightarrow> u32 \<Rightarrow> builder \<Rightarrow> builder cres" where
  "cbb_add_latin1 ra cbb u s = (if u \<le> 0xff then CBB_add_u8 ra cbb (ucast u) s else ret_false s)"

definition cbb_add_ucs2_be :: "reallocate \<Rightarrow> nat \<Rightarrow> u32 \<Rightarrow> builder \<Rightarrow> builder cres" where
  "cbb_add_ucs2_be ra cbb u s =
     (if u \<le> 0xffff \<and> is_valid_code_point u then CBB_add_u16 ra cbb (ucast u) s else ret_false s)"

definition cbb_add_utf32_be :: "reallocate \<Rightarrow> nat \<Rightarrow> u32 \<Rightarrow> builder \<Rightarrow> builder cres" where
  "cbb_add_utf32_be ra cbb u s = (if is_valid_code_point u then CBB_add_u32 ra cbb u s else ret_false s)"

end
