(* ===== verification/Unicode_Correct.thy ===== *)
theory Unicode_Correct
  imports Unicode Cbb_Properties
begin

text \<open>
  UTF-8 as a function of the code point, and that the reader accepts exactly its values on the valid code points and the
  writer appends them.
\<close>

definition continuation :: "nat \<Rightarrow> u8" where
  "continuation u = word_of_nat (128 + u mod 64)"

definition utf8 :: "nat \<Rightarrow> u8 list" where
  "utf8 u =
     (if u < 0x80 then [word_of_nat u]
      else if u < 0x800 then [word_of_nat (192 + u div 64), continuation u]
      else if u < 0x10000 then [word_of_nat (224 + u div 4096), continuation (u div 64), continuation u]
      else [word_of_nat (240 + u div 262144), continuation (u div 4096), continuation (u div 64), continuation u])"

section \<open>Bits\<close>

lemma high_bits: "unat (c AND NOT (mask k)) = unat c div 2 ^ k * 2 ^ k" for c :: "'a::len word"
proof -
  have "c AND NOT (mask k) = push_bit k (drop_bit k c)"
    by (rule bit_word_eqI) (auto simp: bit_and_iff bit_not_iff bit_mask_iff bit_push_bit_iff bit_drop_bit_eq)
  moreover have "unat c div 2 ^ k * 2 ^ k < 2 ^ LENGTH('a)"
    using div_times_less_eq_dividend [of "unat c" "2 ^ k"] unat_bound [of c] by (rule le_less_trans)
  moreover have "unat (push_bit k (drop_bit k c)) = take_bit LENGTH('a) (unat (drop_bit k c) * 2 ^ k)"
    unfolding unsigned_push_bit_eq by (simp add: push_bit_eq_mult)
  ultimately show ?thesis by (simp add: unat_drop_bit take_bit_nat_eq_self)
qed

lemma BOTTOM_BITS_mask: "n \<le> 8 \<Longrightarrow> BOTTOM_BITS n = mask n"
proof -
  assume n: "n \<le> 8"
  have "push_bit n 1 - 1 = (mask n :: u32)" by (simp add: mask_eq_exp_minus_1 push_bit_eq_mult)
  then show ?thesis using n by (intro bit_word_eqI) (auto simp: BOTTOM_BITS_def bit_ucast_iff bit_mask_iff)
qed

lemma TOP_BITS_values: "TOP_BITS (Suc 0) = 0x80" "TOP_BITS 2 = 0xC0" "TOP_BITS 3 = 0xE0" "TOP_BITS 4 = 0xF0"
  by code_simp+

lemma top_test:
  assumes "k \<le> 8" and "unat d = t * 2 ^ k" and "n = 8 - k"
  shows "c AND TOP_BITS n = d \<longleftrightarrow> unat c div 2 ^ k = t"
proof -
  have "TOP_BITS n = NOT (mask k)" using assms(1,3) by (simp add: TOP_BITS_def BOTTOM_BITS_mask)
  then have "unat (c AND TOP_BITS n) = unat c div 2 ^ k * 2 ^ k" by (simp add: high_bits)
  then show ?thesis unfolding word_unat_eq_iff [of "c AND TOP_BITS n"] assms(2) by simp
qed

lemma div_range: "0 < k \<Longrightarrow> n div k = t \<longleftrightarrow> t * k \<le> n \<and> n < t * k + k" for n :: nat
proof -
  assume k: "0 < k"
  have "n div k = t \<longleftrightarrow> t \<le> n div k \<and> n div k < Suc t" by auto
  then show ?thesis using k by (simp add: less_eq_div_iff_mult_less_eq div_less_iff_less_mult add.commute)
qed

lemma ranges:
  "n div 64 = 2 \<longleftrightarrow> 128 \<le> n \<and> n < 192" "n div 32 = 6 \<longleftrightarrow> 192 \<le> n \<and> n < 224"
  "n div 16 = 14 \<longleftrightarrow> 224 \<le> n \<and> n < 240" "n div 8 = 30 \<longleftrightarrow> 240 \<le> n \<and> n < 248" for n :: nat
  by (simp_all add: div_range)

lemma first_bytes:
  "c AND TOP_BITS 2 = TOP_BITS (Suc 0) \<longleftrightarrow> 128 \<le> unat c \<and> unat c < 192"
  "c AND TOP_BITS 3 = TOP_BITS 2 \<longleftrightarrow> 192 \<le> unat c \<and> unat c < 224"
  "c AND TOP_BITS 4 = TOP_BITS 3 \<longleftrightarrow> 224 \<le> unat c \<and> unat c < 240"
  "c AND TOP_BITS 5 = TOP_BITS 4 \<longleftrightarrow> 240 \<le> unat c \<and> unat c < 248"
proof -
  have "unat (TOP_BITS (Suc 0)) = 2 * 2 ^ 6" "unat (TOP_BITS 2) = 6 * 2 ^ 5" "unat (TOP_BITS 3) = 14 * 2 ^ 4"
    "unat (TOP_BITS 4) = 30 * 2 ^ 3"
    unfolding TOP_BITS_values by simp_all
  from this [THEN top_test [rotated]]
  show "c AND TOP_BITS 2 = TOP_BITS (Suc 0) \<longleftrightarrow> 128 \<le> unat c \<and> unat c < 192"
    "c AND TOP_BITS 3 = TOP_BITS 2 \<longleftrightarrow> 192 \<le> unat c \<and> unat c < 224"
    "c AND TOP_BITS 4 = TOP_BITS 3 \<longleftrightarrow> 224 \<le> unat c \<and> unat c < 240"
    "c AND TOP_BITS 5 = TOP_BITS 4 \<longleftrightarrow> 240 \<le> unat c \<and> unat c < 248"
    unfolding ranges [symmetric] by simp_all
qed

lemma unat_bottom: "n \<le> 8 \<Longrightarrow> unat (ucast (c AND BOTTOM_BITS n) :: u32) = unat c mod 2 ^ n"
  unfolding BOTTOM_BITS_mask take_bit_eq_mask [symmetric]
  by (subst unat_ucast_up) (simp_all only: unsigned_take_bit_eq, simp_all add: take_bit_eq_mod)

lemma or_below:
  assumes "unat w < 2 ^ k"
  shows "push_bit k t OR w = push_bit k t + (w :: 'a::len word)"
proof -
  have "take_bit k w = w" using assms by (simp add: word_unat_eq_iff unsigned_take_bit_eq take_bit_nat_eq_self)
  then have "\<not> bit w i" if "k \<le> i" for i using that by (metis bit_take_bit_iff not_less)
  then show ?thesis by (intro disjunctive_add [symmetric]) (auto simp: bit_push_bit_iff)
qed

section \<open>Reading\<close>

lemma get_u8_simps [simp]: "CBS_get_u8 [] = (None, [])" "CBS_get_u8 (c # cbs) = (Some c, cbs)"
  by (simp_all add: CBS_get_u8_def cbs_get_def)

lemma tail_step:
  assumes "unat v < 2 ^ 26"
  shows "unat (push_bit 6 v OR ucast (c AND BOTTOM_BITS 6) :: u32) = unat v * 64 + unat c mod 64"
proof -
  have w: "unat (ucast (c AND BOTTOM_BITS 6) :: u32) = unat c mod 64" using unat_bottom [of 6 c] by simp
  moreover have "unat (push_bit 6 v) = unat v * 64" using assms by (simp add: push_bit_eq_mult unat_word_ariths)
  moreover have "unat c mod 64 < 64" by simp
  ultimately show ?thesis
    using or_below [of "ucast (c AND BOTTOM_BITS 6) :: u32" 6 v] assms by (simp add: unat_plus_small)
qed

text \<open>A byte after the first, and the number after it.\<close>

definition is_continuation :: "u8 \<Rightarrow> bool" where
  "is_continuation c \<longleftrightarrow> 128 \<le> unat c \<and> unat c < 192"

lemma utf8_tail_Suc:
  "unat v < 2 ^ 26 \<Longrightarrow> utf8_tail (Suc n) v cbs = (Some w, rest) \<longleftrightarrow>
     (\<exists>c cs. cbs = c # cs \<and> is_continuation c \<and> utf8_tail n (word_of_nat (unat v * 64 + unat c mod 64)) cs = (Some w, rest))"
proof (cases cbs)
  case (Cons c cs)
  assume v: "unat v < 2 ^ 26"
  have "push_bit 6 v OR ucast (c AND BOTTOM_BITS 6) = word_of_nat (unat v * 64 + unat c mod 64)"
    using tail_step [OF v, of c] by (metis of_nat_unat ucast_id)
  then show ?thesis by (auto simp: Cons first_bytes is_continuation_def)
qed simp

lemma is_continuation_mod: "is_continuation c \<Longrightarrow> unat c = 128 + unat c mod 64"
proof -
  assume c: "is_continuation c"
  then have ge: "64 \<le> unat c" "64 \<le> unat c - 64" by (auto simp: is_continuation_def)
  have "unat c mod 64 = (unat c - 64 - 64) mod 64" by (simp only: le_mod_geq [OF ge(1)] le_mod_geq [OF ge(2)])
  also have "\<dots> = unat c - 64 - 64" using c by (intro mod_less) (auto simp: is_continuation_def)
  finally show ?thesis using c by (simp add: is_continuation_def)
qed

lemma continuation_values: "unat (continuation u) = 128 + u mod 64" "is_continuation (continuation u)" "unat (continuation u) mod 64 = u mod 64"
proof -
  have lt: "u mod 64 < 64" by simp
  then show 1: "unat (continuation u) = 128 + u mod 64" unfolding continuation_def by (intro unat_word_of_nat_small) simp
  with lt show 2: "is_continuation (continuation u)" by (simp add: is_continuation_def)
  from is_continuation_mod [OF 2] 1 show "unat (continuation u) mod 64 = u mod 64" by simp
qed

lemma continuation_eq: "is_continuation c \<Longrightarrow> unat c mod 64 = u mod 64 \<Longrightarrow> c = continuation u"
  using is_continuation_mod [of c] continuation_values(1) [of u] by (simp add: word_unat_eq_iff)

text \<open>The bytes after the first.\<close>

fun continuations :: "nat \<Rightarrow> nat \<Rightarrow> u8 list" where
  "continuations 0 u = []"
| "continuations (Suc n) u = continuation (u div 64 ^ n) # continuations n u"

lemma utf8_tail_iff:
  "Suc (unat v) * 64 ^ n \<le> 2 ^ 32 \<Longrightarrow>
    utf8_tail n v cbs = (Some w, rest) \<longleftrightarrow> cbs = continuations n (unat w) @ rest \<and> unat w div 64 ^ n = unat v"
proof (induction n arbitrary: v cbs)
  case 0
  then show ?case by (auto simp: word_unat_eq_iff)
next
  case (Suc n)
  have "Suc (unat v) * 64 \<le> Suc (unat v) * 64 ^ Suc n" by (rule mult_le_mono2) simp
  with Suc.prems have v: "Suc (unat v) * 64 \<le> 2 ^ 32" by linarith
  have x: "unat (word_of_nat (unat v * 64 + unat c mod 64) :: u32) = unat v * 64 + unat c mod 64" for c :: u8
  proof (rule unat_word_of_nat_small)
    have "unat c mod 64 < 64" by simp
    then show "unat v * 64 + unat c mod 64 < 2 ^ LENGTH(32)" using v by simp
  qed
  have ih: "utf8_tail n (word_of_nat (unat v * 64 + unat c mod 64)) cs = (Some w, rest) \<longleftrightarrow>
      cs = continuations n (unat w) @ rest \<and> unat w div 64 ^ n = unat v * 64 + unat c mod 64" for c :: u8 and cs
  proof -
    have "Suc (unat v * 64 + unat c mod 64) \<le> Suc (unat v) * 64" using mod_less_divisor [of 64 "unat c"] by simp
    then have "Suc (unat v * 64 + unat c mod 64) * 64 ^ n \<le> Suc (unat v) * 64 * 64 ^ n" by (rule mult_le_mono1)
    also have "\<dots> = Suc (unat v) * 64 ^ Suc n" by (simp only: mult.assoc power_Suc)
    also note Suc.prems
    finally have "Suc (unat (word_of_nat (unat v * 64 + unat c mod 64) :: u32)) * 64 ^ n \<le> 2 ^ 32" by (simp only: x)
    from Suc.IH [OF this] show ?thesis by (simp only: x)
  qed
  let ?q = "unat w div 64 ^ n"
  have "utf8_tail (Suc n) v cbs = (Some w, rest) \<longleftrightarrow>
      (\<exists>c. cbs = c # continuations n (unat w) @ rest \<and> is_continuation c \<and> ?q = unat v * 64 + unat c mod 64)"
    using utf8_tail_Suc [of v n cbs w rest] v ih by auto
  also have "\<dots> \<longleftrightarrow> cbs = continuation ?q # continuations n (unat w) @ rest \<and> ?q div 64 = unat v"
  proof
    assume "\<exists>c. cbs = c # continuations n (unat w) @ rest \<and> is_continuation c \<and> ?q = unat v * 64 + unat c mod 64"
    then obtain c where c: "cbs = c # continuations n (unat w) @ rest" "is_continuation c" "?q = unat v * 64 + unat c mod 64"
      by blast
    have "?q mod 64 = unat c mod 64" "?q div 64 = unat v" unfolding c(3) by simp_all
    with continuation_eq [OF c(2)] c(1) show "cbs = continuation ?q # continuations n (unat w) @ rest \<and> ?q div 64 = unat v"
      by simp
  next
    assume a: "cbs = continuation ?q # continuations n (unat w) @ rest \<and> ?q div 64 = unat v"
    have "?q = ?q div 64 * 64 + ?q mod 64" by simp
    then have "?q = unat v * 64 + unat (continuation ?q) mod 64" using a by (simp add: continuation_values(3))
    then show "\<exists>c. cbs = c # continuations n (unat w) @ rest \<and> is_continuation c \<and> ?q = unat v * 64 + unat c mod 64"
      using a continuation_values(2) by blast
  qed
  also have "?q div 64 = unat w div 64 ^ Suc n" by (simp only: power_Suc2 div_mult2_eq)
  finally show ?case by simp
qed

lemma utf8_continuations:
  "utf8 u = (if u < 0x80 then [word_of_nat u]
     else if u < 0x800 then word_of_nat (192 + u div 64) # continuations 1 u
     else if u < 0x10000 then word_of_nat (224 + u div 4096) # continuations 2 u
     else word_of_nat (240 + u div 262144) # continuations 3 u)"
  by (simp add: utf8_def numeral_2_eq_2 numeral_3_eq_3)

lemma valid_limit: "is_valid_code_point v \<Longrightarrow> unat v \<le> 0x10ffff"
  by (simp add: is_valid_code_point_def word_less_nat_alt not_less)

lemma valid_ascii: "unat v < 128 \<Longrightarrow> is_valid_code_point v"
proof -
  assume v: "unat v < 128"
  then have "take_bit 7 v = v" by (simp add: word_unat_eq_iff unsigned_take_bit_eq take_bit_nat_eq_self)
  then have "\<not> bit v 8" by (metis bit_take_bit_iff less_irrefl_nat numeral_less_iff semiring_norm)
  moreover have "bit (0xfffe :: u32) 8" by code_simp
  ultimately have "v AND 0xfffe \<noteq> 0xfffe" by (metis bit_and_iff)
  with v show ?thesis by (simp add: is_valid_code_point_def word_less_nat_alt word_le_nat_alt)
qed

text \<open>The four forms of an encoding, by the first byte.\<close>

definition encoding :: "nat \<Rightarrow> cbs \<Rightarrow> nat \<Rightarrow> cbs \<Rightarrow> bool" where
  "encoding n cs u rest \<longleftrightarrow>
     n < 128 \<and> u = n \<and> cs = rest
     \<or> 192 \<le> n \<and> n < 224 \<and> 0x80 \<le> u \<and> u div 64 = n - 192 \<and> cs = continuations 1 u @ rest
     \<or> 224 \<le> n \<and> n < 240 \<and> 0x800 \<le> u \<and> u div 4096 = n - 224 \<and> cs = continuations 2 u @ rest
     \<or> 240 \<le> n \<and> n < 248 \<and> 0x10000 \<le> u \<and> u div 262144 = n - 240 \<and> cs = continuations 3 u @ rest"

lemma byte_eq: "k < 256 \<Longrightarrow> c = word_of_nat k \<longleftrightarrow> unat (c :: u8) = k"
  by (auto simp: word_unat_eq_iff unat_word_of_nat_small)

lemma utf8_encoding:
  assumes "u \<le> 0x10ffff"
  shows "c # cs = utf8 u @ rest \<longleftrightarrow> encoding (unat c) cs u rest"
proof -
  consider "u < 0x80" | "0x80 \<le> u" "u < 0x800" | "0x800 \<le> u" "u < 0x10000" | "0x10000 \<le> u" by linarith
  then show ?thesis
  proof cases
    case 1
    then have "u div 64 < 2" "u div 4096 = 0" "u div 262144 = 0" by (auto simp: div_less_iff_less_mult)
    then show ?thesis using 1 by (auto simp: utf8_continuations encoding_def byte_eq simp del: of_nat_add)
  next
    case 2
    then have "u div 64 < 32" "u div 4096 = 0" "u div 262144 = 0" by (auto simp: div_less_iff_less_mult)
    then show ?thesis using 2 by (auto simp: utf8_continuations encoding_def byte_eq simp del: of_nat_add)
  next
    case 3
    then have "32 \<le> u div 64" "u div 4096 < 16" "u div 262144 = 0"
      by (auto simp: div_less_iff_less_mult less_eq_div_iff_mult_less_eq)
    then show ?thesis using 3 by (auto simp: utf8_continuations encoding_def byte_eq simp del: of_nat_add)
  next
    case 4
    then have "32 \<le> u div 64" "16 \<le> u div 4096" "u div 262144 < 8"
      using assms by (auto simp: div_less_iff_less_mult less_eq_div_iff_mult_less_eq)
    then show ?thesis using 4 by (auto simp: utf8_continuations encoding_def byte_eq simp del: of_nat_add)
  qed
qed

lemma get_utf8_encoding:
  "cbs_get_utf8 (c # cs) = (Some v, rest) \<longleftrightarrow> is_valid_code_point v \<and> encoding (unat c) cs (unat v) rest"
proof -
  define n where "n = unat c"
  have tail: "(case utf8_tail len v0 cs of
            (None, cbs) \<Rightarrow> (None, cbs)
          | (Some v, cbs) \<Rightarrow> if \<not> is_valid_code_point v \<or> v < lb then (None, cbs) else (Some v, cbs)) = (Some v, rest)
      \<longleftrightarrow> utf8_tail len v0 cs = (Some v, rest) \<and> is_valid_code_point v \<and> unat lb \<le> unat v" for len v0 lb
    by (auto simp: word_less_nat_alt split: prod.splits option.splits)
  have tail_iff: "utf8_tail len (ucast (c AND BOTTOM_BITS k)) cs = (Some v, rest)
      \<longleftrightarrow> cs = continuations len (unat v) @ rest \<and> unat v div 64 ^ len = n mod 2 ^ k" if "k \<le> 5" "len \<le> 3" for len k
  proof -
    have "n mod 2 ^ k < 2 ^ k" by simp
    also have "(2 :: nat) ^ k \<le> 2 ^ 5" using that(1) by (intro power_increasing) simp_all
    finally have "Suc (n mod 2 ^ k) \<le> 32" by simp
    moreover have "(64 :: nat) ^ len \<le> 64 ^ 3" using that(2) by (intro power_increasing) simp_all
    ultimately have "Suc (n mod 2 ^ k) * 64 ^ len \<le> 32 * 64 ^ 3" by (rule mult_le_mono)
    then show ?thesis using utf8_tail_iff [of "ucast (c AND BOTTOM_BITS k)" len cs v rest] that(1)
      by (simp add: unat_bottom n_def)
  qed
  consider "n < 128" | "128 \<le> n" "n < 192" | "192 \<le> n" "n < 224" | "224 \<le> n" "n < 240" | "240 \<le> n" "n < 248" | "248 \<le> n"
    by linarith
  then show ?thesis
  proof cases
    case 1
    then show ?thesis using valid_ascii [of v]
      by (auto simp: cbs_get_utf8_def word_le_nat_alt encoding_def n_def word_unat_eq_iff unat_ucast_up)
  next
    case 2
    then have "\<not> c \<le> 0x7f" by (simp add: word_le_nat_alt n_def)
    with 2 show ?thesis by (auto simp: cbs_get_utf8_def first_bytes encoding_def simp flip: n_def)
  next
    case 3
    then have m: "n mod 2 ^ 5 = n - 192" by (intro mod_nat_eqI) simp_all
    have "\<not> c \<le> 0x7f" using 3 by (simp add: word_le_nat_alt n_def)
    with 3 have "cbs_get_utf8 (c # cs) = (Some v, rest) \<longleftrightarrow> utf8_tail 1 (ucast (c AND BOTTOM_BITS 5)) cs = (Some v, rest)
        \<and> is_valid_code_point v \<and> 0x80 \<le> unat v"
      using tail [of "0x80" 1 "ucast (c AND BOTTOM_BITS 5)"] by (simp add: cbs_get_utf8_def Let_def first_bytes flip: n_def)
    then show ?thesis using 3 m tail_iff [of 5 1] by (auto simp: encoding_def simp flip: n_def)
  next
    case 4
    then have m: "n mod 2 ^ 4 = n - 224" by (intro mod_nat_eqI) simp_all
    have "\<not> c \<le> 0x7f" using 4 by (simp add: word_le_nat_alt n_def)
    with 4 have "cbs_get_utf8 (c # cs) = (Some v, rest) \<longleftrightarrow> utf8_tail 2 (ucast (c AND BOTTOM_BITS 4)) cs = (Some v, rest)
        \<and> is_valid_code_point v \<and> 0x800 \<le> unat v"
      using tail [of "0x800" 2 "ucast (c AND BOTTOM_BITS 4)"] by (simp add: cbs_get_utf8_def Let_def first_bytes flip: n_def)
    then show ?thesis using 4 m tail_iff [of 4 2] by (auto simp: encoding_def simp flip: n_def)
  next
    case 5
    then have m: "n mod 2 ^ 3 = n - 240" by (intro mod_nat_eqI) simp_all
    have "\<not> c \<le> 0x7f" using 5 by (simp add: word_le_nat_alt n_def)
    with 5 have "cbs_get_utf8 (c # cs) = (Some v, rest) \<longleftrightarrow> utf8_tail 3 (ucast (c AND BOTTOM_BITS 3)) cs = (Some v, rest)
        \<and> is_valid_code_point v \<and> 0x10000 \<le> unat v"
      using tail [of "0x10000" 3 "ucast (c AND BOTTOM_BITS 3)"] by (simp add: cbs_get_utf8_def Let_def first_bytes flip: n_def)
    then show ?thesis using 5 m tail_iff [of 3 3] by (auto simp: encoding_def simp flip: n_def)
  next
    case 6
    then have "\<not> c \<le> 0x7f" by (simp add: word_le_nat_alt n_def)
    with 6 show ?thesis by (auto simp: cbs_get_utf8_def first_bytes encoding_def simp flip: n_def)
  qed
qed

lemma get_utf8_iff:
  "cbs_get_utf8 cbs = (Some v, rest) \<longleftrightarrow> is_valid_code_point v \<and> cbs = utf8 (unat v) @ rest"
proof (cases cbs)
  case Nil
  have "utf8 (unat v) \<noteq> []" by (simp add: utf8_def)
  then show ?thesis by (simp add: Nil cbs_get_utf8_def)
next
  case (Cons c cs)
  then show ?thesis using utf8_encoding [OF valid_limit, of v c cs rest] by (auto simp: get_utf8_encoding)
qed

section \<open>Writing\<close>

lemma joined_byte:
  assumes "unat w < 2 ^ k" and "T = push_bit k t" and "unat T + 2 ^ k \<le> 256"
  shows "ucast (T OR w :: u32) = (word_of_nat (unat T + unat w) :: u8)"
proof -
  have "T OR w = T + w" using or_below [OF assms(1)] assms(2) by simp
  moreover have "unat (T + w) = unat T + unat w" using assms by (intro unat_plus_small) simp
  ultimately show ?thesis
    by (simp add: word_unat_eq_iff unsigned_ucast_eq take_bit_eq_mod unat_of_nat del: of_nat_add)
qed

lemma next_byte: "ucast (ucast (TOP_BITS (Suc 0)) OR (b AND ucast (BOTTOM_BITS 6)) :: u32) = continuation (unat b)"
proof -
  have m: "ucast (BOTTOM_BITS 6) = (mask 6 :: u32)" by code_simp
  have "unat (b AND ucast (BOTTOM_BITS 6)) = unat b mod 64"
    unfolding m take_bit_eq_mask [symmetric] unsigned_take_bit_eq by (simp add: take_bit_eq_mod)
  moreover have "ucast (TOP_BITS (Suc 0)) = (push_bit 6 2 :: u32)" "unat (ucast (TOP_BITS (Suc 0)) :: u32) = 128" by code_simp+
  ultimately show ?thesis
    using joined_byte [of "b AND ucast (BOTTOM_BITS 6)" 6 "ucast (TOP_BITS (Suc 0))" 2] by (simp add: continuation_def)
qed

lemma first_byte:
  "unat u < 0x800 \<Longrightarrow> ucast (ucast (TOP_BITS 2) OR drop_bit 6 u :: u32) = (word_of_nat (192 + unat u div 64) :: u8)"
  "unat u < 0x10000 \<Longrightarrow> ucast (ucast (TOP_BITS 3) OR drop_bit 12 u :: u32) = (word_of_nat (224 + unat u div 4096) :: u8)"
  "unat u \<le> 0x10ffff \<Longrightarrow> ucast (ucast (TOP_BITS 4) OR drop_bit 18 u :: u32) = (word_of_nat (240 + unat u div 262144) :: u8)"
proof -
  have v: "ucast (TOP_BITS 2) = (push_bit 6 3 :: u32)" "unat (ucast (TOP_BITS 2) :: u32) = 192"
    "ucast (TOP_BITS 3) = (push_bit 5 7 :: u32)" "unat (ucast (TOP_BITS 3) :: u32) = 224"
    "ucast (TOP_BITS 4) = (push_bit 4 15 :: u32)" "unat (ucast (TOP_BITS 4) :: u32) = 240" by code_simp+
  show "unat u < 0x800 \<Longrightarrow> ucast (ucast (TOP_BITS 2) OR drop_bit 6 u :: u32) = (word_of_nat (192 + unat u div 64) :: u8)"
    using joined_byte [of "drop_bit 6 u" 6 "ucast (TOP_BITS 2)" 3] v(1,2) by (simp add: unat_drop_bit div_less_iff_less_mult)
  show "unat u < 0x10000 \<Longrightarrow> ucast (ucast (TOP_BITS 3) OR drop_bit 12 u :: u32) = (word_of_nat (224 + unat u div 4096) :: u8)"
    using joined_byte [of "drop_bit 12 u" 5 "ucast (TOP_BITS 3)" 7] v(3,4) by (simp add: unat_drop_bit div_less_iff_less_mult)
  show "unat u \<le> 0x10ffff \<Longrightarrow> ucast (ucast (TOP_BITS 4) OR drop_bit 18 u :: u32) = (word_of_nat (240 + unat u div 262144) :: u8)"
    using joined_byte [of "drop_bit 18 u" 4 "ucast (TOP_BITS 4)" 15] v(5,6) by (simp add: unat_drop_bit div_less_iff_less_mult)
qed

lemma utf8_length: "cbb_get_utf8_len u = length (utf8 (unat u))"
  by (simp add: cbb_get_utf8_len_def utf8_def word_le_nat_alt)

context reallocator
begin

lemma add_utf8_appended:
  assumes v: "view ra n s c out fs" and u: "is_valid_code_point u"
  shows "appended ra n ex s c out fs (utf8 (unat u)) True (cbb_add_utf8 ra c u s)"
proof -
  have add: "appended ra n ex s1 c out1 fs1 [b] True (CBB_add_u8 ra c b s1)" if "view ra n s1 c out1 fs1" for s1 out1 fs1 b
    by (rule add_u8_appended [OF that])
  have two: "appended ra n ex s1 c out1 fs1 [b1, b2] True (and_then (CBB_add_u8 ra c b1 s1) (CBB_add_u8 ra c b2))"
    if "view ra n s1 c out1 fs1" for s1 out1 fs1 b1 b2
    using appended_and_then [OF add [OF that] add] by simp
  have three: "appended ra n ex s1 c out1 fs1 [b1, b2, b3] True
      (and_then (CBB_add_u8 ra c b1 s1) (\<lambda>s. and_then (CBB_add_u8 ra c b2 s) (CBB_add_u8 ra c b3)))"
    if "view ra n s1 c out1 fs1" for s1 out1 fs1 b1 b2 b3
    using appended_and_then [OF add [OF that] two] by simp
  have four: "appended ra n ex s1 c out1 fs1 [b1, b2, b3, b4] True (and_then (CBB_add_u8 ra c b1 s1)
      (\<lambda>s. and_then (CBB_add_u8 ra c b2 s) (\<lambda>s. and_then (CBB_add_u8 ra c b3 s) (CBB_add_u8 ra c b4))))"
    if "view ra n s1 c out1 fs1" for s1 out1 fs1 b1 b2 b3 b4
    using appended_and_then [OF add [OF that] three] by simp
  have lim: "unat u \<le> 0x10ffff" by (rule valid_limit [OF u])
  consider "unat u < 0x80" | "0x80 \<le> unat u" "unat u < 0x800" | "0x800 \<le> unat u" "unat u < 0x10000" | "0x10000 \<le> unat u" by linarith
  then show ?thesis
  proof cases
    case 1
    have "ucast u = (word_of_nat (unat u) :: u8)" by (simp add: word_unat_eq_iff unat_of_nat unsigned_ucast_eq take_bit_eq_mod)
    then show ?thesis using add [OF v, of "ucast u"] u 1
      by (simp add: cbb_add_utf8_def utf8_def word_le_nat_alt)
  next
    case 2
    then show ?thesis using two [OF v] u
      by (simp add: cbb_add_utf8_def utf8_def word_le_nat_alt first_byte next_byte del: of_nat_add)
  next
    case 3
    then show ?thesis using three [OF v] u
      by (simp add: cbb_add_utf8_def utf8_def word_le_nat_alt first_byte next_byte unat_drop_bit del: of_nat_add)
  next
    case 4
    then show ?thesis using four [OF v] u lim
      by (simp add: cbb_add_utf8_def utf8_def word_le_nat_alt first_byte next_byte unat_drop_bit del: of_nat_add)
  qed
qed

end

section \<open>Properties\<close>

text \<open>C28: UTF-8 is read exactly: cbs_get_utf8 reads the code point \<open>v\<close> from the front of an input when, and only when,
  \<open>v\<close> is a valid code point and the input starts with the bytes of its one encoding in one to four bytes, of
  cbb_get_utf8_len many; over-long forms, stray and missing continuation bytes, surrogates and everything
  above U+10FFFF are refused.\<close>

theorem utf8_exact:
  "(cbs_get_utf8 cbs = (Some v, rest) \<longleftrightarrow> is_valid_code_point v \<and> cbs = utf8 (unat v) @ rest)
   \<and> cbb_get_utf8_len v = length (utf8 (unat v))"
  by (simp add: get_utf8_iff utf8_length)

text \<open>C29: UTF-8 round trips through a builder: whatever parts are open, cbb_add_utf8 of a valid code point closes them and
  appends the bytes that cbs_get_utf8 reads as this code point, and fails only when a part is too long or the
  buffer cannot grow; an invalid code point is refused and nothing changes.\<close>

theorem utf8_roundtrip:
  assumes "view (buf_realloc heap) n s c out fs"
  shows "if is_valid_code_point u then
      outcome failed (cbb_add_utf8 (buf_realloc heap) c u s)
        (\<lambda>s'. \<exists>t b. closed fs = Some t \<and> buffer s' = Some b \<and> take (length (out @ t)) (content b) = out @ t
          \<and> cbs_get_utf8 (drop (length (out @ t)) (content b)) = (Some u, []))
        (\<exists>t. closed fs = Some t \<and> length (out @ t) + cbb_get_utf8_len u \<le> n)
    else cbb_add_utf8 (buf_realloc heap) c u s = Some (False, s)"
proof (cases "is_valid_code_point u")
  case True
  have "appended (buf_realloc heap) n [] s c out fs (utf8 (unat u)) True (cbb_add_utf8 (buf_realloc heap) c u s)"
    by (rule grow.add_utf8_appended [OF assms True])
  then have "outcome failed (cbb_add_utf8 (buf_realloc heap) c u s)
        (\<lambda>s'. \<exists>t b. closed fs = Some t \<and> buffer s' = Some b \<and> take (length (out @ t)) (content b) = out @ t
          \<and> cbs_get_utf8 (drop (length (out @ t)) (content b)) = (Some u, []))
        (\<exists>t. closed fs = Some t \<and> length (out @ t) + cbb_get_utf8_len u \<le> n)"
    unfolding appended_def
    by (rule outcome_weaken) (auto simp: view_def get_utf8_iff True utf8_length)
  with True show ?thesis by simp
next
  case False
  then show ?thesis by (simp add: cbb_add_utf8_def ret_false_def)
qed

theorem utf8_roundtrip_witness:
  "\<exists>s'. cbb_add_utf8 (buf_realloc (\<lambda>_. None)) 0 0x20AC (sample [5]) = Some (True, s')"
proof -
  have v: "is_valid_code_point 0x20AC" by code_simp
  have c: "closed [(1, Fixed 1, [5])] = Some [1, 5]" by code_simp
  have "cbb_get_utf8_len 0x20AC = 3" by code_simp
  moreover have "view (buf_realloc (\<lambda>_. None)) 8 (sample [5]) 0 [9] [(1, Fixed 1, [5])]" by (rule sample_view) simp
  from utf8_roundtrip [OF this, of "0x20AC"] v have "outcome failed (cbb_add_utf8 (buf_realloc (\<lambda>_. None)) 0 0x20AC (sample [5]))
      (\<lambda>_. True) (\<exists>t. closed [(1, Fixed 1, [5])] = Some t \<and> length ([9] @ t) + cbb_get_utf8_len 0x20AC \<le> 8)"
    by (auto elim: outcome_weaken)
  ultimately show ?thesis using outcome_no_error c by fastforce
qed

end
