(* ===== verification/Ber.thy ===== *)
theory Ber
  imports Cbb_Set_Of
begin

text \<open>
  The converter from BER to DER (\<^verbatim>\<open>crypto/bytestring/ber.c\<close>). The first pass looks for an element of
  indefinite length or a constructed string; the second one parses the input again and
  writes it with a builder. The functions take the \<^verbatim>\<open>CBS\<close> they read from and give back what they leave of it.
  The local variable \<^verbatim>\<open>out_contents_storage\<close> of the call at some depth is the object \<open>Suc depth\<close>;
  the builder's root is the object 0. \<open>None\<close> is a run that does not return or a failed assertion.
\<close>

section \<open>Looking for BER\<close>

abbreviation (input) "kMaxDepth \<equiv> 2048 :: nat"

definition is_string_type :: "u32 \<Rightarrow> bool" where
  "is_string_type tag \<longleftrightarrow>
     tag AND NOT CBS_ASN1_CONSTRUCTED \<in>
       {0x3, 0x4, 0xc, 0x12, 0x13, 0x14, 0x15, 0x16, 0x19, 0x1a, 0x1b, 0x1c, 0x1e}"

text \<open>The condition both passes use: the element is a header of indefinite length.\<close>

definition is_indefinite :: "nat \<Rightarrow> cbs \<Rightarrow> bool" where
  "is_indefinite header_len contents \<longleftrightarrow>
     CBS_len contents = header_len \<and> 0 < header_len \<and> CBS_data contents ! (header_len - 1) = 0x80"

section \<open>Elements\<close>

lemma ber_element_cases:
  assumes "parse_asn1_tag cbs = (Some tag, b # h)"
  shows "cbs_get_any_asn1_element True cbs =
    (if tag AND 0x20000000 \<noteq> 0 \<and> b = 0x80 then (Some (der_tag tag @ [0x80], tag, length (der_tag tag) + 1), h)
     else cbs_get_any_asn1_element False cbs)"
proof -
  have cbs: "cbs = der_tag tag @ b # h" using assms by (simp add: parse_tag_iff)
  have hl: "CBS_len cbs - CBS_len h = length (der_tag tag) + 1" unfolding cbs by (simp add: CBS_len_def)
  have tk: "take (length (der_tag tag) + 1) cbs = der_tag tag @ [b]" "drop (length (der_tag tag) + 1) cbs = h"
      "\<not> length cbs < length (der_tag tag) + 1"
    unfolding cbs by simp_all
  have b80: "b = 0x80 \<longleftrightarrow> b AND 0x80 \<noteq> 0 \<and> unat (b AND 0x7f) = 0"
  proof -
    have "unat b < 256" using unat_bound [of b] by simp
    then have "(unat b = 128) = (\<not> unat b < 128 \<and> unat b mod 128 = 0)" by presburger
    moreover have "(b = 0x80) = (unat b = 128)" by (simp add: word_unat_eq_iff)
    ultimately show ?thesis by (simp only: msb_byte mask7_mod)
  qed
  show ?thesis
  proof (cases "b AND 0x80 \<noteq> 0 \<and> unat (b AND 0x7f) = 0")
    case True
    then have "b = 0x80" using b80 by simp
    moreover have "cbs_get_any_asn1_element False cbs = (None, cbs)"
      using True by (simp add: cbs_get_any_asn1_element_def assms Let_def)
    moreover have "cbs_get_any_asn1_element True cbs = (if tag AND 0x20000000 \<noteq> 0
        then (Some (der_tag tag @ [0x80], tag, length (der_tag tag) + 1), h) else (None, cbs))"
      using True tk unfolding cbs_get_any_asn1_element_def Let_def assms prod.case option.case CBS_get_u8_simps hl
      by (simp add: CBS_get_bytes_def cbs_get_def \<open>b = 0x80\<close>)
    ultimately show ?thesis by simp
  next
    case False
    then have n: "\<not> (tag AND 0x20000000 \<noteq> 0 \<and> b = 0x80)" using b80 by blast
    consider "b AND 0x80 = 0" | "unat (b AND 0x7f) \<noteq> 0" using False by argo
    then show ?thesis unfolding if_not_P [OF n] cbs_get_any_asn1_element_def Let_def assms prod.case option.case CBS_get_u8_simps
      by cases (simp_all only: simp_thms if_True if_False)
  qed
qed

lemma ber_element_iff:
  "cbs_get_any_asn1_element True cbs = (Some (out, tag, hl), rest) \<longleftrightarrow>
     cbs_get_any_asn1_element False cbs = (Some (out, tag, hl), rest)
     \<or> tag AND 0x20000000 \<noteq> 0 \<and> out = der_tag tag @ [0x80] \<and> hl = length out \<and> cbs = out @ rest"
proof -
  obtain r header where p: "parse_asn1_tag cbs = (r, header)" by fastforce
  consider "r = None" | t where "r = Some t" "header = []" | t b h where "r = Some t" "header = b # h"
    by (cases r; cases header) auto
  then show ?thesis
  proof cases
    case 1
    then have "cbs \<noteq> der_tag tag @ h" for h using p parse_tag_iff [of cbs tag h] by auto
    with 1 p show ?thesis by (auto simp: cbs_get_any_asn1_element_def)
  next
    case 2
    then have "cbs \<noteq> der_tag tag @ 0x80 # h" for h using p parse_tag_iff [of cbs tag "0x80 # h"] by auto
    with 2 p show ?thesis by (auto simp: cbs_get_any_asn1_element_def)
  next
    case 3
    then have e: "cbs = der_tag tag' @ b' # h' \<longleftrightarrow> tag' = t \<and> b' = b \<and> h' = h" for tag' b' h'
      using p parse_tag_iff [of cbs tag' "b' # h'"] by auto
    have f: "cbs_get_any_asn1_element False cbs \<noteq> (Some x, rest)" if "b = 0x80" for x
      using that 3 p by (simp add: cbs_get_any_asn1_element_def Let_def)
    note c = ber_element_cases [OF p [unfolded 3]]
    have i: "cbs = (der_tag tag @ [0x80]) @ rest \<longleftrightarrow> tag = t \<and> b = 0x80 \<and> rest = h"
      using e [of tag "0x80" rest] by auto
    show ?thesis
    proof (cases "t AND 0x20000000 \<noteq> 0 \<and> b = 0x80")
      case True
      then have t: "cbs_get_any_asn1_element True cbs = (Some (der_tag t @ [0x80], t, length (der_tag t) + 1), h)"
        unfolding c by (simp only: simp_thms if_True)
      have n: "cbs_get_any_asn1_element False cbs \<noteq> (Some (out, tag, hl), rest)" using f True by blast
      have r: "tag AND 0x20000000 \<noteq> 0 \<and> out = der_tag tag @ [0x80] \<and> hl = length out \<and> cbs = out @ rest
          \<longleftrightarrow> out = der_tag tag @ [0x80] \<and> hl = length out \<and> tag = t \<and> rest = h"
        using i True by metis
      show ?thesis unfolding t r using n by auto
    next
      case False
      then have "cbs_get_any_asn1_element True cbs = cbs_get_any_asn1_element False cbs"
        unfolding c by (simp only: if_False)
      with False i show ?thesis by metis
    qed
  qed
qed

lemma ber_element_shorter:
  assumes "cbs_get_any_asn1_element True cbs = (Some (out, tag, hl), rest)"
  shows "cbs = out @ rest" and "0 < hl" and "hl \<le> length out"
proof -
  have "0 < length (der_tag tag)" by (rule length_der_tag)
  with assms show "cbs = out @ rest" "0 < hl" "hl \<le> length out"
    unfolding ber_element_iff any_element_iff by (auto simp: der_def der_header_def)
qed

section \<open>The first pass\<close>

lemma element_skip_shorter:
  assumes "(Some (out, tag, hl), rest) = CBS_get_any_ber_asn1_element cbs"
  shows "length rest < length cbs" and "(Some u, contents) = CBS_skip out hl \<Longrightarrow> length contents < length cbs"
proof -
  have e: "cbs_get_any_asn1_element True cbs = (Some (out, tag, hl), rest)"
    using assms by (simp add: CBS_get_any_ber_asn1_element_def)
  note s = ber_element_shorter [OF e]
  have "0 < length out" using s(2,3) by linarith
  then show "length rest < length cbs" unfolding s(1) by simp
  assume "(Some u, contents) = CBS_skip out hl"
  then have "contents = drop hl out" by (auto simp: CBS_skip_def cbs_get_def split: if_splits)
  then have "length contents = length out - hl" by simp
  moreover have "length out \<le> length cbs" using s(1) by simp
  ultimately show "length contents < length cbs" using s(2,3) by linarith
qed

text \<open>
  \<open>None\<close> is the return of 0; otherwise the result is \<^verbatim>\<open>*ber_found\<close>, which the loop carries along. The
  recursive call sets it to 0 and starts the loop on the contents.
\<close>

function find_ber_loop :: "cbs \<Rightarrow> bool \<Rightarrow> nat \<Rightarrow> bool option" where
  "find_ber_loop cbs ber_found depth =
     (if CBS_len cbs = 0 then Some ber_found
      else case CBS_get_any_ber_asn1_element cbs of
          (None, _) \<Rightarrow> None
        | (Some (contents, tag, header_len), cbs) \<Rightarrow>
            if is_indefinite header_len contents then Some True
            else if tag AND CBS_ASN1_CONSTRUCTED \<noteq> 0 then
              if is_string_type tag then Some True
              else (case CBS_skip contents header_len of
                  (None, _) \<Rightarrow> None
                | (Some _, contents) \<Rightarrow>
                    (case (if kMaxDepth < depth + 1 then None else find_ber_loop contents False (depth + 1)) of
                       None \<Rightarrow> None
                     | Some ber_found \<Rightarrow> find_ber_loop cbs ber_found depth))
            else find_ber_loop cbs ber_found depth)"
  by auto
termination
  by (relation "measure (\<lambda>(cbs, ber_found, depth). length cbs)") (auto dest: element_skip_shorter)

declare find_ber_loop.simps [simp del]

definition cbs_find_ber :: "cbs \<Rightarrow> nat \<Rightarrow> bool option" where
  "cbs_find_ber orig_in depth = (if kMaxDepth < depth then None else find_ber_loop orig_in False depth)"

section \<open>The conversion\<close>

text \<open>The end of contents: the two bytes 0 as an element with a header of two bytes.\<close>

definition is_eoc :: "nat \<Rightarrow> cbs \<Rightarrow> bool" where
  "is_eoc header_len contents \<longleftrightarrow>
     header_len = 2 \<and> CBS_len contents = 2 \<and> OPENSSL_memcmp (CBS_data contents) [0, 0] 2 = 0"

definition opens_string :: "u32 \<Rightarrow> bool" where
  "opens_string tag \<longleftrightarrow> tag AND CBS_ASN1_CONSTRUCTED \<noteq> 0 \<and> is_string_type tag"

text \<open>\<^verbatim>\<open>child_string_tag\<close>.\<close>

definition child_string_tag :: "u32 \<Rightarrow> u32 \<Rightarrow> u32" where
  "child_string_tag string_tag tag =
     (if string_tag = 0 \<and> opens_string tag then tag AND NOT CBS_ASN1_CONSTRUCTED else string_tag)"

text \<open>What happens before the contents are written: a check in a string, a new element elsewhere.\<close>

definition open_contents :: "reallocate \<Rightarrow> nat \<Rightarrow> nat \<Rightarrow> u32 \<Rightarrow> u32 \<Rightarrow> builder \<Rightarrow> builder cres" where
  "open_contents ra out out_contents_storage string_tag tag s =
     (if string_tag \<noteq> 0 then
        if tag AND NOT CBS_ASN1_CONSTRUCTED \<noteq> string_tag then ret_false s else ret_true s
      else let out_tag = (if opens_string tag then tag AND NOT CBS_ASN1_CONSTRUCTED else tag)
        in CBB_add_asn1 ra out out_contents_storage out_tag s)"

text \<open>
  The \<^verbatim>\<open>while\<close> loop is the call itself with the rest of the input: the assertion and the
  check of the depth in front of the loop have passed for the same arguments.
\<close>

partial_function (option) cbs_convert_ber ::
    "reallocate \<Rightarrow> cbs \<Rightarrow> nat \<Rightarrow> u32 \<Rightarrow> bool \<Rightarrow> nat \<Rightarrow> builder \<Rightarrow> (cbs \<times> builder) cres" where
  "cbs_convert_ber ra cbs out string_tag looking_for_eoc depth s =
     (if string_tag AND CBS_ASN1_CONSTRUCTED \<noteq> 0 then None
      else if kMaxDepth < depth then ret_false (cbs, s)
      else if CBS_len cbs = 0 then Some (\<not> looking_for_eoc, (cbs, s))
      else case CBS_get_any_ber_asn1_element cbs of
          (None, cbs) \<Rightarrow> ret_false (cbs, s)
        | (Some (contents, tag, header_len), cbs) \<Rightarrow>
            if is_eoc header_len contents then Some (looking_for_eoc, (cbs, s))
            else let out_contents = (if string_tag \<noteq> 0 then out else Suc depth) in
              Option.bind (open_contents ra out (Suc depth) string_tag tag s) (\<lambda>(ok, s).
                if \<not> ok then ret_false (cbs, s)
                else Option.bind
                  (if is_indefinite header_len contents then
                     cbs_convert_ber ra cbs out_contents (child_string_tag string_tag tag) True (depth + 1) s
                   else (case CBS_skip contents header_len of
                       (None, _) \<Rightarrow> ret_false (cbs, s)
                     | (Some _, contents) \<Rightarrow>
                         if tag AND CBS_ASN1_CONSTRUCTED \<noteq> 0 then
                           Option.bind (cbs_convert_ber ra contents out_contents (child_string_tag string_tag tag)
                               False (depth + 1) s) (\<lambda>(ok, (_, s)). Some (ok, (cbs, s)))
                         else Option.bind (CBB_add_bytes ra out_contents (CBS_data contents) s)
                           (\<lambda>(ok, s). Some (ok, (cbs, s)))))
                  (\<lambda>(ok, (cbs, s)).
                    if \<not> ok then ret_false (cbs, s)
                    else Option.bind (CBB_flush ra out s) (\<lambda>(ok, s).
                      if \<not> ok then ret_false (cbs, s)
                      else cbs_convert_ber ra cbs out string_tag looking_for_eoc depth s))))"

text \<open>
  The result is \<^verbatim>\<open>*out\<close> and \<^verbatim>\<open>*out_storage\<close>, \<open>None\<close> where the function returns 0, and what is
  left of \<^verbatim>\<open>in\<close>. The builder is a local variable.
\<close>

definition CBS_asn1_ber_to_der :: "heap \<Rightarrow> cbs \<Rightarrow> ((cbs \<times> u8 list option) option \<times> cbs) option" where
  "CBS_asn1_ber_to_der heap cbs =
     (case cbs_find_ber cbs 0 of
        None \<Rightarrow> Some (None, cbs)
      | Some conversion_needed \<Rightarrow>
          if \<not> conversion_needed then
            (case CBS_get_any_asn1_element cbs of
               (None, cbs) \<Rightarrow> Some (None, cbs)
             | (Some (out, _, _), cbs) \<Rightarrow> Some (Some (out, None), cbs))
          else let ra = buf_realloc heap; s = \<lparr>buffer = None, cbbs = \<lambda>_. zero_cbb\<rparr> in
            (case CBB_init heap 0 (word_of_nat (CBS_len cbs)) s of
               None \<Rightarrow> None
             | Some (False, s) \<Rightarrow> map_option (\<lambda>_. (None, cbs)) (CBB_cleanup 0 s)
             | Some (True, s) \<Rightarrow>
                 (case cbs_convert_ber ra cbs 0 0 False 0 s of
                    None \<Rightarrow> None
                  | Some (False, (cbs, s)) \<Rightarrow> map_option (\<lambda>_. (None, cbs)) (CBB_cleanup 0 s)
                  | Some (True, (cbs, s)) \<Rightarrow>
                      (case CBB_finish ra 0 False False s of
                         None \<Rightarrow> None
                       | Some (None, s) \<Rightarrow> map_option (\<lambda>_. (None, cbs)) (CBB_cleanup 0 s)
                       | Some (Some (out_storage, len), s) \<Rightarrow>
                           Some (Some (CBS_init out_storage (unat len), Some out_storage), cbs)))))"

section \<open>Implicitly tagged strings\<close>

lemma get_asn1_shorter: "(Some chunk, rest) = CBS_get_asn1 cbs tag \<Longrightarrow> length rest < length cbs"
  using any_element_shorter [OF sym, of cbs]
  by (fastforce simp: CBS_get_asn1_def cbs_get_asn1_def split: prod.splits option.splits if_splits)

function add_chunks :: "reallocate \<Rightarrow> cbs \<Rightarrow> nat \<Rightarrow> u32 \<Rightarrow> builder \<Rightarrow> builder cres" where
  "add_chunks ra chunks result inner_tag s =
     (if CBS_len chunks = 0 then ret_true s
      else case CBS_get_asn1 chunks inner_tag of
          (None, _) \<Rightarrow> ret_false s
        | (Some chunk, chunks) \<Rightarrow>
            and_then (CBB_add_bytes ra result (CBS_data chunk) s) (add_chunks ra chunks result inner_tag))"
  by auto
termination by (relation "measure (\<lambda>(ra, chunks, result, tag, s). length chunks)") (auto dest: get_asn1_shorter)

declare add_chunks.simps [simp del]

definition CBS_get_asn1_implicit_string ::
    "heap \<Rightarrow> cbs \<Rightarrow> u32 \<Rightarrow> u32 \<Rightarrow> ((cbs \<times> u8 list option) option \<times> cbs) option" where
  "CBS_get_asn1_implicit_string heap cbs outer_tag inner_tag =
     (if outer_tag AND CBS_ASN1_CONSTRUCTED \<noteq> 0 \<or> inner_tag AND CBS_ASN1_CONSTRUCTED \<noteq> 0
        \<or> \<not> is_string_type inner_tag then None
      else if CBS_peek_asn1_tag cbs outer_tag then
        (case CBS_get_asn1 cbs outer_tag of (r, cbs) \<Rightarrow> Some (map_option (\<lambda>out. (out, None)) r, cbs))
      else let ra = buf_realloc heap; s = \<lparr>buffer = None, cbbs = \<lambda>_. zero_cbb\<rparr> in
        (case CBB_init heap 0 (word_of_nat (CBS_len cbs)) s of
           None \<Rightarrow> None
         | Some (False, s) \<Rightarrow> map_option (\<lambda>_. (None, cbs)) (CBB_cleanup 0 s)
         | Some (True, s) \<Rightarrow>
             (case CBS_get_asn1 cbs (outer_tag OR CBS_ASN1_CONSTRUCTED) of
                (None, cbs) \<Rightarrow> map_option (\<lambda>_. (None, cbs)) (CBB_cleanup 0 s)
              | (Some chunks, cbs) \<Rightarrow>
                  (case add_chunks ra chunks 0 inner_tag s of
                     None \<Rightarrow> None
                   | Some (False, s) \<Rightarrow> map_option (\<lambda>_. (None, cbs)) (CBB_cleanup 0 s)
                   | Some (True, s) \<Rightarrow>
                       (case CBB_finish ra 0 False False s of
                          None \<Rightarrow> None
                        | Some (None, s) \<Rightarrow> map_option (\<lambda>_. (None, cbs)) (CBB_cleanup 0 s)
                        | Some (Some (data, len), s) \<Rightarrow>
                            Some (Some (CBS_init data (unat len), Some data), cbs))))))"

end
