(* ===== verification/Ber_Correct.thy ===== *)
theory Ber_Correct
  imports Ber
begin

text \<open>
  BER encodings as trees, and what the converter does with them: the first pass computes \<open>scan\<close>,
  and the second one writes the encoding of the tree's normal form \<open>norm\<close>, which has neither elements of
  indefinite length nor constructed strings.
\<close>

section \<open>Trees\<close>

datatype ber =
    Prim u32 "u8 list"
  | Definite u32 "ber list"
  | Indefinite u32 "ber list"

fun ber_bytes :: "ber \<Rightarrow> u8 list" where
  "ber_bytes (Prim t p) = der t p"
| "ber_bytes (Definite t ts) = der t (concat (map ber_bytes ts))"
| "ber_bytes (Indefinite t ts) = der_tag t @ 0x80 # concat (map ber_bytes ts) @ [0, 0]"

definition forest :: "ber list \<Rightarrow> u8 list" where
  "forest ts = concat (map ber_bytes ts)"

text \<open>The bytes of a string, all fragments put together.\<close>

fun flat :: "ber \<Rightarrow> u8 list" where
  "flat (Prim t p) = p"
| "flat (Definite t ts) = concat (map flat ts)"
| "flat (Indefinite t ts) = concat (map flat ts)"

fun norm :: "ber \<Rightarrow> ber" where
  "norm (Prim t p) = Prim t p"
| "norm (Definite t ts) =
     (if is_string_type t then Prim (t AND NOT CBS_ASN1_CONSTRUCTED) (concat (map flat ts)) else Definite t (map norm ts))"
| "norm (Indefinite t ts) =
     (if is_string_type t then Prim (t AND NOT CBS_ASN1_CONSTRUCTED) (concat (map flat ts)) else Definite t (map norm ts))"

fun is_der :: "ber \<Rightarrow> bool" where
  "is_der (Prim t p) \<longleftrightarrow> True"
| "is_der (Definite t ts) \<longleftrightarrow> \<not> is_string_type t \<and> list_all is_der ts"
| "is_der (Indefinite t ts) \<longleftrightarrow> False"

fun height :: "ber \<Rightarrow> nat" where
  "height (Prim t p) = 0"
| "height (Definite t ts) = Suc (foldr max (map height ts) 0)"
| "height (Indefinite t ts) = Suc (foldr max (map height ts) 0)"

text \<open>
  A tree that an encoder may write: the constructed bit of a tag says what the element is, no element
  looks like the end of contents, the contents of a constructed string have its type, and lengths are
  below \<open>2 ^ 32\<close>. \<open>st\<close> is the type of the string around the tree, or 0.
\<close>

fun ber_ok :: "u32 \<Rightarrow> ber \<Rightarrow> bool" where
  "ber_ok st (Prim t p) \<longleftrightarrow> t AND CBS_ASN1_CONSTRUCTED = 0 \<and> (st = 0 \<or> t = st) \<and> (t \<noteq> 0 \<or> p \<noteq> []) \<and> length p < 2 ^ 32"
| "ber_ok st (Definite t ts) \<longleftrightarrow> t AND CBS_ASN1_CONSTRUCTED \<noteq> 0 \<and> (st = 0 \<or> t AND NOT CBS_ASN1_CONSTRUCTED = st)
     \<and> list_all (ber_ok (if st = 0 \<and> is_string_type t then t AND NOT CBS_ASN1_CONSTRUCTED else st)) ts
     \<and> length (concat (map ber_bytes ts)) < 2 ^ 32"
| "ber_ok st (Indefinite t ts) \<longleftrightarrow> t AND CBS_ASN1_CONSTRUCTED \<noteq> 0 \<and> (st = 0 \<or> t AND NOT CBS_ASN1_CONSTRUCTED = st)
     \<and> list_all (ber_ok (if st = 0 \<and> is_string_type t then t AND NOT CBS_ASN1_CONSTRUCTED else st)) ts"

text \<open>The sizes that \<^verbatim>\<open>CBB_flush\<close> can write.\<close>

fun writable :: "ber \<Rightarrow> bool" where
  "writable (Prim t p) \<longleftrightarrow> length p \<le> 0xfffffffe"
| "writable (Definite t ts) \<longleftrightarrow> list_all writable ts \<and> length (concat (map ber_bytes ts)) \<le> 0xfffffffe"
| "writable (Indefinite t ts) \<longleftrightarrow> False"

lemma forest_simps [simp]: "forest [] = []" "forest (t # ts) = ber_bytes t @ forest ts"
  by (simp_all add: forest_def)

lemma is_der_norm: "is_der (norm t)"
  by (induction t) (auto simp: list_all_iff)

lemma norm_der: "is_der t \<Longrightarrow> norm t = t"
  by (induction t) (auto simp: list_all_iff intro: map_idI)

lemma foldr_max_le: "foldr max (xs :: nat list) 0 \<le> n \<longleftrightarrow> (\<forall>x \<in> set xs. x \<le> n)"
  by (induction xs) auto

lemma height_norm: "height (norm t) \<le> height t"
proof (induction t)
  case (Definite t ts)
  then show ?case by (auto simp: foldr_max_le intro!: order_trans [OF Definite] ) (metis foldr_max_le image_eqI list.set_map order_refl)
next
  case (Indefinite t ts)
  then show ?case by (auto simp: foldr_max_le intro!: order_trans [OF Indefinite]) (metis foldr_max_le image_eqI list.set_map order_refl)
qed simp

lemma height_le:
  "height (Definite t ts) + d \<le> n \<longleftrightarrow> Suc d \<le> n \<and> (\<forall>t \<in> set ts. height t + Suc d \<le> n)"
  "height (Indefinite t ts) + d \<le> n \<longleftrightarrow> Suc d \<le> n \<and> (\<forall>t \<in> set ts. height t + Suc d \<le> n)"
proof -
  have "Suc (foldr max (map height ts) 0) + d \<le> n \<longleftrightarrow> Suc d \<le> n \<and> foldr max (map height ts) 0 \<le> n - Suc d" by linarith
  also have "\<dots> \<longleftrightarrow> Suc d \<le> n \<and> (\<forall>t \<in> set ts. height t + Suc d \<le> n)"
    unfolding foldr_max_le by (auto simp: le_diff_conv2)
  finally show "height (Definite t ts) + d \<le> n \<longleftrightarrow> Suc d \<le> n \<and> (\<forall>t \<in> set ts. height t + Suc d \<le> n)"
    "height (Indefinite t ts) + d \<le> n \<longleftrightarrow> Suc d \<le> n \<and> (\<forall>t \<in> set ts. height t + Suc d \<le> n)"
    by simp_all
qed

declare height.simps(2,3) [simp del] height_le [simp]

section \<open>Parsing a tree\<close>

lemma der_nonempty [simp]: "der t p \<noteq> []"
  using length_der_tag(1) [of t] by (auto simp: der_def der_header_def)

lemma der_0_Nil: "der 0 [] = [0, 0]"
  by code_simp

lemma ber_element_prim:
  "length p < 2 ^ 32 \<Longrightarrow> CBS_get_any_ber_asn1_element (der t p @ X) = (Some (der t p, t, length (der_header t (length p))), X)"
  unfolding CBS_get_any_ber_asn1_element_def ber_element_iff any_element_iff by blast

lemma ber_element_indefinite:
  "t AND 0x20000000 \<noteq> 0 \<Longrightarrow> CBS_get_any_ber_asn1_element (der_tag t @ 0x80 # X)
     = (Some (der_tag t @ [0x80], t, length (der_tag t) + 1), X)"
  unfolding CBS_get_any_ber_asn1_element_def ber_element_iff by simp

lemma bytes_memcmp_zero: "length xs = n \<Longrightarrow> length ys = n \<Longrightarrow> OPENSSL_memcmp xs ys n = 0 \<longleftrightarrow> xs = ys"
  by (simp add: memcmp_prefix_zero)

lemma is_eoc_iff: "is_eoc hl contents \<longleftrightarrow> hl = 2 \<and> contents = [0, 0]"
  using bytes_memcmp_zero [of contents 2 "[0, 0]"] by (auto simp: is_eoc_def CBS_len_def CBS_data_def)

lemma der_is_eoc:
  assumes "length p < 2 ^ 32" shows "der t p = [0, 0] \<longleftrightarrow> t = 0 \<and> p = []"
proof
  assume a: "der t p = [0, 0]"
  have "CBS_get_any_ber_asn1_element [0, 0] = (Some ([0, 0], t, length (der_header t (length p))), [])"
    using ber_element_prim [OF assms, of t "[]"] by (simp add: a)
  moreover have "CBS_get_any_ber_asn1_element [0, 0] = (Some ([0, 0], 0, length (der_header 0 0)), [])"
    using ber_element_prim [of "[]" 0 "[]"] by (simp add: der_0_Nil)
  ultimately have "t = 0" "length (der_header t (length p)) = length (der_header 0 0)" by auto
  moreover have "length (der_header 0 0) = 2" by code_simp
  moreover have "length (der t p) = 2" by (simp add: a)
  ultimately show "t = 0 \<and> p = []" by (simp add: der_def)
qed (simp add: der_0_Nil)

lemma der_not_indefinite: "\<not> is_indefinite (length (der_header t (length p))) (der t p)"
proof (cases "p = []")
  case True
  then have "der t p = der_tag t @ [0]" "length (der_header t (length p)) = length (der_tag t) + 1"
    by (simp_all add: der_def der_header_def der_length_def)
  then show ?thesis by (simp add: is_indefinite_def CBS_data_def)
qed (simp add: is_indefinite_def CBS_len_def der_def)

lemma header_indefinite [simp]: "is_indefinite (length (der_tag t) + 1) (der_tag t @ [0x80])"
  by (simp add: is_indefinite_def CBS_len_def CBS_data_def)

lemma skip_der_header [simp]: "CBS_skip (der t p) (length (der_header t (length p))) = (Some (), p)"
  by (simp add: der_def CBS_skip_def cbs_get_def)

section \<open>The first pass\<close>

text \<open>The flag after the loop over some elements, from its value before.\<close>

fun scan :: "bool \<Rightarrow> ber list \<Rightarrow> bool" where
  "scan ber_found [] = ber_found"
| "scan ber_found (Prim t p # ts) = scan ber_found ts"
| "scan ber_found (Indefinite t cs # ts) = True"
| "scan ber_found (Definite t cs # ts) = (if is_string_type t then True else scan (scan False cs) ts)"

lemma scan_der: "list_all is_der ts \<Longrightarrow> scan False ts = False"
  by (induction "False" ts rule: scan.induct) auto

lemma find_ber_loop_forest:
  "list_all (ber_ok 0) ts \<Longrightarrow> \<forall>t \<in> set ts. height t + depth \<le> kMaxDepth \<Longrightarrow>
    find_ber_loop (forest ts) ber_found depth = Some (scan ber_found ts)"
proof (induction ber_found ts arbitrary: depth rule: scan.induct)
  case (1 ber_found)
  then show ?case by (subst find_ber_loop.simps) (simp add: CBS_len_def)
next
  case (2 ber_found t p ts)
  then show ?case
    by (subst find_ber_loop.simps) (simp add: CBS_len_def ber_element_prim der_not_indefinite)
next
  case (3 ber_found t cs ts)
  then show ?case
    by (subst find_ber_loop.simps) (simp add: CBS_len_def ber_element_indefinite del: One_nat_def)
next
  case (4 ber_found t cs ts)
  show ?case
    using 4
    by (subst find_ber_loop.simps)
      (auto simp: CBS_len_def ber_element_prim der_not_indefinite cbs_find_ber_def simp flip: forest_def)
qed

end
