(* ===== verification/Ber_Convert.thy ===== *)
theory Ber_Convert
  imports Ber_Correct
begin

text \<open>
  The second pass. Which part of the input a call consumes depends on the input alone; what it
  writes is, in the terms of the abstract builder, the encoding of the normal forms.
\<close>

section \<open>One element\<close>

definition built :: "(cbs \<times> builder) cres \<Rightarrow> builder cres" where
  "built r = map_option (\<lambda>(ok, (_, s)). (ok, s)) r"

definition leaves :: "cbs \<Rightarrow> (cbs \<times> builder) cres \<Rightarrow> bool" where
  "leaves rest r \<longleftrightarrow> (\<forall>cbs s. r = Some (True, (cbs, s)) \<longrightarrow> cbs = rest)"

definition then_flush :: "reallocate \<Rightarrow> nat \<Rightarrow> (cbs \<times> builder) cres \<Rightarrow> (cbs \<Rightarrow> builder \<Rightarrow> (cbs \<times> builder) cres)
    \<Rightarrow> (cbs \<times> builder) cres" where
  "then_flush ra out r k = Option.bind r (\<lambda>(ok, (cbs, s)).
      if \<not> ok then ret_false (cbs, s)
      else Option.bind (CBB_flush ra out s) (\<lambda>(ok, s). if \<not> ok then ret_false (cbs, s) else k cbs s))"

lemma built_simps [simp]:
  "built (Some (b, (cbs, s))) = Some (b, s)" "built None = None"
  by (simp_all add: built_def)

lemma built_bind [simp]:
  "built (Option.bind r (\<lambda>(ok, s). Some (ok, (X, s)))) = r"
  "built (Option.bind q (\<lambda>(ok, (_, s)). Some (ok, (X, s)))) = built q"
  by (cases r; cases q; auto)+

lemma built_then_flush:
  "leaves X r \<Longrightarrow> built (then_flush ra out r k) =
     and_then (and_then (built r) (CBB_flush ra out)) (\<lambda>s. built (k X s))"
  by (cases r) (auto simp: then_flush_def leaves_def ret_false_def and_then_def split: option.splits Option.bind_splits)

lemma leaves_then_flush:
  "leaves X r \<Longrightarrow> (\<And>s. leaves rest (k X s)) \<Longrightarrow> leaves rest (then_flush ra out r k)"
  by (cases r) (auto simp: then_flush_def leaves_def ret_false_def split: option.splits Option.bind_splits if_splits, blast)

text \<open>The contents of a tree, between the header and the flush, with \<open>X\<close> behind the element.\<close>

fun write_contents :: "reallocate \<Rightarrow> cbs \<Rightarrow> nat \<Rightarrow> u32 \<Rightarrow> nat \<Rightarrow> ber \<Rightarrow> builder \<Rightarrow> (cbs \<times> builder) cres" where
  "write_contents ra X c st depth (Prim t p) s = Option.bind (CBB_add_bytes ra c p s) (\<lambda>(ok, s). Some (ok, (X, s)))"
| "write_contents ra X c st depth (Definite t ts) s =
     Option.bind (cbs_convert_ber ra (forest ts) c (child_string_tag st t) False (depth + 1) s) (\<lambda>(ok, (_, s)). Some (ok, (X, s)))"
| "write_contents ra X c st depth (Indefinite t ts) s =
     cbs_convert_ber ra (forest ts @ 0 # 0 # X) c (child_string_tag st t) True (depth + 1) s"

fun tag_of :: "ber \<Rightarrow> u32" where
  "tag_of (Prim t p) = t"
| "tag_of (Definite t ts) = t"
| "tag_of (Indefinite t ts) = t"

lemma convert_element:
  assumes t: "ber_ok st t" and d: "depth \<le> kMaxDepth" and st: "st AND 0x20000000 = 0"
    and that: "X' = (case t of Indefinite t ts \<Rightarrow> forest ts @ 0 # 0 # X | _ \<Rightarrow> X)"
  shows "cbs_convert_ber ra (ber_bytes t @ X) c st eoc depth s =
    Option.bind (open_contents ra c (Suc depth) st (tag_of t) s) (\<lambda>(ok, s).
      if \<not> ok then ret_false (X', s)
      else then_flush ra c (write_contents ra X (if st \<noteq> 0 then c else Suc depth) st depth t s)
        (\<lambda>cbs s. cbs_convert_ber ra cbs c st eoc depth s))"
proof (cases t)
  case (Prim tag p)
  with t have "\<not> is_eoc (length (der_header tag (length p))) (der tag p)"
    by (auto simp: is_eoc_iff der_is_eoc)
  then show ?thesis using t d st that unfolding Prim
    by (subst cbs_convert_ber.simps)
      (simp add: CBS_len_def ber_element_prim der_not_indefinite then_flush_def Let_def CBS_data_def cong: if_cong)
next
  case (Definite tag ts)
  with t have "\<not> is_eoc (length (der_header tag (length (forest ts)))) (der tag (forest ts))"
    by (auto simp: is_eoc_iff der_is_eoc forest_def)
  then show ?thesis using t d st that unfolding Definite
    by (subst cbs_convert_ber.simps)
      (simp add: CBS_len_def ber_element_prim der_not_indefinite then_flush_def Let_def CBS_data_def flip: forest_def cong: if_cong)
next
  case (Indefinite tag ts)
  have "\<not> is_eoc (length (der_tag tag) + 1) (der_tag tag @ [0x80])" by (auto simp: is_eoc_iff append_eq_Cons_conv)
  then show ?thesis using t d st that unfolding Indefinite
    by (subst cbs_convert_ber.simps)
      (simp add: CBS_len_def ber_element_indefinite then_flush_def Let_def flip: forest_def del: One_nat_def cong: if_cong)
qed

section \<open>What is consumed\<close>

definition tail :: "bool \<Rightarrow> cbs \<Rightarrow> cbs" where
  "tail eoc rest = (if eoc then 0 # 0 # rest else [])"

definition behind :: "bool \<Rightarrow> cbs \<Rightarrow> cbs" where
  "behind eoc rest = (if eoc then rest else [])"

lemma tail_simps [simp]: "tail True rest = 0 # 0 # rest" "tail False rest = []"
    "behind True rest = rest" "behind False rest = []"
  by (simp_all add: tail_def behind_def)

lemma convert_tail:
  assumes "depth \<le> kMaxDepth" and "st AND 0x20000000 = 0"
  shows "cbs_convert_ber ra (tail eoc rest) c st eoc depth s = Some (True, (behind eoc rest, s))"
proof (cases eoc)
  case True
  have "CBS_get_any_ber_asn1_element (0 # 0 # rest) = (Some ([0, 0], 0, 2), rest)"
  proof -
    have "length (der_header 0 0) = 2" by code_simp
    then show ?thesis using ber_element_prim [of "[]" 0 rest] by (simp add: der_0_Nil)
  qed
  with True assms show ?thesis
    by (subst cbs_convert_ber.simps) (simp add: CBS_len_def is_eoc_iff)
next
  case False
  with assms show ?thesis by (subst cbs_convert_ber.simps) (simp add: CBS_len_def)
qed

text \<open>The type of the string around the contents is a tag without the constructed bit.\<close>

lemma clear_constructed [simp]: "(t AND NOT 0x20000000) AND 0x20000000 = (0 :: u32)"
  by (simp only: and.assoc bit.conj_cancel_left and_zero_eq)

lemma clear_constructed_numeral [simp]: "(t AND -0x20000001) AND 0x20000000 = (0 :: u32)"
  using clear_constructed [of t] by simp

lemma primitive_tag: "t AND 0x20000000 = 0 \<Longrightarrow> t AND NOT 0x20000000 = (t :: u32)"
proof -
  have "(t AND 0x20000000) OR (t AND NOT 0x20000000) = t"
    by (simp only: bit.conj_disj_distrib [symmetric] bit.disj_cancel_right bit.conj_one_right)
  moreover assume "t AND 0x20000000 = 0"
  ultimately show ?thesis by (simp only: or.left_neutral)
qed

lemma child_tag_primitive: "st AND 0x20000000 = 0 \<Longrightarrow> child_string_tag st t AND 0x20000000 = 0"
  by (simp add: child_string_tag_def)

lemma child_tag_ok: "t AND 0x20000000 \<noteq> 0 \<Longrightarrow>
    child_string_tag st t = (if st = 0 \<and> is_string_type t then t AND NOT CBS_ASN1_CONSTRUCTED else st)"
  by (simp add: child_string_tag_def opens_string_def)

lemma leaves_bind: "leaves X (Option.bind r (\<lambda>(ok, x). Some (ok, (X, f x))))"
  by (cases r) (auto simp: leaves_def)

lemma convert_leaves:
  assumes "list_all (ber_ok st) ts" and "\<forall>t \<in> set ts. height t + depth \<le> kMaxDepth"
    and "depth \<le> kMaxDepth" and "st AND 0x20000000 = 0"
  shows "leaves (behind eoc rest) (cbs_convert_ber ra (forest ts @ tail eoc rest) c st eoc depth s)"
  using assms
proof (induction ts arbitrary: st depth eoc rest c s rule: measure_induct_rule [where f = "size_list size"])
  case (less ts)
  show ?case
  proof (cases ts)
    case Nil
    then show ?thesis using convert_tail [OF less.prems(3,4)] by (simp add: leaves_def)
  next
    case (Cons t ts')
    let ?X = "forest ts' @ tail eoc rest"
    have "leaves ?X (write_contents ra ?X c' st depth t s)" for c' s
    proof (cases t)
      case (Indefinite tag cs)
      then have "leaves (behind True ?X) (cbs_convert_ber ra (forest cs @ tail True ?X) c' (child_string_tag st tag) True (depth + 1) s)"
        using less.prems Cons by (intro less.IH) (auto simp: child_tag_primitive child_tag_ok)
      then show ?thesis using Indefinite by simp
    qed (use leaves_bind [where f = id] leaves_bind [where f = snd] in \<open>auto simp: id_def case_prod_unfold\<close>)
    moreover have "leaves (behind eoc rest) (cbs_convert_ber ra ?X c st eoc depth s)" for s
      using less.prems Cons by (intro less.IH) auto
    ultimately have "leaves (behind eoc rest) (then_flush ra c (write_contents ra ?X c' st depth t s)
        (\<lambda>cbs s. cbs_convert_ber ra cbs c st eoc depth s))" for c' s
      by (rule leaves_then_flush)
    then show ?thesis
      using less.prems Cons convert_element [of st t depth _ ?X ra c eoc s, OF _ _ _ refl]
      by (auto simp: leaves_def ret_false_def split: Option.bind_splits if_splits)
  qed
qed

lemma contents_leaves:
  assumes "ber_ok st t" and "height t + depth \<le> kMaxDepth" and "st AND 0x20000000 = 0"
  shows "leaves X (write_contents ra X c st depth t s)"
proof (cases t)
  case (Indefinite tag cs)
  then show ?thesis
    using convert_leaves [where eoc = True and ts = cs and st = "child_string_tag st tag" and depth = "Suc depth" and rest = X] assms
    by (simp add: child_tag_primitive child_tag_ok)
qed (use leaves_bind [where f = id] leaves_bind [where f = snd] in \<open>auto simp: id_def case_prod_unfold\<close>)

section \<open>What is written\<close>

definition written :: "u32 \<Rightarrow> ber list \<Rightarrow> u8 list" where
  "written st ts = (if st = 0 then forest (map norm ts) else concat (map flat ts))"

definition fits :: "u32 \<Rightarrow> ber list \<Rightarrow> bool" where
  "fits st ts \<longleftrightarrow> (st = 0 \<longrightarrow> list_all writable (map norm ts))"

text \<open>The contents of one element and its tag in the output.\<close>

fun body :: "u32 \<Rightarrow> ber \<Rightarrow> u8 list" where
  "body st (Prim t p) = p"
| "body st (Definite t ts) = written (child_string_tag st t) ts"
| "body st (Indefinite t ts) = written (child_string_tag st t) ts"

fun body_fits :: "u32 \<Rightarrow> ber \<Rightarrow> bool" where
  "body_fits st (Prim t p) = True"
| "body_fits st (Definite t ts) = fits (child_string_tag st t) ts"
| "body_fits st (Indefinite t ts) = fits (child_string_tag st t) ts"

definition out_tag :: "ber \<Rightarrow> u32" where
  "out_tag t = (if opens_string (tag_of t) then tag_of t AND NOT CBS_ASN1_CONSTRUCTED else tag_of t)"

lemma string_tag_nonzero: "is_string_type t \<Longrightarrow> t AND NOT CBS_ASN1_CONSTRUCTED \<noteq> 0"
  by (auto simp: is_string_type_def)

lemma written_simps [simp]:
  "written st [] = []" "written 0 (t # ts) = der (out_tag t) (body 0 t) @ written 0 ts"
  "st \<noteq> 0 \<Longrightarrow> written st (t # ts) = body st t @ written st ts"
  if "ber_ok st t"
  using that string_tag_nonzero [of "tag_of t"]
  by (cases t; auto simp: written_def out_tag_def opens_string_def child_string_tag_def forest_def)+

lemma fits_simps [simp]:
  "fits 0 (t # ts) \<longleftrightarrow> body_fits 0 t \<and> length (body 0 t) \<le> 0xfffffffe \<and> fits 0 ts"
  "st \<noteq> 0 \<Longrightarrow> fits st ts" "st \<noteq> 0 \<Longrightarrow> body_fits st t"
  if "ber_ok st t"
  using that string_tag_nonzero [of "tag_of t"]
  by (cases t; auto simp: written_def fits_def opens_string_def child_string_tag_def forest_def)+

lemma nothing_written [simp]: "written st [] = []" "fits st []"
  by (simp_all add: written_def fits_def)

lemma and_then_assoc: "and_then (and_then r f) g = and_then r (\<lambda>s. and_then (f s) g)"
  by (auto simp: and_then_def split: option.splits)

lemma built_element:
  assumes "ber_ok st t" "depth \<le> kMaxDepth" "st AND 0x20000000 = 0"
    and "\<And>s. leaves X (write_contents ra X (if st \<noteq> 0 then c else Suc depth) st depth t s)"
  shows "built (cbs_convert_ber ra (ber_bytes t @ X) c st eoc depth s) =
    and_then (and_then (open_contents ra c (Suc depth) st (tag_of t) s) (\<lambda>s.
        and_then (built (write_contents ra X (if st \<noteq> 0 then c else Suc depth) st depth t s)) (CBB_flush ra c)))
      (\<lambda>s. built (cbs_convert_ber ra X c st eoc depth s))"
  unfolding convert_element [OF assms(1-3) refl]
  using built_then_flush [OF assms(4)]
  by (auto simp: and_then_def ret_false_def split: option.splits Option.bind_splits)

context reallocator
begin

lemma element_written:
  assumes v: "view ra n s c out []" and c: "c \<le> depth" "depth \<le> kMaxDepth" and t: "ber_ok st t"
    and f: "\<And>s1 c1 out1. view ra n s1 c1 out1 [] \<Longrightarrow> c1 \<le> Suc depth \<Longrightarrow>
      appended ra n [Suc (Suc depth)..<kMaxDepth + 2] s1 c1 out1 [] (body st t) (body_fits st t) (f c1 s1)"
  shows "appended ra n [Suc depth..<kMaxDepth + 2] s c out [] (written st [t]) (fits st [t])
    (and_then (open_contents ra c (Suc depth) st (tag_of t) s) (\<lambda>s.
        and_then (f (if st \<noteq> 0 then c else Suc depth) s) (CBB_flush ra c)))"
proof (cases "st = 0")
  case True
  have ex: "[Suc depth..<kMaxDepth + 2] = Suc depth # [Suc (Suc depth)..<kMaxDepth + 2]"
    using c(2) by (simp add: upt_conv_Cons)
  have o: "opened ra n [Suc (Suc depth)..<kMaxDepth + 2] s c out [] (der_tag (out_tag t)) (Suc depth) Asn1
      (open_contents ra c (Suc depth) 0 (tag_of t) s)"
    unfolding open_contents_def Let_def out_tag_def [symmetric]
    using add_asn1_opened [OF v, of "Suc depth"] c(1) by simp
  have "appended ra n (Suc depth # [Suc (Suc depth)..<kMaxDepth + 2]) s c out []
      (der_tag (out_tag t) @ der_length (length (body 0 t)) @ body 0 t)
      (body_fits 0 t \<and> prefix_bytes Asn1 (length (body 0 t)) \<noteq> None)
    (and_then (open_contents ra c (Suc depth) 0 (tag_of t) s) (\<lambda>s. and_then (f (Suc depth) s) (CBB_flush ra c)))"
    by (rule part_appended [OF o]) (use c f True in \<open>auto split: if_splits\<close>)
  from appended_weaken [OF this subset_refl, of "fits 0 [t]" "written 0 [t]"] show ?thesis
    unfolding ex using True t by (simp add: der_def der_header_def)
next
  case False
  have oc: "open_contents ra c (Suc depth) st (tag_of t) s = ret_true s"
  proof -
    have "tag_of t AND NOT CBS_ASN1_CONSTRUCTED = st" using t False primitive_tag [of st] by (cases t) auto
    with False show ?thesis by (simp only: open_contents_def simp_thms if_True if_False)
  qed
  have "appended ra n [Suc (Suc depth)..<kMaxDepth + 2] s c out [] (body st t @ []) (body_fits st t \<and> True)
      (and_then (f c s) (CBB_flush ra c))"
    using c(1) by (intro appended_and_then [OF f [OF v]] appended_flush) auto
  moreover have "set [Suc (Suc depth)..<kMaxDepth + 2] \<subseteq> set [Suc depth..<kMaxDepth + 2]" by auto
  moreover have "(body_fits st t \<and> True) = fits st [t]" "body st t @ [] = written st [t]" using False t by simp_all
  ultimately have "appended ra n [Suc depth..<kMaxDepth + 2] s c out [] (written st [t]) (fits st [t])
      (and_then (f c s) (CBB_flush ra c))"
    by (rule appended_weaken)
  then show ?thesis unfolding oc using False by (simp only: if_True simp_thms) (simp add: ret_true_def)
qed

lemma convert_appended:
  assumes "list_all (ber_ok st) ts" and "\<forall>t \<in> set ts. height t + depth \<le> kMaxDepth"
    and "depth \<le> kMaxDepth" and "st AND 0x20000000 = 0"
    and "view ra n s c out []" and "c \<le> depth"
  shows "appended ra n [Suc depth..<kMaxDepth + 2] s c out [] (written st ts) (fits st ts)
    (built (cbs_convert_ber ra (forest ts @ tail eoc rest) c st eoc depth s))"
  using assms
proof (induction ts arbitrary: st depth eoc rest c s out rule: measure_induct_rule [where f = "size_list size"])
  case (less ts)
  show ?case
  proof (cases ts)
    case Nil
    then show ?thesis using convert_tail [OF less.prems(3,4)] appended_Nil [OF less.prems(5)]
      by (simp add: ret_true_def written_def)
  next
    case (Cons t ts')
    let ?X = "forest ts' @ tail eoc rest"
    let ?f = "\<lambda>c' s. built (write_contents ra ?X c' st depth t s)"
    have t: "ber_ok st t" "height t + depth \<le> kMaxDepth" using less.prems Cons by auto
    have f: "appended ra n [Suc (Suc depth)..<kMaxDepth + 2] s1 c1 out1 [] (body st t) (body_fits st t) (?f c1 s1)"
      if v: "view ra n s1 c1 out1 []" and c1: "c1 \<le> Suc depth" for s1 c1 out1
    proof (cases t)
      case (Prim tag p)
      have "length p < 2 ^ 63" using t Prim by simp
      from add_bytes_appended [OF v this] Prim show ?thesis
        by simp
    next
      case (Definite tag cs)
      have "appended ra n [Suc (Suc depth)..<kMaxDepth + 2] s1 c1 out1 [] (body st t) (body_fits st t)
        (built (cbs_convert_ber ra (forest cs @ tail False []) c1 (child_string_tag st tag) False (Suc depth) s1))"
        unfolding Definite body.simps body_fits.simps using less.prems(4) Cons t c1 Definite
        by (intro less.IH [OF _ _ _ _ _ v]) (auto simp: child_tag_primitive child_tag_ok)
      then show ?thesis using Definite
        by simp
    next
      case (Indefinite tag cs)
      have "appended ra n [Suc (Suc depth)..<kMaxDepth + 2] s1 c1 out1 [] (body st t) (body_fits st t)
        (built (cbs_convert_ber ra (forest cs @ tail True ?X) c1 (child_string_tag st tag) True (Suc depth) s1))"
        unfolding Indefinite body.simps body_fits.simps using less.prems(4) Cons t c1 Indefinite
        by (intro less.IH [OF _ _ _ _ _ v]) (auto simp: child_tag_primitive child_tag_ok)
      then show ?thesis using Indefinite by simp
    qed
    have X: "appended ra n [Suc depth..<kMaxDepth + 2] s1 c out1 [] (written st ts') (fits st ts')
        (built (cbs_convert_ber ra ?X c st eoc depth s1))" if "view ra n s1 c out1 []" for s1 out1
      using less.prems Cons that by (intro less.IH) auto
    have "written st ts = written st [t] @ written st ts'" "fits st ts \<longleftrightarrow> fits st [t] \<and> fits st ts'"
      unfolding Cons using t(1) by (cases "st = 0"; simp)+
    moreover have "built (cbs_convert_ber ra (ber_bytes t @ ?X) c st eoc depth s) =
      and_then (and_then (open_contents ra c (Suc depth) st (tag_of t) s) (\<lambda>s.
          and_then (?f (if st \<noteq> 0 then c else Suc depth) s) (CBB_flush ra c)))
        (\<lambda>s. built (cbs_convert_ber ra ?X c st eoc depth s))"
      by (rule built_element [OF t(1) less.prems(3,4) contents_leaves [OF t less.prems(4)]])
    ultimately show ?thesis
      using appended_and_then [OF element_written [OF less.prems(5,6,3) t(1) f] X] unfolding Cons by simp
  qed
qed

end

end
