(* ===== verification/Ber_Total.thy ===== *)
theory Ber_Total
  imports Ber_Convert
begin

text \<open>
  The converter on arbitrary input: it always returns, stays in its buffers, and accepts nothing
  but encodings of trees. The root of the builder is never made a child, so that it can be
  cleaned up after every failure.
\<close>

section \<open>The root of the builder\<close>

definition same_root :: "builder \<Rightarrow> builder \<Rightarrow> bool" where
  "same_root s s' \<longleftrightarrow> is_child (cbbs s' 0) = is_child (cbbs s 0)"

definition rooted :: "('a \<Rightarrow> builder) \<Rightarrow> builder \<Rightarrow> 'a option \<Rightarrow> bool" where
  "rooted p s r \<longleftrightarrow> (\<forall>z. r = Some z \<longrightarrow> same_root s (p z))"

abbreviation keeps_root :: "builder \<Rightarrow> builder cres \<Rightarrow> bool" where
  "keeps_root \<equiv> rooted snd"

lemma same_root_refl [simp]: "same_root s s"
  by (simp add: same_root_def)

lemma same_root_trans: "same_root s s' \<Longrightarrow> same_root s' s'' \<Longrightarrow> same_root s s''"
  by (simp add: same_root_def)

lemma same_root_buffer [simp]: "same_root s (s'\<lparr>buffer := b\<rparr>) = same_root s s'"
  by (simp add: same_root_def)

lemma same_root_upd: "same_root s s' \<Longrightarrow> (\<And>c. is_child (f c) = is_child c) \<Longrightarrow> same_root s (upd i f s')"
  by (simp add: same_root_def upd_def)

lemma rooted_simps [simp]:
  "rooted p s None" "rooted p s (Some z) \<longleftrightarrow> same_root s (p z)"
  "rooted q s (ret_true x) \<longleftrightarrow> same_root s (q (True, x))" "rooted q s (ret_false x) \<longleftrightarrow> same_root s (q (False, x))"
  by (auto simp: rooted_def ret_true_def ret_false_def)

lemma rooted_from: "rooted p s' r \<Longrightarrow> same_root s s' \<Longrightarrow> rooted p s r"
  by (auto simp: rooted_def intro: same_root_trans)

lemma rootedD: "r = Some z \<Longrightarrow> rooted p s r \<Longrightarrow> same_root s (p z)"
  by (simp add: rooted_def)

lemma rooted_bind:
  assumes "rooted p s r" and "\<And>z. same_root s (p z) \<Longrightarrow> rooted q (p z) (f z)"
  shows "rooted q s (Option.bind r f)"
  using assms by (cases r) (auto intro: rooted_from)

lemma keeps_root_and_then:
  assumes "keeps_root s r" and "\<And>s'. same_root s s' \<Longrightarrow> keeps_root s' (f s')"
  shows "keeps_root s (and_then r f)"
proof (cases r)
  case (Some z)
  with assms rooted_from [OF assms(2)] show ?thesis by (cases z) (auto simp: and_then_def)
qed simp

lemma keeps_root_fail: "keeps_root s (fail_with_error s)"
  by (auto simp: fail_with_error_def split: option.split)

lemma keeps_root_with_base: "keeps_root s (with_base c f s)"
  by (auto simp: with_base_def rooted_def ret_false_def split: option.splits)

lemma keeps_root_length_bytes: "keeps_root s (flush_length_bytes c i len s)"
  by (auto simp: flush_length_bytes_def Let_def same_root_upd
      intro!: rooted_from [OF keeps_root_fail] split: option.split prod.split)

lemma flush_asn1_length_root:
  "flush_asn1_length ra i cs len s = Some (Some (len', s')) \<Longrightarrow> same_root s s'"
  by (auto simp: flush_asn1_length_def same_root_def upd_def split: option.splits prod.splits if_splits bool.splits)

lemma keeps_root_flush_child: "keeps_root s (flush_child ra c i cs s)"
  by (auto simp: flush_child_def Let_def split: option.split prod.split
      intro: rooted_from [OF keeps_root_length_bytes] keeps_root_fail keeps_root_length_bytes dest!: flush_asn1_length_root)

lemma flush_root: "CBB_flush ra c s = Some y \<Longrightarrow> same_root s (snd y)"
proof (erule CBB_flush.raw_induct [where P = "\<lambda>_ _ s y. same_root s (snd y)", rotated], goal_cases)
  case (1 flush ra c s y)
  have ih: "keeps_root s (flush ra ch s)" for ch s using 1(1) by (simp add: rooted_def)
  show ?case
    by (rule rootedD [OF 1(2), of snd])
      (auto simp: Let_def split: option.split intro!: keeps_root_fail keeps_root_flush_child rooted_bind [OF ih])
qed

lemma keeps_root_flush: "keeps_root s (CBB_flush ra c s)"
  using flush_root by (simp add: rooted_def)

lemma keeps_root_call: "keeps_root s (and_then (CBB_flush ra c s) (with_base c f))"
  by (rule keeps_root_and_then [OF keeps_root_flush keeps_root_with_base])

lemma keeps_root_open_child: "i \<noteq> 0 \<Longrightarrow> keeps_root s (ret_true (open_child c i off w a s))"
  by (simp add: same_root_def open_child_def Let_def upd_def)

lemma keeps_root_base128: "keeps_root s (add_base128_loop ra c v k s)"
proof (induction k arbitrary: s)
  case (Suc k)
  then show ?case unfolding add_base128_loop.simps Let_def CBB_add_u8_def add_u_def
    by (intro keeps_root_and_then [OF keeps_root_call])
qed auto

lemma keeps_root_add_asn1: "i \<noteq> 0 \<Longrightarrow> keeps_root s (CBB_add_asn1 ra c i tag s)"
  unfolding CBB_add_asn1_def Let_def CBB_add_u8_def add_u_def add_base128_integer_def
  by (intro keeps_root_and_then keeps_root_flush keeps_root_call keeps_root_open_child)
    (auto intro: keeps_root_and_then keeps_root_call keeps_root_base128)

lemma keeps_root_open: "keeps_root s (open_contents ra c (Suc d) st tag s)"
  using keeps_root_add_asn1 [of "Suc d" s ra c] by (simp add: open_contents_def Let_def)

section \<open>Runs\<close>

text \<open>
  A run returns; the root stays the root; and when it succeeds, \<open>c\<close> has grown, only objects in
  \<open>ex\<close> are touched, and \<open>P\<close> holds of the input that is left.
\<close>

definition runs :: "reallocate \<Rightarrow> nat \<Rightarrow> nat list \<Rightarrow> builder \<Rightarrow> nat \<Rightarrow> u8 list \<Rightarrow> (cbs \<Rightarrow> bool) \<Rightarrow> (cbs \<times> builder) cres \<Rightarrow> bool" where
  "runs ra n ex s c out P r \<longleftrightarrow> (\<exists>ok cbs s'. r = Some (ok, (cbs, s')) \<and> same_root s s'
     \<and> (ok \<longrightarrow> P cbs \<and> framed s s' c ex \<and> (\<exists>x. view ra n s' c (out @ x) [])))"

lemma runs_ret: "view ra n s c out [] \<Longrightarrow> (ok \<Longrightarrow> P cbs) \<Longrightarrow> runs ra n ex s c out P (Some (ok, (cbs, s)))"
  by (auto simp: runs_def intro: exI [of _ "[]"])

lemma runs_false: "same_root s s' \<Longrightarrow> runs ra n ex s c out P (ret_false (cbs, s'))"
  by (auto simp: runs_def ret_false_def)

lemma parent_view:
  assumes "view ra n s c out [(i, k, [])]" and "view ra n s' i ((out @ placeholder k) @ x) []"
    and "framed s s' i ex" and "c \<notin> set ex" "i \<notin> set ex"
  shows "view ra n s' c out [(i, k, x)]" and "framed s s' c (i # ex)"
proof -
  have "i \<noteq> c" using assms(1) by (auto simp: view_def)
  with assms show "view ra n s' c out [(i, k, x)]" "framed s s' c (i # ex)"
    by (auto simp: view_def framed_def add.assoc)
qed

context reallocator
begin

lemma runs_flush:
  assumes s1: "same_root s s1" "view ra n s1 c (out @ y) fs" "framed s s1 c ex" "set (ids fs) \<subseteq> set ex"
    and k: "\<And>s2 x. view ra n s2 c (out @ x) [] \<Longrightarrow> runs ra n ex s2 c (out @ x) Q (k cbs s2)"
  shows "runs ra n ex s c out Q (then_flush ra c (Some (True, (cbs, s1))) k)"
proof -
  from flush_outcome [OF s1(2)]
  consider s2 t where "CBB_flush ra c s1 = Some (True, s2)" "view ra n s2 c ((out @ y) @ t) []" "framed s1 s2 c (ids fs)"
    | s2 where "CBB_flush ra c s1 = Some (False, s2)"
    by (auto simp: outcome_def)
  then show ?thesis
  proof cases
    case 1
    have root: "same_root s s2" using flush_root [OF 1(1)] s1(1) by (auto intro: same_root_trans)
    have fr: "framed s s2 c ex" by (rule framed_trans [OF s1(3) 1(3)]) (use s1(4) in auto)
    from k [of s2 "y @ t" ] 1(2) obtain ok cbs' s' where r: "k cbs s2 = Some (ok, (cbs', s'))" "same_root s2 s'"
        "ok \<Longrightarrow> Q cbs' \<and> framed s2 s' c ex \<and> (\<exists>x. view ra n s' c ((out @ y @ t) @ x) [])"
      by (auto simp: runs_def)
    have "ok \<Longrightarrow> framed s s' c ex" using r(3) by (auto intro: framed_trans [OF fr])
    with r root 1(1) show ?thesis
      by (auto simp: runs_def then_flush_def intro: same_root_trans exI [of _ "y @ t @ x" for x])
  next
    case 2
    with flush_root [OF 2] s1(1) show ?thesis
      by (auto simp: then_flush_def intro: runs_false same_root_trans)
  qed
qed

text \<open>A fragment of a string: its contents, then the flush, then the rest.\<close>

lemma runs_fragment:
  assumes r: "runs ra n ex s c out P r"
    and k: "\<And>cbs s1 out1. P cbs \<Longrightarrow> view ra n s1 c out1 [] \<Longrightarrow> runs ra n ex s1 c out1 Q (k cbs s1)"
  shows "runs ra n ex s c out Q (then_flush ra c r k)"
proof -
  from r obtain ok cbs s1 where s1: "r = Some (ok, (cbs, s1))" "same_root s s1"
      "ok \<Longrightarrow> P cbs \<and> framed s s1 c ex \<and> (\<exists>x. view ra n s1 c (out @ x) [])"
    by (auto simp: runs_def)
  show ?thesis
  proof (cases ok)
    case True
    with s1 obtain x where "P cbs" "framed s s1 c ex" "view ra n s1 c (out @ x) []" by blast
    with s1(1,2) True k [of cbs] show ?thesis by (auto intro!: runs_flush [where y = x])
  next
    case False
    with s1 show ?thesis by (auto simp: then_flush_def intro: runs_false)
  qed
qed

text \<open>An element: the header, its contents in the new part, then the flush, then the rest.\<close>

lemma runs_element:
  assumes o: "opened ra n ex s c out [] h i k r" and root: "keeps_root s r"
    and ids: "c \<notin> set ex" "i \<notin> set ex" "i \<noteq> 0" "i \<noteq> c"
    and f: "\<And>s1 out1. view ra n s1 i out1 [] \<Longrightarrow> runs ra n ex s1 i out1 P (f s1)"
    and k: "\<And>cbs s1 out1. P cbs \<Longrightarrow> view ra n s1 c out1 [] \<Longrightarrow> runs ra n (i # ex) s1 c out1 Q (g cbs s1)"
  shows "runs ra n (i # ex) s c out Q
    (Option.bind r (\<lambda>(ok, s). if \<not> ok then ret_false (cbs0, s) else then_flush ra c (f s) g))"
proof -
  from o consider s1 where "r = Some (True, s1)" "view ra n s1 c (out @ h) [(i, k, [])]" "framed s s1 c (i # ex)"
    | s1 where "r = Some (False, s1)"
    by (auto simp: opened_def outcome_def)
  then show ?thesis
  proof cases
    case 1
    have r1: "same_root s s1" using root 1(1) by simp
    from f [OF view_child [OF 1(2)]] obtain ok cbs s2 where s2: "f s1 = Some (ok, (cbs, s2))" "same_root s1 s2"
        "ok \<Longrightarrow> P cbs \<and> framed s1 s2 i ex \<and> (\<exists>x. view ra n s2 i (((out @ h) @ placeholder k @ []) @ x) [])"
      by (auto simp: runs_def)
    show ?thesis
    proof (cases ok)
      case True
      with s2 obtain x where x: "P cbs" "framed s1 s2 i ex" "view ra n s2 i (((out @ h) @ placeholder k) @ x) []" by auto
      note p = parent_view [OF 1(2) x(3,2) ids(1,2)]
      have "runs ra n (i # ex) s c out Q (then_flush ra c (Some (True, (cbs, s2))) g)"
        by (rule runs_flush [OF _ p(1)])
          (use r1 s2(2) p(2) x(1) k in \<open>auto intro: same_root_trans framed_trans [OF 1(3)]\<close>)
      with 1(1) s2(1) True show ?thesis by simp
    next
      case False
      with 1(1) s2 r1 show ?thesis by (auto simp: then_flush_def intro: runs_false same_root_trans)
    qed
  next
    case 2
    with root show ?thesis by (auto intro: runs_false)
  qed
qed

end

lemma runs_mono:
  "runs ra n ex s c out P r \<Longrightarrow> (\<And>cbs. P cbs \<Longrightarrow> Q cbs) \<Longrightarrow> runs ra n ex s c out Q r"
  unfolding runs_def by blast

lemma runs_more:
  "runs ra n ex s c out P r \<Longrightarrow> set ex \<subseteq> set ex' \<Longrightarrow> runs ra n ex' s c out P r"
  unfolding runs_def by (blast intro: framed_mono)

lemma runs_bind:
  "runs ra n ex s c out P r \<Longrightarrow> (\<And>cbs. P cbs \<Longrightarrow> Q X) \<Longrightarrow>
    runs ra n ex s c out Q (Option.bind r (\<lambda>(ok, (_, s)). Some (ok, (X, s))))"
  unfolding runs_def by fastforce

section \<open>Accepted input\<close>

text \<open>What a call accepts and what it leaves.\<close>

definition accepted :: "u32 \<Rightarrow> nat \<Rightarrow> bool \<Rightarrow> cbs \<Rightarrow> cbs \<Rightarrow> bool" where
  "accepted st depth eoc cbs rest \<longleftrightarrow> depth \<le> kMaxDepth \<and> (eoc \<or> rest = [])
     \<and> (\<exists>ts. list_all (ber_ok st) ts \<and> (\<forall>t \<in> set ts. height t + depth \<le> kMaxDepth) \<and> cbs = forest ts @ tail eoc rest)"

definition accepted_element :: "u32 \<Rightarrow> nat \<Rightarrow> cbs \<Rightarrow> cbs \<Rightarrow> bool" where
  "accepted_element st depth cbs rest \<longleftrightarrow> (\<exists>t. ber_ok st t \<and> height t + depth \<le> kMaxDepth \<and> cbs = ber_bytes t @ rest)"

lemma accepted_Cons: "accepted_element st depth cbs X \<Longrightarrow> accepted st depth eoc X rest \<Longrightarrow> accepted st depth eoc cbs rest"
  unfolding accepted_def accepted_element_def
  by (elim exE conjE) (intro conjI exI [of _ "t # ts" for t ts], auto)

lemma accepted_definite:
  assumes "accepted (child_string_tag st tag) (Suc depth) False p r" and "tag AND 0x20000000 \<noteq> 0"
    and "st = 0 \<or> tag AND NOT CBS_ASN1_CONSTRUCTED = st" and "length p < 2 ^ 32"
  shows "accepted_element st depth (der tag p @ X) X"
proof -
  from assms(1) obtain ts where ts: "list_all (ber_ok (child_string_tag st tag)) ts" "p = forest ts"
      "\<forall>t \<in> set ts. height t + Suc depth \<le> kMaxDepth" "Suc depth \<le> kMaxDepth" by (auto simp: accepted_def)
  with assms(2-4) show ?thesis unfolding accepted_element_def
    by (intro exI [of _ "Definite tag ts"]) (simp add: child_tag_ok flip: forest_def)
qed

lemma accepted_indefinite:
  assumes "accepted (child_string_tag st tag) (Suc depth) True rest X" and "tag AND 0x20000000 \<noteq> 0"
    and "st = 0 \<or> tag AND NOT CBS_ASN1_CONSTRUCTED = st"
  shows "accepted_element st depth ((der_tag tag @ [0x80]) @ rest) X"
proof -
  from assms(1) obtain ts where ts: "list_all (ber_ok (child_string_tag st tag)) ts" "rest = forest ts @ 0 # 0 # X"
      "\<forall>t \<in> set ts. height t + Suc depth \<le> kMaxDepth" "Suc depth \<le> kMaxDepth" by (auto simp: accepted_def)
  with assms(2-3) show ?thesis unfolding accepted_element_def
    by (intro exI [of _ "Indefinite tag ts"]) (simp add: child_tag_ok flip: forest_def)
qed

lemma accepted_prim:
  assumes "tag AND 0x20000000 = 0" and "st = 0 \<or> tag AND NOT CBS_ASN1_CONSTRUCTED = st" and "length p < 2 ^ 32"
    and "der tag p \<noteq> [0, 0]" and "depth \<le> kMaxDepth"
  shows "accepted_element st depth (der tag p @ X) X"
  using assms primitive_tag [OF assms(1)] unfolding accepted_element_def
  by (intro exI [of _ "Prim tag p"]) (auto simp: der_is_eoc)

section \<open>Every run\<close>

text \<open>The part of the loop's body between the header and the flush.\<close>

definition contents_run :: "reallocate \<Rightarrow> cbs \<Rightarrow> nat \<Rightarrow> u32 \<Rightarrow> nat \<Rightarrow> cbs \<Rightarrow> u32 \<Rightarrow> nat \<Rightarrow> builder \<Rightarrow> (cbs \<times> builder) cres" where
  "contents_run ra rest c st depth contents tag hl s =
     (if is_indefinite hl contents then cbs_convert_ber ra rest c (child_string_tag st tag) True (depth + 1) s
      else case CBS_skip contents hl of
          (None, _) \<Rightarrow> ret_false (rest, s)
        | (Some _, contents) \<Rightarrow>
            if tag AND CBS_ASN1_CONSTRUCTED \<noteq> 0 then
              Option.bind (cbs_convert_ber ra contents c (child_string_tag st tag) False (depth + 1) s)
                (\<lambda>(ok, (_, s)). Some (ok, (rest, s)))
            else Option.bind (CBB_add_bytes ra c (CBS_data contents) s) (\<lambda>(ok, s). Some (ok, (rest, s))))"

lemma convert_unfold:
  assumes "CBS_get_any_ber_asn1_element cbs = (Some (contents, tag, hl), rest)" and "cbs \<noteq> []"
    and "\<not> is_eoc hl contents" and "st AND 0x20000000 = 0" and "depth \<le> kMaxDepth"
  shows "cbs_convert_ber ra cbs c st eoc depth s =
    Option.bind (open_contents ra c (Suc depth) st tag s) (\<lambda>(ok, s). if \<not> ok then ret_false (rest, s)
      else then_flush ra c (contents_run ra rest (if st \<noteq> 0 then c else Suc depth) st depth contents tag hl s)
        (\<lambda>cbs s. cbs_convert_ber ra cbs c st eoc depth s))"
  using assms by (subst cbs_convert_ber.simps) (simp add: CBS_len_def then_flush_def contents_run_def Let_def cong: if_cong)

context reallocator
begin

lemma contents_runs:
  assumes e: "CBS_get_any_ber_asn1_element cbs = (Some (contents, tag, hl), rest)" "\<not> is_eoc hl contents"
    and st: "st = 0 \<or> tag AND NOT CBS_ASN1_CONSTRUCTED = st" "st AND 0x20000000 = 0" and d: "depth \<le> kMaxDepth"
    and v: "view ra n s c out []" "c \<le> Suc depth"
    and ih: "\<And>cbs' st' eoc'. length cbs' < length cbs \<Longrightarrow> st' AND 0x20000000 = 0 \<Longrightarrow>
      runs ra n [Suc (Suc depth)..<kMaxDepth + 2] s c out (accepted st' (Suc depth) eoc' cbs')
        (cbs_convert_ber ra cbs' c st' eoc' (Suc depth) s)"
  shows "runs ra n [Suc (Suc depth)..<kMaxDepth + 2] s c out (accepted_element st depth cbs)
    (contents_run ra rest c st depth contents tag hl s)"
proof -
  have e': "cbs_get_any_asn1_element True cbs = (Some (contents, tag, hl), rest)"
    using e(1) by (simp add: CBS_get_any_ber_asn1_element_def)
  note shorter = ber_element_shorter [OF e']
  note child = child_tag_primitive [OF st(2), of tag]
  from e' consider "tag AND 0x20000000 \<noteq> 0" "contents = der_tag tag @ [0x80]" "hl = length (der_tag tag) + 1" "cbs = contents @ rest"
    | p where "length p < 2 ^ 32" "contents = der tag p" "hl = length (der_header tag (length p))" "cbs = contents @ rest"
    unfolding ber_element_iff any_element_iff by auto
  then show ?thesis
  proof cases
    case 1
    have r: "contents_run ra rest c st depth contents tag hl s
        = cbs_convert_ber ra rest c (child_string_tag st tag) True (Suc depth) s"
      using header_indefinite [of tag] unfolding contents_run_def 1(2,3) by simp
    show ?thesis unfolding r
      by (rule runs_mono [OF ih [OF _ child]])
        (use 1(2,4) accepted_indefinite [OF _ 1(1) st(1)] in auto)
  next
    case 2
    have r: "contents_run ra rest c st depth contents tag hl s =
      (if tag AND CBS_ASN1_CONSTRUCTED \<noteq> 0 then
         Option.bind (cbs_convert_ber ra p c (child_string_tag st tag) False (Suc depth) s) (\<lambda>(ok, (_, s)). Some (ok, (rest, s)))
       else Option.bind (CBB_add_bytes ra c p s) (\<lambda>(ok, s). Some (ok, (rest, s))))"
      unfolding contents_run_def 2(2,3) by (simp add: der_not_indefinite CBS_data_def cong: if_cong)
    show ?thesis
    proof (cases "tag AND CBS_ASN1_CONSTRUCTED = 0")
      case True
      have neoc: "der tag p \<noteq> [0, 0]" using e(2) 2(1-3) by (auto simp: is_eoc_iff der_0_Nil der_is_eoc der_header_def der_tag_def der_length_def)
      have "length p < 2 ^ 63" using 2(1) by simp
      from add_bytes_appended [OF v(1) this, of "[Suc (Suc depth)..<kMaxDepth + 2]"] 
      consider s1 where "CBB_add_bytes ra c p s = Some (True, s1)" "view ra n s1 c (out @ p) []"
          "framed s s1 c [Suc (Suc depth)..<kMaxDepth + 2]"
        | s1 where "CBB_add_bytes ra c p s = Some (False, s1)"
        by (auto simp: appended_def outcome_def)
      moreover have "accepted_element st depth cbs rest"
        unfolding 2(4,2) by (rule accepted_prim [OF True st(1) 2(1) neoc d])
      moreover have "same_root s s1" if "CBB_add_bytes ra c p s = Some (ok, s1)" for ok s1
        using rootedD [OF that, of snd] keeps_root_call by (simp add: CBB_add_bytes_def)
      ultimately show ?thesis unfolding r using True by cases (auto simp: runs_def)
    next
      case False
      have "length p < length cbs" using shorter 2 by (auto simp: der_def der_header_def)
      from runs_bind [OF ih [OF this child], where eoc'1 = False and Q = "accepted_element st depth cbs" and X = rest] show ?thesis
        unfolding r using False accepted_definite [OF _ False st(1) 2(1)] 2(2,4) by simp
    qed
  qed
qed

lemma convert_runs:
  assumes "view ra n s c out []" and "c \<le> depth" and "st AND 0x20000000 = 0"
  shows "runs ra n [Suc depth..<kMaxDepth + 2] s c out (accepted st depth eoc cbs) (cbs_convert_ber ra cbs c st eoc depth s)"
  using assms
proof (induction cbs arbitrary: st depth eoc c s out rule: measure_induct_rule [where f = length])
  case (less cbs)
  show ?case
  proof (cases "depth \<le> kMaxDepth \<and> cbs \<noteq> []")
    case False
    then have "cbs_convert_ber ra cbs c st eoc depth s = (if kMaxDepth < depth then ret_false (cbs, s) else Some (\<not> eoc, (cbs, s)))"
      using less.prems(3) by (subst cbs_convert_ber.simps) (auto simp: CBS_len_def)
    then show ?thesis using False less.prems(1)
      by (auto simp: accepted_def intro!: runs_false runs_ret exI [of _ "[]"])
  next
    case True
    show ?thesis
    proof (cases "CBS_get_any_ber_asn1_element cbs")
      case (Pair r rest)
      consider "r = None" | contents tag hl where "r = Some (contents, tag, hl)" "is_eoc hl contents"
        | contents tag hl where "r = Some (contents, tag, hl)" "\<not> is_eoc hl contents"
        by (metis option.exhaust prod_cases3)
      then show ?thesis
      proof cases
        case 1
        then have "cbs_convert_ber ra cbs c st eoc depth s = ret_false (rest, s)"
          using Pair True less.prems(3) by (subst cbs_convert_ber.simps) (auto simp: CBS_len_def)
        then show ?thesis by (simp add: runs_false)
      next
        case 2
        then have "cbs_convert_ber ra cbs c st eoc depth s = Some (eoc, (rest, s))"
          using Pair True less.prems(3) by (subst cbs_convert_ber.simps) (auto simp: CBS_len_def)
        moreover have "cbs = contents @ rest"
          using ber_element_shorter Pair 2 by (simp add: CBS_get_any_ber_asn1_element_def)
        ultimately show ?thesis using 2 True less.prems(1)
          by (auto simp: is_eoc_iff accepted_def intro!: runs_ret exI [of _ "[]"])
      next
        case 3
        note e = Pair [unfolded 3(1)]
        have shorter: "length rest < length cbs" using element_skip_shorter(1) [OF e [symmetric]] .
        let ?ex = "[Suc (Suc depth)..<kMaxDepth + 2]"
        have ex: "[Suc depth..<kMaxDepth + 2] = Suc depth # ?ex" using True by (simp add: upt_conv_Cons)
        have k: "runs ra n (Suc depth # ?ex) s1 c out1 (accepted st depth eoc cbs) (cbs_convert_ber ra X c st eoc depth s1)"
          if X: "accepted_element st depth cbs X" and v: "view ra n s1 c out1 []" for s1 out1 X
        proof -
          from X obtain t where "cbs = ber_bytes t @ X" by (auto simp: accepted_element_def)
          then have "length X < length cbs" by (cases t) auto
          from runs_mono [OF less.IH [OF this v less.prems(2,3)] accepted_Cons [OF X]] show ?thesis
            by (simp only: ex)
        qed
        have f: "runs ra n ?ex s1 c1 out1 (accepted_element st depth cbs) (contents_run ra rest c1 st depth contents tag hl s1)"
          if "view ra n s1 c1 out1 []" "c1 \<le> Suc depth" "st = 0 \<or> tag AND NOT CBS_ASN1_CONSTRUCTED = st" for s1 c1 out1
          using True that less.prems(3) by (intro contents_runs [OF e 3(2)] less.IH) auto
        note unfold = convert_unfold [OF e _ 3(2) less.prems(3)]
        show ?thesis
        proof (cases "st = 0")
          case st: True
          obtain t where o: "open_contents ra c (Suc depth) st tag s = CBB_add_asn1 ra c (Suc depth) t s"
            by (simp add: open_contents_def st Let_def)
          have "runs ra n (Suc depth # ?ex) s c out (accepted st depth eoc cbs)
            (Option.bind (open_contents ra c (Suc depth) st tag s) (\<lambda>(ok, s). if \<not> ok then ret_false (rest, s)
              else then_flush ra c (contents_run ra rest (Suc depth) st depth contents tag hl s)
                (\<lambda>cbs s. cbs_convert_ber ra cbs c st eoc depth s)))"
            by (rule runs_element [where P = "accepted_element st depth cbs" and h = "der_tag t" and k = Asn1])
              (use add_asn1_opened [OF less.prems(1), of "Suc depth" ?ex t] keeps_root_add_asn1 less.prems(2) f k st in \<open>auto simp: o [unfolded st]\<close>)
          then show ?thesis using unfold True unfolding ex st by simp
        next
          case False
          have "runs ra n (Suc depth # ?ex) s c out (accepted st depth eoc cbs)
            (then_flush ra c (contents_run ra rest c st depth contents tag hl s)
                (\<lambda>cbs s. cbs_convert_ber ra cbs c st eoc depth s))"
            if "tag AND NOT CBS_ASN1_CONSTRUCTED = st"
            by (rule runs_fragment [OF runs_more [OF f]]) (use that less.prems k in auto)
          moreover have "open_contents ra c (Suc depth) st tag s
              = (if tag AND NOT CBS_ASN1_CONSTRUCTED \<noteq> st then ret_false s else ret_true s)"
            using False by (simp only: open_contents_def simp_thms if_True)
          ultimately show ?thesis using unfold True False unfolding ex
            by (auto simp: ret_true_def ret_false_def runs_false [unfolded ret_false_def])
        qed
      qed
    qed
  qed
qed

end

end
