(* ===== verification/Ber_Properties.thy ===== *)
theory Ber_Properties
  imports Ber_Total Cbs_Properties
begin

text \<open>The properties of the converter from BER to DER, and of implicitly tagged strings.\<close>

section \<open>The whole conversion\<close>

text \<open>Sequences of trees that the converter takes.\<close>

definition convertible :: "ber list \<Rightarrow> bool" where
  "convertible ts \<longleftrightarrow> list_all (ber_ok 0) ts \<and> (\<forall>t \<in> set ts. height t \<le> kMaxDepth)"

lemma finish_flat:
  assumes v: "view ra n s c out []" and c: "\<not> is_child (cbbs s c)"
  shows "\<exists>d l s'. CBB_finish ra c False False s = Some (Some (d, l), s') \<and> take (unat l) d = out"
proof -
  have "CBB_flush ra c s = ret_true s"
    using v by (subst CBB_flush.simps) (auto simp: view_def good_def)
  with assms show ?thesis
    by (auto simp: view_def CBB_finish_def CBB_cleanup_def content_def upd_def ret_true_def)
qed

lemma accepted_convertible: "accepted 0 0 False cbs rest \<longleftrightarrow> rest = [] \<and> (\<exists>ts. convertible ts \<and> cbs = forest ts)"
  by (auto simp: accepted_def convertible_def)

lemma convert_forest:
  assumes "convertible ts" and "view (buf_realloc heap) n s 0 [] []"
  shows "outcome failed (built (cbs_convert_ber (buf_realloc heap) (forest ts) 0 0 False 0 s))
    (\<lambda>s'. list_all writable (map norm ts) \<and> view (buf_realloc heap) n s' 0 (forest (map norm ts)) [])
    (list_all writable (map norm ts) \<and> length (forest (map norm ts)) \<le> n)"
proof -
  have "appended (buf_realloc heap) n [Suc 0..<kMaxDepth + 2] s 0 [] [] (written 0 ts) (fits 0 ts)
    (built (cbs_convert_ber (buf_realloc heap) (forest ts @ tail False []) 0 0 False 0 s))"
    by (rule grow.convert_appended) (use assms in \<open>auto simp: convertible_def\<close>)
  then show ?thesis unfolding appended_def
    by (auto elim!: outcome_weaken simp: written_def fits_def)
qed

lemma ber_to_der_found:
  assumes found: "cbs_find_ber cbs 0 = Some True" and l: "length cbs < 2 ^ 63 - 8"
    and n: "n = 0 \<or> supplies heap n"
  shows "(\<exists>out d. CBS_asn1_ber_to_der heap cbs = Some (Some (out, Some d), []) \<and> (\<exists>ts. convertible ts \<and> cbs = forest ts)
        \<and> (\<forall>ts. convertible ts \<and> cbs = forest ts \<longrightarrow> list_all writable (map norm ts) \<and> out = forest (map norm ts)))
    \<or> (\<exists>cbs'. CBS_asn1_ber_to_der heap cbs = Some (None, cbs'))
      \<and> (\<forall>ts. convertible ts \<and> cbs = forest ts \<and> list_all writable (map norm ts) \<and> length (forest (map norm ts)) \<le> n \<longrightarrow> \<not> supplies heap n)"
proof -
  let ?s = "\<lparr>buffer = None, cbbs = \<lambda>_. zero_cbb\<rparr>" and ?ra = "buf_realloc heap"
  have u: "unat (word_of_nat (length cbs) :: u64) = length cbs" using l by (intro unat_word_of_nat_small) simp
  note start = CBS_asn1_ber_to_der_def found Let_def CBS_len_def
  from init_outcome [OF _ n, of "word_of_nat (length cbs)" 0 ?s] l
  consider s1 where "CBB_init heap 0 (word_of_nat (length cbs)) ?s = Some (True, s1)" "view ?ra n s1 0 [] []"
      "\<not> is_child (cbbs s1 0)"
    | s1 where "\<not> supplies heap n" "CBB_init heap 0 (word_of_nat (length cbs)) ?s = Some (False, s1)" "\<not> is_child (cbbs s1 0)"
    unfolding u by auto
  then show ?thesis
  proof cases
    case 2
    then have "\<exists>cbs'. CBS_asn1_ber_to_der heap cbs = Some (None, cbs')" by (simp add: start CBB_cleanup_def)
    with 2 show ?thesis by blast
  next
    case 1
    let ?r = "cbs_convert_ber ?ra cbs 0 0 False 0 s1"
    have "runs ?ra n [Suc 0..<kMaxDepth + 2] s1 0 [] (accepted 0 0 False cbs) ?r"
      by (rule grow.convert_runs [OF 1(2)]) simp_all
    then obtain ok cbs' s2 where r: "?r = Some (ok, (cbs', s2))" "same_root s1 s2" "ok \<Longrightarrow> accepted 0 0 False cbs cbs'"
      by (auto simp: runs_def)
    have root: "\<not> is_child (cbbs s2 0)" using r(2) 1(3) by (simp add: same_root_def)
    show ?thesis
    proof (cases ok)
      case False
      then have "\<exists>cbs'. CBS_asn1_ber_to_der heap cbs = Some (None, cbs')"
        using 1(1) r root by (simp add: start CBB_cleanup_def)
      moreover have "\<not> (list_all writable (map norm ts) \<and> length (forest (map norm ts)) \<le> n)"
        if "convertible ts" "cbs = forest ts" for ts
        using convert_forest [OF that(1) 1(2)] r False that(2) by (auto simp: outcome_def)
      ultimately show ?thesis by blast
    next
      case True
      with r(3) obtain ts where ts: "cbs' = []" "convertible ts" "cbs = forest ts"
        unfolding accepted_convertible by blast
      have v: "list_all writable (map norm ts) \<and> view ?ra n s2 0 (forest (map norm ts)) []"
        if "convertible ts" "cbs = forest ts" for ts
        using convert_forest [OF that(1) 1(2)] r(1) True that(2) by (auto simp: outcome_def)
      have same: "forest (map norm ts') = forest (map norm ts)" if "convertible ts'" "cbs = forest ts'" for ts'
        using v [OF ts(2,3)] v [OF that] by (auto simp: view_def)
      from finish_flat [OF conjunct2 [OF v [OF ts(2,3)]] root] obtain d l s3 where
        "CBB_finish ?ra 0 False False s2 = Some (Some (d, l), s3)" "take (unat l) d = forest (map norm ts)" by blast
      then have "CBS_asn1_ber_to_der heap cbs = Some (Some (forest (map norm ts), Some d), [])"
        using 1(1) r(1) True ts(1) by (simp add: start CBS_init_def)
      moreover have "\<forall>ts'. convertible ts' \<and> cbs = forest ts' \<longrightarrow>
          list_all writable (map norm ts') \<and> forest (map norm ts) = forest (map norm ts')"
        using v same by metis
      ultimately show ?thesis using ts(2,3) by blast
    qed
  qed
qed

lemma find_forest:
  assumes "convertible ts"
  shows "cbs_find_ber (forest ts) 0 = Some (scan False ts)"
  using find_ber_loop_forest [of ts 0 False] assms by (simp add: convertible_def cbs_find_ber_def)

text \<open>C30: the converter on encodings: for a sequence of BER trees, when the first pass finds BER in it, CBS_asn1_ber_to_der
  gives the DER encodings of their normal forms (constructed strings put together, all lengths definite) in a new
  buffer and uses the input up; it fails only when a length does not fit or memory runs out. Otherwise it gives the
  first element as it is, without a buffer, and leaves the others.\<close>

theorem ber_to_der_exact:
  assumes "convertible (t # ts)" and "length (forest (t # ts)) < 2 ^ 63 - 8" and "out = forest (map norm (t # ts))"
  shows "if scan False (t # ts) then
      (\<exists>d. CBS_asn1_ber_to_der heap (forest (t # ts)) = Some (Some (out, Some d), []))
      \<or> \<not> (list_all writable (map norm (t # ts)) \<and> supplies heap (length out))
        \<and> (\<exists>rest. CBS_asn1_ber_to_der heap (forest (t # ts)) = Some (None, rest))
    else CBS_asn1_ber_to_der heap (forest (t # ts)) = Some (Some (ber_bytes t, None), forest ts)"
proof (cases "scan False (t # ts)")
  case True
  define n where "n = (if supplies heap (length out) then length out else 0)"
  have "n = 0 \<or> supplies heap n" by (simp add: n_def)
  from ber_to_der_found [OF _ assms(2) this] find_forest [OF assms(1)] True assms(1,3)
  show ?thesis by (fastforce simp: n_def split: if_splits)
next
  case False
  obtain c p where t: "length p < 2 ^ 32" "ber_bytes t = der c p"
    using False assms(1) by (cases t) (auto simp: convertible_def forest_def)
  then have "CBS_get_any_asn1_element (forest (t # ts)) = (Some (ber_bytes t, c, length (der_header c (length p))), forest ts)"
    unfolding CBS_get_any_asn1_element_def any_element_iff by auto
  with False find_forest [OF assms(1)] show ?thesis by (simp add: CBS_asn1_ber_to_der_def)
qed

text \<open>A SEQUENCE of indefinite length with an OCTET STRING in two fragments.\<close>

definition sample_ber :: ber where
  "sample_ber = Indefinite 0x20000010 [Definite 0x20000004 [Prim 4 [1], Prim 4 [2, 3]]]"

lemma sample_ber_bytes: "ber_bytes sample_ber = [0x30, 0x80, 0x24, 7, 4, 1, 1, 4, 2, 2, 3, 0, 0]"
  by code_simp

lemma supplies_zeros: "supplies (\<lambda>_. Some (\<lambda>_. 0)) n \<longleftrightarrow> 2 * n + 8 < 2 ^ 63"
  by (simp add: supplies_def)

lemma sample_ber_ok: "convertible [sample_ber]" "writable (norm sample_ber)" "scan False [sample_ber]"
proof -
  have d: "der 4 [1] = [4, 1, 1]" "der 4 [2, 3] = [4, 2, 2, 3]" "is_string_type 0x20000004" "\<not> is_string_type 0x20000010"
      "der 4 [1, 2, 3] = [4, 3, 1, 2, 3]"
    by code_simp+
  show "convertible [sample_ber]" "writable (norm sample_ber)" "scan False [sample_ber]"
    by (simp_all add: convertible_def sample_ber_def d height.simps)
qed

theorem ber_to_der_exact_witness:
  "\<exists>d. CBS_asn1_ber_to_der (\<lambda>_. Some (\<lambda>_. 0)) [0x30, 0x80, 0x24, 7, 4, 1, 1, 4, 2, 2, 3, 0, 0]
    = Some (Some ([0x30, 5, 4, 3, 1, 2, 3], Some d), [])"
proof -
  have o: "forest (map norm [sample_ber]) = [0x30, 5, 4, 3, 1, 2, 3]" by code_simp
  have f: "forest [sample_ber] = [0x30, 0x80, 0x24, 7, 4, 1, 1, 4, 2, 2, 3, 0, 0]" by (simp add: sample_ber_bytes)
  have "supplies (\<lambda>_. Some (\<lambda>_. 0)) (length ([0x30, 5, 4, 3, 1, 2, 3] :: u8 list))" by (simp add: supplies_zeros)
  with ber_to_der_exact [OF sample_ber_ok(1), of "[0x30, 5, 4, 3, 1, 2, 3]" "\<lambda>_. Some (\<lambda>_. 0)"] sample_ber_ok(2,3) o
  show ?thesis unfolding f by simp
qed

text \<open>C31: the converter on arbitrary bytes: CBS_asn1_ber_to_der always returns, whatever the input and whatever memory the
  allocator refuses, with no byte outside a buffer and no failed assertion. What it converts is a sequence
  of well-formed BER trees nested at most 2048 deep, and the result is the encoding of their normal forms, which
  are free of indefinite lengths and constructed strings. What it gives unconverted is a prefix of the input.\<close>

theorem ber_to_der_total:
  assumes "length cbs < 2 ^ 63 - 8"
  shows "\<exists>r rest. CBS_asn1_ber_to_der heap cbs = Some (r, rest)
    \<and> (\<forall>out d. r = Some (out, Some d) \<longrightarrow> rest = []
        \<and> (\<exists>ts. convertible ts \<and> cbs = forest ts \<and> out = forest (map norm ts) \<and> list_all is_der (map norm ts)))
    \<and> (\<forall>out. r = Some (out, None) \<longrightarrow> cbs = out @ rest)"
proof -
  consider "cbs_find_ber cbs 0 = None" | "cbs_find_ber cbs 0 = Some True" | "cbs_find_ber cbs 0 = Some False"
    by (metis (full_types) option.exhaust)
  then show ?thesis
  proof cases
    case 1
    then show ?thesis by (simp add: CBS_asn1_ber_to_der_def)
  next
    case 2
    have "list_all is_der (map norm ts)" for ts by (simp add: list_all_iff is_der_norm)
    with ber_to_der_found [OF 2 assms, of 0 heap] show ?thesis by fastforce
  next
    case 3
    have "cbs = out @ rest" if "CBS_get_any_asn1_element cbs = (Some (out, t, hl), rest)" for out t hl rest
      using that unfolding CBS_get_any_asn1_element_def any_element_iff by blast
    with 3 show ?thesis by (auto simp: CBS_asn1_ber_to_der_def split: prod.split option.split)
  qed
qed

theorem ber_to_der_total_witness:
  "\<exists>r rest. CBS_asn1_ber_to_der (\<lambda>_. None) [0x30, 0x80, 0x24] = Some (r, rest)"
  using ber_to_der_total [of "[0x30, 0x80, 0x24]" "\<lambda>_. None"] by auto

lemma norm_ok: "ber_ok 0 t \<Longrightarrow> writable (norm t) \<Longrightarrow> ber_ok 0 (norm t)"
proof (induction t)
  case (Definite t ts)
  then show ?case using string_tag_nonzero [of t] by (auto simp: list_all_iff)
next
  case (Indefinite t ts)
  then show ?case using string_tag_nonzero [of t] by (auto simp: list_all_iff)
qed simp

lemma length_writable: "writable t \<Longrightarrow> length (ber_bytes t) < 2 ^ 63 - 8"
proof -
  have "length (der c p) < 2 ^ 63 - 8" if "length p \<le> 0xfffffffe" for c p
    using that length_der_tag(2) [of c] length_der_length [of "length p"] by (simp add: der_def der_header_def)
  then show "writable t \<Longrightarrow> length (ber_bytes t) < 2 ^ 63 - 8" by (cases t) auto
qed

text \<open>Converting is idempotent: the DER that CBS_asn1_ber_to_der makes of an element is given back by it unchanged, and no
  memory is needed for that.\<close>

theorem conversion_once:
  assumes "convertible [t]" and "writable (norm t)"
  shows "CBS_asn1_ber_to_der heap (ber_bytes (norm t)) = Some (Some (ber_bytes (norm t), None), [])"
proof -
  have c: "convertible [norm t]"
    using assms norm_ok [of t] order_trans [OF height_norm [of t]] by (simp add: convertible_def)
  from length_writable [OF assms(2)] ber_to_der_exact [OF c _ refl, of heap] show ?thesis
    using scan_der [of "[norm t]"] is_der_norm [of t] by simp
qed

theorem conversion_once_witness:
  "CBS_asn1_ber_to_der (\<lambda>_. None) [0x30, 5, 4, 3, 1, 2, 3] = Some (Some ([0x30, 5, 4, 3, 1, 2, 3], None), [])"
proof -
  have "ber_bytes (norm sample_ber) = [0x30, 5, 4, 3, 1, 2, 3]" by code_simp
  with conversion_once [OF sample_ber_ok(1), of "\<lambda>_. None"] sample_ber_ok(2) show ?thesis by simp
qed

text \<open>
  A child of definite length that comes behind an element in BER clears the flag again, so the
  fragment \<open>24 02 04 00\<close> stays in the output: the input is a SEQUENCE of two SEQUENCEs, the first of them
  holding a constructed OCTET STRING.
\<close>

lemma later_child_hides_ber:
  "\<not> is_der (Definite 0x20000010 [Definite 0x20000010 [Definite 0x20000004 [Prim 4 []]], Definite 0x20000010 []])"
  "CBS_asn1_ber_to_der heap [0x30, 8, 0x30, 4, 0x24, 2, 4, 0, 0x30, 0]
    = Some (Some ([0x30, 8, 0x30, 4, 0x24, 2, 4, 0, 0x30, 0], None), [])"
proof -
  let ?t = "Definite 0x20000010 [Definite 0x20000010 [Definite 0x20000004 [Prim 4 []]], Definite 0x20000010 []]"
  have d: "is_string_type 0x20000004" "\<not> is_string_type 0x20000010" "der 4 [] = [4, 0]" "der 0x20000004 [4, 0] = [0x24, 2, 4, 0]"
      "der 0x20000010 [0x24, 2, 4, 0] = [0x30, 4, 0x24, 2, 4, 0]" "der 0x20000010 [] = [0x30, 0]"
      "der 0x20000010 [0x30, 4, 0x24, 2, 4, 0, 0x30, 0] = [0x30, 8, 0x30, 4, 0x24, 2, 4, 0, 0x30, 0]"
    by code_simp+
  show "\<not> is_der ?t" by (simp add: d)
  have "convertible [?t]" by (simp add: convertible_def d height.simps)
  from ber_to_der_exact [OF this, of _ heap, OF _ refl]
  show "CBS_asn1_ber_to_der heap [0x30, 8, 0x30, 4, 0x24, 2, 4, 0, 0x30, 0]
      = Some (Some ([0x30, 8, 0x30, 4, 0x24, 2, 4, 0, 0x30, 0], None), [])"
    by (simp add: d)
qed

section \<open>Implicitly tagged strings\<close>

definition chunks :: "u32 \<Rightarrow> u8 list list \<Rightarrow> u8 list" where
  "chunks tag ps = concat (map (der tag) ps)"

definition chunk_sizes :: "u8 list list \<Rightarrow> bool" where
  "chunk_sizes ps \<longleftrightarrow> list_all (\<lambda>p. length p < 2 ^ 32) ps"

lemma chunks_simps [simp]: "chunks tag [] = []" "chunks tag (p # ps) = der tag p @ chunks tag ps"
    "chunk_sizes []" "chunk_sizes (p # ps) \<longleftrightarrow> length p < 2 ^ 32 \<and> chunk_sizes ps"
  by (simp_all add: chunks_def chunk_sizes_def)

context reallocator
begin

lemma add_chunks_appended:
  "chunk_sizes ps \<Longrightarrow> view ra n s c out [] \<Longrightarrow>
    appended ra n ex s c out [] (concat ps) True (add_chunks ra (chunks tag ps) c tag s)"
proof (induction ps arbitrary: s out)
  case Nil
  then show ?case by (subst add_chunks.simps) (simp add: CBS_len_def appended_Nil)
next
  case (Cons p ps)
  have "CBS_get_asn1 (der tag p @ chunks tag ps) tag = (Some p, chunks tag ps)"
    using Cons.prems(1) by (simp add: get_asn1_iff)
  then have e: "add_chunks ra (chunks tag (p # ps)) c tag s
      = and_then (CBB_add_bytes ra c p s) (add_chunks ra (chunks tag ps) c tag)"
    by (subst add_chunks.simps) (simp add: CBS_len_def CBS_data_def)
  have "length p < 2 ^ 63" using Cons.prems(1) by simp
  from appended_and_then [OF add_bytes_appended [OF Cons.prems(2) this] Cons.IH] Cons.prems(1)
  show ?case unfolding e by simp
qed

lemma add_chunks_run:
  assumes "view ra n s c out []"
  shows "\<exists>ok s'. add_chunks ra cbs c tag s = Some (ok, s') \<and> same_root s s'
    \<and> (ok \<longrightarrow> (\<exists>ps. chunk_sizes ps \<and> cbs = chunks tag ps))"
  using assms
proof (induction cbs arbitrary: s out rule: measure_induct_rule [where f = length])
  case (less cbs)
  show ?case
  proof (cases "cbs = []")
    case True
    then have "add_chunks ra cbs c tag s = Some (True, s)"
      by (subst add_chunks.simps) (simp add: CBS_len_def ret_true_def)
    with True show ?thesis using chunks_simps(1) [of tag] chunks_simps(3) same_root_refl by metis
  next
    case False
    obtain r rest where g: "CBS_get_asn1 cbs tag = (r, rest)" by fastforce
    show ?thesis
    proof (cases r)
      case None
      with False g show ?thesis by (subst add_chunks.simps) (auto simp: CBS_len_def ret_false_def)
    next
      case (Some p)
      with g have p: "length p < 2 ^ 32" "cbs = der tag p @ rest" by (simp_all add: get_asn1_iff)
      have e: "add_chunks ra cbs c tag s = and_then (CBB_add_bytes ra c p s) (add_chunks ra rest c tag)"
        using False g Some by (subst add_chunks.simps) (simp add: CBS_len_def CBS_data_def)
      have l: "length p < 2 ^ 63" using p(1) by simp
      from add_bytes_appended [OF less.prems l, of "[]"]
      consider s1 where "CBB_add_bytes ra c p s = Some (True, s1)" "view ra n s1 c (out @ p) []"
        | s1 where "CBB_add_bytes ra c p s = Some (False, s1)"
        by (auto simp: appended_def outcome_def)
      moreover have root: "same_root s s1" if "CBB_add_bytes ra c p s = Some (ok, s1)" for ok s1
        using rootedD [OF that, of snd] keeps_root_call by (simp add: CBB_add_bytes_def)
      ultimately show ?thesis
      proof cases
        case 1
        have "length rest < length cbs" unfolding p(2) by simp
        from less.IH [OF this 1(2)] obtain ok s' where "add_chunks ra rest c tag s1 = Some (ok, s')" "same_root s1 s'"
            "ok \<Longrightarrow> \<exists>ps. chunk_sizes ps \<and> rest = chunks tag ps" by blast
        moreover have "\<exists>ps'. chunk_sizes ps' \<and> cbs = chunks tag ps'" if "chunk_sizes ps" "rest = chunks tag ps" for ps
          using that p by (intro exI [of _ "p # ps"]) simp
        moreover have "same_root s s'" using root [OF 1(1)] \<open>same_root s1 s'\<close> by (rule same_root_trans)
        ultimately show ?thesis unfolding e 1(1) and_then_simps by blast
      next
        case 2
        then show ?thesis using root unfolding e by auto
      qed
    qed
  qed
qed

end

lemma get_der_tag: "cbs = der t p @ rest \<Longrightarrow> fst (parse_asn1_tag cbs) = Some t"
  using parse_tag_der_tag [of t "der_length (length p) @ p @ rest"] by (simp add: der_def der_header_def)

lemma constructed_differs: "t AND 0x20000000 = 0 \<Longrightarrow> t OR 0x20000000 \<noteq> (t :: u32)"
proof
  assume a: "t AND 0x20000000 = 0" "t OR 0x20000000 = t"
  have "(t OR 0x20000000) AND 0x20000000 = (0x20000000 :: u32)" by (rule bit_word_eqI) (auto simp: bit_and_iff bit_or_iff)
  with a show False by simp
qed

text \<open>The constructed case, for the contents \<open>body\<close> of the outer element.\<close>

lemma implicit_constructed:
  assumes tags: "outer AND CBS_ASN1_CONSTRUCTED = 0" "inner AND CBS_ASN1_CONSTRUCTED = 0" "is_string_type inner"
    and cbs: "\<not> CBS_peek_asn1_tag cbs outer" "length cbs < 2 ^ 63 - 8" and n: "n = 0 \<or> supplies heap n"
  shows "\<exists>r rest. CBS_get_asn1_implicit_string heap cbs outer inner = Some (r, rest)
    \<and> (\<forall>out st. r = Some (out, st) \<longrightarrow> st \<noteq> None \<and> (\<exists>ps. chunk_sizes ps \<and> length (chunks inner ps) < 2 ^ 32
         \<and> cbs = der (outer OR CBS_ASN1_CONSTRUCTED) (chunks inner ps) @ rest \<and> out = concat ps))
    \<and> (r = None \<longrightarrow> (\<forall>ps rest. chunk_sizes ps \<and> length (chunks inner ps) < 2 ^ 32
         \<and> cbs = der (outer OR CBS_ASN1_CONSTRUCTED) (chunks inner ps) @ rest \<and> length (concat ps) \<le> n \<longrightarrow> \<not> supplies heap n))"
proof -
  let ?s = "\<lparr>buffer = None, cbbs = \<lambda>_. zero_cbb\<rparr>" and ?ra = "buf_realloc heap" and ?o = "outer OR CBS_ASN1_CONSTRUCTED"
  have u: "unat (word_of_nat (length cbs) :: u64) = length cbs" using cbs(2) by (intro unat_word_of_nat_small) simp
  note start = CBS_get_asn1_implicit_string_def tags cbs(1) Let_def CBS_len_def
  from init_outcome [OF _ n, of "word_of_nat (length cbs)" 0 ?s] cbs(2)
  consider s1 where "\<not> supplies heap n" "CBB_init heap 0 (word_of_nat (length cbs)) ?s = Some (False, s1)" "\<not> is_child (cbbs s1 0)"
    | s1 rest where "CBB_init heap 0 (word_of_nat (length cbs)) ?s = Some (True, s1)"
      "\<not> is_child (cbbs s1 0)" "CBS_get_asn1 cbs ?o = (None, rest)"
    | s1 body rest where "CBB_init heap 0 (word_of_nat (length cbs)) ?s = Some (True, s1)" "view ?ra n s1 0 [] []"
      "\<not> is_child (cbbs s1 0)" "CBS_get_asn1 cbs ?o = (Some body, rest)"
    unfolding u by (cases "CBS_get_asn1 cbs ?o"; cases "fst (CBS_get_asn1 cbs ?o)") auto
  then show ?thesis
  proof cases
    case 1
    then show ?thesis by (simp add: start CBB_cleanup_def)
  next
    case 2
    have "length p < 2 ^ 32 \<Longrightarrow> cbs \<noteq> der ?o p @ rest'" for p rest' using 2(3) get_asn1_iff [of cbs ?o p rest'] by auto
    moreover from 2 have "CBS_get_asn1_implicit_string heap cbs outer inner = Some (None, rest)"
      by (simp add: start CBB_cleanup_def)
    ultimately show ?thesis by blast
  next
    case 3
    then have body: "length body < 2 ^ 32" "cbs = der ?o body @ rest" by (simp_all add: get_asn1_iff)
    have unique: "chunks inner ps = body" if "length (chunks inner ps) < 2 ^ 32" "cbs = der ?o (chunks inner ps) @ rest'" for ps rest'
      using that 3(4) get_asn1_iff [of cbs ?o "chunks inner ps" rest'] by simp
    note ap = grow.add_chunks_appended [where ex = "[]", OF _ 3(2), of _ inner, unfolded appended_def]
    from grow.add_chunks_run [OF 3(2), of body inner] obtain ok s2 where r: "add_chunks ?ra body 0 inner s1 = Some (ok, s2)"
        "same_root s1 s2" "ok \<Longrightarrow> \<exists>ps. chunk_sizes ps \<and> body = chunks inner ps" by blast
    have root: "\<not> is_child (cbbs s2 0)" using r(2) 3(3) by (simp add: same_root_def)
    show ?thesis
    proof (cases ok)
      case False
      then have "CBS_get_asn1_implicit_string heap cbs outer inner = Some (None, rest)"
        using 3 r root by (simp add: start CBB_cleanup_def)
      moreover have "\<not> length (concat ps) \<le> n" if "chunk_sizes ps" "body = chunks inner ps" for ps
        using ap [OF that(1)] r(1) False that(2) by (auto simp: outcome_def)
      ultimately show ?thesis using unique by blast
    next
      case True
      with r(3) obtain ps where ps: "chunk_sizes ps" "body = chunks inner ps" by blast
      have "view ?ra n s2 0 (concat ps) []" using ap [OF ps(1)] r(1) True ps(2) by (auto simp: outcome_def)
      from finish_flat [OF this root] obtain d l s3 where
        "CBB_finish ?ra 0 False False s2 = Some (Some (d, l), s3)" "take (unat l) d = concat ps" by blast
      then have "CBS_get_asn1_implicit_string heap cbs outer inner = Some (Some (concat ps, Some d), rest)"
        using 3 r True by (simp add: start CBS_init_def)
      with ps body show ?thesis by auto
    qed
  qed
qed

text \<open>What the documentation of the function says: the contents of a primitive element, or those of the
  primitive fragments of a constructed one.\<close>

definition implicit_string :: "u32 \<Rightarrow> u32 \<Rightarrow> u8 list \<Rightarrow> u8 list \<Rightarrow> u8 list \<Rightarrow> bool" where
  "implicit_string outer inner cbs out rest \<longleftrightarrow>
     length out < 2 ^ 32 \<and> cbs = der outer out @ rest
     \<or> (\<exists>ps. chunk_sizes ps \<and> length (chunks inner ps) < 2 ^ 32
          \<and> cbs = der (outer OR CBS_ASN1_CONSTRUCTED) (chunks inner ps) @ rest \<and> out = concat ps)"

text \<open>C32: implicitly tagged strings: CBS_get_asn1_implicit_string returns on every input. It accepts exactly a primitive
  element with the outer tag, and a constructed one whose contents are primitive fragments with the inner tag, and gives
  the contents or the fragments put together; with memory for them it does not fail on these.\<close>

theorem implicit_string_exact:
  assumes "outer AND CBS_ASN1_CONSTRUCTED = 0" "inner AND CBS_ASN1_CONSTRUCTED = 0" "is_string_type inner"
    and "length cbs < 2 ^ 63 - 8"
  shows "\<exists>r rest. CBS_get_asn1_implicit_string heap cbs outer inner = Some (r, rest)
    \<and> (\<forall>out st. r = Some (out, st) \<longrightarrow> implicit_string outer inner cbs out rest)
    \<and> (r = None \<longrightarrow> (\<forall>out rest. implicit_string outer inner cbs out rest \<longrightarrow> \<not> supplies heap (length out)))"
proof (cases "CBS_peek_asn1_tag cbs outer")
  case True
  obtain r rest where g: "CBS_get_asn1 cbs outer = (r, rest)" by fastforce
  have c: "cbs \<noteq> der (outer OR CBS_ASN1_CONSTRUCTED) p @ rest'" for p rest'
  proof
    assume "cbs = der (outer OR CBS_ASN1_CONSTRUCTED) p @ rest'"
    with get_der_tag [OF this] True constructed_differs [OF assms(1)] show False
      by (auto simp: CBS_peek_asn1_tag_def split: if_splits)
  qed
  have r: "CBS_get_asn1_implicit_string heap cbs outer inner = Some (map_option (\<lambda>out. (out, None)) r, rest)"
    using True assms(1-3) g by (simp add: CBS_get_asn1_implicit_string_def)
  have "implicit_string outer inner cbs out rest' \<longleftrightarrow> r = Some out \<and> rest = rest'" for out rest'
    using g get_asn1_iff [of cbs outer out rest'] c by (auto simp: implicit_string_def)
  then show ?thesis unfolding r by auto
next
  case False
  have p: "cbs \<noteq> der outer p @ rest" for p rest
  proof
    assume "cbs = der outer p @ rest"
    with get_der_tag [OF this] False show False by (simp add: CBS_peek_asn1_tag_def CBS_len_def)
  qed
  show ?thesis
  proof (cases "\<exists>out rest. implicit_string outer inner cbs out rest \<and> supplies heap (length out)")
    case True
    then obtain out rest where o: "implicit_string outer inner cbs out rest" "supplies heap (length out)" by blast
    from implicit_constructed [OF assms(1-3) False assms(4), of "length out" heap] o p
    show ?thesis unfolding implicit_string_def by blast
  next
    case none: False
    from implicit_constructed [OF assms(1-3) False assms(4), of 0 heap]
    obtain r rest where "CBS_get_asn1_implicit_string heap cbs outer inner = Some (r, rest)"
        "\<forall>out st. r = Some (out, st) \<longrightarrow> implicit_string outer inner cbs out rest"
      unfolding implicit_string_def by blast
    with none show ?thesis by blast
  qed
qed

theorem implicit_string_exact_witness:
  "\<exists>out st rest. CBS_get_asn1_implicit_string (\<lambda>_. Some (\<lambda>_. 0)) [0xa0, 7, 4, 1, 1, 4, 2, 2, 3] 0x80000000 4
     = Some (Some (out, st), rest)"
proof -
  have "(0x80000000 :: u32) AND 0x20000000 = 0" "(4 :: u32) AND 0x20000000 = 0" "is_string_type 4" by code_simp+
  note t = implicit_string_exact [OF this, of "[0xa0, 7, 4, 1, 1, 4, 2, 2, 3]" "\<lambda>_. Some (\<lambda>_. 0)"]
  have b: "der 0xa0000000 [4, 1, 1, 4, 2, 2, 3] = [0xa0, 7, 4, 1, 1, 4, 2, 2, 3]"
      "der 4 [1] = [4, 1, 1]" "der 4 [2, 3] = [4, 2, 2, 3]" by code_simp+
  have "implicit_string 0x80000000 4 [0xa0, 7, 4, 1, 1, 4, 2, 2, 3] [1, 2, 3] []"
    unfolding implicit_string_def
    by (rule disjI2, rule exI [of _ "[[1], [2, 3]]"]) (simp add: b)
  moreover have "supplies (\<lambda>_. Some (\<lambda>_. 0)) (length [1, 2, 3 :: u8])" by (simp add: supplies_zeros)
  ultimately show ?thesis using t by (simp, metis option.exhaust surj_pair)
qed

end
