(* ===== verification/Pool.thy ===== *)
theory Pool
  imports Lhash_Refine Cbb_Asn1
begin

text \<open>
  Reference-counted buffers and the pool that shares equal ones (\<^verbatim>\<open>crypto/pool/pool.c\<close>,
  \<^verbatim>\<open>refcount_c11.c\<close>). The data, the length and the pool pointer of a buffer do not change once it is made, so a
  pointer to it is a record of these with its address; the store holds the reference counts of the buffers that are
  allocated. The functions are cut where they take and release the lock of the pool: each piece is
  atomic, as are the operations on a reference count. There is one pool here; buffers without a pool
  have a null pool pointer. \<open>None\<close> is undefined behaviour (a freed buffer, bytes outside of the data), a
  failed assertion or \<^verbatim>\<open>abort\<close>.
\<close>

section \<open>Buffers and reference counts\<close>

record crypto_buffer =
  buf_addr :: nat
  buf_data :: "u8 list"
  buf_len :: u64
  buf_pooled :: bool

record pool_state =
  bufs :: "crypto_buffer lhash"
  references :: "nat \<Rightarrow> u32 option"

abbreviation (input) "CRYPTO_REFCOUNT_MAX \<equiv> 0xffffffff :: u32"

definition CRYPTO_refcount_inc :: "u32 \<Rightarrow> u32" where
  "CRYPTO_refcount_inc expected = (if expected \<noteq> CRYPTO_REFCOUNT_MAX then expected + 1 else expected)"

text \<open>Whether the count is zero now, and the count. \<open>None\<close> is \<^verbatim>\<open>abort\<close>.\<close>

definition CRYPTO_refcount_dec_and_test_zero :: "u32 \<Rightarrow> (bool \<times> u32) option" where
  "CRYPTO_refcount_dec_and_test_zero expected =
     (if expected = 0 then None
      else if expected = CRYPTO_REFCOUNT_MAX then Some (False, expected)
      else let new_value = expected - 1 in Some (new_value = 0, new_value))"

definition CRYPTO_BUFFER_hash :: "crypto_buffer \<Rightarrow> u32 option" where
  "CRYPTO_BUFFER_hash bf =
     (if length (buf_data bf) < unat (buf_len bf) then None
      else Some (OPENSSL_hash32 (take (unat (buf_len bf)) (buf_data bf))))"

definition CRYPTO_BUFFER_cmp :: "crypto_buffer \<Rightarrow> crypto_buffer \<Rightarrow> int option" where
  "CRYPTO_BUFFER_cmp a b =
     (if buf_len a \<noteq> buf_len b then Some 1
      else if length (buf_data a) < unat (buf_len a) \<or> length (buf_data b) < unat (buf_len a) then None
      else Some (OPENSSL_memcmp (buf_data a) (buf_data b) (unat (buf_len a))))"

text \<open>A use of the count at an address, and the end of a buffer.\<close>

definition buffer_inc :: "crypto_buffer \<Rightarrow> pool_state \<Rightarrow> pool_state option" where
  "buffer_inc bf st = map_option (\<lambda>n. st\<lparr>references := (references st)(buf_addr bf \<mapsto> CRYPTO_refcount_inc n)\<rparr>)
     (references st (buf_addr bf))"

definition release_buffer :: "crypto_buffer \<Rightarrow> pool_state \<Rightarrow> pool_state" where
  "release_buffer bf st = st\<lparr>references := (references st)(buf_addr bf := None)\<rparr>"

section \<open>Pools\<close>

text \<open>The size is \<^verbatim>\<open>sizeof(CRYPTO_BUFFER_POOL)\<close>, with a \<^verbatim>\<open>pthread_rwlock_t\<close> of 200 bytes. \<open>Some None\<close> is \<^verbatim>\<open>NULL\<close>.\<close>

definition CRYPTO_BUFFER_POOL_new :: "heap \<Rightarrow> crypto_buffer lhash option option" where
  "CRYPTO_BUFFER_POOL_new heap =
     (case allocated heap 208 of
        None \<Rightarrow> None
      | Some False \<Rightarrow> Some None
      | Some True \<Rightarrow> lh_new heap CRYPTO_BUFFER_hash CRYPTO_BUFFER_cmp)"

definition CRYPTO_BUFFER_POOL_free :: "pool_state option \<Rightarrow> unit option" where
  "CRYPTO_BUFFER_POOL_free pool =
     (case pool of
        None \<Rightarrow> Some ()
      | Some st \<Rightarrow> if lh_num_items (bufs st) \<noteq> 0 then None else Some ())"

section \<open>Making buffers\<close>

text \<open>The first piece of \<^verbatim>\<open>CRYPTO_BUFFER_new\<close>: the search under the lock for reading.\<close>

definition pool_lookup :: "u8 list \<Rightarrow> u64 \<Rightarrow> pool_state \<Rightarrow> (crypto_buffer option \<times> pool_state) option" where
  "pool_lookup data len st =
     (let tmp = \<lparr>buf_addr = 0, buf_data = data, buf_len = len, buf_pooled = False\<rparr> in
      case lh_retrieve (bufs st) tmp of
        None \<Rightarrow> None
      | Some None \<Rightarrow> Some (None, st)
      | Some (Some duplicate) \<Rightarrow> map_option (\<lambda>st. (Some duplicate, st)) (buffer_inc duplicate st))"

text \<open>
  The second piece: a new buffer with one reference, at the address that \<^verbatim>\<open>malloc\<close> gives;
  \<open>Some None\<close> where memory runs out. The size is \<^verbatim>\<open>sizeof(CRYPTO_BUFFER)\<close>.
\<close>

definition make_buffer :: "heap \<Rightarrow> nat \<Rightarrow> u8 list \<Rightarrow> u64 \<Rightarrow> bool \<Rightarrow> crypto_buffer option option" where
  "make_buffer heap addr data len pooled =
     (case allocated heap 32 of
        None \<Rightarrow> None
      | Some False \<Rightarrow> Some None
      | Some True \<Rightarrow>
          (case OPENSSL_memdup heap data (unat len) of
             None \<Rightarrow> None
           | Some copy \<Rightarrow>
               if len \<noteq> 0 \<and> copy = None then Some None
               else Some (Some \<lparr>buf_addr = addr, buf_data = (case copy of None \<Rightarrow> [] | Some ptr \<Rightarrow> user_bytes ptr),
                 buf_len = len, buf_pooled = pooled\<rparr>)))"

definition first_reference :: "crypto_buffer \<Rightarrow> pool_state \<Rightarrow> pool_state" where
  "first_reference bf st = st\<lparr>references := (references st)(buf_addr bf \<mapsto> 1)\<rparr>"

text \<open>
  The third piece: the search and the insertion under the lock for writing, and the return. The
  buffer is freed when an equal one is there by now, or when the table has no memory for it.
\<close>

definition pool_insert :: "heap \<Rightarrow> crypto_buffer \<Rightarrow> pool_state \<Rightarrow> (crypto_buffer option \<times> pool_state) option" where
  "pool_insert heap bf st =
     (case lh_retrieve (bufs st) bf of
        None \<Rightarrow> None
      | Some (Some duplicate) \<Rightarrow>
          map_option (\<lambda>st. (Some duplicate, release_buffer bf st)) (buffer_inc duplicate st)
      | Some None \<Rightarrow>
          (case lh_insert heap (bufs st) bf of
             None \<Rightarrow> None
           | Some ((inserted, old), table) \<Rightarrow>
               if old \<noteq> None then None
               else let st = st\<lparr>bufs := table\<rparr> in
                 if \<not> inserted then Some (None, release_buffer bf st) else Some (Some bf, st)))"

text \<open>A whole call with no other thread in between. \<open>pool\<close> says whether the pool pointer is set.\<close>

definition CRYPTO_BUFFER_new ::
    "heap \<Rightarrow> nat \<Rightarrow> u8 list \<Rightarrow> u64 \<Rightarrow> bool \<Rightarrow> pool_state \<Rightarrow> (crypto_buffer option \<times> pool_state) option" where
  "CRYPTO_BUFFER_new heap addr data len pool st =
     (case (if pool then pool_lookup data len st else Some (None, st)) of
        None \<Rightarrow> None
      | Some (Some duplicate, st) \<Rightarrow> Some (Some duplicate, st)
      | Some (None, st) \<Rightarrow>
          (case make_buffer heap addr data len pool of
             None \<Rightarrow> None
           | Some None \<Rightarrow> Some (None, st)
           | Some (Some bf) \<Rightarrow>
               if \<not> pool then Some (Some bf, first_reference bf st)
               else pool_insert heap bf (first_reference bf st)))"

text \<open>The buffer has arbitrary contents, which the caller writes through \<^verbatim>\<open>*out_data\<close>.\<close>

definition CRYPTO_BUFFER_alloc :: "heap \<Rightarrow> nat \<Rightarrow> u64 \<Rightarrow> pool_state \<Rightarrow> (crypto_buffer option \<times> pool_state) option" where
  "CRYPTO_BUFFER_alloc heap addr len st =
     (case allocated heap 32 of
        None \<Rightarrow> None
      | Some False \<Rightarrow> Some (None, st)
      | Some True \<Rightarrow>
          (case OPENSSL_malloc heap len of
             None \<Rightarrow> None
           | Some ptr \<Rightarrow>
               if len \<noteq> 0 \<and> ptr = None then Some (None, st)
               else let bf = \<lparr>buf_addr = addr, buf_data = (case ptr of None \<Rightarrow> [] | Some ptr \<Rightarrow> user_bytes ptr),
                   buf_len = len, buf_pooled = False\<rparr>
                 in Some (Some bf, first_reference bf st)))"

definition CRYPTO_BUFFER_new_from_CBS ::
    "heap \<Rightarrow> nat \<Rightarrow> cbs \<Rightarrow> bool \<Rightarrow> pool_state \<Rightarrow> (crypto_buffer option \<times> pool_state) option" where
  "CRYPTO_BUFFER_new_from_CBS heap addr cbs pool st =
     CRYPTO_BUFFER_new heap addr (CBS_data cbs) (word_of_nat (CBS_len cbs)) pool st"

section \<open>Using buffers\<close>

definition CRYPTO_BUFFER_up_ref :: "crypto_buffer \<Rightarrow> pool_state \<Rightarrow> (int \<times> pool_state) option" where
  "CRYPTO_BUFFER_up_ref bf st = map_option (\<lambda>st. (1, st)) (buffer_inc bf st)"

definition CRYPTO_BUFFER_free :: "heap \<Rightarrow> crypto_buffer option \<Rightarrow> pool_state \<Rightarrow> pool_state option" where
  "CRYPTO_BUFFER_free heap bf st =
     (case bf of
        None \<Rightarrow> Some st
      | Some bf \<Rightarrow>
          (case Option.bind (references st (buf_addr bf)) CRYPTO_refcount_dec_and_test_zero of
             None \<Rightarrow> None
           | Some (is_zero, n) \<Rightarrow>
               let st = st\<lparr>references := (references st)(buf_addr bf \<mapsto> n)\<rparr> in
               if \<not> is_zero then Some st
               else if \<not> buf_pooled bf then Some (release_buffer bf st)
               else (case lh_delete heap (bufs st) bf of
                   None \<Rightarrow> None
                 | Some (None, _) \<Rightarrow> None
                 | Some (Some found, table) \<Rightarrow>
                     if buf_addr found \<noteq> buf_addr bf then None
                     else Some (release_buffer bf (st\<lparr>bufs := table\<rparr>)))))"

definition CRYPTO_BUFFER_data :: "crypto_buffer \<Rightarrow> u8 list" where
  "CRYPTO_BUFFER_data bf = buf_data bf"

definition CRYPTO_BUFFER_len :: "crypto_buffer \<Rightarrow> u64" where
  "CRYPTO_BUFFER_len bf = buf_len bf"

definition CRYPTO_BUFFER_init_CBS :: "crypto_buffer \<Rightarrow> cbs" where
  "CRYPTO_BUFFER_init_CBS bf = CBS_init (buf_data bf) (unat (buf_len bf))"

end
