(* ===== verification/Pool_Safe.thy ===== *)
theory Pool_Safe
  imports Pool Lhash_Properties Cbb_Set_Of
begin

text \<open>
  The pool under every interleaving of its users. A system is the pool with the references that
  the users hold and the buffers that calls of \<^verbatim>\<open>CRYPTO_BUFFER_new\<close> have made and not yet brought into
  the table; a step is an atomic piece of a call. The invariant relates the store of reference counts
  to the references held, and the table, through the contract of the hash tables, to the buffers.
\<close>

section \<open>The table of the pool\<close>

definition buf_bytes :: "crypto_buffer \<Rightarrow> u8 list" where
  "buf_bytes b = take (unat (buf_len b)) (buf_data b)"

definition whole :: "crypto_buffer \<Rightarrow> bool" where
  "whole b \<longleftrightarrow> unat (buf_len b) \<le> length (buf_data b)"

lemma hash_bytes: "whole b \<Longrightarrow> CRYPTO_BUFFER_hash b = Some (OPENSSL_hash32 (buf_bytes b))"
  by (simp add: CRYPTO_BUFFER_hash_def whole_def buf_bytes_def)

lemma cmp_bytes: "whole a \<Longrightarrow> whole b \<Longrightarrow> \<exists>c. CRYPTO_BUFFER_cmp a b = Some c \<and> (c = 0 \<longleftrightarrow> buf_bytes a = buf_bytes b)"
proof -
  assume w: "whole a" "whole b"
  then have l: "length (buf_bytes a) = unat (buf_len a)" "length (buf_bytes b) = unat (buf_len b)"
    by (simp_all add: whole_def buf_bytes_def)
  show ?thesis
  proof (cases "buf_len a = buf_len b")
    case True
    with w show ?thesis by (simp add: CRYPTO_BUFFER_cmp_def whole_def buf_bytes_def memcmp_prefix_zero)
  next
    case False
    then have "buf_bytes a \<noteq> buf_bytes b" using l by (metis word_unat_eq_iff)
    with False show ?thesis by (simp add: CRYPTO_BUFFER_cmp_def)
  qed
qed

interpretation buffers: hash_keys CRYPTO_BUFFER_hash CRYPTO_BUFFER_cmp whole buf_bytes OPENSSL_hash32
  by unfold_locales (simp_all add: hash_bytes cmp_bytes)

section \<open>Steps\<close>

record system =
  pool :: pool_state
  owned :: "crypto_buffer multiset"
  pending :: "crypto_buffer multiset"

text \<open>\<^verbatim>\<open>malloc\<close> gives a buffer an address that no allocated buffer has.\<close>

definition fresh :: "nat \<Rightarrow> pool_state \<Rightarrow> bool" where
  "fresh addr st \<longleftrightarrow> references st addr = None \<and> addr < 2 ^ 63"

definition object :: "u8 list \<Rightarrow> u64 \<Rightarrow> bool" where
  "object data n \<longleftrightarrow> unat n \<le> length data \<and> unat n < 2 ^ 63"

fun result_of :: "'a option \<Rightarrow> 'a multiset" where
  "result_of None = {#}"
| "result_of (Some b) = {#b#}"

inductive pool_step :: "system \<Rightarrow> system \<Rightarrow> bool" where
  found: "object data n \<Longrightarrow> pool_lookup data n (pool s) = Some (r, st) \<Longrightarrow>
    pool_step s (s\<lparr>pool := st, owned := result_of r + owned s\<rparr>)"
| made: "object data n \<Longrightarrow> fresh addr (pool s) \<Longrightarrow> make_buffer heap addr data n False = Some (Some b) \<Longrightarrow>
    pool_step s (s\<lparr>pool := first_reference b (pool s), owned := add_mset b (owned s)\<rparr>)"
| made_pooled: "object data n \<Longrightarrow> fresh addr (pool s) \<Longrightarrow> make_buffer heap addr data n True = Some (Some b) \<Longrightarrow>
    pool_step s (s\<lparr>pool := first_reference b (pool s), pending := add_mset b (pending s)\<rparr>)"
| inserted: "b \<in># pending s \<Longrightarrow> pool_insert heap b (pool s) = Some (r, st) \<Longrightarrow>
    pool_step s (s\<lparr>pool := st, owned := result_of r + owned s, pending := pending s - {#b#}\<rparr>)"
| alloced: "unat n < 2 ^ 63 \<Longrightarrow> fresh addr (pool s) \<Longrightarrow> CRYPTO_BUFFER_alloc heap addr n (pool s) = Some (r, st) \<Longrightarrow>
    pool_step s (s\<lparr>pool := st, owned := result_of r + owned s\<rparr>)"
| shared: "b \<in># owned s \<Longrightarrow> CRYPTO_BUFFER_up_ref b (pool s) = Some (ret, st) \<Longrightarrow>
    pool_step s (s\<lparr>pool := st, owned := add_mset b (owned s)\<rparr>)"
| freed: "b \<in># owned s \<Longrightarrow> CRYPTO_BUFFER_free heap (Some b) (pool s) = Some st \<Longrightarrow>
    pool_step s (s\<lparr>pool := st, owned := owned s - {#b#}\<rparr>)"

inductive pool_reachable :: "system \<Rightarrow> bool" where
  start: "CRYPTO_BUFFER_POOL_new heap = Some (Some table) \<Longrightarrow>
    pool_reachable \<lparr>pool = \<lparr>bufs = table, references = Map.empty\<rparr>, owned = {#}, pending = {#}\<rparr>"
| "step": "pool_reachable s \<Longrightarrow> pool_step s s' \<Longrightarrow> pool_reachable s'"

section \<open>The invariant\<close>

text \<open>\<open>A\<close> gives the buffer at an address and \<open>m\<close> is the contents of the table.\<close>

definition counted :: "u32 \<Rightarrow> nat \<Rightarrow> bool" where
  "counted c n \<longleftrightarrow> c \<noteq> 0 \<and> (c = CRYPTO_REFCOUNT_MAX \<or> unat c = n)"

definition consistent ::
    "pool_state \<Rightarrow> crypto_buffer multiset \<Rightarrow> crypto_buffer multiset \<Rightarrow> (u8 list \<rightharpoonup> crypto_buffer) \<Rightarrow> (nat \<rightharpoonup> crypto_buffer) \<Rightarrow> bool" where
  "consistent st ow pe m A \<longleftrightarrow>
     buffers.represents (bufs st) m \<and> dom A = dom (references st)
     \<and> (\<forall>a b. A a = Some b \<longrightarrow> buf_addr b = a \<and> a < 2 ^ 63 \<and> whole b
          \<and> (\<exists>c. references st a = Some c \<and> counted c (count ow b + count pe b)))
     \<and> (\<forall>b. b \<in># ow \<longrightarrow> A (buf_addr b) = Some b)
     \<and> (\<forall>b. b \<in># pe \<longrightarrow> A (buf_addr b) = Some b \<and> buf_pooled b \<and> references st (buf_addr b) = Some 1)
     \<and> (\<forall>k b. m k = Some b \<longleftrightarrow> A (buf_addr b) = Some b \<and> buf_pooled b \<and> b \<notin># pe \<and> buf_bytes b = k)"

lemma consistentD:
  assumes "consistent st ow pe m A"
  shows "buffers.represents (bufs st) m" and "dom A = dom (references st)"
    and "A a = Some b \<Longrightarrow> buf_addr b = a" and "A a = Some b \<Longrightarrow> a < 2 ^ 63" and "A a = Some b \<Longrightarrow> whole b"
    and "A a = Some b \<Longrightarrow> \<exists>c. references st a = Some c \<and> counted c (count ow b + count pe b)"
    and "b \<in># ow \<Longrightarrow> A (buf_addr b) = Some b" and "b \<in># pe \<Longrightarrow> A (buf_addr b) = Some b"
    and "b \<in># pe \<Longrightarrow> buf_pooled b" and "b \<in># pe \<Longrightarrow> references st (buf_addr b) = Some 1"
    and "m k = Some b \<longleftrightarrow> A (buf_addr b) = Some b \<and> buf_pooled b \<and> b \<notin># pe \<and> buf_bytes b = k"
  using assms unfolding consistent_def by blast+

lemma consistentI:
  assumes "buffers.represents (bufs st) m" and "dom A = dom (references st)"
    and "\<And>a b. A a = Some b \<Longrightarrow> buf_addr b = a \<and> a < 2 ^ 63 \<and> whole b"
    and "\<And>a b. A a = Some b \<Longrightarrow> \<exists>c. references st a = Some c \<and> counted c (count ow b + count pe b)"
    and "\<And>b. b \<in># ow \<Longrightarrow> A (buf_addr b) = Some b"
    and "\<And>b. b \<in># pe \<Longrightarrow> A (buf_addr b) = Some b \<and> buf_pooled b \<and> references st (buf_addr b) = Some 1"
    and "\<And>k b. m k = Some b \<longleftrightarrow> A (buf_addr b) = Some b \<and> buf_pooled b \<and> b \<notin># pe \<and> buf_bytes b = k"
  shows "consistent st ow pe m A"
  using assms unfolding consistent_def by blast

lemma consistent_room: "consistent st ow pe m A \<Longrightarrow> card (dom m) + 1 < 2 ^ 64"
proof -
  assume c: "consistent st ow pe m A"
  note C = consistentD [OF c]
  have "inj_on (\<lambda>k. buf_addr (the (m k))) (dom m)"
  proof (rule inj_onI)
    fix k l assume "k \<in> dom m" "l \<in> dom m" and e: "buf_addr (the (m k)) = buf_addr (the (m l))"
    then obtain b d where m: "m k = Some b" "m l = Some d" by blast
    with C(11) e have "A (buf_addr b) = Some b" "A (buf_addr b) = Some d" by auto
    with m C(11) show "k = l" by auto
  qed
  moreover have "(\<lambda>k. buf_addr (the (m k))) ` dom m \<subseteq> {..<2 ^ 63}"
  proof (rule image_subsetI)
    fix k assume "k \<in> dom m"
    then obtain b where b: "m k = Some b" by blast
    then have "A (buf_addr b) = Some b" using C(11) by simp
    from C(4) [OF this] b show "buf_addr (the (m k)) \<in> {..<2 ^ 63}" by simp
  qed
  ultimately have "card (dom m) \<le> card {..<2 ^ 63 :: nat}" by (rule card_inj_on_le) (rule finite_lessThan)
  then show ?thesis by simp
qed

lemma counted_inc: "counted c n \<Longrightarrow> counted (CRYPTO_refcount_inc c) (Suc n)"
proof (cases "c = CRYPTO_REFCOUNT_MAX")
  case False
  assume c: "counted c n"
  have "1 + c \<noteq> 0"
  proof
    assume "1 + c = 0"
    then have "c = - 1" by (simp add: eq_neg_iff_add_eq_0 add.commute)
    with False show False by simp
  qed
  then have "unat (c + 1) = Suc (unat c)" using unatSuc [of c] by (simp add: add.commute)
  with c False show ?thesis by (auto simp: counted_def CRYPTO_refcount_inc_def)
qed (simp add: counted_def CRYPTO_refcount_inc_def)


lemma counted_dec:
  assumes "counted c (Suc n)"
  obtains (last) "c = 1" "n = 0" "CRYPTO_refcount_dec_and_test_zero c = Some (True, 0)"
  | (more) c' where "CRYPTO_refcount_dec_and_test_zero c = Some (False, c')" "counted c' n"
proof (cases "c = CRYPTO_REFCOUNT_MAX")
  case True
  then show ?thesis using more by (simp add: CRYPTO_refcount_dec_and_test_zero_def counted_def)
next
  case False
  with assms have c: "c \<noteq> 0" "unat c = Suc n" by (auto simp: counted_def)
  then have u: "unat (c - 1) = n" using unat_minus_one [of c] by simp
  show ?thesis
  proof (cases "n = 0")
    case True
    with c have "c = 1" by (simp add: word_unat_eq_iff)
    with True show ?thesis using last by (simp add: CRYPTO_refcount_dec_and_test_zero_def)
  next
    case n: False
    with u have "c - 1 \<noteq> 0" by auto
    with c u False show ?thesis using more by (simp add: CRYPTO_refcount_dec_and_test_zero_def counted_def)
  qed
qed

text \<open>A change of the buffer at one address, of the references to it, and of the table.\<close>

definition at_address ::
    "nat \<Rightarrow> crypto_buffer option \<Rightarrow> u32 option \<Rightarrow> crypto_buffer multiset \<Rightarrow> crypto_buffer multiset \<Rightarrow> bool" where
  "at_address a y x ow pe \<longleftrightarrow>
     (\<forall>d. buf_addr d = a \<and> (d \<in># ow \<or> d \<in># pe) \<longrightarrow> y = Some d)
     \<and> (case y of
          None \<Rightarrow> x = None
        | Some b \<Rightarrow> buf_addr b = a \<and> a < 2 ^ 63 \<and> whole b \<and> (\<exists>c. x = Some c \<and> counted c (count ow b + count pe b))
            \<and> (b \<in># pe \<longrightarrow> buf_pooled b \<and> x = Some 1))"

lemma consistent_update:
  assumes c: "consistent st ow pe m A"
    and r: "references st' = (references st)(a := x)" "A' = A(a := y)"
    and o: "\<And>d. buf_addr d \<noteq> a \<Longrightarrow> count ow' d = count ow d \<and> count pe' d = count pe d"
    and y: "at_address a y x ow' pe'"
    and t: "buffers.represents (bufs st') m'"
    and m: "\<And>k d. m' k = Some d \<longleftrightarrow> A' (buf_addr d) = Some d \<and> buf_pooled d \<and> d \<notin># pe' \<and> buf_bytes d = k"
  shows "consistent st' ow' pe' m' A'"
proof (rule consistentI)
  note C = consistentD [OF c]
  have o': "d \<in># ow' \<longleftrightarrow> d \<in># ow" "d \<in># pe' \<longleftrightarrow> d \<in># pe" if "buf_addr d \<noteq> a" for d
    using o [OF that] by (metis not_in_iff)+
  show "buffers.represents (bufs st') m'" by (rule t)
  have "x = None \<longleftrightarrow> y = None" using y by (auto simp: at_address_def split: option.splits)
  then show "dom A' = dom (references st')" using C(2) by (auto simp: r dom_def)
  show "buf_addr d = a' \<and> a' < 2 ^ 63 \<and> whole d" if "A' a' = Some d" for a' d
    using that y C(3-5) [of a' d] by (auto simp: r at_address_def split: if_splits option.splits)
  show "\<exists>c. references st' a' = Some c \<and> counted c (count ow' d + count pe' d)" if "A' a' = Some d" for a' d
  proof (cases "a' = a")
    case True
    with that y show ?thesis by (simp add: r at_address_def)
  next
    case False
    with that have "A a' = Some d" by (simp add: r)
    from C(3) [OF this] C(6) [OF this] False o [of d] show ?thesis by (simp add: r)
  qed
  show "A' (buf_addr d) = Some d" if "d \<in># ow'" for d
    using that y o'(1) [of d] C(7) [of d] by (cases "buf_addr d = a") (auto simp: r at_address_def)
  show "A' (buf_addr d) = Some d \<and> buf_pooled d \<and> references st' (buf_addr d) = Some 1" if "d \<in># pe'" for d
    using that y o'(2) [of d] C(8-10) [of d] by (cases "buf_addr d = a") (auto simp: r at_address_def)
  show "m' k = Some d \<longleftrightarrow> A' (buf_addr d) = Some d \<and> buf_pooled d \<and> d \<notin># pe' \<and> buf_bytes d = k" for k d by (rule m)
qed

text \<open>A buffer has its address to itself.\<close>

lemma alone:
  assumes c: "consistent st ow pe m A" and b: "A (buf_addr b) = Some b"
  shows "\<forall>d. buf_addr d = buf_addr b \<and> (d \<in># ow \<or> d \<in># pe) \<longrightarrow> b = d"
proof (intro allI impI)
  fix d assume "buf_addr d = buf_addr b \<and> (d \<in># ow \<or> d \<in># pe)"
  with consistentD(7,8) [OF c, of d] b show "b = d" by auto
qed

lemma consistent_inc:
  assumes c: "consistent st ow pe m A" and b: "A (buf_addr b) = Some b" "b \<notin># pe"
  shows "\<exists>st'. buffer_inc b st = Some st' \<and> bufs st' = bufs st \<and> consistent st' (add_mset b ow) pe m A"
proof -
  note C = consistentD [OF c]
  obtain n where n: "references st (buf_addr b) = Some n" "counted n (count ow b + count pe b)" using C(6) b by blast
  let ?st = "st\<lparr>references := (references st)(buf_addr b \<mapsto> CRYPTO_refcount_inc n)\<rparr>"
  have "counted (CRYPTO_refcount_inc n) (Suc (count ow b + count pe b))" using n(2) by (rule counted_inc)
  then have y: "at_address (buf_addr b) (Some b) (Some (CRYPTO_refcount_inc n)) (add_mset b ow) pe"
    using alone [OF c b(1)] C(4,5) [OF b(1)] b(2) by (auto simp: at_address_def)
  have "consistent ?st (add_mset b ow) pe m A"
    by (rule consistent_update [OF c _ _ _ y]) (use b C(1,11) in \<open>auto simp: fun_upd_idem\<close>)
  with n show ?thesis by (simp add: buffer_inc_def)
qed

lemma consistent_first:
  assumes c: "consistent st ow pe m A" and f: "fresh (buf_addr b) st" "whole b"
  shows "\<not> buf_pooled b \<Longrightarrow> consistent (first_reference b st) (add_mset b ow) pe m (A(buf_addr b \<mapsto> b))" (is "_ \<Longrightarrow> ?u")
    and "buf_pooled b \<Longrightarrow> consistent (first_reference b st) ow (add_mset b pe) m (A(buf_addr b \<mapsto> b))" (is "_ \<Longrightarrow> ?p")
proof -
  note C = consistentD [OF c]
  have n: "A (buf_addr b) = None" using C(2) f(1) by (metis domIff fresh_def)
  have nb: "d \<notin># ow" "d \<notin># pe" if "buf_addr d = buf_addr b" for d
    using n C(7,8) [of d] that by auto
  then have k: "count ow b = 0" "count pe b = 0" by (simp_all add: not_in_iff)
  have u: "counted 1 (Suc 0)" by (simp add: counted_def)
  have r: "references (first_reference b st) = (references st)(buf_addr b \<mapsto> 1)" "bufs (first_reference b st) = bufs st"
    by (simp_all add: first_reference_def)
  show ?u if q: "\<not> buf_pooled b"
  proof (rule consistent_update [OF c r(1) refl])
    show "at_address (buf_addr b) (Some b) (Some 1) (add_mset b ow) pe"
      using f nb u by (auto simp: at_address_def fresh_def k)
    show "m l = Some d \<longleftrightarrow> (A(buf_addr b \<mapsto> b)) (buf_addr d) = Some d \<and> buf_pooled d \<and> d \<notin># pe \<and> buf_bytes d = l" for l d
      using C(11) [of l d] n q by auto
  qed (use C(1) r(2) in auto)
  show ?p if q: "buf_pooled b"
  proof (rule consistent_update [OF c r(1) refl])
    show "at_address (buf_addr b) (Some b) (Some 1) ow (add_mset b pe)"
      using f nb u q by (auto simp: at_address_def fresh_def k)
    show "m l = Some d \<longleftrightarrow> (A(buf_addr b \<mapsto> b)) (buf_addr d) = Some d \<and> buf_pooled d \<and> d \<notin># add_mset b pe
        \<and> buf_bytes d = l" for l d
      using C(11) [of l d] n by auto
  qed (use C(1) r(2) in auto)
qed

text \<open>The end of a buffer that the table does not have.\<close>

lemma consistent_release:
  assumes c: "consistent st ow pe m A" and b: "A (buf_addr b) = Some b"
    and o: "b \<notin># ow'" "b \<notin># pe'" "\<And>d. d \<noteq> b \<Longrightarrow> count ow' d = count ow d \<and> count pe' d = count pe d"
    and s: "references st' = references st" "buffers.represents (bufs st') m'"
      "m' = (if buf_pooled b \<and> b \<notin># pe then m(buf_bytes b := None) else m)"
  shows "consistent (release_buffer b st') ow' pe' m' (A(buf_addr b := None))"
proof (rule consistent_update [OF c _ refl])
  note C = consistentD [OF c]
  show "references (release_buffer b st') = (references st)(buf_addr b := None)"
    using s(1) by (simp add: release_buffer_def)
  show "count ow' d = count ow d \<and> count pe' d = count pe d" if "buf_addr d \<noteq> buf_addr b" for d
    using o(3) that by metis
  have in': "d \<in># ow' \<longleftrightarrow> d \<in># ow" "d \<in># pe' \<longleftrightarrow> d \<in># pe" if "d \<noteq> b" for d
    using o(3) [OF that] by (metis not_in_iff)+
  show "at_address (buf_addr b) None None ow' pe'"
    using alone [OF c b] o(1,2) in' unfolding at_address_def by (metis option.case(1))
  show "buffers.represents (bufs (release_buffer b st')) m'" using s(2) by (simp add: release_buffer_def)
  show "m' k = Some d \<longleftrightarrow> (A(buf_addr b := None)) (buf_addr d) = Some d \<and> buf_pooled d \<and> d \<notin># pe' \<and> buf_bytes d = k" for k d
  proof (cases "buf_addr d = buf_addr b")
    case True
    then have "A (buf_addr d) = Some d \<longleftrightarrow> d = b" using b by auto
    with True show ?thesis using C(11) [of k d] b s(3) by auto
  next
    case False
    then have "d \<noteq> b" by auto
    moreover have "d = b" if "m (buf_bytes b) = Some d" "buf_pooled b" "b \<notin># pe"
      using C(11) [of "buf_bytes b" b] b that by simp
    ultimately show ?thesis using C(11) [of k d] False s(3) in' by auto
  qed
qed

section \<open>The pieces keep the invariant\<close>

lemma consistent_lookup:
  assumes c: "consistent st ow pe m A" and d: "object data n"
  shows "\<exists>st'. pool_lookup data n st = Some (m (take (unat n) data), st') \<and> bufs st' = bufs st
    \<and> consistent st' (result_of (m (take (unat n) data)) + ow) pe m A"
proof -
  note C = consistentD [OF c]
  let ?tmp = "\<lparr>buf_addr = 0, buf_data = data, buf_len = n, buf_pooled = False\<rparr>"
  have w: "whole ?tmp" "buf_bytes ?tmp = take (unat n) data" using d by (simp_all add: whole_def buf_bytes_def object_def)
  have l: "lh_retrieve (bufs st) ?tmp = Some (m (take (unat n) data))" using buffers.retrieve_map [OF C(1) w(1)] w(2) by simp
  show ?thesis
  proof (cases "m (take (unat n) data)")
    case None
    then show ?thesis using l c by (simp add: pool_lookup_def)
  next
    case (Some b)
    with C(11) have "A (buf_addr b) = Some b" "b \<notin># pe" by auto
    from consistent_inc [OF c this] Some l show ?thesis by (auto simp: pool_lookup_def)
  qed
qed

lemma pending_once:
  assumes c: "consistent st ow pe m A" and b: "b \<in># pe"
  shows "count ow b = 0" and "count pe b = 1" and "b \<notin># ow" and "b \<notin># pe - {#b#}"
proof -
  note C = consistentD [OF c]
  have "counted 1 (count ow b + count pe b)" using C(6) [OF C(8) [OF b]] C(10) [OF b] by simp
  then have "count ow b + count pe b = 1" by (simp add: counted_def)
  moreover have "count pe b \<noteq> 0" using b by simp
  ultimately show k: "count ow b = 0" "count pe b = 1" by linarith+
  then show "b \<notin># ow" "b \<notin># pe - {#b#}" by (simp_all add: not_in_iff)
qed

lemma consistent_insert:
  assumes c: "consistent st ow pe m A" and b: "b \<in># pe"
  shows "\<exists>r st' m' A'. pool_insert heap b st = Some (r, st') \<and> consistent st' (result_of r + ow) (pe - {#b#}) m' A'
    \<and> (\<forall>d. r = Some d \<longrightarrow> buf_bytes d = buf_bytes b \<and> buf_pooled d) \<and> (\<forall>d. m (buf_bytes b) = Some d \<longrightarrow> r = Some d)"
proof -
  note C = consistentD [OF c]
  note P = pending_once [OF c b]
  have l: "lh_retrieve (bufs st) b = Some (m (buf_bytes b))" using buffers.retrieve_map [OF C(1) C(5) [OF C(8) [OF b]]] .
  show ?thesis
  proof (cases "m (buf_bytes b)")
    case (Some d)
    with C(11) have d: "A (buf_addr d) = Some d" "d \<notin># pe" "buf_bytes d = buf_bytes b" "buf_pooled d" by auto
    from consistent_inc [OF c d(1,2)] obtain st1 where
      i: "buffer_inc d st = Some st1" "bufs st1 = bufs st" "consistent st1 (add_mset d ow) pe m A" by blast
    have "consistent (release_buffer b st1) (add_mset d ow) (pe - {#b#}) m (A(buf_addr b := None))"
      using consistent_release [OF i(3) C(8) [OF b], of "add_mset d ow" "pe - {#b#}" st1 m] P b d C(1) i(2) by auto
    with i l Some d show ?thesis by (auto simp: pool_insert_def)
  next
    case None
    from buffers.insert_map [OF C(1) C(5) [OF C(8) [OF b]] consistent_room [OF c], of heap] None
    consider (yes) t where "lh_insert heap (bufs st) b = Some ((True, None), t)" "buffers.represents t (m(buf_bytes b \<mapsto> b))"
      | (no) "lh_insert heap (bufs st) b = Some ((False, None), bufs st)" by auto
    then show ?thesis
    proof cases
      case yes
      let ?st = "st\<lparr>bufs := t\<rparr>"
      have "consistent ?st (add_mset b ow) (pe - {#b#}) (m(buf_bytes b \<mapsto> b)) A"
      proof (rule consistent_update [OF c])
        show "references ?st = (references st)(buf_addr b := Some 1)" using C(10) [OF b] by (simp add: fun_upd_idem)
        show "A = A(buf_addr b := Some b)" using C(8) [OF b] by (simp add: fun_upd_idem)
        show "at_address (buf_addr b) (Some b) (Some 1) (add_mset b ow) (pe - {#b#})"
          using alone [OF c C(8) [OF b]] C(4,5) [OF C(8) [OF b]] P by (auto simp: at_address_def counted_def dest: in_diffD)
        show "(m(buf_bytes b \<mapsto> b)) k = Some d \<longleftrightarrow> A (buf_addr d) = Some d \<and> buf_pooled d \<and> d \<notin># pe - {#b#} \<and> buf_bytes d = k"
          for k d
        proof (cases "d = b")
          case True
          then show ?thesis using C(8,9) [OF b] P(4) C(11) [of k b] b by auto
        next
          case False
          then have "d \<in># pe - {#b#} \<longleftrightarrow> d \<in># pe" by (simp add: in_diff_count)
          with False show ?thesis using C(11) [of k d] None by auto
        qed
      qed (use yes(2) in auto)
      with yes(1) l None C(9) [OF b] show ?thesis by (auto simp: pool_insert_def Let_def)
    next
      case no
      have "consistent (release_buffer b (st\<lparr>bufs := bufs st\<rparr>)) ow (pe - {#b#}) m (A(buf_addr b := None))"
        using consistent_release [OF c C(8) [OF b], of ow "pe - {#b#}" "st\<lparr>bufs := bufs st\<rparr>" m] P b C(1) by auto
      with no l None show ?thesis by (auto simp: pool_insert_def Let_def)
    qed
  qed
qed

lemma consistent_free:
  assumes c: "consistent st ow pe m A" and b: "b \<in># ow"
  shows "\<exists>st' m' A'. CRYPTO_BUFFER_free heap (Some b) st = Some st' \<and> consistent st' (ow - {#b#}) pe m' A'"
proof -
  note C = consistentD [OF c]
  note b' = C(7) [OF b]
  have np: "b \<notin># pe" using pending_once(3) [OF c] b by blast
  obtain n where n: "references st (buf_addr b) = Some n" "counted n (count ow b)" using C(6) [OF b'] np by (auto simp: not_in_iff)
  have cb: "count ow b = Suc (count (ow - {#b#}) b)" using b by simp
  from n(2) [unfolded cb] show ?thesis
  proof (cases rule: counted_dec)
    case last
    let ?st = "st\<lparr>references := (references st)(buf_addr b \<mapsto> 0)\<rparr>"
    have z: "b \<notin># ow - {#b#}" using last(2) by (simp add: not_in_iff)
    let ?m = "if buf_pooled b then m(buf_bytes b := None) else m"
    have rel: "consistent (release_buffer b (st\<lparr>bufs := t\<rparr>)) (ow - {#b#}) pe ?m (A(buf_addr b := None))"
      if "buffers.represents t ?m" for t
    proof (rule consistent_release [OF c b' z np])
      show "buffers.represents (bufs (st\<lparr>bufs := t\<rparr>)) ?m" using that by simp
    qed (use np in simp_all)
    have same: "release_buffer b (?st\<lparr>bufs := t\<rparr>) = release_buffer b (st\<lparr>bufs := t\<rparr>)" for t
      by (simp add: release_buffer_def)
    show ?thesis
    proof (cases "buf_pooled b")
      case True
      have "m (buf_bytes b) = Some b" using C(11) b' True np by simp
      with buffers.delete_map [OF C(1) C(5) [OF b'], of heap] obtain t where
        t: "lh_delete heap (bufs st) b = Some (Some b, t)" "buffers.represents t ?m" using True by auto
      have "CRYPTO_BUFFER_free heap (Some b) st = Some (release_buffer b (?st\<lparr>bufs := t\<rparr>))"
        using t(1) n(1) last(3) True by (simp add: CRYPTO_BUFFER_free_def Let_def)
      with rel [OF t(2)] show ?thesis unfolding same by blast
    next
      case False
      then have "CRYPTO_BUFFER_free heap (Some b) st = Some (release_buffer b (?st\<lparr>bufs := bufs st\<rparr>))"
        using n(1) last(3) by (simp add: CRYPTO_BUFFER_free_def Let_def)
      with rel [of "bufs st"] C(1) False show ?thesis unfolding same by auto
    qed
  next
    case (more n')
    let ?st = "st\<lparr>references := (references st)(buf_addr b \<mapsto> n')\<rparr>"
    have "at_address (buf_addr b) (Some b) (Some n') (ow - {#b#}) pe"
      using alone [OF c b'] C(4,5) [OF b'] np more(2) count_eq_zero_iff [of pe b] by (auto simp: at_address_def dest: in_diffD)
    then have "consistent ?st (ow - {#b#}) pe m A"
      by (rule consistent_update [OF c _ _ _ _ _ C(11), rotated 3]) (use b' C(1) in \<open>auto simp: fun_upd_idem\<close>)
    with n(1) more(1) show ?thesis by (auto simp: CRYPTO_BUFFER_free_def)
  qed
qed

lemma make_buffer_whole:
  assumes "make_buffer heap addr data n p = Some (Some b)" and o: "object data n"
  shows "buf_addr b = addr" and "buf_pooled b = p" and "whole b" and "buf_bytes b = take (unat n) data"
proof -
  obtain copy where m: "OPENSSL_memdup heap data (unat n) = Some copy" "n = 0 \<or> copy \<noteq> None"
    "b = \<lparr>buf_addr = addr, buf_data = (case copy of None \<Rightarrow> [] | Some ptr \<Rightarrow> user_bytes ptr), buf_len = n, buf_pooled = p\<rparr>"
    using assms(1) by (auto simp: make_buffer_def split: option.splits bool.splits if_splits)
  then show "buf_addr b = addr" "buf_pooled b = p" by simp_all
  have "whole b \<and> buf_bytes b = take (unat n) data"
  proof (cases "n = 0")
    case False
    with m obtain ptr where c: "copy = Some ptr" by blast
    have z: "0 < unat n" using False by (simp add: unat_gt_0)
    have "take (unat n) (user_bytes ptr) = take (unat n) data"
      using memdup_start [OF m(1) [unfolded c] z] o by (simp add: object_def)
    moreover from this have "unat n \<le> length (user_bytes ptr)"
      using o by (metis length_take min.absorb_iff2 min.commute object_def)
    ultimately show ?thesis using m(3) c by (simp add: whole_def buf_bytes_def)
  qed (simp add: m(3) whole_def buf_bytes_def)
  then show "whole b" "buf_bytes b = take (unat n) data" by simp_all
qed

lemma make_buffer_defined: "object data n \<Longrightarrow> make_buffer heap addr data n p \<noteq> None"
proof -
  assume o: "object data n"
  obtain ok where "allocated heap 32 = Some ok" using allocated_some [of 32] by auto
  moreover have "OPENSSL_memdup heap data (unat n) \<noteq> None"
    using memdup_defined [of "unat n" data heap] o by (cases "unat n = 0") (auto simp: object_def OPENSSL_memdup_def)
  ultimately show ?thesis by (auto simp: make_buffer_def split: option.splits bool.splits)
qed

lemma alloc_outcome:
  assumes n: "unat n < 2 ^ 63"
  shows "CRYPTO_BUFFER_alloc heap addr n st = Some (None, st)
    \<or> (\<exists>b. CRYPTO_BUFFER_alloc heap addr n st = Some (Some b, first_reference b st) \<and> buf_addr b = addr \<and> \<not> buf_pooled b
        \<and> whole b \<and> buf_len b = n)"
proof -
  obtain ok where ok: "allocated heap 32 = Some ok" using allocated_some [of 32] by auto
  have n': "unat n < 2 ^ 64 - 8" using n by simp
  obtain r where r: "OPENSSL_malloc heap n = Some r" using malloc_sound(1) [OF n', of heap] by blast
  have l: "length (user_bytes ptr) = unat n" if "r = Some ptr" for ptr
    using malloc_sound(2) [OF n', of heap ptr] r that by (metis sound_block_def)
  show ?thesis using ok r l by (cases ok; cases r) (auto simp: CRYPTO_BUFFER_alloc_def whole_def Let_def)
qed

section \<open>Reachable systems\<close>

definition sound_system :: "system \<Rightarrow> bool" where
  "sound_system s \<longleftrightarrow> (\<exists>m A. consistent (pool s) (owned s) (pending s) m A)"

lemma step_sound: "pool_step s s' \<Longrightarrow> sound_system s \<Longrightarrow> sound_system s'"
proof (induction rule: pool_step.induct)
  case (found data n s r st)
  then obtain m A where c: "consistent (pool s) (owned s) (pending s) m A" by (auto simp: sound_system_def)
  from consistent_lookup [OF this found(1)] found(2)
  show ?case by (auto simp: sound_system_def)
next
  case (made data n addr s heap b)
  then obtain m A where c: "consistent (pool s) (owned s) (pending s) m A" by (auto simp: sound_system_def)
  note b = make_buffer_whole [OF made(3,1)]
  from made(2) have "fresh (buf_addr b) (pool s)" by (simp add: b(1))
  from consistent_first(1) [OF c this b(3)] b(2) show ?case by (auto simp: sound_system_def)
next
  case (made_pooled data n addr s heap b)
  then obtain m A where c: "consistent (pool s) (owned s) (pending s) m A" by (auto simp: sound_system_def)
  note b = make_buffer_whole [OF made_pooled(3,1)]
  from made_pooled(2) have "fresh (buf_addr b) (pool s)" by (simp add: b(1))
  from consistent_first(2) [OF c this b(3)] b(2) show ?case by (auto simp: sound_system_def)
next
  case (inserted b s heap r st)
  then obtain m A where c: "consistent (pool s) (owned s) (pending s) m A" by (auto simp: sound_system_def)
  from consistent_insert [OF this inserted(1), of heap] obtain r' st' m' A' where
    p: "pool_insert heap b (pool s) = Some (r', st')"
    and "consistent st' (result_of r' + owned s) (pending s - {#b#}) m' A'" by (elim exE conjE)
  moreover from p inserted(2) have "r' = r" "st' = st" by simp_all
  ultimately show ?case by (auto simp: sound_system_def)
next
  case (alloced n addr s heap r st)
  then obtain m A where c: "consistent (pool s) (owned s) (pending s) m A" by (auto simp: sound_system_def)
  from alloc_outcome [OF alloced(1), of heap addr "pool s"] show ?case
  proof (elim disjE exE conjE)
    assume "CRYPTO_BUFFER_alloc heap addr n (pool s) = Some (None, pool s)"
    with alloced(3) c show ?thesis by (auto simp: sound_system_def)
  next
    fix b assume b: "CRYPTO_BUFFER_alloc heap addr n (pool s) = Some (Some b, first_reference b (pool s))"
      "buf_addr b = addr" "\<not> buf_pooled b" "whole b"
    from alloced(2) have "fresh (buf_addr b) (pool s)" by (simp add: b(2))
    from consistent_first(1) [OF c this b(4,3)] alloced(3) b(1)
    show ?thesis by (clarsimp simp: sound_system_def) (intro exI)
  qed
next
  case (shared b s ret st)
  then obtain m A where c: "consistent (pool s) (owned s) (pending s) m A" by (auto simp: sound_system_def)
  have "b \<notin># pending s" using pending_once(3) [OF c] shared(1) by blast
  from consistent_inc [OF c consistentD(7) [OF c shared(1)] this] shared(2)
  show ?case by (auto simp: CRYPTO_BUFFER_up_ref_def sound_system_def)
next
  case (freed b s heap st)
  then obtain m A where c: "consistent (pool s) (owned s) (pending s) m A" by (auto simp: sound_system_def)
  from consistent_free [OF this freed(1), of heap] obtain st' m' A' where
    p: "CRYPTO_BUFFER_free heap (Some b) (pool s) = Some st'"
    and "consistent st' (owned s - {#b#}) (pending s) m' A'" by (elim exE conjE)
  moreover from p freed(2) have "st' = st" by simp
  ultimately show ?case by (auto simp: sound_system_def)
qed

lemma reachable_sound: "pool_reachable s \<Longrightarrow> sound_system s"
proof (induction rule: pool_reachable.induct)
  case (start heap table)
  then have "lh_new heap CRYPTO_BUFFER_hash CRYPTO_BUFFER_cmp = Some (Some table)"
    by (auto simp: CRYPTO_BUFFER_POOL_new_def split: option.splits bool.splits)
  from buffers.new_table [OF this]
  have "consistent \<lparr>bufs = table, references = Map.empty\<rparr> {#} {#} Map.empty Map.empty"
    by (intro consistentI) simp_all
  then show ?case by (auto simp: sound_system_def)
qed (rule step_sound)

lemma reachable_consistent:
  assumes "pool_reachable s"
  obtains m A where "consistent (pool s) (owned s) (pending s) m A"
  using reachable_sound [OF assms] by (auto simp: sound_system_def)

end
