(* ===== verification/Pool_Properties.thy ===== *)
theory Pool_Properties
  imports Pool_Safe
begin

text \<open>
  What the buffer pool promises its users, whatever other threads do in between: no undefined behaviour and no
  failed assertion, one buffer for equal contents, counts that are the references held, whole calls,
  the race between two insertions, and the release of everything.
\<close>

section \<open>Freeing\<close>

fun free_all :: "(heap \<times> crypto_buffer) list \<Rightarrow> pool_state \<Rightarrow> pool_state option" where
  "free_all [] st = Some st"
| "free_all ((heap, b) # bs) st = Option.bind (CRYPTO_BUFFER_free heap (Some b) st) (free_all bs)"

definition unsaturated :: "pool_state \<Rightarrow> bool" where
  "unsaturated st \<longleftrightarrow> (\<forall>a. references st a \<noteq> Some CRYPTO_REFCOUNT_MAX)"

lemma dec_unsaturated:
  "CRYPTO_refcount_dec_and_test_zero c = Some (z, c') \<Longrightarrow> c \<noteq> CRYPTO_REFCOUNT_MAX \<Longrightarrow> c' \<noteq> CRYPTO_REFCOUNT_MAX"
proof
  assume d: "CRYPTO_refcount_dec_and_test_zero c = Some (z, c')" and c: "c \<noteq> CRYPTO_REFCOUNT_MAX" and m: "c' = CRYPTO_REFCOUNT_MAX"
  from d c have "c \<noteq> 0" "c - 1 = c'" by (auto simp: CRYPTO_refcount_dec_and_test_zero_def Let_def split: if_splits)
  moreover from this m have "c = 0" by (simp add: diff_eq_eq)
  ultimately show False by simp
qed

lemma free_unsaturated:
  assumes "CRYPTO_BUFFER_free heap (Some b) st = Some st'" and u: "unsaturated st"
  shows "unsaturated st'"
proof -
  obtain z c where d: "Option.bind (references st (buf_addr b)) CRYPTO_refcount_dec_and_test_zero = Some (z, c)"
    using assms(1) by (auto simp: CRYPTO_BUFFER_free_def split: option.splits)
  then have c: "c \<noteq> CRYPTO_REFCOUNT_MAX"
    using u dec_unsaturated by (auto simp: unsaturated_def bind_eq_Some_conv)
  have "references st' = (references st)(buf_addr b \<mapsto> c) \<or> references st' = (references st)(buf_addr b := None)"
    using assms(1) d by (auto simp: CRYPTO_BUFFER_free_def release_buffer_def Let_def split: if_splits option.splits)
  with c u show ?thesis by (auto simp: unsaturated_def split: if_splits)
qed

lemma consistent_drained:
  assumes c: "consistent st {#} {#} m A" and u: "unsaturated st"
  shows "references st = Map.empty" and "CRYPTO_BUFFER_POOL_free (Some st) = Some ()"
proof -
  note C = consistentD [OF c]
  have A: "A = Map.empty"
  proof
    fix a
    show "A a = None"
    proof (cases "A a")
      case (Some b)
      from C(6) [OF this] u show ?thesis by (auto simp: counted_def unsaturated_def unat_eq_0)
    qed
  qed
  with C(2) show "references st = Map.empty" by (metis dom_eq_empty_conv)
  have "m = Map.empty" using C(11) A by (metis option.exhaust option.distinct(1))
  with buffers.represents_num_items [OF C(1)] show "CRYPTO_BUFFER_POOL_free (Some st) = Some ()"
    by (simp add: CRYPTO_BUFFER_POOL_free_def)
qed

lemma free_all_drains:
  "consistent st (mset (map snd bs)) {#} m A \<Longrightarrow> unsaturated st \<Longrightarrow>
    \<exists>st'. free_all bs st = Some st' \<and> references st' = Map.empty \<and> CRYPTO_BUFFER_POOL_free (Some st') = Some ()"
proof (induction bs arbitrary: st m A)
  case Nil
  with consistent_drained [of st m A] show ?case by simp
next
  case (Cons p bs)
  obtain heap b where p: "p = (heap, b)" by (cases p)
  from Cons.prems(1) have c: "consistent st (add_mset b (mset (map snd bs))) {#} m A" by (simp add: p)
  from consistent_free [OF c, of b heap] obtain st' m' A' where
    f: "CRYPTO_BUFFER_free heap (Some b) st = Some st'" "consistent st' (mset (map snd bs)) {#} m' A'" by auto
  from Cons.IH [OF f(2) free_unsaturated [OF f(1) Cons.prems(2)]] f(1) show ?case by (simp add: p)
qed

section \<open>Whole calls\<close>

lemma make_buffer_given:
  assumes g: "gives heap" and o: "object data n" and n: "unat n + 8 < 2 ^ 63"
  shows "\<exists>b. make_buffer heap addr data n p = Some (Some b)"
proof -
  have a: "allocated heap 32 = Some True" by (rule gives_allocated [OF g]) simp
  obtain ptr where ptr: "OPENSSL_malloc heap n = Some (Some ptr)" using gives_malloc [OF g n] by blast
  have "OPENSSL_memdup heap data (unat n) \<noteq> None" "n \<noteq> 0 \<Longrightarrow> OPENSSL_memdup heap data (unat n) \<noteq> Some None"
    using memdup_defined [of "unat n" data heap] o ptr
    by (cases "unat n = 0", auto simp: object_def OPENSSL_memdup_def unat_eq_0)
  with a show ?thesis by (auto simp: make_buffer_def split: option.splits)
qed

lemma insert_piece_given: "gives heap \<Longrightarrow> pool_insert heap b st = Some (x, st') \<Longrightarrow> x \<noteq> None"
  by (auto simp: pool_insert_def Let_def split: option.splits prod.splits if_splits dest: insert_given)

lemma owned_shared:
  assumes c: "consistent st ow pe m A" and d: "d \<in># ow" "buf_pooled d"
  shows "m (buf_bytes d) = Some d"
  using consistentD(7) [OF c d(1)] pending_once(3) [OF c] consistentD(11) [OF c] d by blast

lemma insert_outcome:
  assumes r: "pool_reachable s" and b: "b \<in># pending s"
  shows "\<exists>x st. pool_insert heap b (pool s) = Some (x, st) \<and> (\<forall>d. x = Some d \<longrightarrow> buf_bytes d = buf_bytes b \<and> buf_pooled d)
    \<and> (\<forall>d. d \<in># owned s \<and> buf_pooled d \<and> buf_bytes d = buf_bytes b \<longrightarrow> x = Some d) \<and> (gives heap \<longrightarrow> x \<noteq> None)"
proof -
  obtain m A where c: "consistent (pool s) (owned s) (pending s) m A" using reachable_consistent [OF r] .
  from consistent_insert [OF c b, of heap] obtain x st m' A' where
    i: "pool_insert heap b (pool s) = Some (x, st)" "\<forall>d. x = Some d \<longrightarrow> buf_bytes d = buf_bytes b \<and> buf_pooled d"
      "\<forall>d. m (buf_bytes b) = Some d \<longrightarrow> x = Some d" by (elim exE conjE)
  have "x = Some d" if "d \<in># owned s" "buf_pooled d" "buf_bytes d = buf_bytes b" for d
    using i(3) owned_shared [OF c that(1,2)] that(3) by simp
  with i insert_piece_given [of heap b "pool s" x st] show ?thesis by blast
qed

lemma owned_whole: "pool_reachable s \<Longrightarrow> b \<in># owned s \<Longrightarrow> whole b"
proof -
  assume "pool_reachable s" and b: "b \<in># owned s"
  then obtain m A where c: "consistent (pool s) (owned s) (pending s) m A" by (elim reachable_consistent)
  from consistentD(5,7) [OF c] b show ?thesis by blast
qed

lemma lookup_outcome:
  assumes r: "pool_reachable s" and o: "object data n"
  shows "\<exists>x st. pool_lookup data n (pool s) = Some (x, st) \<and> (x = None \<longrightarrow> st = pool s)
    \<and> pool_reachable (s\<lparr>pool := st, owned := result_of x + owned s\<rparr>)
    \<and> (\<forall>b. x = Some b \<longrightarrow> buf_bytes b = take (unat n) data \<and> buf_pooled b)
    \<and> (\<forall>d. d \<in># owned s \<and> buf_pooled d \<and> buf_bytes d = take (unat n) data \<longrightarrow> x = Some d)"
proof -
  obtain m A where c: "consistent (pool s) (owned s) (pending s) m A" using reachable_consistent [OF r] .
  from consistent_lookup [OF c o] obtain st where
    l: "pool_lookup data n (pool s) = Some (m (take (unat n) data), st)" by blast
  then have "m (take (unat n) data) = None \<longrightarrow> st = pool s"
    by (auto simp: pool_lookup_def Let_def split: option.splits)
  moreover have "pool_reachable (s\<lparr>pool := st, owned := result_of (m (take (unat n) data)) + owned s\<rparr>)"
    using pool_reachable.step [OF r found [OF o l]] .
  moreover have "buf_bytes b = take (unat n) data \<and> buf_pooled b" if "m (take (unat n) data) = Some b" for b
    using consistentD(11) [OF c] that by blast
  moreover have "m (take (unat n) data) = Some d" if "d \<in># owned s" "buf_pooled d" "buf_bytes d = take (unat n) data" for d
    using owned_shared [OF c that(1,2)] that(3) by simp
  ultimately show ?thesis using l by (intro exI [of _ "m (take (unat n) data)"] exI [of _ st]) blast
qed

definition new_result ::
    "system \<Rightarrow> u8 list \<Rightarrow> u64 \<Rightarrow> bool \<Rightarrow> heap \<Rightarrow> crypto_buffer option \<Rightarrow> pool_state \<Rightarrow> bool" where
  "new_result s data n p heap x st \<longleftrightarrow>
     pool_reachable (s\<lparr>pool := st, owned := result_of x + owned s\<rparr>)
     \<and> (\<forall>b. x = Some b \<longrightarrow> CRYPTO_BUFFER_init_CBS b = take (unat n) data \<and> buf_pooled b = p)
     \<and> (\<forall>d. p \<and> d \<in># owned s \<and> buf_pooled d \<and> buf_bytes d = take (unat n) data \<longrightarrow> x = Some d)
     \<and> (gives heap \<and> unat n + 8 < 2 ^ 63 \<longrightarrow> x \<noteq> None)"

lemma init_CBS_bytes: "CRYPTO_BUFFER_init_CBS b = buf_bytes b"
  by (simp add: CRYPTO_BUFFER_init_CBS_def CBS_init_def buf_bytes_def)

lemma pooled_new:
  assumes r: "pool_reachable s" and o: "object data n" and f: "fresh addr (pool s)"
    and none: "\<forall>d. d \<in># owned s \<and> buf_pooled d \<longrightarrow> buf_bytes d \<noteq> take (unat n) data"
    and b: "make_buffer heap addr data n True = Some (Some b)"
  shows "\<exists>x st. pool_insert heap b (first_reference b (pool s)) = Some (x, st) \<and> new_result s data n True heap x st"
proof -
  let ?s = "s\<lparr>pool := first_reference b (pool s), pending := add_mset b (pending s)\<rparr>"
  note B = make_buffer_whole [OF b o]
  have r1: "pool_reachable ?s" by (rule pool_reachable.step [OF r made_pooled [OF o f b]])
  have p: "b \<in># pending ?s" by simp
  from insert_outcome [OF r1 p, of heap] obtain x st where
    i: "pool_insert heap b (pool ?s) = Some (x, st)" "\<forall>d. x = Some d \<longrightarrow> buf_bytes d = buf_bytes b \<and> buf_pooled d"
      "gives heap \<longrightarrow> x \<noteq> None" by blast
  from pool_reachable.step [OF r1 inserted [OF p i(1)]]
  have "pool_reachable (s\<lparr>pool := st, owned := result_of x + owned s\<rparr>)" by simp
  with i none B(4) show ?thesis by (auto simp: new_result_def init_CBS_bytes)
qed

lemma buffer_new_outcome:
  assumes r: "pool_reachable s" and o: "object data n" and f: "fresh addr (pool s)"
  shows "\<exists>x st. CRYPTO_BUFFER_new heap addr data n p (pool s) = Some (x, st) \<and> new_result s data n p heap x st"
proof -
  have fail: "new_result s data n p heap None (pool s)"
    if "make_buffer heap addr data n p = Some None" "\<forall>d. p \<and> d \<in># owned s \<and> buf_pooled d \<longrightarrow> buf_bytes d \<noteq> take (unat n) data"
    using that make_buffer_given [OF _ o, of heap addr p] r by (auto simp: new_result_def)
  obtain y where y: "make_buffer heap addr data n p = Some y" using make_buffer_defined [OF o] by blast
  show ?thesis
  proof (cases p)
    case False
    show ?thesis
    proof (cases y)
      case None
      with y False fail show ?thesis by (auto simp: CRYPTO_BUFFER_new_def)
    next
      case (Some b)
      with y False have b: "make_buffer heap addr data n False = Some (Some b)" by simp
      from pool_reachable.step [OF r made [OF o f b]] make_buffer_whole(2,4) [OF b o]
      have "new_result s data n p heap (Some b) (first_reference b (pool s))"
        using False by (simp add: new_result_def init_CBS_bytes)
      with b False show ?thesis by (auto simp: CRYPTO_BUFFER_new_def)
    qed
  next
    case True
    obtain x st where l: "pool_lookup data n (pool s) = Some (x, st)" "x = None \<longrightarrow> st = pool s"
      "pool_reachable (s\<lparr>pool := st, owned := result_of x + owned s\<rparr>)"
      "\<forall>b. x = Some b \<longrightarrow> buf_bytes b = take (unat n) data \<and> buf_pooled b"
      "\<forall>d. d \<in># owned s \<and> buf_pooled d \<and> buf_bytes d = take (unat n) data \<longrightarrow> x = Some d"
      using lookup_outcome [OF r o] by blast
    show ?thesis
    proof (cases x)
      case (Some d)
      with l True show ?thesis by (auto simp: CRYPTO_BUFFER_new_def new_result_def init_CBS_bytes)
    next
      case None
      with l(5) have none: "\<forall>d. d \<in># owned s \<and> buf_pooled d \<longrightarrow> buf_bytes d \<noteq> take (unat n) data" by blast
      show ?thesis
      proof (cases y)
        case N: None
        from fail none y N have "new_result s data n p heap None (pool s)" by blast
        with y N True None l(1,2) show ?thesis by (simp add: CRYPTO_BUFFER_new_def)
      next
        case (Some b)
        with y True have b: "make_buffer heap addr data n True = Some (Some b)" by simp
        from pooled_new [OF r o f none b] None l(1,2) b True show ?thesis by (simp add: CRYPTO_BUFFER_new_def)
      qed
    qed
  qed
qed

section \<open>Examples\<close>

text \<open>Two calls with equal bytes, and a third one that has made its buffer.\<close>

lemma start_example:
  obtains table where "CRYPTO_BUFFER_POOL_new zero_heap = Some (Some table)" "buffers.represents table Map.empty"
    "pool_reachable \<lparr>pool = \<lparr>bufs = table, references = Map.empty\<rparr>, owned = {#}, pending = {#}\<rparr>"
proof -
  obtain table where t: "lh_new zero_heap CRYPTO_BUFFER_hash CRYPTO_BUFFER_cmp = Some (Some table)"
    by (simp add: lh_new_def gives_allocated [OF gives_zero])
  then have "CRYPTO_BUFFER_POOL_new zero_heap = Some (Some table)"
    by (simp add: CRYPTO_BUFFER_POOL_new_def gives_allocated [OF gives_zero])
  with buffers.new_table [OF t] pool_reachable.start show ?thesis using that by blast
qed

lemma object_12: "object [1, 2] 2"
  by (simp add: object_def)

lemma made_example: "\<exists>b. make_buffer zero_heap addr [1, 2] 2 p = Some (Some b)"
  by (rule make_buffer_given [OF gives_zero object_12]) simp

text \<open>The first buffer of a pool.\<close>

lemma first_example:
  obtains b t where "pool_reachable \<lparr>pool = \<lparr>bufs = t, references = [1 \<mapsto> 1]\<rparr>, owned = {#b#}, pending = {#}\<rparr>"
    and "buf_bytes b = [1, 2]" and "buf_pooled b"
proof -
  obtain table where t: "buffers.represents table Map.empty"
    "pool_reachable \<lparr>pool = \<lparr>bufs = table, references = Map.empty\<rparr>, owned = {#}, pending = {#}\<rparr>" (is "pool_reachable ?s")
    by (rule start_example)
  have f: "fresh 1 (pool ?s)" by (simp add: fresh_def)
  obtain b where b: "make_buffer zero_heap 1 [1, 2] 2 True = Some (Some b)" using made_example by blast
  note B = make_buffer_whole [OF b object_12]
  let ?s1 = "?s\<lparr>pool := first_reference b (pool ?s), pending := add_mset b (pending ?s)\<rparr>"
  have r: "pool_reachable ?s1" by (rule pool_reachable.step [OF t(2) made_pooled [OF object_12 f b]])
  obtain ok old t' where i: "lh_insert zero_heap table b = Some ((ok, old), t')" "old = None"
    using buffers.insert_map [OF t(1) B(3), of zero_heap] by auto
  have "ok" using insert_given [OF gives_zero i(1)] .
  with i buffers.retrieve_map [OF t(1) B(3)] B(1)
  have "pool_insert zero_heap b (pool ?s1) = Some (Some b, \<lparr>bufs = t', references = [1 \<mapsto> 1]\<rparr>)"
    by (simp add: pool_insert_def first_reference_def)
  from pool_reachable.step [OF r inserted [OF _ this]] B(2,4) show ?thesis using that by simp
qed

section \<open>Properties\<close>

text \<open>C33: users of the pool are safe under every interleaving of their calls: in each state that any sequence of
  lookups, allocations, insertions, added references and releases by any number of threads leads to, and
  whatever the allocator refuses, a buffer that somebody holds is allocated and has its bytes, and no piece of
  a call has undefined behaviour, aborts on a count of zero, or fails an assertion: the buffer whose last reference goes
  is in the table and is the one that the table gives back.\<close>

theorem pool_calls_defined:
  assumes "pool_reachable s"
  shows "(\<forall>b. b \<in># owned s \<longrightarrow> whole b \<and> references (pool s) (buf_addr b) \<noteq> None
        \<and> CRYPTO_BUFFER_up_ref b (pool s) \<noteq> None \<and> (\<forall>heap. CRYPTO_BUFFER_free heap (Some b) (pool s) \<noteq> None))
    \<and> (\<forall>b heap. b \<in># pending s \<longrightarrow> pool_insert heap b (pool s) \<noteq> None)
    \<and> (\<forall>data n. object data n \<longrightarrow> pool_lookup data n (pool s) \<noteq> None)"
proof -
  obtain m A where c: "consistent (pool s) (owned s) (pending s) m A" using reachable_consistent [OF assms] .
  have "references (pool s) (buf_addr b) \<noteq> None \<and> CRYPTO_BUFFER_up_ref b (pool s) \<noteq> None
      \<and> (\<forall>heap. CRYPTO_BUFFER_free heap (Some b) (pool s) \<noteq> None)" if b: "b \<in># owned s" for b
    using consistentD(6) [OF c consistentD(7) [OF c b]] consistent_free [OF c b]
    by (auto simp: CRYPTO_BUFFER_up_ref_def buffer_inc_def)
  moreover have "pool_insert heap b (pool s) \<noteq> None" if b: "b \<in># pending s" for b heap
    using insert_outcome [OF assms b, of heap] by auto
  moreover have "pool_lookup data n (pool s) \<noteq> None" if o: "object data n" for data n
    using lookup_outcome [OF assms o] by auto
  ultimately show ?thesis using owned_whole [OF assms] by blast
qed

theorem pool_calls_defined_witness:
  "\<exists>(s :: system) b. owned s = {#b#} \<and> buf_bytes b = [1, 2] \<and> CRYPTO_BUFFER_free zero_heap (Some b) (pool s) \<noteq> None
    \<and> pool_lookup [1, 2] 2 (pool s) \<noteq> None"
proof -
  obtain b t where e: "pool_reachable \<lparr>pool = \<lparr>bufs = t, references = [1 \<mapsto> 1]\<rparr>, owned = {#b#}, pending = {#}\<rparr>"
    "buf_bytes b = [1, 2]" by (rule first_example)
  from pool_calls_defined [OF e(1)] e(2) object_12 show ?thesis
    by (intro exI [of _ "\<lparr>pool = \<lparr>bufs = t, references = [1 \<mapsto> 1]\<rparr>, owned = {#b#}, pending = {#}\<rparr>"] exI [of _ b]) simp
qed

text \<open>C34: equal contents are held once: in every reachable state two buffers of the pool that are in use and have
  the same bytes are the same buffer, and the reference count of a buffer is the number of references to it, or it is stuck at
  its largest value and the buffer is never freed.\<close>

theorem pool_shares_equal_bytes:
  assumes "pool_reachable s" and "b \<in># owned s"
  shows "(\<forall>d. d \<in># owned s \<and> buf_pooled b \<and> buf_pooled d \<and> buf_bytes d = buf_bytes b \<longrightarrow> d = b)
    \<and> (\<exists>c. references (pool s) (buf_addr b) = Some c \<and> (c = CRYPTO_REFCOUNT_MAX \<or> unat c = count (owned s) b))"
proof -
  obtain m A where c: "consistent (pool s) (owned s) (pending s) m A" using reachable_consistent [OF assms(1)] .
  have "count (pending s) b = 0" using pending_once(3) [OF c] assms(2) by (metis count_eq_zero_iff)
  with consistentD(6) [OF c consistentD(7) [OF c assms(2)]]
  have "\<exists>c. references (pool s) (buf_addr b) = Some c \<and> (c = CRYPTO_REFCOUNT_MAX \<or> unat c = count (owned s) b)"
    by (auto simp: counted_def)
  moreover have "d = b" if "d \<in># owned s" "buf_pooled b" "buf_pooled d" "buf_bytes d = buf_bytes b" for d
    using owned_shared [OF c assms(2) that(2)] owned_shared [OF c that(1,3)] that(4) by simp
  ultimately show ?thesis by blast
qed

theorem pool_shares_equal_bytes_witness:
  "\<exists>(s :: system) b. owned s = {#b#} \<and> buf_bytes b = [1, 2] \<and> (\<exists>c. references (pool s) (buf_addr b) = Some c
    \<and> (c = CRYPTO_REFCOUNT_MAX \<or> unat c = 1))"
proof -
  obtain b t where e: "pool_reachable \<lparr>pool = \<lparr>bufs = t, references = [1 \<mapsto> 1]\<rparr>, owned = {#b#}, pending = {#}\<rparr>"
    "buf_bytes b = [1, 2]" by (rule first_example)
  from pool_shares_equal_bytes [OF e(1), of b] e(2) show ?thesis
    by (intro exI [of _ "\<lparr>pool = \<lparr>bufs = t, references = [1 \<mapsto> 1]\<rparr>, owned = {#b#}, pending = {#}\<rparr>"] exI [of _ b]) simp
qed

text \<open>C35: nothing leaks: when no call is under way and no count is stuck, releasing the references
  that are held, in any order, succeeds, leaves no buffer allocated, and the pool's table is empty, so that
  CRYPTO_BUFFER_POOL_free passes its assertion.\<close>

theorem pool_drains:
  assumes "pool_reachable s" and "pending s = {#}" and "unsaturated (pool s)" and "mset (map snd bs) = owned s"
  shows "\<exists>st. free_all bs (pool s) = Some st \<and> references st = Map.empty \<and> CRYPTO_BUFFER_POOL_free (Some st) = Some ()"
proof -
  obtain m A where "consistent (pool s) (owned s) (pending s) m A" using reachable_consistent [OF assms(1)] .
  with free_all_drains [of "pool s" bs m A] assms show ?thesis by simp
qed

theorem pool_drains_witness:
  "\<exists>t b st. free_all [(zero_heap, b)] \<lparr>bufs = t, references = [1 \<mapsto> 1]\<rparr> = Some st \<and> references st = Map.empty
    \<and> CRYPTO_BUFFER_POOL_free (Some st) = Some ()"
proof -
  obtain b t where e: "pool_reachable \<lparr>pool = \<lparr>bufs = t, references = [1 \<mapsto> 1]\<rparr>, owned = {#b#}, pending = {#}\<rparr>"
    by (rule first_example)
  have "unsaturated \<lparr>bufs = t, references = [1 \<mapsto> 1]\<rparr>" by (auto simp: unsaturated_def split: if_splits)
  with pool_drains [OF e, of "[(zero_heap, b)]"] show ?thesis by (simp del: free_all.simps) blast
qed

text \<open>C36: CRYPTO_BUFFER_new on a state that any interleaving leads to: a call always comes to an end, the buffer it
  returns has the bytes that were asked for and its caller holds one more reference, when somebody
  has a buffer of the pool with these bytes the call returns that one, and it fails only when the allocator refuses.\<close>

theorem buffer_new_correct:
  assumes "pool_reachable s" and "unat n \<le> length data" and "unat n + 8 < 2 ^ 63" and "fresh addr (pool s)"
  shows "\<exists>x st. CRYPTO_BUFFER_new heap addr data n p (pool s) = Some (x, st)
    \<and> pool_reachable (s\<lparr>pool := st, owned := result_of x + owned s\<rparr>)
    \<and> (\<forall>b. x = Some b \<longrightarrow> CRYPTO_BUFFER_init_CBS b = take (unat n) data \<and> buf_pooled b = p)
    \<and> (\<forall>d. p \<and> d \<in># owned s \<and> buf_pooled d \<and> buf_bytes d = take (unat n) data \<longrightarrow> x = Some d)
    \<and> (x = None \<longrightarrow> (\<exists>sz. heap sz = None))"
proof -
  have "object data n" using assms(2,3) by (simp add: object_def)
  from buffer_new_outcome [OF assms(1) this assms(4), of heap p] obtain x st where
    x: "CRYPTO_BUFFER_new heap addr data n p (pool s) = Some (x, st)" "new_result s data n p heap x st" by blast
  from x(2) have "gives heap \<and> unat n + 8 < 2 ^ 63 \<longrightarrow> x \<noteq> None" unfolding new_result_def by (elim conjE)
  with assms(3) have "x = None \<longrightarrow> (\<exists>sz. heap sz = None)" by (auto simp: gives_def)
  with x show ?thesis unfolding new_result_def by blast
qed

theorem buffer_new_correct_witness:
  "\<exists>b t st. buf_bytes b = [1, 2] \<and> CRYPTO_BUFFER_new zero_heap 2 [1, 2, 3] 2 True \<lparr>bufs = t, references = [1 \<mapsto> 1]\<rparr> = Some (Some b, st)"
proof -
  obtain b t where e: "pool_reachable \<lparr>pool = \<lparr>bufs = t, references = [1 \<mapsto> 1]\<rparr>, owned = {#b#}, pending = {#}\<rparr>"
    "buf_bytes b = [1, 2]" "buf_pooled b" by (rule first_example)
  have f: "fresh 2 \<lparr>bufs = t, references = [1 \<mapsto> 1]\<rparr>" by (simp add: fresh_def)
  from buffer_new_correct [OF e(1), of 2 "[1, 2, 3]" 2 zero_heap True] f e(2,3) show ?thesis by auto
qed

text \<open>C37: the race of two threads that make a buffer with the same bytes: the one that comes second to the table
  gets the buffer of the first, with one more reference, and its own buffer is released; nothing
  but these two reference counts changes.\<close>

theorem pool_race_lost:
  assumes "pool_reachable s" and "b \<in># pending s" and "d \<in># owned s" and "buf_pooled d" and "buf_bytes d = buf_bytes b"
  shows "\<exists>c. references (pool s) (buf_addr d) = Some c \<and> buf_addr d \<noteq> buf_addr b
    \<and> pool_insert heap b (pool s) = Some (Some d, (pool s)\<lparr>references := (references (pool s))
        (buf_addr d \<mapsto> CRYPTO_refcount_inc c, buf_addr b := None)\<rparr>)"
proof -
  obtain m A where c: "consistent (pool s) (owned s) (pending s) m A" using reachable_consistent [OF assms(1)] .
  note C = consistentD [OF c]
  obtain n where n: "references (pool s) (buf_addr d) = Some n" using C(6) [OF C(7) [OF assms(3)]] by blast
  have "lh_retrieve (bufs (pool s)) b = Some (m (buf_bytes b))"
    using buffers.retrieve_map [OF C(1) C(5) [OF C(8) [OF assms(2)]]] .
  moreover have "m (buf_bytes b) = Some d" using owned_shared [OF c assms(3,4)] assms(5) by simp
  moreover have "buf_addr d \<noteq> buf_addr b"
  proof
    assume "buf_addr d = buf_addr b"
    with C(7) [OF assms(3)] C(8) [OF assms(2)] have "d = b" by (metis option.inject)
    with pending_once(3) [OF c assms(2)] assms(3) show False by simp
  qed
  ultimately show ?thesis using n by (simp add: pool_insert_def buffer_inc_def release_buffer_def)
qed

theorem pool_race_lost_witness:
  "\<exists>(s :: system) b d c. references (pool s) (buf_addr d) = Some c \<and> buf_addr b = 2 \<and> buf_bytes d = [1, 2]
    \<and> pool_insert zero_heap b (pool s) = Some (Some d, (pool s)\<lparr>references := (references (pool s))
        (buf_addr d \<mapsto> CRYPTO_refcount_inc c, buf_addr b := None)\<rparr>)"
proof -
  obtain d t where e: "pool_reachable \<lparr>pool = \<lparr>bufs = t, references = [1 \<mapsto> 1]\<rparr>, owned = {#d#}, pending = {#}\<rparr>"
      (is "pool_reachable ?s") "buf_bytes d = [1, 2]" "buf_pooled d" by (rule first_example)
  have f: "fresh 2 (pool ?s)" by (simp add: fresh_def)
  obtain b where b: "make_buffer zero_heap 2 [1, 2] 2 True = Some (Some b)" using made_example by blast
  note B = make_buffer_whole [OF b object_12]
  note r = pool_reachable.step [OF e(1) made_pooled [OF object_12 f b]]
  from pool_race_lost [OF r, of b d zero_heap] e(2,3) B(1,4) show ?thesis
    by (intro exI [of _ "?s\<lparr>pool := first_reference b (pool ?s), pending := add_mset b (pending ?s)\<rparr>"] exI [of _ b] exI [of _ d]) auto
qed

end
