(* ===== verification/Obj.thy ===== *)
theory Obj
  imports Lhash_Properties Cbb_Asn1
begin

text \<open>
  The registry of object identifiers (\<^verbatim>\<open>crypto/obj/obj.c\<close>, with the constructors of \<^verbatim>\<open>ASN1_OBJECT\<close> in
  \<^verbatim>\<open>crypto/asn1/a_object.c\<close>): the built-in objects are arrays that the build generates (\<^verbatim>\<open>obj_dat.h\<close>) and are a
  parameter; objects added at run time are in four hash tables. A pointer to an object is the object; \<open>None\<close> is
  undefined behaviour. The globals are the record \<open>obj_registry\<close>; the functions run one at a time.
\<close>

section \<open>Objects\<close>

text \<open>An \<^verbatim>\<open>int\<close> is an integer, and arithmetic that leaves the range of \<^verbatim>\<open>int\<close> is undefined.\<close>

definition c_int :: "int \<Rightarrow> int option" where
  "c_int i = (if - (2 ^ 31) \<le> i \<and> i < 2 ^ 31 then Some i else None)"

abbreviation (input) "INT_MAX \<equiv> 2147483647"
abbreviation (input) "NID_undef \<equiv> 0 :: int"

abbreviation (input) "ASN1_OBJECT_FLAG_DYNAMIC \<equiv> 0x01 :: u32"
abbreviation (input) "ASN1_OBJECT_FLAG_DYNAMIC_STRINGS \<equiv> 0x04 :: u32"
abbreviation (input) "ASN1_OBJECT_FLAG_DYNAMIC_DATA \<equiv> 0x08 :: u32"

record asn1_object =
  obj_sn :: "u8 list option"
  obj_ln :: "u8 list option"
  obj_nid :: int
  obj_length :: int
  obj_data :: "u8 list option"
  obj_flags :: u32

definition ASN1_OBJECT_new :: "heap \<Rightarrow> asn1_object option option" where
  "ASN1_OBJECT_new heap =
     (case allocated heap 40 of
        None \<Rightarrow> None
      | Some False \<Rightarrow> Some None
      | Some True \<Rightarrow> Some (Some \<lparr>obj_sn = None, obj_ln = None, obj_nid = 0, obj_length = 0, obj_data = None,
          obj_flags = ASN1_OBJECT_FLAG_DYNAMIC\<rparr>))"

text \<open>The object afterwards, \<open>None\<close> when it is released or there is none.\<close>

definition ASN1_OBJECT_free :: "asn1_object option \<Rightarrow> asn1_object option" where
  "ASN1_OBJECT_free a =
     (case a of
        None \<Rightarrow> None
      | Some a \<Rightarrow>
          let a = (if obj_flags a AND ASN1_OBJECT_FLAG_DYNAMIC_STRINGS \<noteq> 0 then a\<lparr>obj_sn := None, obj_ln := None\<rparr> else a);
              a = (if obj_flags a AND ASN1_OBJECT_FLAG_DYNAMIC_DATA \<noteq> 0 then a\<lparr>obj_data := None, obj_length := 0\<rparr> else a)
          in if obj_flags a AND ASN1_OBJECT_FLAG_DYNAMIC \<noteq> 0 then None else Some a)"

text \<open>A string or a null pointer, copied; \<open>Some None\<close> when memory runs out.\<close>

definition dup_name :: "heap \<Rightarrow> u8 list option \<Rightarrow> u8 list option option option" where
  "dup_name heap s =
     (case s of
        None \<Rightarrow> Some (Some None)
      | Some _ \<Rightarrow>
          (case OPENSSL_strdup heap s of
             None \<Rightarrow> None
           | Some None \<Rightarrow> Some None
           | Some (Some ptr) \<Rightarrow> Some (Some (Some (user_bytes ptr)))))"

definition OBJ_dup :: "heap \<Rightarrow> asn1_object option \<Rightarrow> asn1_object option option" where
  "OBJ_dup heap obj =
     (case obj of
        None \<Rightarrow> Some None
      | Some o' \<Rightarrow>
          if obj_flags o' AND ASN1_OBJECT_FLAG_DYNAMIC = 0 then Some (Some o')
          else (case ASN1_OBJECT_new heap of
              None \<Rightarrow> None
            | Some None \<Rightarrow> Some None
            | Some (Some r) \<Rightarrow>
                let n = (word_of_int (obj_length o') :: u64) in
                (case OPENSSL_malloc heap n of
                   None \<Rightarrow> None
                 | Some None \<Rightarrow> Some None
                 | Some (Some ptr) \<Rightarrow>
                     (case (case obj_data o' of
                           None \<Rightarrow> Some (user_bytes ptr)
                         | Some src \<Rightarrow>
                             if length src < unat n \<or> length (user_bytes ptr) < unat n then None
                             else Some (take (unat n) src @ drop (unat n) (user_bytes ptr))) of
                        None \<Rightarrow> None
                      | Some content \<Rightarrow>
                          (case dup_name heap (obj_ln o') of
                             None \<Rightarrow> None
                           | Some None \<Rightarrow> Some None
                           | Some (Some ln) \<Rightarrow>
                               (case dup_name heap (obj_sn o') of
                                  None \<Rightarrow> None
                                | Some None \<Rightarrow> Some None
                                | Some (Some sn) \<Rightarrow>
                                    Some (Some (r\<lparr>obj_data := Some content, obj_length := obj_length o',
                                      obj_nid := obj_nid o', obj_sn := sn, obj_ln := ln,
                                      obj_flags := obj_flags o' OR (ASN1_OBJECT_FLAG_DYNAMIC
                                        OR ASN1_OBJECT_FLAG_DYNAMIC_STRINGS OR ASN1_OBJECT_FLAG_DYNAMIC_DATA)\<rparr>))))))))"

definition ASN1_OBJECT_create ::
    "heap \<Rightarrow> int \<Rightarrow> u8 list option \<Rightarrow> int \<Rightarrow> u8 list option \<Rightarrow> u8 list option \<Rightarrow> asn1_object option option" where
  "ASN1_OBJECT_create heap nid data len sn ln =
     OBJ_dup heap (Some \<lparr>obj_sn = sn, obj_ln = ln, obj_nid = nid, obj_length = len, obj_data = data,
       obj_flags = ASN1_OBJECT_FLAG_DYNAMIC OR ASN1_OBJECT_FLAG_DYNAMIC_STRINGS OR ASN1_OBJECT_FLAG_DYNAMIC_DATA\<rparr>)"

text \<open>\<^verbatim>\<open>OPENSSL_memcmp\<close> on the bytes of two objects, with the length of the first.\<close>

definition data_memcmp :: "asn1_object \<Rightarrow> asn1_object \<Rightarrow> int option" where
  "data_memcmp a b =
     (if obj_length a < 0 then None
      else if obj_length a = 0 then Some 0
      else case (obj_data a, obj_data b) of
          (Some x, Some y) \<Rightarrow>
            if int (length x) < obj_length a \<or> int (length y) < obj_length a then None
            else Some (OPENSSL_memcmp x y (nat (obj_length a)))
        | _ \<Rightarrow> None)"

definition OBJ_cmp :: "asn1_object \<Rightarrow> asn1_object \<Rightarrow> int option" where
  "OBJ_cmp a b =
     Option.bind (c_int (obj_length a - obj_length b)) (\<lambda>ret. if ret \<noteq> 0 then Some ret else data_memcmp a b)"

definition OBJ_get0_data :: "asn1_object option \<Rightarrow> u8 list option" where
  "OBJ_get0_data obj = (case obj of None \<Rightarrow> None | Some obj \<Rightarrow> obj_data obj)"

definition OBJ_length :: "asn1_object option \<Rightarrow> u64" where
  "OBJ_length obj =
     (case obj of None \<Rightarrow> 0 | Some obj \<Rightarrow> if obj_length obj < 0 then 0 else word_of_int (obj_length obj))"

section \<open>The registry\<close>

record obj_tables =
  kObjects :: "asn1_object list"
  kNIDsInShortNameOrder :: "nat list"
  kNIDsInLongNameOrder :: "nat list"
  kNIDsInOIDOrder :: "nat list"

record obj_registry =
  global_added_by_data :: "asn1_object lhash option"
  global_added_by_nid :: "asn1_object lhash option"
  global_added_by_short_name :: "asn1_object lhash option"
  global_added_by_long_name :: "asn1_object lhash option"
  global_next_nid :: u32

definition NUM_NID :: "obj_tables \<Rightarrow> int" where
  "NUM_NID T = int (length (kObjects T))"

definition initial_registry :: "obj_tables \<Rightarrow> obj_registry" where
  "initial_registry T =
     \<lparr>global_added_by_data = None, global_added_by_nid = None, global_added_by_short_name = None,
      global_added_by_long_name = None, global_next_nid = word_of_int (NUM_NID T)\<rparr>"

definition obj_next_nid :: "obj_registry \<Rightarrow> int \<times> obj_registry" where
  "obj_next_nid R = (sint (global_next_nid R), R\<lparr>global_next_nid := global_next_nid R + 1\<rparr>)"

text \<open>\<^verbatim>\<open>bsearch\<close> of the C library: halving the range \<open>[l, u)\<close>. \<open>Some None\<close> is \<^verbatim>\<open>NULL\<close>.\<close>

function bsearch_range :: "('e \<Rightarrow> int option) \<Rightarrow> 'e list \<Rightarrow> nat \<Rightarrow> nat \<Rightarrow> 'e option option" where
  "bsearch_range compar xs l u =
     (if u \<le> l then Some None
      else let idx = (l + u) div 2 in
        case compar (xs ! idx) of
          None \<Rightarrow> None
        | Some c \<Rightarrow>
            if c < 0 then bsearch_range compar xs l idx
            else if 0 < c then bsearch_range compar xs (idx + 1) u
            else Some (Some (xs ! idx)))"
  by auto
termination by (relation "measure (\<lambda>(_, _, l, u). u - l)") auto

declare bsearch_range.simps [simp del]

definition bsearch :: "('e \<Rightarrow> int option) \<Rightarrow> 'e list \<Rightarrow> 'e option option" where
  "bsearch compar xs = bsearch_range compar xs 0 (length xs)"

definition built_in :: "obj_tables \<Rightarrow> nat \<Rightarrow> asn1_object option" where
  "built_in T nid = (if nid < length (kObjects T) then Some (kObjects T ! nid) else None)"

text \<open>The end of a search in a sorted array: the number of the object that was found.\<close>

definition found_nid :: "obj_tables \<Rightarrow> nat option option \<Rightarrow> int option" where
  "found_nid T nid_ptr =
     (case nid_ptr of
        None \<Rightarrow> None
      | Some None \<Rightarrow> Some NID_undef
      | Some (Some nid) \<Rightarrow> map_option obj_nid (built_in T nid))"

text \<open>The search in a table of added objects, when there is one.\<close>

definition added :: "'v lhash option \<Rightarrow> 'v \<Rightarrow> 'v option option" where
  "added table tmpl = (case table of None \<Rightarrow> Some None | Some lh \<Rightarrow> lh_retrieve lh tmpl)"

abbreviation (input) "template \<equiv>
  \<lparr>obj_sn = None, obj_ln = None, obj_nid = 0, obj_length = 0, obj_data = None, obj_flags = 0\<rparr>"

section \<open>Searching\<close>

definition obj_cmp :: "obj_tables \<Rightarrow> asn1_object \<Rightarrow> nat \<Rightarrow> int option" where
  "obj_cmp T a nid =
     (case built_in T nid of
        None \<Rightarrow> None
      | Some b \<Rightarrow>
          if obj_length a < obj_length b then Some (- 1)
          else if obj_length b < obj_length a then Some 1
          else data_memcmp a b)"

definition OBJ_obj2nid :: "obj_tables \<Rightarrow> obj_registry \<Rightarrow> asn1_object option \<Rightarrow> int option" where
  "OBJ_obj2nid T R obj =
     (case obj of
        None \<Rightarrow> Some NID_undef
      | Some obj \<Rightarrow>
          if obj_nid obj \<noteq> 0 then Some (obj_nid obj)
          else (case added (global_added_by_data R) obj of
              None \<Rightarrow> None
            | Some (Some match) \<Rightarrow> Some (obj_nid match)
            | Some None \<Rightarrow> found_nid T (bsearch (obj_cmp T obj) (kNIDsInOIDOrder T))))"

definition OBJ_cbs2nid :: "obj_tables \<Rightarrow> obj_registry \<Rightarrow> cbs \<Rightarrow> int option" where
  "OBJ_cbs2nid T R cbs =
     (if INT_MAX < CBS_len cbs then Some NID_undef
      else OBJ_obj2nid T R (Some (template\<lparr>obj_data := Some (CBS_data cbs), obj_length := int (CBS_len cbs)\<rparr>)))"

text \<open>\<^verbatim>\<open>strcmp\<close> of a string and one that may be null.\<close>

definition strcmp_name :: "u8 list option \<Rightarrow> u8 list option \<Rightarrow> int option" where
  "strcmp_name s t = (case (s, t) of (Some s, Some t) \<Rightarrow> strcmp s t | _ \<Rightarrow> None)"

definition short_name_cmp :: "obj_tables \<Rightarrow> u8 list \<Rightarrow> nat \<Rightarrow> int option" where
  "short_name_cmp T name nid = Option.bind (built_in T nid) (\<lambda>b. strcmp_name (Some name) (obj_sn b))"

definition OBJ_sn2nid :: "obj_tables \<Rightarrow> obj_registry \<Rightarrow> u8 list \<Rightarrow> int option" where
  "OBJ_sn2nid T R short_name =
     (case added (global_added_by_short_name R) (template\<lparr>obj_sn := Some short_name\<rparr>) of
        None \<Rightarrow> None
      | Some (Some match) \<Rightarrow> Some (obj_nid match)
      | Some None \<Rightarrow> found_nid T (bsearch (short_name_cmp T short_name) (kNIDsInShortNameOrder T)))"

definition long_name_cmp :: "obj_tables \<Rightarrow> u8 list \<Rightarrow> nat \<Rightarrow> int option" where
  "long_name_cmp T name nid = Option.bind (built_in T nid) (\<lambda>b. strcmp_name (Some name) (obj_ln b))"

definition OBJ_ln2nid :: "obj_tables \<Rightarrow> obj_registry \<Rightarrow> u8 list \<Rightarrow> int option" where
  "OBJ_ln2nid T R long_name =
     (case added (global_added_by_long_name R) (template\<lparr>obj_ln := Some long_name\<rparr>) of
        None \<Rightarrow> None
      | Some (Some match) \<Rightarrow> Some (obj_nid match)
      | Some None \<Rightarrow> found_nid T (bsearch (long_name_cmp T long_name) (kNIDsInLongNameOrder T)))"

definition OBJ_nid2obj :: "obj_tables \<Rightarrow> obj_registry \<Rightarrow> int \<Rightarrow> asn1_object option option" where
  "OBJ_nid2obj T R nid =
     (if 0 \<le> nid \<and> nid < NUM_NID T then
        if nid \<noteq> NID_undef \<and> obj_nid (kObjects T ! nat nid) = NID_undef then Some None
        else Some (Some (kObjects T ! nat nid))
      else added (global_added_by_nid R) (template\<lparr>obj_nid := nid\<rparr>))"

definition OBJ_nid2sn :: "obj_tables \<Rightarrow> obj_registry \<Rightarrow> int \<Rightarrow> u8 list option option" where
  "OBJ_nid2sn T R nid = map_option (\<lambda>obj. Option.bind obj obj_sn) (OBJ_nid2obj T R nid)"

definition OBJ_nid2ln :: "obj_tables \<Rightarrow> obj_registry \<Rightarrow> int \<Rightarrow> u8 list option option" where
  "OBJ_nid2ln T R nid = map_option (\<lambda>obj. Option.bind obj obj_ln) (OBJ_nid2obj T R nid)"

text \<open>The bytes of an object as \<^verbatim>\<open>obj->data, obj->length\<close>.\<close>

definition object_bytes :: "asn1_object \<Rightarrow> u8 list option" where
  "object_bytes obj =
     (if obj_length obj = 0 then Some []
      else if obj_length obj < 0 then None
      else case obj_data obj of
          None \<Rightarrow> None
        | Some d \<Rightarrow> if int (length d) < obj_length obj then None else Some (take (nat (obj_length obj)) d))"

text \<open>\<open>0x06\<close> is \<^verbatim>\<open>CBS_ASN1_OBJECT\<close>; \<open>oid\<close> is the address of the local builder.\<close>

definition OBJ_nid2cbb ::
    "obj_tables \<Rightarrow> obj_registry \<Rightarrow> reallocate \<Rightarrow> nat \<Rightarrow> nat \<Rightarrow> int \<Rightarrow> builder \<Rightarrow> builder cres" where
  "OBJ_nid2cbb T R ra out oid nid s =
     (case OBJ_nid2obj T R nid of
        None \<Rightarrow> None
      | Some None \<Rightarrow> ret_false s
      | Some (Some obj) \<Rightarrow>
          and_then (CBB_add_asn1 ra out oid 0x06 s) (\<lambda>s.
            case object_bytes obj of
              None \<Rightarrow> None
            | Some d \<Rightarrow> and_then (CBB_add_bytes ra oid d s) (CBB_flush ra out)))"

section \<open>Text\<close>

text \<open>
  The builder is a local variable. \<open>use_next\<close> says whether \<^verbatim>\<open>get_nid\<close> is \<^verbatim>\<open>obj_next_nid\<close> or null.
\<close>

definition create_object_with_text_oid ::
    "heap \<Rightarrow> bool \<Rightarrow> u8 list \<Rightarrow> u8 list option \<Rightarrow> u8 list option \<Rightarrow> obj_registry \<Rightarrow> (asn1_object option \<times> obj_registry) option" where
  "create_object_with_text_oid heap use_next oid short_name long_name R =
     (let ra = buf_realloc heap; s = \<lparr>buffer = None, cbbs = \<lambda>_. zero_cbb\<rparr> in
      case and_then (CBB_init heap 0 32 s) (\<lambda>s.
          case strlen oid of None \<Rightarrow> None | Some n \<Rightarrow> CBB_add_asn1_oid_from_text ra 0 oid n s) of
        None \<Rightarrow> None
      | Some (False, s) \<Rightarrow> map_option (\<lambda>_. (None, R)) (CBB_cleanup 0 s)
      | Some (True, s) \<Rightarrow>
          (case CBB_finish ra 0 False False s of
             None \<Rightarrow> None
           | Some (None, s) \<Rightarrow> map_option (\<lambda>_. (None, R)) (CBB_cleanup 0 s)
           | Some (Some (bytes, len), s) \<Rightarrow>
               let (nid, R) = (if use_next then obj_next_nid R else (NID_undef, R)) in
               map_option (\<lambda>ret. (ret, R))
                 (ASN1_OBJECT_create heap nid (if bytes = [] then None else Some bytes) (sint (ucast len :: u32))
                   short_name long_name)))"

definition OBJ_txt2obj ::
    "obj_tables \<Rightarrow> obj_registry \<Rightarrow> heap \<Rightarrow> u8 list \<Rightarrow> bool \<Rightarrow> asn1_object option option" where
  "OBJ_txt2obj T R heap s dont_search_names =
     (case (if dont_search_names then Some NID_undef
            else case OBJ_sn2nid T R s of
                None \<Rightarrow> None
              | Some nid \<Rightarrow> if nid = NID_undef then OBJ_ln2nid T R s else Some nid) of
        None \<Rightarrow> None
      | Some nid \<Rightarrow>
          if nid \<noteq> NID_undef then OBJ_nid2obj T R nid
          else map_option fst (create_object_with_text_oid heap False s None None R))"

text \<open>What \<^verbatim>\<open>ASN1_OBJECT_free\<close> does to the object at the end is not seen by the caller.\<close>

definition OBJ_txt2nid :: "obj_tables \<Rightarrow> obj_registry \<Rightarrow> heap \<Rightarrow> u8 list \<Rightarrow> int option" where
  "OBJ_txt2nid T R heap s =
     (case OBJ_txt2obj T R heap s False of
        None \<Rightarrow> None
      | Some obj \<Rightarrow> OBJ_obj2nid T R obj)"

definition strlcpy_int :: "u8 list \<Rightarrow> u8 list \<Rightarrow> int \<Rightarrow> (int \<times> u8 list) option" where
  "strlcpy_int dst src dst_size =
     map_option (\<lambda>(dst, ret). (if INT_MAX < ret then -1 else int ret, dst))
       (OPENSSL_strlcpy dst src (if dst_size < 0 then 0 else nat dst_size))"

text \<open>The return value and the memory behind \<open>out\<close>.\<close>

definition OBJ_obj2txt ::
    "obj_tables \<Rightarrow> obj_registry \<Rightarrow> heap \<Rightarrow> u8 list \<Rightarrow> int \<Rightarrow> asn1_object option \<Rightarrow> bool \<Rightarrow> (int \<times> u8 list) option" where
  "OBJ_obj2txt T R heap out out_len obj always_return_oid =
     (case obj of
        None \<Rightarrow> strlcpy_int out [0] out_len
      | Some obj \<Rightarrow>
          if obj_length obj = 0 then strlcpy_int out [0] out_len
          else case (if always_return_oid then Some None
              else case OBJ_obj2nid T R (Some obj) of
                  None \<Rightarrow> None
                | Some nid \<Rightarrow>
                    if nid = NID_undef then Some None
                    else (case OBJ_nid2ln T R nid of
                        None \<Rightarrow> None
                      | Some (Some name) \<Rightarrow> Some (Some name)
                      | Some None \<Rightarrow> OBJ_nid2sn T R nid)) of
            None \<Rightarrow> None
          | Some (Some name) \<Rightarrow> strlcpy_int out name out_len
          | Some None \<Rightarrow>
              (case object_bytes obj of
                 None \<Rightarrow> None
               | Some cbs \<Rightarrow>
                   (case CBS_asn1_oid_to_text heap cbs of
                      None \<Rightarrow> None
                    | Some None \<Rightarrow>
                        if 0 < out_len then (case out of [] \<Rightarrow> None | _ # rest \<Rightarrow> Some (- 1, 0 # rest)) else Some (- 1, out)
                    | Some (Some text) \<Rightarrow> strlcpy_int out text out_len)))"

section \<open>Adding objects\<close>

definition hash_nid :: "asn1_object \<Rightarrow> u32 option" where
  "hash_nid obj = Some (word_of_int (obj_nid obj))"

definition cmp_nid :: "asn1_object \<Rightarrow> asn1_object \<Rightarrow> int option" where
  "cmp_nid a b = c_int (obj_nid a - obj_nid b)"

definition hash_data :: "asn1_object \<Rightarrow> u32 option" where
  "hash_data obj = map_option OPENSSL_hash32 (object_bytes obj)"

definition cmp_data :: "asn1_object \<Rightarrow> asn1_object \<Rightarrow> int option" where
  "cmp_data a b =
     Option.bind (c_int (obj_length a - obj_length b)) (\<lambda>i. if i \<noteq> 0 then Some i else data_memcmp a b)"

definition hash_short_name :: "asn1_object \<Rightarrow> u32 option" where
  "hash_short_name obj = lh_strhash (obj_sn obj)"

definition cmp_short_name :: "asn1_object \<Rightarrow> asn1_object \<Rightarrow> int option" where
  "cmp_short_name a b = strcmp_name (obj_sn a) (obj_sn b)"

definition hash_long_name :: "asn1_object \<Rightarrow> u32 option" where
  "hash_long_name obj = lh_strhash (obj_ln obj)"

definition cmp_long_name :: "asn1_object \<Rightarrow> asn1_object \<Rightarrow> int option" where
  "cmp_long_name a b = strcmp_name (obj_ln a) (obj_ln b)"

text \<open>The first call makes the tables. A table for which there is no memory is a null pointer.\<close>

definition make_tables :: "heap \<Rightarrow> obj_registry \<Rightarrow> obj_registry option" where
  "make_tables heap R =
     (if global_added_by_nid R \<noteq> None then Some R
      else case (lh_new heap hash_nid cmp_nid, lh_new heap hash_data cmp_data,
            lh_new heap hash_short_name cmp_short_name, lh_new heap hash_long_name cmp_long_name) of
          (Some by_nid, Some by_data, Some by_sn, Some by_ln) \<Rightarrow>
            Some (R\<lparr>global_added_by_nid := by_nid, global_added_by_data := by_data,
              global_added_by_short_name := by_sn, global_added_by_long_name := by_ln\<rparr>)
        | _ \<Rightarrow> None)"

text \<open>\<^verbatim>\<open>lh_ASN1_OBJECT_insert\<close> does not take a null table.\<close>

definition add_to :: "heap \<Rightarrow> 'v lhash option \<Rightarrow> 'v \<Rightarrow> (bool \<times> 'v lhash option) option" where
  "add_to heap table obj =
     (case table of
        None \<Rightarrow> None
      | Some lh \<Rightarrow> map_option (\<lambda>((inserted, old_object), lh). (inserted, Some lh)) (lh_insert heap lh obj))"

definition add_if :: "bool \<Rightarrow> heap \<Rightarrow> 'v lhash option \<Rightarrow> 'v \<Rightarrow> (bool \<times> 'v lhash option) option" where
  "add_if c heap table obj = (if c then add_to heap table obj else Some (True, table))"

definition obj_add_object :: "heap \<Rightarrow> asn1_object \<Rightarrow> obj_registry \<Rightarrow> (bool \<times> obj_registry) option" where
  "obj_add_object heap obj R =
     (let obj = obj\<lparr>obj_flags := obj_flags obj AND
           NOT (ASN1_OBJECT_FLAG_DYNAMIC OR ASN1_OBJECT_FLAG_DYNAMIC_STRINGS OR ASN1_OBJECT_FLAG_DYNAMIC_DATA)\<rparr> in
      case make_tables heap R of
        None \<Rightarrow> None
      | Some R \<Rightarrow>
          (case add_to heap (global_added_by_nid R) obj of
             None \<Rightarrow> None
           | Some (ok1, by_nid) \<Rightarrow>
               (case add_if (obj_length obj \<noteq> 0 \<and> obj_data obj \<noteq> None) heap (global_added_by_data R) obj of
                  None \<Rightarrow> None
                | Some (ok2, by_data) \<Rightarrow>
                    (case add_if (obj_sn obj \<noteq> None) heap (global_added_by_short_name R) obj of
                       None \<Rightarrow> None
                     | Some (ok3, by_sn) \<Rightarrow>
                         map_option (\<lambda>(ok4, by_ln). (ok1 \<and> ok2 \<and> ok3 \<and> ok4,
                             R\<lparr>global_added_by_nid := by_nid, global_added_by_data := by_data,
                               global_added_by_short_name := by_sn, global_added_by_long_name := by_ln\<rparr>))
                           (add_if (obj_ln obj \<noteq> None) heap (global_added_by_long_name R) obj)))))"

definition OBJ_create ::
    "heap \<Rightarrow> u8 list \<Rightarrow> u8 list option \<Rightarrow> u8 list option \<Rightarrow> obj_registry \<Rightarrow> (int \<times> obj_registry) option" where
  "OBJ_create heap oid short_name long_name R =
     (case create_object_with_text_oid heap True oid short_name long_name R of
        None \<Rightarrow> None
      | Some (None, R) \<Rightarrow> Some (NID_undef, R)
      | Some (Some op, R) \<Rightarrow>
          map_option (\<lambda>(ok, R). (if ok then obj_nid op else NID_undef, R)) (obj_add_object heap op R))"

end
