(* ===== verification/Obj_Refine.thy ===== *)
theory Obj_Refine
  imports Obj Cbb_Oid "HOL-Library.List_Lexorder" "HOL-Library.Product_Lexorder"
begin

text \<open>
  What the registry of objects is: the four tables of added objects are finite maps (\<open>hash_keys\<close>, interpreted for
  numbers, encodings and names), and \<^verbatim>\<open>bsearch\<close> finds what is in a sorted array.
\<close>

section \<open>Tables of added objects\<close>

context hash_keys
begin

text \<open>A table that may be null.\<close>

definition held :: "'v lhash option \<Rightarrow> ('k \<rightharpoonup> 'v) \<Rightarrow> bool" where
  "held table m \<longleftrightarrow> (case table of None \<Rightarrow> m = Map.empty | Some lh \<Rightarrow> represents lh m)"

lemma held_lookup: "held table m \<Longrightarrow> valid x \<Longrightarrow> added table x = Some (m (key x))"
  by (auto simp: held_def added_def retrieve_map split: option.splits)

lemma held_add:
  assumes h: "held table m" "table \<noteq> None" and x: "valid x" and room: "card (dom m) + 1 < 2 ^ 64"
  shows "\<exists>ok t m'. add_to heap table x = Some (ok, t) \<and> held t m' \<and> t \<noteq> None
    \<and> (ok \<longrightarrow> m' = m(key x \<mapsto> x)) \<and> (\<not> ok \<longrightarrow> m' = m) \<and> (gives heap \<longrightarrow> ok)"
proof -
  obtain lh where lh: "table = Some lh" "represents lh m" using h by (auto simp: held_def)
  from insert_map [OF lh(2) x room, of heap] show ?thesis
  proof (elim exE disjE conjE)
    fix lh' assume "lh_insert heap lh x = Some ((True, m (key x)), lh')" "represents lh' (m(key x \<mapsto> x))"
    with lh show ?thesis by (intro exI [of _ True] exI [of _ "Some lh'"] exI [of _ "m(key x \<mapsto> x)"]) (simp add: add_to_def held_def)
  next
    assume i: "lh_insert heap lh x = Some ((False, None), lh)"
    with insert_given [of heap lh x False None lh] lh show ?thesis
      by (intro exI [of _ False] exI [of _ "Some lh"] exI [of _ m]) (auto simp: add_to_def held_def)
  qed
qed

lemma held_new: "lh_new heap hash cmp = Some t \<Longrightarrow> held t Map.empty"
  using new_table by (auto simp: held_def split: option.split)

end

subsection \<open>By number, encoding and name\<close>

definition numbered :: "asn1_object \<Rightarrow> bool" where
  "numbered b \<longleftrightarrow> 0 \<le> obj_nid b \<and> obj_nid b < 2 ^ 31"

definition with_bytes :: "asn1_object \<Rightarrow> bool" where
  "with_bytes b \<longleftrightarrow> object_bytes b \<noteq> None \<and> obj_length b < 2 ^ 31"

definition encoding :: "asn1_object \<Rightarrow> u8 list" where
  "encoding b = the (object_bytes b)"

definition is_name :: "u8 list option \<Rightarrow> bool" where
  "is_name s \<longleftrightarrow> (\<exists>c. s = Some c \<and> c_string c)"

definition name_of :: "u8 list option \<Rightarrow> u8 list" where
  "name_of s = characters_of (the s)"

lemma with_bytesD:
  assumes "with_bytes b"
  shows "0 \<le> obj_length b" and "obj_length b < 2 ^ 31" and "length (encoding b) = nat (obj_length b)"
    and "obj_length b \<noteq> 0 \<Longrightarrow> \<exists>d. obj_data b = Some d \<and> obj_length b \<le> int (length d) \<and> encoding b = take (nat (obj_length b)) d"
  using assms by (auto simp: with_bytes_def encoding_def object_bytes_def split: if_splits option.splits)

lemma memcmp_encoding:
  assumes "with_bytes a" and "with_bytes b" and "obj_length a = obj_length b"
  shows "\<exists>c. data_memcmp a b = Some c \<and> (c = 0 \<longleftrightarrow> encoding a = encoding b)"
proof (cases "obj_length a = 0")
  case True
  with with_bytesD(3) [OF assms(1)] with_bytesD(3) [OF assms(2)] assms(3) show ?thesis by (simp add: data_memcmp_def)
next
  case False
  with with_bytesD(4) [OF assms(1)] with_bytesD(4) [OF assms(2)] assms(3) obtain x y where
    d: "obj_data a = Some x" "obj_data b = Some y" "obj_length a \<le> int (length x)" "obj_length a \<le> int (length y)"
      "encoding a = take (nat (obj_length a)) x" "encoding b = take (nat (obj_length a)) y" by auto
  with False with_bytesD(1) [OF assms(1)] show ?thesis by (simp add: data_memcmp_def memcmp_prefix_zero nat_le_iff)
qed

lemma c_int_difference: "0 \<le> a \<Longrightarrow> 0 \<le> b \<Longrightarrow> a < 2 ^ 31 \<Longrightarrow> b < 2 ^ 31 \<Longrightarrow> c_int (a - b) = Some (a - b)"
  by (simp add: c_int_def)

lemma cmp_data_encoding:
  assumes "with_bytes a" and "with_bytes b"
  shows "\<exists>c. cmp_data a b = Some c \<and> (c = 0 \<longleftrightarrow> encoding a = encoding b)"
proof -
  note A = with_bytesD [OF assms(1)] and B = with_bytesD [OF assms(2)]
  have c: "c_int (obj_length a - obj_length b) = Some (obj_length a - obj_length b)"
    by (rule c_int_difference [OF A(1) B(1) A(2) B(2)])
  show ?thesis
  proof (cases "obj_length a = obj_length b")
    case True
    with memcmp_encoding [OF assms True] c show ?thesis by (simp add: cmp_data_def)
  next
    case False
    then have "encoding a \<noteq> encoding b" using A(1,3) B(1,3) by (metis eq_nat_nat_iff)
    with False c show ?thesis by (simp add: cmp_data_def)
  qed
qed

lemma strcmp_names: "is_name s \<Longrightarrow> is_name t \<Longrightarrow> \<exists>c. strcmp_name s t = Some c \<and> (c = 0 \<longleftrightarrow> name_of s = name_of t)"
  using strcmp_eq by (auto simp: is_name_def strcmp_name_def name_of_def)

interpretation by_nid: hash_keys hash_nid cmp_nid numbered obj_nid word_of_int
  by unfold_locales (auto simp: hash_nid_def cmp_nid_def numbered_def c_int_difference)

interpretation by_data: hash_keys hash_data cmp_data with_bytes encoding OPENSSL_hash32
  by unfold_locales (auto simp: hash_data_def with_bytes_def encoding_def intro!: cmp_data_encoding [unfolded with_bytes_def encoding_def])

interpretation by_sn: hash_keys hash_short_name cmp_short_name "\<lambda>b. is_name (obj_sn b)" "\<lambda>b. name_of (obj_sn b)" OPENSSL_hash32
  by unfold_locales (auto simp: hash_short_name_def cmp_short_name_def strhash_characters is_name_def name_of_def
    intro!: strcmp_names [unfolded is_name_def name_of_def])

interpretation by_ln: hash_keys hash_long_name cmp_long_name "\<lambda>b. is_name (obj_ln b)" "\<lambda>b. name_of (obj_ln b)" OPENSSL_hash32
  by unfold_locales (auto simp: hash_long_name_def cmp_long_name_def strhash_characters is_name_def name_of_def
    intro!: strcmp_names [unfolded is_name_def name_of_def])

section \<open>The registry\<close>

definition all_made :: "obj_registry \<Rightarrow> bool" where
  "all_made R \<longleftrightarrow> global_added_by_nid R \<noteq> None \<and> global_added_by_data R \<noteq> None
     \<and> global_added_by_short_name R \<noteq> None \<and> global_added_by_long_name R \<noteq> None"

definition none_made :: "obj_registry \<Rightarrow> bool" where
  "none_made R \<longleftrightarrow> global_added_by_nid R = None \<and> global_added_by_data R = None
     \<and> global_added_by_short_name R = None \<and> global_added_by_long_name R = None"

text \<open>The four maps, none with more than \<open>k\<close> objects.\<close>

definition registry ::
    "nat \<Rightarrow> obj_registry \<Rightarrow> (int \<rightharpoonup> asn1_object) \<Rightarrow> (u8 list \<rightharpoonup> asn1_object) \<Rightarrow> (u8 list \<rightharpoonup> asn1_object)
      \<Rightarrow> (u8 list \<rightharpoonup> asn1_object) \<Rightarrow> bool" where
  "registry k R N D S L \<longleftrightarrow> (all_made R \<or> none_made R)
     \<and> by_nid.held (global_added_by_nid R) N \<and> card (dom N) \<le> k
     \<and> by_data.held (global_added_by_data R) D \<and> card (dom D) \<le> k
     \<and> by_sn.held (global_added_by_short_name R) S \<and> card (dom S) \<le> k
     \<and> by_ln.held (global_added_by_long_name R) L \<and> card (dom L) \<le> k"

lemma initial_registry: "registry 0 (initial_registry T) Map.empty Map.empty Map.empty Map.empty"
  by (simp add: registry_def initial_registry_def none_made_def by_nid.held_def by_data.held_def by_sn.held_def by_ln.held_def)

definition ready :: "heap \<Rightarrow> obj_registry \<Rightarrow> bool" where
  "ready heap R \<longleftrightarrow> global_added_by_nid R \<noteq> None \<or> gives heap"

lemma new_given: "gives heap \<Longrightarrow> \<exists>lh. lh_new heap h c = Some (Some lh)"
  using gives_allocated [of heap 48] gives_allocated [of heap 128] by (auto simp: lh_new_def)

lemma make_tables_outcome:
  assumes r: "registry k R N D S L" and g: "ready heap R"
  shows "\<exists>R'. make_tables heap R = Some R' \<and> registry k R' N D S L \<and> all_made R' \<and> global_next_nid R' = global_next_nid R"
proof (cases "global_added_by_nid R = None")
  case False
  with r show ?thesis by (auto simp: make_tables_def registry_def all_made_def none_made_def)
next
  case True
  with g have g: "gives heap" by (simp add: ready_def)
  obtain a b c d where t: "lh_new heap hash_nid cmp_nid = Some (Some a)" "lh_new heap hash_data cmp_data = Some (Some b)"
      "lh_new heap hash_short_name cmp_short_name = Some (Some c)" "lh_new heap hash_long_name cmp_long_name = Some (Some d)"
    using new_given [OF g] by metis
  have "none_made R" using r True by (auto simp: registry_def all_made_def)
  with r have "N = Map.empty" "D = Map.empty" "S = Map.empty" "L = Map.empty"
    by (simp_all add: registry_def none_made_def by_nid.held_def by_data.held_def by_sn.held_def by_ln.held_def)
  with True t by_nid.held_new [OF t(1)] by_data.held_new [OF t(2)] by_sn.held_new [OF t(3)] by_ln.held_new [OF t(4)]
  show ?thesis by (simp add: make_tables_def registry_def all_made_def)
qed

definition put :: "bool \<Rightarrow> ('k \<rightharpoonup> 'v) \<Rightarrow> 'k \<Rightarrow> 'v \<Rightarrow> ('k \<rightharpoonup> 'v)" where
  "put c m x v = (if c then m(x \<mapsto> v) else m)"

lemma card_dom_update: "card (dom (m(x \<mapsto> v))) \<le> Suc (card (dom m))"
proof (cases "finite (dom m)")
  case True
  then show ?thesis by (simp add: card_insert_if)
qed simp

context hash_keys
begin

lemma held_put:
  assumes h: "held table m" "table \<noteq> None" and x: "c \<Longrightarrow> valid x" and room: "card (dom m) \<le> k" "k + 1 < 2 ^ 64"
  shows "\<exists>ok t m'. add_if c heap table x = Some (ok, t) \<and> held t m' \<and> t \<noteq> None \<and> card (dom m') \<le> k + 1
    \<and> (ok \<longrightarrow> m' = put c m (key x) x) \<and> (\<not> ok \<longrightarrow> m' = m) \<and> (gives heap \<longrightarrow> ok)"
proof (cases c)
  case True
  from room have r: "card (dom m) + 1 < 2 ^ 64" by simp
  from held_add [OF h x [OF True] r, of heap] obtain ok t m' where
    a: "add_to heap table x = Some (ok, t)" "held t m'" "t \<noteq> None" "ok \<longrightarrow> m' = m(key x \<mapsto> x)"
      "\<not> ok \<longrightarrow> m' = m" "gives heap \<longrightarrow> ok" by blast
  have "card (dom m') \<le> k + 1" using a(4,5) room(1) card_dom_update [of m "key x" x] by (cases ok) auto
  with a True show ?thesis by (auto simp: add_if_def put_def)
next
  case False
  with h room show ?thesis by (auto simp: add_if_def put_def)
qed

end

definition kept :: "asn1_object \<Rightarrow> asn1_object" where
  "kept b = b\<lparr>obj_flags := obj_flags b AND
     NOT (ASN1_OBJECT_FLAG_DYNAMIC OR ASN1_OBJECT_FLAG_DYNAMIC_STRINGS OR ASN1_OBJECT_FLAG_DYNAMIC_DATA)\<rparr>"

lemma kept_fields:
  "obj_nid (kept b) = obj_nid b" "obj_sn (kept b) = obj_sn b" "obj_ln (kept b) = obj_ln b"
  "obj_length (kept b) = obj_length b" "obj_data (kept b) = obj_data b"
  by (simp_all add: kept_def)

lemma kept_bytes: "object_bytes (kept b) = object_bytes b"
  unfolding object_bytes_def kept_fields ..

lemma kept_valid:
  "numbered (kept b) \<longleftrightarrow> numbered b" "with_bytes (kept b) \<longleftrightarrow> with_bytes b" "encoding (kept b) = encoding b"
  by (simp_all add: numbered_def with_bytes_def encoding_def kept_bytes kept_fields)

definition good_object :: "asn1_object \<Rightarrow> bool" where
  "good_object b \<longleftrightarrow> numbered b \<and> with_bytes b \<and> (obj_sn b \<noteq> None \<longrightarrow> is_name (obj_sn b)) \<and> (obj_ln b \<noteq> None \<longrightarrow> is_name (obj_ln b))"

lemma add_object_outcome:
  assumes r: "registry k R N D S L" and g: "ready heap R" and b: "good_object b" and room: "k + 1 < 2 ^ 64"
  shows "\<exists>ok R' N' D' S' L'. obj_add_object heap b R = Some (ok, R') \<and> registry (k + 1) R' N' D' S' L'
    \<and> global_next_nid R' = global_next_nid R \<and> (N' = N \<or> N' = N(obj_nid b \<mapsto> kept b)) \<and> (gives heap \<longrightarrow> ok)
    \<and> (ok \<longrightarrow> N' = N(obj_nid b \<mapsto> kept b) \<and> D' = put (obj_length b \<noteq> 0 \<and> obj_data b \<noteq> None) D (encoding b) (kept b)
        \<and> S' = put (obj_sn b \<noteq> None) S (name_of (obj_sn b)) (kept b) \<and> L' = put (obj_ln b \<noteq> None) L (name_of (obj_ln b)) (kept b))"
proof -
  obtain R1 where R1: "make_tables heap R = Some R1" "registry k R1 N D S L" "all_made R1" "global_next_nid R1 = global_next_nid R"
    using make_tables_outcome [OF r g] by blast
  note h = R1(2) [unfolded registry_def] and t = R1(3) [unfolded all_made_def]
  have v: "numbered (kept b)" "with_bytes (kept b)" using b by (simp_all add: good_object_def kept_valid)
  obtain o1 t1 N' where n: "add_if True heap (global_added_by_nid R1) (kept b) = Some (o1, t1)" "by_nid.held t1 N'" "t1 \<noteq> None"
      "card (dom N') \<le> k + 1" "o1 \<longrightarrow> N' = put True N (obj_nid b) (kept b)" "\<not> o1 \<longrightarrow> N' = N" "gives heap \<longrightarrow> o1"
    using by_nid.held_put [of "global_added_by_nid R1" N True "kept b" k heap] h t v(1) room by (auto simp: kept_fields)
  let ?cd = "obj_length b \<noteq> 0 \<and> obj_data b \<noteq> None"
  obtain o2 t2 D' where d: "add_if ?cd heap (global_added_by_data R1) (kept b) = Some (o2, t2)" "by_data.held t2 D'" "t2 \<noteq> None"
      "card (dom D') \<le> k + 1" "o2 \<longrightarrow> D' = put ?cd D (encoding b) (kept b)" "gives heap \<longrightarrow> o2"
    using by_data.held_put [of "global_added_by_data R1" D ?cd "kept b" k heap] h t v(2) room by (auto simp: kept_valid)
  let ?cs = "obj_sn b \<noteq> None"
  obtain o3 t3 S' where s: "add_if ?cs heap (global_added_by_short_name R1) (kept b) = Some (o3, t3)" "by_sn.held t3 S'" "t3 \<noteq> None"
      "card (dom S') \<le> k + 1" "o3 \<longrightarrow> S' = put ?cs S (name_of (obj_sn b)) (kept b)" "gives heap \<longrightarrow> o3"
    using by_sn.held_put [of "global_added_by_short_name R1" S ?cs "kept b" k heap] h t b room
    by (auto simp: kept_fields good_object_def)
  let ?cl = "obj_ln b \<noteq> None"
  obtain o4 t4 L' where l: "add_if ?cl heap (global_added_by_long_name R1) (kept b) = Some (o4, t4)" "by_ln.held t4 L'" "t4 \<noteq> None"
      "card (dom L') \<le> k + 1" "o4 \<longrightarrow> L' = put ?cl L (name_of (obj_ln b)) (kept b)" "gives heap \<longrightarrow> o4"
    using by_ln.held_put [of "global_added_by_long_name R1" L ?cl "kept b" k heap] h t b room
    by (auto simp: kept_fields good_object_def)
  let ?R = "R1\<lparr>global_added_by_nid := t1, global_added_by_data := t2, global_added_by_short_name := t3, global_added_by_long_name := t4\<rparr>"
  have e: "obj_add_object heap b R = Some (o1 \<and> o2 \<and> o3 \<and> o4, ?R)"
    unfolding obj_add_object_def Let_def kept_def [symmetric] kept_fields
    using R1(1) n(1) d(1) s(1) l(1) by (simp add: add_if_def [of True])
  have "registry (k + 1) ?R N' D' S' L'"
    using n(2-4) d(2-4) s(2-4) l(2-4) by (simp add: registry_def all_made_def)
  moreover have "N' = N \<or> N' = N(obj_nid b \<mapsto> kept b)" using n(5,6) by (auto simp: put_def)
  moreover have "o1 \<longrightarrow> N' = N(obj_nid b \<mapsto> kept b)" using n(5) by (simp add: put_def)
  ultimately show ?thesis using e n(7) d(5,6) s(5,6) l(5,6) R1(4)
    by (intro exI [of _ "o1 \<and> o2 \<and> o3 \<and> o4"] exI [of _ ?R] exI [of _ N'] exI [of _ D'] exI [of _ S'] exI [of _ L']) simp
qed

end
