(* ===== verification/Obj_Search.thy ===== *)
theory Obj_Search
  imports Obj_Refine
begin

text \<open>
  Searches of the registry: \<^verbatim>\<open>bsearch\<close> on an array that is sorted by the key that the comparison orders, the three orders of the
  built-in objects, and what each lookup gives on the built-in and the added objects together.
\<close>

section \<open>Binary search\<close>

text \<open>A comparison with the key \<open>kd\<close>.\<close>

definition compares :: "('e \<Rightarrow> int option) \<Rightarrow> ('e \<Rightarrow> 'k::linorder) \<Rightarrow> 'k \<Rightarrow> 'e \<Rightarrow> bool" where
  "compares compar key kd x \<longleftrightarrow> (\<exists>c. compar x = Some c \<and> (c < 0 \<longleftrightarrow> kd < key x) \<and> (0 < c \<longleftrightarrow> key x < kd))"

lemma bsearch_range_exact:
  assumes "\<forall>x\<in>set xs. compares compar key kd x" and "sorted (map key xs)" and "u \<le> length xs"
    and "\<forall>i<l. key (xs ! i) < kd" and "\<forall>i. u \<le> i \<and> i < length xs \<longrightarrow> kd < key (xs ! i)" and "l \<le> length xs"
  shows "\<exists>r. bsearch_range compar xs l u = Some r
    \<and> (case r of None \<Rightarrow> kd \<notin> key ` set xs | Some x \<Rightarrow> x \<in> set xs \<and> key x = kd)"
  using assms
proof (induction compar xs l u rule: bsearch_range.induct)
  case (1 compar xs l u)
  show ?case
  proof (cases "u \<le> l")
    case True
    have "key (xs ! i) \<noteq> kd" if "i < length xs" for i
    proof (cases "i < l")
      case True
      with 1(6) show ?thesis by auto
    next
      case False
      with True that have "u \<le> i" by simp
      with 1(7) that show ?thesis by (metis less_irrefl)
    qed
    then have "kd \<notin> key ` set xs" by (metis image_iff in_set_conv_nth)
    with True show ?thesis by (simp add: bsearch_range.simps)
  next
    case False
    let ?m = "(l + u) div 2"
    have m: "l \<le> ?m" "?m < u" "?m < length xs" using False 1(5) by auto
    then obtain c where c: "compar (xs ! ?m) = Some c" "c < 0 \<longleftrightarrow> kd < key (xs ! ?m)" "0 < c \<longleftrightarrow> key (xs ! ?m) < kd"
      using 1(3) by (auto simp: compares_def dest: nth_mem)
    have mono: "key (xs ! i) \<le> key (xs ! j)" if "i \<le> j" "j < length xs" for i j
      using sorted_nth_mono [OF 1(4), of i j] that by simp
    have e: "bsearch_range compar xs l u = (if c < 0 then bsearch_range compar xs l ?m
        else if 0 < c then bsearch_range compar xs (?m + 1) u else Some (Some (xs ! ?m)))"
      using False c(1) by (subst bsearch_range.simps) (simp add: Let_def)
    consider "c < 0" | "0 < c" | "c = 0" by linarith
    then show ?thesis
    proof cases
      case lt: 1
      have "\<forall>i. ?m \<le> i \<and> i < length xs \<longrightarrow> kd < key (xs ! i)" using c(2) lt mono by (meson less_le_trans)
      with 1(1) [OF False refl c(1) lt 1(3,4) _ 1(6) _ 1(8)] m lt e show ?thesis by simp
    next
      case gt: 2
      have "\<forall>i<?m + 1. key (xs ! i) < kd"
      proof (intro allI impI)
        fix i assume "i < ?m + 1"
        with mono [of i ?m] m(3) c(3) gt show "key (xs ! i) < kd" by (simp add: le_less_trans)
      qed
      with 1(2) [OF False refl c(1) _ gt 1(3,4,5) _ 1(7)] m gt e show ?thesis by simp
    next
      case 3
      with c have "key (xs ! ?m) = kd" by (meson less_irrefl linorder_neqE)
      with e 3 m(3) show ?thesis by simp
    qed
  qed
qed

lemma bsearch_exact:
  assumes "\<forall>x\<in>set xs. compares compar key kd x" and "sorted (map key xs)"
  obtains "bsearch compar xs = Some None" "kd \<notin> key ` set xs"
  | x where "bsearch compar xs = Some (Some x)" "x \<in> set xs" "key x = kd"
proof -
  have "\<forall>i. length xs \<le> i \<and> i < length xs \<longrightarrow> kd < key (xs ! i)" by auto
  with bsearch_range_exact [OF assms, of "length xs" 0] obtain r where
    r: "bsearch compar xs = Some r" "case r of None \<Rightarrow> kd \<notin> key ` set xs | Some x \<Rightarrow> x \<in> set xs \<and> key x = kd"
    by (auto simp: bsearch_def)
  then show ?thesis using that by (cases r) auto
qed

section \<open>Orders of names and encodings\<close>

lemma strcmp_lexicographic:
  "c_string s \<Longrightarrow> c_string t \<Longrightarrow> \<exists>c. strcmp s t = Some c \<and> (c < 0 \<longleftrightarrow> characters_of s < characters_of t)
    \<and> (0 < c \<longleftrightarrow> characters_of t < characters_of s)"
proof (induction s t rule: strcmp.induct)
  case (1 a s b t)
  consider "a < b" | "b < a" | "a = b" "a = 0" | "a = b" "a \<noteq> 0" by fastforce
  then show ?case
  proof cases
    case 4
    with 1 show ?thesis by (auto simp: c_string_def characters_of_def)
  qed (auto simp: characters_of_def)
qed (simp_all add: c_string_def)

lemma memcmp_order:
  "n \<le> length xs \<Longrightarrow> n \<le> length ys \<Longrightarrow> (OPENSSL_memcmp xs ys n < 0 \<longleftrightarrow> take n xs < take n ys)
    \<and> (0 < OPENSSL_memcmp xs ys n \<longleftrightarrow> take n ys < take n xs)"
  by (induction xs ys n rule: OPENSSL_memcmp.induct) auto

section \<open>The built-in objects\<close>

text \<open>
  What the generator of \<^verbatim>\<open>obj_dat.h\<close> promises: the object of a number is at its index, a number without
  an object has the empty object, the other objects have both names; each order lists the objects that have the key, sorted.
\<close>

definition oid_key :: "asn1_object \<Rightarrow> int \<times> u8 list" where
  "oid_key b = (obj_length b, encoding b)"

abbreviation (input) "sn_of T i \<equiv> name_of (obj_sn (kObjects T ! i))"
abbreviation (input) "ln_of T i \<equiv> name_of (obj_ln (kObjects T ! i))"

definition good_tables :: "obj_tables \<Rightarrow> bool" where
  "good_tables T \<longleftrightarrow> length (kObjects T) < 2 ^ 16
     \<and> (\<forall>i<length (kObjects T). let b = kObjects T ! i in with_bytes b
          \<and> (if obj_nid b = int i then is_name (obj_sn b) \<and> is_name (obj_ln b)
             else obj_nid b = 0 \<and> obj_sn b = None \<and> obj_ln b = None \<and> obj_length b = 0))
     \<and> set (kNIDsInShortNameOrder T) = {i. i < length (kObjects T) \<and> obj_sn (kObjects T ! i) \<noteq> None}
     \<and> sorted_wrt (<) (map (sn_of T) (kNIDsInShortNameOrder T))
     \<and> set (kNIDsInLongNameOrder T) = {i. i < length (kObjects T) \<and> obj_ln (kObjects T ! i) \<noteq> None}
     \<and> sorted_wrt (<) (map (ln_of T) (kNIDsInLongNameOrder T))
     \<and> set (kNIDsInOIDOrder T) = {i. i < length (kObjects T) \<and> obj_length (kObjects T ! i) \<noteq> 0}
     \<and> sorted (map (\<lambda>i. oid_key (kObjects T ! i)) (kNIDsInOIDOrder T))"

lemma good_entry:
  assumes "good_tables T" and "i < length (kObjects T)"
  shows "with_bytes (kObjects T ! i)"
    and "obj_nid (kObjects T ! i) = int i \<Longrightarrow> is_name (obj_sn (kObjects T ! i)) \<and> is_name (obj_ln (kObjects T ! i))"
    and "obj_nid (kObjects T ! i) \<noteq> int i \<Longrightarrow> obj_nid (kObjects T ! i) = 0 \<and> obj_sn (kObjects T ! i) = None
      \<and> obj_ln (kObjects T ! i) = None \<and> obj_length (kObjects T ! i) = 0"
  using assms unfolding good_tables_def Let_def by meson+

lemma good_nid:
  assumes "good_tables T" and "i < length (kObjects T)"
    and "obj_sn (kObjects T ! i) \<noteq> None \<or> obj_ln (kObjects T ! i) \<noteq> None \<or> obj_length (kObjects T ! i) \<noteq> 0"
  shows "obj_nid (kObjects T ! i) = int i"
  using good_entry(3) [OF assms(1,2)] assms(3) by blast

lemma good_orders:
  assumes "good_tables T"
  shows "set (kNIDsInShortNameOrder T) = {i. i < length (kObjects T) \<and> obj_sn (kObjects T ! i) \<noteq> None}"
    and "sorted (map (sn_of T) (kNIDsInShortNameOrder T))"
    and "set (kNIDsInLongNameOrder T) = {i. i < length (kObjects T) \<and> obj_ln (kObjects T ! i) \<noteq> None}"
    and "sorted (map (ln_of T) (kNIDsInLongNameOrder T))"
    and "set (kNIDsInOIDOrder T) = {i. i < length (kObjects T) \<and> obj_length (kObjects T ! i) \<noteq> 0}"
    and "sorted (map (\<lambda>i. oid_key (kObjects T ! i)) (kNIDsInOIDOrder T))"
    and "sorted_wrt (<) (map (sn_of T) (kNIDsInShortNameOrder T))"
    and "sorted_wrt (<) (map (ln_of T) (kNIDsInLongNameOrder T))"
  using assms unfolding good_tables_def by (auto dest: strict_sorted_imp_sorted)

lemma names_compare: "c_string name \<Longrightarrow> is_name s \<Longrightarrow> \<exists>c. strcmp_name (Some name) s = Some c
    \<and> (c < 0 \<longleftrightarrow> characters_of name < name_of s) \<and> (0 < c \<longleftrightarrow> name_of s < characters_of name)"
  using strcmp_lexicographic by (auto simp: is_name_def strcmp_name_def name_of_def)

lemma short_names_compare:
  assumes "good_tables T" and "c_string name"
  shows "\<forall>i\<in>set (kNIDsInShortNameOrder T). compares (short_name_cmp T name) (sn_of T) (characters_of name) i"
proof
  fix i assume "i \<in> set (kNIDsInShortNameOrder T)"
  then have i: "i < length (kObjects T)" "obj_sn (kObjects T ! i) \<noteq> None" using good_orders(1) [OF assms(1)] by auto
  with good_nid [OF assms(1), of i] good_entry(2) [OF assms(1), of i] have "is_name (obj_sn (kObjects T ! i))" by blast
  from names_compare [OF assms(2) this] i(1) show "compares (short_name_cmp T name) (sn_of T) (characters_of name) i"
    by (simp add: compares_def short_name_cmp_def built_in_def)
qed

lemma long_names_compare:
  assumes "good_tables T" and "c_string name"
  shows "\<forall>i\<in>set (kNIDsInLongNameOrder T). compares (long_name_cmp T name) (ln_of T) (characters_of name) i"
proof
  fix i assume "i \<in> set (kNIDsInLongNameOrder T)"
  then have i: "i < length (kObjects T)" "obj_ln (kObjects T ! i) \<noteq> None" using good_orders(3) [OF assms(1)] by auto
  with good_nid [OF assms(1), of i] good_entry(2) [OF assms(1), of i] have "is_name (obj_ln (kObjects T ! i))" by blast
  from names_compare [OF assms(2) this] i(1) show "compares (long_name_cmp T name) (ln_of T) (characters_of name) i"
    by (simp add: compares_def long_name_cmp_def built_in_def)
qed

lemma data_memcmp_order:
  assumes "with_bytes a" and "with_bytes b" and "obj_length a = obj_length b"
  shows "\<exists>c. data_memcmp a b = Some c \<and> (c < 0 \<longleftrightarrow> encoding a < encoding b) \<and> (0 < c \<longleftrightarrow> encoding b < encoding a)"
proof (cases "obj_length a = 0")
  case True
  with with_bytesD(3) [OF assms(1)] with_bytesD(3) [OF assms(2)] assms(3) show ?thesis by (simp add: data_memcmp_def)
next
  case False
  with with_bytesD(4) [OF assms(1)] with_bytesD(4) [OF assms(2)] assms(3) obtain x y where
    d: "obj_data a = Some x" "obj_data b = Some y" "obj_length a \<le> int (length x)" "obj_length a \<le> int (length y)"
      "encoding a = take (nat (obj_length a)) x" "encoding b = take (nat (obj_length a)) y" by auto
  with False with_bytesD(1) [OF assms(1)] show ?thesis by (simp add: data_memcmp_def memcmp_order nat_le_iff)
qed

lemma encodings_compare:
  assumes "good_tables T" and "with_bytes a"
  shows "\<forall>i\<in>set (kNIDsInOIDOrder T). compares (obj_cmp T a) (\<lambda>i. oid_key (kObjects T ! i)) (oid_key a) i"
proof
  fix i assume "i \<in> set (kNIDsInOIDOrder T)"
  then have i: "i < length (kObjects T)" using good_orders(5) [OF assms(1)] by auto
  note w = good_entry(1) [OF assms(1) i]
  show "compares (obj_cmp T a) (\<lambda>i. oid_key (kObjects T ! i)) (oid_key a) i"
  proof (cases "obj_length a = obj_length (kObjects T ! i)")
    case True
    with data_memcmp_order [OF assms(2) w] i show ?thesis by (simp add: compares_def obj_cmp_def built_in_def oid_key_def less_prod_def)
  next
    case False
    with i show ?thesis by (simp add: compares_def obj_cmp_def built_in_def oid_key_def less_prod_def)
  qed
qed

section \<open>Lookups\<close>

lemma strict_unique: "sorted_wrt (<) (map f xs) \<Longrightarrow> x \<in> set xs \<Longrightarrow> y \<in> set xs \<Longrightarrow> f x = f y \<Longrightarrow> x = (y :: nat)"
  for f :: "nat \<Rightarrow> 'k::linorder"
  by (metis distinct_map inj_onD strict_sorted_iff)

definition has_sn :: "obj_tables \<Rightarrow> u8 list \<Rightarrow> nat \<Rightarrow> bool" where
  "has_sn T s i \<longleftrightarrow> i < length (kObjects T) \<and> obj_sn (kObjects T ! i) \<noteq> None \<and> sn_of T i = s"

definition has_ln :: "obj_tables \<Rightarrow> u8 list \<Rightarrow> nat \<Rightarrow> bool" where
  "has_ln T s i \<longleftrightarrow> i < length (kObjects T) \<and> obj_ln (kObjects T ! i) \<noteq> None \<and> ln_of T i = s"

definition has_encoding :: "obj_tables \<Rightarrow> u8 list \<Rightarrow> nat \<Rightarrow> bool" where
  "has_encoding T e i \<longleftrightarrow> i < length (kObjects T) \<and> obj_length (kObjects T ! i) \<noteq> 0 \<and> encoding (kObjects T ! i) = e"

text \<open>A number: the one of the added object if there is one, else of a built-in object, else 0.\<close>

definition number_found :: "asn1_object option \<Rightarrow> (nat \<Rightarrow> bool) \<Rightarrow> int \<Rightarrow> bool" where
  "number_found b P n \<longleftrightarrow>
     (case b of
        Some b \<Rightarrow> n = obj_nid b
      | None \<Rightarrow> (\<exists>i. P i \<and> n = int i) \<or> (\<forall>i. \<not> P i) \<and> n = 0)"

lemma sn2nid_exact:
  assumes T: "good_tables T" and h: "by_sn.held (global_added_by_short_name R) S" and s: "c_string s"
  shows "\<exists>n. OBJ_sn2nid T R s = Some n \<and> number_found (S (characters_of s)) (has_sn T (characters_of s)) n"
proof -
  note O = good_orders [OF T]
  have a: "added (global_added_by_short_name R) (template\<lparr>obj_sn := Some s\<rparr>) = Some (S (characters_of s))"
    using by_sn.held_lookup [OF h, of "template\<lparr>obj_sn := Some s\<rparr>"] s by (simp add: is_name_def name_of_def)
  show ?thesis
  proof (cases "S (characters_of s)")
    case None
    from short_names_compare [OF T s] O(2) show ?thesis
    proof (rule bsearch_exact)
      assume n: "bsearch (short_name_cmp T s) (kNIDsInShortNameOrder T) = Some None"
        and i: "characters_of s \<notin> sn_of T ` set (kNIDsInShortNameOrder T)"
      have "\<not> has_sn T (characters_of s) i" for i
      proof
        assume "has_sn T (characters_of s) i"
        then have "i \<in> set (kNIDsInShortNameOrder T)" "sn_of T i = characters_of s" by (simp_all add: has_sn_def O(1))
        with i show False by (metis imageI)
      qed
      with n a None show ?thesis by (auto simp: OBJ_sn2nid_def found_nid_def number_found_def)
    next
      fix i assume i: "bsearch (short_name_cmp T s) (kNIDsInShortNameOrder T) = Some (Some i)"
        "i \<in> set (kNIDsInShortNameOrder T)" "sn_of T i = characters_of s"
      with O(1) have "has_sn T (characters_of s) i" by (auto simp: has_sn_def)
      with good_nid [OF T, of i] a None i(1) show ?thesis
        by (auto simp: OBJ_sn2nid_def found_nid_def number_found_def has_sn_def built_in_def)
    qed
  qed (use a in \<open>simp add: OBJ_sn2nid_def number_found_def\<close>)
qed

lemma ln2nid_exact:
  assumes T: "good_tables T" and h: "by_ln.held (global_added_by_long_name R) L" and s: "c_string s"
  shows "\<exists>n. OBJ_ln2nid T R s = Some n \<and> number_found (L (characters_of s)) (has_ln T (characters_of s)) n"
proof -
  note O = good_orders [OF T]
  have a: "added (global_added_by_long_name R) (template\<lparr>obj_ln := Some s\<rparr>) = Some (L (characters_of s))"
    using by_ln.held_lookup [OF h, of "template\<lparr>obj_ln := Some s\<rparr>"] s by (simp add: is_name_def name_of_def)
  show ?thesis
  proof (cases "L (characters_of s)")
    case None
    from long_names_compare [OF T s] O(4) show ?thesis
    proof (rule bsearch_exact)
      assume n: "bsearch (long_name_cmp T s) (kNIDsInLongNameOrder T) = Some None"
        and i: "characters_of s \<notin> ln_of T ` set (kNIDsInLongNameOrder T)"
      have "\<not> has_ln T (characters_of s) i" for i
      proof
        assume "has_ln T (characters_of s) i"
        then have "i \<in> set (kNIDsInLongNameOrder T)" "ln_of T i = characters_of s" by (simp_all add: has_ln_def O(3))
        with i show False by (metis imageI)
      qed
      with n a None show ?thesis by (auto simp: OBJ_ln2nid_def found_nid_def number_found_def)
    next
      fix i assume i: "bsearch (long_name_cmp T s) (kNIDsInLongNameOrder T) = Some (Some i)"
        "i \<in> set (kNIDsInLongNameOrder T)" "ln_of T i = characters_of s"
      with O(3) have "has_ln T (characters_of s) i" by (auto simp: has_ln_def)
      with good_nid [OF T, of i] a None i(1) show ?thesis
        by (auto simp: OBJ_ln2nid_def found_nid_def number_found_def has_ln_def built_in_def)
    qed
  qed (use a in \<open>simp add: OBJ_ln2nid_def number_found_def\<close>)
qed

lemma obj2nid_exact:
  assumes T: "good_tables T" and h: "by_data.held (global_added_by_data R) D" and b: "with_bytes b" "obj_nid b = 0"
  shows "\<exists>n. OBJ_obj2nid T R (Some b) = Some n \<and> number_found (D (encoding b)) (has_encoding T (encoding b)) n"
proof -
  note O = good_orders [OF T]
  have a: "added (global_added_by_data R) b = Some (D (encoding b))" by (rule by_data.held_lookup [OF h b(1)])
  have k: "oid_key b = oid_key (kObjects T ! i) \<longleftrightarrow> encoding b = encoding (kObjects T ! i)" if "i < length (kObjects T)" for i
    using with_bytesD(1,3) [OF b(1)] with_bytesD(1,3) [OF good_entry(1) [OF T that]] by (auto simp: oid_key_def)
  show ?thesis
  proof (cases "D (encoding b)")
    case None
    from encodings_compare [OF T b(1)] O(6) show ?thesis
    proof (rule bsearch_exact)
      assume n: "bsearch (obj_cmp T b) (kNIDsInOIDOrder T) = Some None"
        and i: "oid_key b \<notin> (\<lambda>i. oid_key (kObjects T ! i)) ` set (kNIDsInOIDOrder T)"
      have "\<not> has_encoding T (encoding b) i" for i
        using i O(5) k [of i] by (auto simp: has_encoding_def)
      with n a None b(2) show ?thesis by (auto simp: OBJ_obj2nid_def found_nid_def number_found_def)
    next
      fix i assume i: "bsearch (obj_cmp T b) (kNIDsInOIDOrder T) = Some (Some i)"
        "i \<in> set (kNIDsInOIDOrder T)" "oid_key (kObjects T ! i) = oid_key b"
      with O(5) k [of i] have "has_encoding T (encoding b) i" by (auto simp: has_encoding_def)
      with good_nid [OF T, of i] a None i(1) b(2) show ?thesis
        by (auto simp: OBJ_obj2nid_def found_nid_def number_found_def has_encoding_def built_in_def)
    qed
  qed (use a b(2) in \<open>simp add: OBJ_obj2nid_def number_found_def\<close>)
qed

lemma nid2obj_added:
  assumes h: "by_nid.held (global_added_by_nid R) N" and n: "NUM_NID T \<le> n" "n < 2 ^ 31"
  shows "OBJ_nid2obj T R n = Some (N n)"
proof -
  have "numbered (template\<lparr>obj_nid := n\<rparr>)" using n by (simp add: numbered_def NUM_NID_def)
  from by_nid.held_lookup [OF h this] n show ?thesis by (simp add: OBJ_nid2obj_def)
qed

lemma nid2obj_built_in: "i < length (kObjects T) \<Longrightarrow> obj_nid (kObjects T ! i) = int i \<Longrightarrow>
    OBJ_nid2obj T R (int i) = Some (Some (kObjects T ! i))"
  by (cases "i = 0") (simp_all add: OBJ_nid2obj_def NUM_NID_def)

end
