(* ===== verification/Obj_Create.thy ===== *)
theory Obj_Create
  imports Obj_Search Ber_Properties
begin

text \<open>
  Objects from text: what \<^verbatim>\<open>create_object_with_text_oid\<close> makes, through the builder of byte strings, and what
  \<^verbatim>\<open>OBJ_create\<close> adds to the registry.
\<close>

section \<open>Copies of names\<close>

definition name_or_null :: "u8 list option \<Rightarrow> bool" where
  "name_or_null s \<longleftrightarrow> (case s of None \<Rightarrow> True | Some c \<Rightarrow> c_string c \<and> length c < 2 ^ 62)"

definition same_name :: "u8 list option \<Rightarrow> u8 list option \<Rightarrow> bool" where
  "same_name s t \<longleftrightarrow> (s = None \<longleftrightarrow> t = None) \<and> (s \<noteq> None \<longrightarrow> is_name t \<and> name_of t = name_of s)"

lemma characters_prefix: "c_string s \<Longrightarrow> length (characters_of s) < length s
    \<and> characters_of (take (length (characters_of s) + 1) s) = characters_of s
    \<and> c_string (take (length (characters_of s) + 1) s)"
  by (induction s) (auto simp: c_string_def characters_of_def)

lemma strdup_outcome:
  assumes s: "c_string s" "length s < 2 ^ 62"
  shows "\<exists>r. OPENSSL_strdup heap (Some s) = Some r \<and> (gives heap \<longrightarrow> r \<noteq> None)
    \<and> (\<forall>ptr. r = Some ptr \<longrightarrow> user_bytes ptr = take (length (characters_of s) + 1) s)"
proof -
  let ?n = "length (characters_of s) + 1"
  note P = characters_prefix [OF s(1)]
  have n: "?n < 2 ^ 63" "?n \<le> length s" "strlen s = Some (length (characters_of s))"
    using P s strlen_c_string by auto
  have u: "unat (word_of_nat ?n :: u64) = ?n" using n(1) by (intro unat_word_of_nat_small) simp
  have w: "unat (word_of_nat ?n :: u64) < 2 ^ 64 - 8" unfolding u using n(1) by simp
  have g: "\<exists>ptr. OPENSSL_malloc heap (word_of_nat ?n) = Some (Some ptr)" if "gives heap"
    using gives_malloc [OF that, of "word_of_nat ?n"] u s(2) n(2) by simp
  show ?thesis
  proof (cases "OPENSSL_malloc heap (word_of_nat ?n)")
    case None
    with malloc_sound(1) [OF w, of heap] show ?thesis by simp
  next
    case (Some r)
    show ?thesis
    proof (cases r)
      case N: None
      with Some g n(3) show ?thesis by (auto simp: OPENSSL_strdup_def Let_def)
    next
      case b: (Some ret)
      from malloc_sound(2) [OF w, of heap ret] Some b u have l: "length (user_bytes ret) = ?n" "8 \<le> length ret"
        by (auto simp: sound_block_def)
      let ?c = "take 8 ret @ take ?n s @ drop ?n (user_bytes ret)"
      have "OPENSSL_strdup heap (Some s) = Some (Some ?c)"
        using Some b n(3) l(1) by (simp add: OPENSSL_strdup_def Let_def)
      moreover have "user_bytes ?c = take ?n s" using l by (simp add: user_bytes_def)
      ultimately show ?thesis by blast
    qed
  qed
qed

lemma dup_name_outcome:
  assumes "name_or_null s"
  shows "\<exists>r. dup_name heap s = Some r \<and> (gives heap \<longrightarrow> r \<noteq> None) \<and> (\<forall>t. r = Some t \<longrightarrow> same_name s t)"
proof (cases s)
  case None
  then show ?thesis by (simp add: dup_name_def same_name_def)
next
  case (Some c)
  with assms have c: "c_string c" "length c < 2 ^ 62" by (simp_all add: name_or_null_def)
  obtain r where r: "OPENSSL_strdup heap (Some c) = Some r" "gives heap \<longrightarrow> r \<noteq> None"
    "\<forall>ptr. r = Some ptr \<longrightarrow> user_bytes ptr = take (length (characters_of c) + 1) c"
    using strdup_outcome [OF c] by blast
  with characters_prefix [OF c(1)] Some show ?thesis
    by (cases r) (auto simp: dup_name_def same_name_def is_name_def name_of_def)
qed

section \<open>New objects\<close>

lemma object_create_outcome:
  assumes d: "length e \<le> length d" "take (length e) d = e" and l: "length e < 2 ^ 31"
    and s: "name_or_null sn" "name_or_null ln"
  shows "\<exists>r. ASN1_OBJECT_create heap nid (Some d) (int (length e)) sn ln = Some r \<and> (gives heap \<longrightarrow> r \<noteq> None)
    \<and> (\<forall>b. r = Some b \<longrightarrow> obj_nid b = nid \<and> obj_length b = int (length e) \<and> object_bytes b = Some e \<and> obj_data b \<noteq> None
        \<and> same_name sn (obj_sn b) \<and> same_name ln (obj_ln b))"
proof -
  let ?n = "word_of_int (int (length e)) :: u64"
  have u': "unat (word_of_nat (length e) :: u64) = length e" using l by (intro unat_word_of_nat_small) simp
  then have u: "unat ?n = length e" by simp
  obtain x y where xy: "dup_name heap ln = Some x" "gives heap \<longrightarrow> x \<noteq> None" "\<forall>t. x = Some t \<longrightarrow> same_name ln t"
    "dup_name heap sn = Some y" "gives heap \<longrightarrow> y \<noteq> None" "\<forall>t. y = Some t \<longrightarrow> same_name sn t"
    using dup_name_outcome s by metis
  obtain ok where ok: "allocated heap 40 = Some ok" using allocated_some [of 40] by auto
  have gk: "gives heap \<longrightarrow> ok" using gives_allocated [of heap 40] ok by auto
  have w: "unat ?n < 2 ^ 64 - 8" unfolding u using l by simp
  obtain p where p: "OPENSSL_malloc heap ?n = Some p" using malloc_sound(1) [OF w, of heap] by blast
  have pl: "length (user_bytes ptr) = length e" if "p = Some ptr" for ptr
    using malloc_sound(2) [OF w, of heap ptr] p that u by (metis sound_block_def)
  have gp: "gives heap \<longrightarrow> p \<noteq> None" using gives_malloc [of heap ?n] u l p by auto
  show ?thesis
  proof (cases "ok \<and> p \<noteq> None")
    case False
    with ok gk gp p show ?thesis
      by (cases ok) (auto simp: ASN1_OBJECT_create_def OBJ_dup_def ASN1_OBJECT_new_def Let_def)
  next
    case True
    then obtain ptr where ptr: "p = Some ptr" ok by blast
    have c: "take (length e) d @ drop (length e) (user_bytes ptr) = e" using pl [OF ptr(1)] d(2) by simp
    show ?thesis
      using ok ptr p xy d pl [OF ptr(1)] c
      by (cases x; cases y) (auto simp: ASN1_OBJECT_create_def OBJ_dup_def ASN1_OBJECT_new_def Let_def u' object_bytes_def)
  qed
qed

section \<open>Objects from text\<close>

lemma keeps_root_base128_integer: "keeps_root s (add_base128_integer ra c v s)"
  unfolding add_base128_integer_def Let_def by (rule keeps_root_base128)

lemma keeps_root_then:
  assumes k: "keeps_root s r" and f: "\<And>s'. r = Some (True, s') \<Longrightarrow> keeps_root s' (f s')"
  shows "keeps_root s (and_then r f)"
proof (cases r)
  case (Some z)
  obtain ok s' where z: "z = (ok, s')" by (cases z)
  with k Some have "same_root s s'" by simp
  with rooted_from [OF f, of s' s] Some z show ?thesis by (cases ok) (auto simp: and_then_def)
qed simp

lemma keeps_root_oid_components: "keeps_root s (add_oid_components ra c cbs s)"
proof (induction ra c cbs s rule: add_oid_components.induct)
  case (1 ra c cbs s)
  show ?case
  proof (cases "CBS_len cbs = 0")
    case True
    then show ?thesis by (subst add_oid_components.simps) simp
  next
    case False
    obtain a rest where p: "parse_dotted_decimal cbs = (a, rest)" by (cases "parse_dotted_decimal cbs")
    show ?thesis
    proof (cases a)
      case None
      with False p show ?thesis by (subst add_oid_components.simps) simp
    next
      case (Some v)
      have "keeps_root s (and_then (add_base128_integer ra c v s) (add_oid_components ra c rest))"
        by (rule keeps_root_then [OF keeps_root_base128_integer], rule 1 [OF False p [symmetric] Some])
      with False p Some show ?thesis by (subst add_oid_components.simps) simp
    qed
  qed
qed

lemma keeps_root_from_text: "keeps_root s (CBB_add_asn1_oid_from_text ra c txt len s)"
  unfolding CBB_add_asn1_oid_from_text_def
  by (rule keeps_root_and_then [OF keeps_root_flush])
    (auto intro!: keeps_root_and_then keeps_root_base128_integer keeps_root_oid_components
      split: prod.split option.split)

lemma small_uint: "unat l < 2 ^ 31 \<Longrightarrow> uint l < 2 ^ 31" for l :: "'a::len word"
  by (metis of_nat_less_iff of_nat_numeral of_nat_power uint_nat)

lemma small_int: "unat l < 2 ^ 31 \<Longrightarrow> sint (ucast l :: u32) = int (unat l)" for l :: u64
proof -
  assume l: "unat l < 2 ^ 31"
  then have "unat (ucast l :: u32) = unat l" by (simp add: unsigned_ucast_eq take_bit_nat_eq_self_iff)
  then have "uint (ucast l :: u32) = int (unat l)" by (metis uint_nat)
  moreover have "uint l < 2 ^ 31" using small_uint [OF l] .
  ultimately show ?thesis by (simp add: sint_uint signed_take_bit_int_eq_self_iff order_trans [OF _ uint_ge_0])
qed

lemma finish_bytes:
  assumes v: "view ra n s c out []" and c: "\<not> is_child (cbbs s c)"
  shows "\<exists>d l s'. CBB_finish ra c False False s = Some (Some (d, l), s') \<and> take (length out) d = out
    \<and> length out \<le> length d \<and> unat l = length out"
proof -
  have "CBB_flush ra c s = ret_true s"
    using v by (subst CBB_flush.simps) (auto simp: view_def good_def)
  with assms show ?thesis
    by (auto simp: view_def CBB_finish_def CBB_cleanup_def content_def good_def buf_ok_def upd_def ret_true_def)
qed

definition oid_bytes :: "u8 list \<Rightarrow> u8 list \<Rightarrow> bool" where
  "oid_bytes txt e \<longleftrightarrow> (\<exists>vs. oid_numbers txt = Some vs \<and> oid_content vs = Some e)"

lemma oid_bytes_nonempty: "oid_bytes txt e \<Longrightarrow> e \<noteq> []"
  by (auto simp: oid_bytes_def elim!: oid_content.elims split: if_splits)

lemma oid_bytes_unique: "oid_bytes txt e \<Longrightarrow> oid_bytes txt e' \<Longrightarrow> e = e'"
  by (auto simp: oid_bytes_def)

definition made_from ::
    "u8 list \<Rightarrow> int \<Rightarrow> u8 list option \<Rightarrow> u8 list option \<Rightarrow> asn1_object \<Rightarrow> bool" where
  "made_from e nid sn ln b \<longleftrightarrow> obj_nid b = nid \<and> obj_length b = int (length e) \<and> object_bytes b = Some e \<and> obj_data b \<noteq> None
     \<and> same_name sn (obj_sn b) \<and> same_name ln (obj_ln b)"

definition after_nid :: "bool \<Rightarrow> obj_registry \<Rightarrow> int \<times> obj_registry" where
  "after_nid use_next R = (if use_next then obj_next_nid R else (NID_undef, R))"

lemma create_object_outcome:
  assumes o: "c_string oid" and s: "name_or_null sn" "name_or_null ln"
    and small: "\<And>e. oid_bytes (characters_of oid) e \<Longrightarrow> length e < 2 ^ 31"
  shows "(\<exists>R'. create_object_with_text_oid heap use_next oid sn ln R = Some (None, R')
        \<and> (R' = R \<or> R' = snd (after_nid use_next R)) \<and> \<not> (gives heap \<and> (\<exists>e. oid_bytes (characters_of oid) e)))
    \<or> (\<exists>e b. oid_bytes (characters_of oid) e \<and> made_from e (fst (after_nid use_next R)) sn ln b
        \<and> create_object_with_text_oid heap use_next oid sn ln R = Some (Some b, snd (after_nid use_next R)))"
proof -
  let ?txt = "characters_of oid" and ?ra = "buf_realloc heap" and ?s = "\<lparr>buffer = None, cbbs = \<lambda>_. zero_cbb\<rparr>"
  define n where "n = (if gives heap then 2 ^ 31 else 0 :: nat)"
  have n: "n = 0 \<or> supplies heap n" by (simp add: n_def supplies_def gives_def)
  have pre: "take (length ?txt) oid = ?txt" unfolding characters_of_def
    by (metis append_eq_conv_conj takeWhile_dropWhile_id)
  note D = create_object_with_text_oid_def Let_def strlen_c_string [OF o]
  from init_outcome [OF _ n, of 32 0 ?s]
  consider s1 where "CBB_init heap 0 32 ?s = Some (True, s1)" "view ?ra n s1 0 [] []" "\<not> is_child (cbbs s1 0)"
    | s1 where "\<not> supplies heap n" "CBB_init heap 0 32 ?s = Some (False, s1)" "\<not> is_child (cbbs s1 0)" by auto
  then show ?thesis
  proof cases
    case 2
    have "\<not> gives heap"
    proof
      assume g: "gives heap"
      then have "supplies heap n" by (simp add: n_def supplies_def) (simp add: gives_def)
      with 2(1) show False ..
    qed
    with 2 show ?thesis by (simp add: D CBB_cleanup_def)
  next
    case 1
    note w = grow.oid_from_text_outcome [OF 1(2), of oid "length ?txt", unfolded pre]
    from outcome_returns [OF w] obtain ok s2 where s2: "CBB_add_asn1_oid_from_text ?ra 0 oid (length ?txt) s1 = Some (ok, s2)"
      "ok \<Longrightarrow> \<exists>e. oid_bytes ?txt e \<and> view ?ra n s2 0 e []" by (auto simp: oid_bytes_def split: if_splits)
    have root: "\<not> is_child (cbbs s2 0)"
      using rootedD [OF s2(1) keeps_root_from_text] 1(3) by (simp add: same_root_def)
    show ?thesis
    proof (cases ok)
      case False
      have "\<not> (gives heap \<and> (\<exists>e. oid_bytes ?txt e))"
      proof
        assume a: "gives heap \<and> (\<exists>e. oid_bytes ?txt e)"
        then obtain e where e: "oid_bytes ?txt e" by blast
        with small [OF e] a have "length e \<le> n" by (simp add: n_def)
        with e outcome_no_error [OF w] s2(1) False show False by (auto simp: oid_bytes_def)
      qed
      with 1(1) s2(1) False root show ?thesis by (simp add: D CBB_cleanup_def)
    next
      case True
      with s2(2) obtain e where e: "oid_bytes ?txt e" "view ?ra n s2 0 e []" by blast
      from finish_bytes [OF e(2) root] obtain d l s3 where
        f: "CBB_finish ?ra 0 False False s2 = Some (Some (d, l), s3)" "take (length e) d = e" "length e \<le> length d" "unat l = length e"
        by blast
      have d: "d \<noteq> []" using f(3) oid_bytes_nonempty [OF e(1)] by auto
      have li: "sint (ucast l :: u32) = int (length e)"
        using small_int [of l] small [OF e(1)] f(4) by simp
      from object_create_outcome [OF f(3,2) small [OF e(1)] s, of heap "fst (after_nid use_next R)"] obtain r where
        r: "ASN1_OBJECT_create heap (fst (after_nid use_next R)) (Some d) (int (length e)) sn ln = Some r" "gives heap \<longrightarrow> r \<noteq> None"
          "\<forall>b. r = Some b \<longrightarrow> made_from e (fst (after_nid use_next R)) sn ln b" by (auto simp: made_from_def)
      have "create_object_with_text_oid heap use_next oid sn ln R = Some (r, snd (after_nid use_next R))"
        using 1(1) s2(1) True f(1) d li r(1)
        by (simp add: D after_nid_def case_prod_beta)
      with r e(1) show ?thesis by (cases r) auto
    qed
  qed
qed

section \<open>Creating objects\<close>

text \<open>The registry of a program: every added object is under its number, and numbers are below the next one.\<close>

definition known ::
    "obj_tables \<Rightarrow> obj_registry \<Rightarrow> (int \<rightharpoonup> asn1_object) \<Rightarrow> (u8 list \<rightharpoonup> asn1_object) \<Rightarrow> (u8 list \<rightharpoonup> asn1_object)
      \<Rightarrow> (u8 list \<rightharpoonup> asn1_object) \<Rightarrow> bool" where
  "known T R N D S L \<longleftrightarrow> registry (unat (global_next_nid R)) R N D S L
     \<and> 0 < NUM_NID T \<and> NUM_NID T \<le> uint (global_next_nid R)
     \<and> (\<forall>n b. N n = Some b \<longrightarrow> obj_nid b = n \<and> NUM_NID T \<le> n \<and> n < uint (global_next_nid R))"

definition arguments :: "u8 list \<Rightarrow> u8 list option \<Rightarrow> u8 list option \<Rightarrow> bool" where
  "arguments oid sn ln \<longleftrightarrow> c_string oid \<and> name_or_null sn \<and> name_or_null ln
     \<and> (\<forall>e. oid_bytes (characters_of oid) e \<longrightarrow> length e < 2 ^ 31)"

definition numbers_left :: "obj_registry \<Rightarrow> bool" where
  "numbers_left R \<longleftrightarrow> unat (global_next_nid R) < 2 ^ 31 - 1"

definition recorded ::
    "u8 list \<Rightarrow> u8 list option \<Rightarrow> u8 list option \<Rightarrow> int \<Rightarrow> asn1_object \<Rightarrow> (int \<rightharpoonup> asn1_object) \<Rightarrow> (u8 list \<rightharpoonup> asn1_object)
      \<Rightarrow> (u8 list \<rightharpoonup> asn1_object) \<Rightarrow> (u8 list \<rightharpoonup> asn1_object) \<Rightarrow> bool" where
  "recorded e sn ln nid b N D S L \<longleftrightarrow> N nid = Some b \<and> D e = Some b
     \<and> (sn \<noteq> None \<longrightarrow> S (name_of sn) = Some b) \<and> (ln \<noteq> None \<longrightarrow> L (name_of ln) = Some b)"

lemma next_nid_value: "numbers_left R \<Longrightarrow> fst (obj_next_nid R) = uint (global_next_nid R)
    \<and> unat (global_next_nid (snd (obj_next_nid R))) = unat (global_next_nid R) + 1"
proof -
  assume n: "numbers_left R"
  have "uint (global_next_nid R) < 2 ^ 31" using small_uint [of "global_next_nid R"] n by (simp add: numbers_left_def)
  then have "sint (global_next_nid R) = uint (global_next_nid R)"
    by (simp add: sint_uint signed_take_bit_int_eq_self_iff order_trans [OF _ uint_ge_0])
  moreover have "unat (global_next_nid R + 1) = unat (global_next_nid R) + 1"
    using n by (simp add: numbers_left_def unat_word_ariths)
  ultimately show ?thesis by (simp add: obj_next_nid_def)
qed

lemma same_name_null: "same_name s t \<Longrightarrow> t = None \<longleftrightarrow> s = None"
  and same_name_eq: "same_name s t \<Longrightarrow> s \<noteq> None \<Longrightarrow> name_of t = name_of s"
  by (auto simp: same_name_def)

lemma made_kept: "made_from e nid sn ln b \<Longrightarrow> made_from e nid sn ln (kept b)"
  by (simp add: made_from_def kept_fields kept_bytes)

text \<open>An object in the registry is not for \<^verbatim>\<open>ASN1_OBJECT_free\<close> to release.\<close>

lemma kept_not_freed: "ASN1_OBJECT_free (Some (kept b)) = Some (kept b)"
  by (simp add: ASN1_OBJECT_free_def kept_def and.assoc)

lemma made_good: "made_from e nid sn ln b \<Longrightarrow> length e < 2 ^ 31 \<Longrightarrow> 0 \<le> nid \<Longrightarrow> nid < 2 ^ 31 \<Longrightarrow> good_object b"
  by (auto simp: made_from_def good_object_def numbered_def with_bytes_def same_name_def)

lemma known_more:
  assumes "known T R N D S L" and "global_next_nid R' = global_next_nid R + 1" and "numbers_left R"
    and "registry (unat (global_next_nid R) + 1) R' N' D' S' L'"
    and "\<forall>n b. N' n = Some b \<longrightarrow> N n = Some b \<or> n = uint (global_next_nid R) \<and> obj_nid b = n"
  shows "known T R' N' D' S' L'"
proof -
  have u: "unat (global_next_nid R') = unat (global_next_nid R) + 1"
    using assms(2,3) by (simp add: numbers_left_def unat_word_ariths)
  then have v: "uint (global_next_nid R') = uint (global_next_nid R) + 1"
    unfolding uint_nat by (simp only: of_nat_add of_nat_1)
  have "obj_nid b = n \<and> NUM_NID T \<le> n \<and> n < uint (global_next_nid R) + 1" if "N' n = Some b" for n b
  proof (cases "N n = Some b")
    case True
    with assms(1) show ?thesis unfolding known_def by fastforce
  next
    case False
    with assms(1,5) that show ?thesis unfolding known_def by auto
  qed
  then show ?thesis using assms(1,4) unfolding known_def u v by auto
qed

lemma registry_number: "registry k (R\<lparr>global_next_nid := x\<rparr>) N D S L = registry k R N D S L"
  by (simp add: registry_def all_made_def none_made_def)

lemma registry_mono: "registry k R N D S L \<Longrightarrow> k \<le> l \<Longrightarrow> registry l R N D S L"
  by (auto simp: registry_def)

lemma create_outcome:
  assumes k: "known T R N D S L" and a: "arguments oid sn ln" and g: "ready heap R" and l: "numbers_left R"
  shows "\<exists>nid R' N' D' S' L'. OBJ_create heap oid sn ln R = Some (nid, R') \<and> known T R' N' D' S' L'
    \<and> (nid = 0 \<longrightarrow> \<not> (gives heap \<and> (\<exists>e. oid_bytes (characters_of oid) e)))
    \<and> (nid \<noteq> 0 \<longrightarrow> nid = uint (global_next_nid R) \<and> (\<exists>e b. oid_bytes (characters_of oid) e \<and> made_from e nid sn ln (kept b)
          \<and> recorded e sn ln nid (kept b) N' D' S' L'))
    \<and> (\<forall>n. n \<noteq> uint (global_next_nid R) \<longrightarrow> N' n = N n)"
proof -
  let ?nid = "uint (global_next_nid R)" and ?R = "snd (obj_next_nid R)"
  have reg: "registry (unat (global_next_nid R)) R N D S L" using k by (simp add: known_def)
  have R1: "registry (unat (global_next_nid R)) ?R N D S L" "ready heap ?R" "global_next_nid ?R = global_next_nid R + 1"
    using reg g by (simp_all add: obj_next_nid_def registry_number ready_def)
  have same: "known T ?R N D S L"
    by (rule known_more [OF k R1(3) l]) (use registry_mono [OF R1(1)] in auto)
  note v = next_nid_value [OF l]
  have nid: "fst (after_nid True R) = ?nid" "snd (after_nid True R) = ?R" using v by (simp_all add: after_nid_def)
  from create_object_outcome [of oid sn ln heap True R] a
  consider R' where "create_object_with_text_oid heap True oid sn ln R = Some (None, R')" "R' = R \<or> R' = ?R"
      "\<not> (gives heap \<and> (\<exists>e. oid_bytes (characters_of oid) e))"
    | e b where "oid_bytes (characters_of oid) e" "made_from e ?nid sn ln b"
      "create_object_with_text_oid heap True oid sn ln R = Some (Some b, ?R)"
    unfolding arguments_def nid by blast
  then show ?thesis
  proof cases
    case 1
    have "known T R' N D S L" using 1(2) k same by auto
    with 1(1,3) show ?thesis by (auto simp: OBJ_create_def)
  next
    case 2
    have e: "length e < 2 ^ 31" "e \<noteq> []" using a 2(1) oid_bytes_nonempty by (auto simp: arguments_def)
    have b: "good_object b" by (rule made_good [OF 2(2) e(1)]) (use small_uint [of "global_next_nid R"] l in \<open>simp_all add: numbers_left_def\<close>)
    have room: "unat (global_next_nid R) + 1 < 2 ^ 64" using l by (simp add: numbers_left_def)
    have n: "obj_nid b = ?nid" using 2(2) by (simp add: made_from_def)
    from add_object_outcome [OF R1(1,2) b room] obtain ok R' N' D' S' L' where
      o: "obj_add_object heap b ?R = Some (ok, R')" "registry (unat (global_next_nid R) + 1) R' N' D' S' L'"
        "global_next_nid R' = global_next_nid ?R" "N' = N \<or> N' = N(?nid \<mapsto> kept b)" "gives heap \<longrightarrow> ok"
      and ok: "ok \<longrightarrow> N' = N(?nid \<mapsto> kept b) \<and> D' = put (obj_length b \<noteq> 0 \<and> obj_data b \<noteq> None) D (encoding b) (kept b)
        \<and> S' = put (obj_sn b \<noteq> None) S (name_of (obj_sn b)) (kept b) \<and> L' = put (obj_ln b \<noteq> None) L (name_of (obj_ln b)) (kept b)"
      unfolding n by blast
    have kn: "known T R' N' D' S' L'"
      by (rule known_more [OF k _ l o(2)]) (use o(3,4) R1(3) n in \<open>auto simp: kept_fields split: if_splits\<close>)
    have pos: "?nid \<noteq> 0" using k unfolding known_def by linarith
    have rec: "recorded e sn ln ?nid (kept b) N' D' S' L'" if ok
    proof -
      have f: "encoding b = e" "obj_length b \<noteq> 0" "obj_data b \<noteq> None" "same_name sn (obj_sn b)" "same_name ln (obj_ln b)"
        using 2(2) e(2) by (simp_all add: made_from_def encoding_def)
      have s: "sn \<noteq> None \<Longrightarrow> obj_sn b \<noteq> None \<and> name_of (obj_sn b) = name_of sn"
          "ln \<noteq> None \<Longrightarrow> obj_ln b \<noteq> None \<and> name_of (obj_ln b) = name_of ln"
        using same_name_null same_name_eq f(4,5) by blast+
      show ?thesis using ok [rule_format, OF that] s by (simp add: recorded_def put_def f(1-3))
    qed
    have cr: "OBJ_create heap oid sn ln R = Some (if ok then ?nid else 0, R')"
      using 2(3) o(1) n by (simp add: OBJ_create_def)
    have old: "N' m = N m" if "m \<noteq> ?nid" for m using o(4) that by auto
    show ?thesis
    proof (intro exI conjI)
      show "OBJ_create heap oid sn ln R = Some (if ok then ?nid else 0, R')" by (rule cr)
      show "known T R' N' D' S' L'" by (rule kn)
    qed (use rec old o(5) 2(1) made_kept [OF 2(2)] pos in auto)
  qed
qed

end
