(* ===== verification/Obj_Properties.thy ===== *)
theory Obj_Properties
  imports Obj_Create
begin

text \<open>
  What the registry of object identifiers promises: built-in objects are found by number, names and encoding, an object that
  \<^verbatim>\<open>OBJ_create\<close> adds is found in the same ways from then on and the others stay, and identifiers go from text to objects and back.
\<close>

section \<open>Programs that add objects\<close>

inductive created :: "obj_tables \<Rightarrow> obj_registry \<Rightarrow> bool" for T :: obj_tables where
  start: "good_tables T \<Longrightarrow> kObjects T \<noteq> [] \<Longrightarrow> created T (initial_registry T)"
| "add": "created T R \<Longrightarrow> arguments oid sn ln \<Longrightarrow> ready heap R \<Longrightarrow> numbers_left R \<Longrightarrow>
    OBJ_create heap oid sn ln R = Some (nid, R') \<Longrightarrow> created T R'"

lemma initial_known:
  assumes "good_tables T" and "kObjects T \<noteq> []"
  shows "known T (initial_registry T) Map.empty Map.empty Map.empty Map.empty"
proof -
  have l: "length (kObjects T) < 2 ^ 16" using assms(1) by (simp add: good_tables_def)
  then have "uint (global_next_nid (initial_registry T)) = NUM_NID T"
    by (simp add: initial_registry_def NUM_NID_def unsigned_of_nat take_bit_nat_eq_self_iff take_bit_int_eq_self_iff)
  with assms(2) registry_mono [OF initial_registry] show ?thesis by (auto simp: known_def NUM_NID_def)
qed

lemma created_known: "created T R \<Longrightarrow> good_tables T \<and> (\<exists>N D S L. known T R N D S L)"
proof (induction rule: created.induct)
  case start
  then show ?case using initial_known by blast
next
  case (add R oid sn ln heap nid R')
  then obtain N D S L where k: "known T R N D S L" by blast
  from create_outcome [OF k add(2-4)] add(5,6) show ?case by auto
qed

section \<open>Lookups after a creation\<close>

lemma recorded_found:
  assumes T: "good_tables T" and k: "known T R N D S L" and r: "recorded e sn ln nid b N D S L"
    and m: "made_from e nid sn ln b" and a: "name_or_null sn" "name_or_null ln" and e: "length e < 2 ^ 31"
    and n: "NUM_NID T \<le> nid" "nid < 2 ^ 31"
  shows "OBJ_nid2obj T R nid = Some (Some b)" and "OBJ_cbs2nid T R e = Some nid"
    and "sn = Some s \<Longrightarrow> OBJ_sn2nid T R s = Some nid" and "ln = Some s \<Longrightarrow> OBJ_ln2nid T R s = Some nid"
proof -
  note h = k [unfolded known_def registry_def]
  have b: "obj_nid b = nid" using m by (simp add: made_from_def)
  show "OBJ_nid2obj T R nid = Some (Some b)"
    using nid2obj_added [OF _ n, of R N] h r by (simp add: recorded_def)
  let ?t = "template\<lparr>obj_data := Some e, obj_length := int (length e)\<rparr>"
  have t: "with_bytes ?t" "encoding ?t = e" using e by (auto simp: with_bytes_def encoding_def object_bytes_def)
  have "\<exists>n. OBJ_obj2nid T R (Some ?t) = Some n \<and> number_found (D e) (has_encoding T e) n"
    using obj2nid_exact [OF T _ t(1), of R D] h unfolding t(2) by simp
  then show "OBJ_cbs2nid T R e = Some nid"
    using r b e by (auto simp: OBJ_cbs2nid_def CBS_len_def CBS_data_def recorded_def number_found_def)
  show "OBJ_sn2nid T R s = Some nid" if s: "sn = Some s"
    using sn2nid_exact [OF T, of R S s] h a(1) r b s
    by (auto simp: recorded_def number_found_def name_of_def name_or_null_def)
  show "OBJ_ln2nid T R s = Some nid" if s: "ln = Some s"
    using ln2nid_exact [OF T, of R L s] h a(2) r b s
    by (auto simp: recorded_def number_found_def name_of_def name_or_null_def)
qed

lemma other_objects:
  assumes "known T R N D S L" and "known T R' N' D' S' L'" and "N' n = N n" and "0 \<le> n" "n < 2 ^ 31"
  shows "OBJ_nid2obj T R' n = OBJ_nid2obj T R n"
proof (cases "NUM_NID T \<le> n")
  case True
  then show ?thesis
    using nid2obj_added [of R N T n] nid2obj_added [of R' N' T n] assms by (simp add: known_def registry_def)
next
  case False
  with assms(4) show ?thesis by (simp add: OBJ_nid2obj_def)
qed

text \<open>C38: objects that a program adds are found. The states are those that calls of OBJ_create lead to, each made with an
  allocator that refuses nothing as long as the tables do not exist yet (\<open>ready\<close>; \<open>first_object_without_memory\<close> shows what happens
  otherwise), and any allocator afterwards. From such a state OBJ_create returns; it gives 0 only if the text is no object
  identifier or the allocator refuses some size, and
  otherwise a number under which OBJ_nid2obj finds an object, which ASN1_OBJECT_free leaves alone, with the encoding of the identifier, and which
  OBJ_cbs2nid finds from this encoding, OBJ_sn2nid and OBJ_txt2nid from its short name and OBJ_ln2nid from its
  long name; the other numbers keep their objects.\<close>

theorem obj_create_found:
  assumes "created T R" and "arguments oid sn ln" and "ready heap R" and "numbers_left R"
  shows "\<exists>nid R'. OBJ_create heap oid sn ln R = Some (nid, R') \<and> created T R'
    \<and> (nid = 0 \<longrightarrow> \<not> (\<exists>e. oid_bytes (characters_of oid) e) \<or> (\<exists>sz. heap sz = None))
    \<and> (nid \<noteq> 0 \<longrightarrow> (\<exists>e b. oid_bytes (characters_of oid) e \<and> OBJ_nid2obj T R' nid = Some (Some b) \<and> object_bytes b = Some e
          \<and> ASN1_OBJECT_free (Some b) = Some b \<and> OBJ_cbs2nid T R' e = Some nid
          \<and> (\<forall>s. sn = Some s \<longrightarrow> OBJ_sn2nid T R' s = Some nid \<and> OBJ_txt2nid T R' heap s = Some nid)
          \<and> (\<forall>s. ln = Some s \<longrightarrow> OBJ_ln2nid T R' s = Some nid)))
    \<and> (\<forall>n. 0 \<le> n \<and> n < 2 ^ 31 \<and> n \<noteq> uint (global_next_nid R) \<longrightarrow> OBJ_nid2obj T R' n = OBJ_nid2obj T R n)"
proof -
  obtain N D S L where T: "good_tables T" and k: "known T R N D S L" using created_known [OF assms(1)] by blast
  from create_outcome [OF k assms(2-4)] obtain nid R' N' D' S' L' where
    c: "OBJ_create heap oid sn ln R = Some (nid, R')" "known T R' N' D' S' L'"
      "nid = 0 \<longrightarrow> \<not> (gives heap \<and> (\<exists>e. oid_bytes (characters_of oid) e))"
      "nid \<noteq> 0 \<longrightarrow> nid = uint (global_next_nid R) \<and> (\<exists>e b. oid_bytes (characters_of oid) e \<and> made_from e nid sn ln (kept b)
        \<and> recorded e sn ln nid (kept b) N' D' S' L')"
      "\<forall>n. n \<noteq> uint (global_next_nid R) \<longrightarrow> N' n = N n" by blast
  have "\<exists>e b. oid_bytes (characters_of oid) e \<and> OBJ_nid2obj T R' nid = Some (Some b) \<and> object_bytes b = Some e
          \<and> ASN1_OBJECT_free (Some b) = Some b \<and> OBJ_cbs2nid T R' e = Some nid
          \<and> (\<forall>s. sn = Some s \<longrightarrow> OBJ_sn2nid T R' s = Some nid \<and> OBJ_txt2nid T R' heap s = Some nid)
          \<and> (\<forall>s. ln = Some s \<longrightarrow> OBJ_ln2nid T R' s = Some nid)" if z: "nid \<noteq> 0"
  proof -
    obtain e b where e: "nid = uint (global_next_nid R)" "oid_bytes (characters_of oid) e" "made_from e nid sn ln (kept b)"
      "recorded e sn ln nid (kept b) N' D' S' L'" using c(4) z by blast
    have n: "NUM_NID T \<le> nid" "nid < 2 ^ 31" using k small_uint [of "global_next_nid R"] assms(4) e(1)
      by (simp_all add: known_def numbers_left_def)
    have a: "name_or_null sn" "name_or_null ln" "length e < 2 ^ 31" using assms(2) e(2) by (auto simp: arguments_def)
    note f = recorded_found [OF T c(2) e(4,3) a n]
    have "OBJ_txt2nid T R' heap s = Some nid" if "sn = Some s" for s
      using f(1) f(3) [OF that] z e(3) by (simp add: OBJ_txt2nid_def OBJ_txt2obj_def OBJ_obj2nid_def made_from_def)
    with f e(2,3) kept_not_freed show ?thesis by (auto simp: made_from_def)
  qed
  moreover have "OBJ_nid2obj T R' n = OBJ_nid2obj T R n" if "0 \<le> n" "n < 2 ^ 31" "n \<noteq> uint (global_next_nid R)" for n
    using other_objects [OF k c(2) _ that(1,2)] c(5) that(3) by simp
  moreover have "nid = 0 \<longrightarrow> \<not> (\<exists>e. oid_bytes (characters_of oid) e) \<or> (\<exists>sz. heap sz = None)"
    using c(3) by (auto simp: gives_def)
  moreover have "created T R'" by (rule created.add [OF assms(1-4) c(1)])
  ultimately show ?thesis using c(1) by blast
qed

text \<open>The first two entries of \<^verbatim>\<open>obj_dat.h\<close>: \<^verbatim>\<open>UNDEF\<close> and \<^verbatim>\<open>rsadsi\<close>, and the first call of a program.\<close>

definition two_objects :: obj_tables where
  "two_objects =
     \<lparr>kObjects =
        [\<lparr>obj_sn = Some [85, 78, 68, 69, 70, 0], obj_ln = Some [117, 110, 100, 101, 102, 105, 110, 101, 100, 0],
          obj_nid = 0, obj_length = 0, obj_data = None, obj_flags = 0\<rparr>,
         \<lparr>obj_sn = Some [114, 115, 97, 100, 115, 105, 0],
          obj_ln = Some [82, 83, 65, 32, 68, 97, 116, 97, 32, 83, 101, 99, 117, 114, 105, 116, 121, 44, 32, 73, 110, 99, 46, 0],
          obj_nid = 1, obj_length = 6, obj_data = Some [0x2a, 0x86, 0x48, 0x86, 0xf7, 0x0d], obj_flags = 0\<rparr>],
      kNIDsInShortNameOrder = [0, 1], kNIDsInLongNameOrder = [1, 0], kNIDsInOIDOrder = [1]\<rparr>"

lemma two_objects_good: "good_tables two_objects"
proof -
  have all2: "(\<forall>i<Suc (Suc 0). P i) \<longleftrightarrow> P 0 \<and> P (Suc 0)" for P by (auto simp: less_Suc_eq)
  have set2: "{i. i < Suc (Suc 0) \<and> P i} = (if P 0 then {0} else {}) \<union> (if P (Suc 0) then {Suc 0} else {})" for P
  proof (rule set_eqI)
    fix x
    show "x \<in> {i. i < Suc (Suc 0) \<and> P i} \<longleftrightarrow> x \<in> (if P 0 then {0} else {}) \<union> (if P (Suc 0) then {Suc 0} else {})"
      by (cases "x = 0"; cases "x = Suc 0") auto
  qed
  show ?thesis
    by (simp add: good_tables_def two_objects_def Let_def all2 set2 with_bytes_def object_bytes_def is_name_def c_string_def
      name_of_def characters_of_def insert_commute)
qed

lemma oid_example: "oid_bytes [49, 46, 50, 46, 56, 52, 48] [42, 134, 72]"
proof -
  have "oid_numbers [49, 46, 50, 46, 56, 52, 48] = Some [1, 2, 840]"
    by (simp add: oid_numbers.simps parse_dotted_decimal_def CBS_len_def)
  moreover have "oid_content [1, 2, 840] = Some [42, 134, 72]"
    by (simp add: first_pair_def b128_bytes_def b128_high.simps)
  ultimately show ?thesis by (simp add: oid_bytes_def)
qed

theorem obj_create_found_witness:
  "\<exists>nid R'. OBJ_create zero_heap [49, 46, 50, 46, 56, 52, 48, 0] (Some [97, 0]) None (initial_registry two_objects) = Some (nid, R')
    \<and> nid \<noteq> 0 \<and> OBJ_sn2nid two_objects R' [97, 0] = Some nid \<and> OBJ_cbs2nid two_objects R' [42, 134, 72] = Some nid"
proof -
  let ?R = "initial_registry two_objects" and ?oid = "[49, 46, 50, 46, 56, 52, 48, 0] :: u8 list"
  have T: "created two_objects ?R" by (rule created.start [OF two_objects_good]) (simp add: two_objects_def)
  have c: "characters_of ?oid = [49, 46, 50, 46, 56, 52, 48]" by (simp add: characters_of_def)
  have a: "arguments ?oid (Some [97, 0]) None"
  proof -
    have "length e < 2 ^ 31" if "oid_bytes [49, 46, 50, 46, 56, 52, 48] e" for e
      using oid_bytes_unique [OF that oid_example] by simp
    then show ?thesis unfolding arguments_def c by (simp add: c_string_def name_or_null_def)
  qed
  have l: "numbers_left ?R" by (simp add: numbers_left_def initial_registry_def NUM_NID_def two_objects_def)
  have r: "ready zero_heap ?R" using gives_zero by (simp add: ready_def)
  obtain nid R' where f: "OBJ_create zero_heap ?oid (Some [97, 0]) None ?R = Some (nid, R')"
    "nid = 0 \<longrightarrow> \<not> (\<exists>e. oid_bytes (characters_of ?oid) e) \<or> (\<exists>sz. zero_heap sz = None)"
    "nid \<noteq> 0 \<longrightarrow> (\<exists>e. oid_bytes (characters_of ?oid) e \<and> OBJ_cbs2nid two_objects R' e = Some nid \<and> OBJ_sn2nid two_objects R' [97, 0] = Some nid)"
    using obj_create_found [OF T a r l] by blast
  have "nid \<noteq> 0" using f(2) oid_example unfolding c by auto
  with f(1,3) oid_bytes_unique [OF _ oid_example] show ?thesis unfolding c by auto
qed

section \<open>Built-in objects\<close>

lemma has_sn_unique: "good_tables T \<Longrightarrow> has_sn T s i \<Longrightarrow> has_sn T s j \<Longrightarrow> i = j"
  using strict_unique [OF good_orders(7), of T i j] good_orders(1) [of T] by (auto simp: has_sn_def)

lemma has_ln_unique: "good_tables T \<Longrightarrow> has_ln T s i \<Longrightarrow> has_ln T s j \<Longrightarrow> i = j"
  using strict_unique [OF good_orders(8), of T i j] good_orders(3) [of T] by (auto simp: has_ln_def)

text \<open>C39: the binary searches find the built-in objects: OBJ_sn2nid and OBJ_ln2nid give the number of the
  one built-in object that has the name, and 0 when there is none; OBJ_cbs2nid gives the number of a built-in object with this
  encoding, and 0 when there is none. No search reads outside of its array.\<close>

theorem built_in_objects_found:
  assumes "good_tables T" and "c_string s" and "length e < 2 ^ 31"
  shows "(OBJ_sn2nid T (initial_registry T) s = Some n \<longleftrightarrow>
      (if \<exists>i. has_sn T (characters_of s) i then \<exists>i. has_sn T (characters_of s) i \<and> n = int i else n = 0))
    \<and> (OBJ_ln2nid T (initial_registry T) s = Some n \<longleftrightarrow>
      (if \<exists>i. has_ln T (characters_of s) i then \<exists>i. has_ln T (characters_of s) i \<and> n = int i else n = 0))
    \<and> (\<exists>m. OBJ_cbs2nid T (initial_registry T) e = Some m \<and>
      (if \<exists>i. has_encoding T e i then \<exists>i. has_encoding T e i \<and> m = int i else m = 0))"
proof (intro conjI)
  have h: "by_sn.held (global_added_by_short_name (initial_registry T)) Map.empty"
    "by_ln.held (global_added_by_long_name (initial_registry T)) Map.empty"
    "by_data.held (global_added_by_data (initial_registry T)) Map.empty"
    by (simp_all add: initial_registry_def by_sn.held_def by_ln.held_def by_data.held_def)
  show "OBJ_sn2nid T (initial_registry T) s = Some n \<longleftrightarrow>
      (if \<exists>i. has_sn T (characters_of s) i then \<exists>i. has_sn T (characters_of s) i \<and> n = int i else n = 0)"
    using sn2nid_exact [OF assms(1) h(1) assms(2)] has_sn_unique [OF assms(1)] by (auto simp: number_found_def)
  show "OBJ_ln2nid T (initial_registry T) s = Some n \<longleftrightarrow>
      (if \<exists>i. has_ln T (characters_of s) i then \<exists>i. has_ln T (characters_of s) i \<and> n = int i else n = 0)"
    using ln2nid_exact [OF assms(1) h(2) assms(2)] has_ln_unique [OF assms(1)] by (auto simp: number_found_def)
  let ?t = "template\<lparr>obj_data := Some e, obj_length := int (length e)\<rparr>"
  have t: "with_bytes ?t" "encoding ?t = e" using assms(3) by (auto simp: with_bytes_def encoding_def object_bytes_def)
  show "\<exists>m. OBJ_cbs2nid T (initial_registry T) e = Some m \<and>
      (if \<exists>i. has_encoding T e i then \<exists>i. has_encoding T e i \<and> m = int i else m = 0)"
    using obj2nid_exact [OF assms(1) h(3) t(1), unfolded t(2)] assms(3)
    by (auto simp: OBJ_cbs2nid_def CBS_len_def CBS_data_def number_found_def)
qed

theorem built_in_objects_found_witness:
  "OBJ_sn2nid two_objects (initial_registry two_objects) [114, 115, 97, 100, 115, 105, 0] = Some 1"
proof -
  have "has_sn two_objects [114, 115, 97, 100, 115, 105] 1"
    by (simp add: has_sn_def two_objects_def name_of_def characters_of_def)
  with built_in_objects_found [OF two_objects_good, of "[114, 115, 97, 100, 115, 105, 0]" "[]" 1] show ?thesis
    by (auto simp: c_string_def characters_of_def)
qed

section \<open>Text\<close>

lemma oid_bytes_dotted: "oid_bytes txt e \<Longrightarrow> \<exists>vs. oid_content vs = Some e \<and> txt = dotted vs"
  using oid_numbers_dotted by (auto simp: oid_bytes_def)

lemma characters_no_zero: "0 \<notin> set (characters_of s)"
  by (auto simp: characters_of_def dest: set_takeWhileD)

lemma strlcpy_int_exact:
  assumes "0 \<notin> set s" and "length s < 2 ^ 31" and "int (length s) < n" and "n \<le> int (length out)"
  shows "strlcpy_int out (s @ [0]) n = Some (int (length s), s @ 0 # drop (Suc (length s)) out)"
proof -
  obtain k where k: "n = int k" using assms(3) by (metis of_nat_0_le_iff le_less_trans less_imp_le nonneg_int_cases)
  with strlcpy_exact [OF assms(1), of k out "[]"] assms(2-4) show ?thesis by (simp add: strlcpy_int_def)
qed

text \<open>C40: object identifiers go from text to objects and back: when OBJ_txt2obj makes an object of a text without looking for names,
  OBJ_obj2txt of that object gives the text again, terminated, and its length, unless memory runs out; and
  OBJ_txt2obj makes one of every text that is an object identifier.\<close>

theorem object_text_roundtrip:
  assumes "c_string s" and "oid_bytes (characters_of s) e" and "length e < 2 ^ 31" and "length (characters_of s) < 2 ^ 31 - 1"
    and "gives heap" and "int (length (characters_of s)) < n" and "n \<le> int (length out)"
  shows "\<exists>b. OBJ_txt2obj T R heap s True = Some (Some b) \<and> object_bytes b = Some e
    \<and> OBJ_obj2txt T R heap out n (Some b) True
      = Some (int (length (characters_of s)), characters_of s @ 0 # drop (Suc (length (characters_of s))) out)"
proof -
  have small: "length e' < 2 ^ 31" if "oid_bytes (characters_of s) e'" for e'
    using oid_bytes_unique [OF that assms(2)] assms(3) by simp
  have nn: "name_or_null None" by (simp add: name_or_null_def)
  have a: "snd (after_nid False R) = R" "fst (after_nid False R) = 0" by (simp_all add: after_nid_def)
  from create_object_outcome [OF assms(1) nn nn, of heap False R] small assms(2,5) obtain e' b where
    b: "oid_bytes (characters_of s) e'" "made_from e' 0 None None b"
      "create_object_with_text_oid heap False s None None R = Some (Some b, R)" unfolding a by blast
  have e: "e' = e" by (rule oid_bytes_unique [OF b(1) assms(2)])
  have "supplies heap (length (characters_of s @ [0]))" using assms(4,5) by (simp add: supplies_def gives_def)
  moreover obtain vs where "oid_content vs = Some e" "characters_of s = dotted vs" using oid_bytes_dotted [OF assms(2)] by blast
  ultimately have t: "CBS_asn1_oid_to_text heap e = Some (Some (characters_of s @ [0]))" using oid_to_text by metis
  have "obj_length b \<noteq> 0" "object_bytes b = Some e"
    using b(2) oid_bytes_nonempty [OF assms(2)] by (simp_all add: made_from_def e)
  with t strlcpy_int_exact [OF characters_no_zero _ assms(6,7)] assms(4) b(3) show ?thesis
    by (simp add: OBJ_txt2obj_def OBJ_obj2txt_def)
qed

theorem object_text_roundtrip_witness:
  "\<exists>b. OBJ_txt2obj two_objects (initial_registry two_objects) zero_heap [49, 46, 50, 46, 56, 52, 48, 0] True = Some (Some b)
    \<and> OBJ_obj2txt two_objects (initial_registry two_objects) zero_heap (replicate 9 1) 9 (Some b) True
      = Some (7, [49, 46, 50, 46, 56, 52, 48, 0, 1])"
proof -
  let ?s = "[49, 46, 50, 46, 56, 52, 48, 0] :: u8 list"
  have c: "characters_of ?s = [49, 46, 50, 46, 56, 52, 48]" by (simp add: characters_of_def)
  have s: "c_string ?s" by (simp add: c_string_def)
  have l: "length [42, 134, 72 :: u8] < 2 ^ 31" "length [49, 46, 50, 46, 56, 52, 48 :: u8] < 2 ^ 31 - 1"
    "int (length [49, 46, 50, 46, 56, 52, 48 :: u8]) < 9" "9 \<le> int (length (replicate 9 (1 :: u8)))" by simp_all
  have r: "int (length [49, 46, 50, 46, 56, 52, 48 :: u8]) = 7" "[49, 46, 50, 46, 56, 52, 48] @
      0 # drop (Suc (length [49, 46, 50, 46, 56, 52, 48 :: u8])) (replicate 9 1) = [49, 46, 50, 46, 56, 52, 48, 0, 1 :: u8]"
    by (simp_all add: eval_nat_numeral)
  from object_text_roundtrip [OF s, unfolded c, OF oid_example l(1,2) gives_zero l(3,4)]
  show ?thesis unfolding r by blast
qed

section \<open>Where the code is not as it means to be\<close>

text \<open>When there is no memory for the first table, \<^verbatim>\<open>obj_add_object\<close> inserts into a null pointer.\<close>

lemma first_object_without_memory:
  "allocated heap 48 = Some False \<Longrightarrow> none_made R \<Longrightarrow> obj_add_object heap b R = None"
  by (simp add: obj_add_object_def make_tables_def none_made_def lh_new_def add_to_def Let_def)

text \<open>\<^verbatim>\<open>cmp_nid\<close> subtracts the numbers, which overflows for a number that no object has.\<close>

lemma comparing_numbers_overflows:
  "cmp_nid (b\<lparr>obj_nid := 976\<rparr>) (template\<lparr>obj_nid := - (2 ^ 31)\<rparr>) = None"
  by (simp add: cmp_nid_def c_int_def)

lemma lookup_overflows:
  "OBJ_nid2obj two_objects (initial_registry two_objects\<lparr>global_added_by_nid := Some
      \<lparr>num_items = 1, buckets = [\<lparr>item_data = b\<lparr>obj_nid := 976\<rparr>, item_hash = 976\<rparr>] # replicate 15 [], num_buckets = 16,
        callback_depth = 0, comp_func = cmp_nid, hash_func = hash_nid\<rparr>\<rparr>) (- (2 ^ 31)) = None"
  by (simp add: OBJ_nid2obj_def added_def lh_retrieve_def get_next_ptr_and_hash_def search_bucket_def hash_nid_def
    comparing_numbers_overflows [simplified])

end
