(* ===== verification/Spec2Isabelle.thy ===== *)
theory Spec2Isabelle
  imports Pb_Guarantees Cbb_Properties Base64_Stream Lhash_Properties
    Stack_Properties Unicode_Correct Ber_Properties Pool_Properties Obj_Properties
begin

text \<open>
  Verification library of C code that the Instagram clone is built with. The application itself is
  Swift; its C code comes with the pods under \<^verbatim>\<open>src/Instagram_Firestore_App_Clone/Pods\<close>. Two of them carry
  core logic of their own in C and are modelled here: \<^verbatim>\<open>nanopb\<close>, with which Firestore encodes and decodes every
  protocol buffer, and the byte-string layer of BoringSSL (\<^verbatim>\<open>BoringSSL-GRPC/src/crypto\<close>), with which the TLS stack under
  gRPC reads and writes every handshake message and certificate.

  \<^bold>\<open>How the parts interact.\<close> A nanopb message descriptor is an array of \<^verbatim>\<open>pb_field_t\<close>; an iterator walks it next to
  the message structure in memory. The encoder reads the structure and writes to an output stream; the
  decoder reads an input stream and writes the structure, allocates pointer fields and fills defaults. Both call
  themselves for submessages. In BoringSSL, \<^verbatim>\<open>CBS\<close> is a view of bytes that parsers move over, and \<^verbatim>\<open>CBB\<close> is a builder: a
  buffer, grown by \<^verbatim>\<open>OPENSSL_realloc\<close>, and a chain of objects for open length-prefixed parts. \<^verbatim>\<open>CBB_flush_asn1_set_of\<close>
  and \<^verbatim>\<open>CBS_asn1_oid_to_text\<close> use both.

  \<^bold>\<open>nanopb.\<close>
  \<^item> \<^verbatim>\<open>Prelude\<close>: machine words, little-endian bytes, byte-addressed memory, results of C functions.
  \<^item> \<^verbatim>\<open>Pb_Common\<close> (\<^verbatim>\<open>pb.h\<close>, \<^verbatim>\<open>pb_common.c\<close>): \<^verbatim>\<open>pb_field_t\<close> as the record \<open>pb_field\<close>, the type byte, the iterator.
  \<^item> \<^verbatim>\<open>Pb_Encode\<close> (\<^verbatim>\<open>pb_encode.c\<close>): output streams, wire-format encoders, the encoders of values in memory, arrays,
    extensions, messages. \<^verbatim>\<open>Pb_Wire\<close>: the encoding of a message as a function of the memory it lies in, without streams.
    \<^verbatim>\<open>Pb_Writer\<close> and \<^verbatim>\<open>Pb_Encode_Correct\<close>: every encoder writes this encoding or fails, on every stream; sizing and writing
    agree. User callbacks are the locale \<open>encode_callbacks\<close>.
  \<^item> \<^verbatim>\<open>Pb_Istream\<close>, \<^verbatim>\<open>Pb_Decode\<close>, \<^verbatim>\<open>Pb_Message\<close> (\<^verbatim>\<open>pb_decode.c\<close>): input streams, the decoders of values into memory, then static,
    pointer, callback and extension fields, defaults, required fields, messages and the release of fields.
  \<^item> \<^verbatim>\<open>Pb_Codec\<close>, \<^verbatim>\<open>Pb_Roundtrip\<close>: the decoders of \<^verbatim>\<open>PB_DECODERS\<close> invert the encoders of \<^verbatim>\<open>PB_ENCODERS\<close>.
    \<^verbatim>\<open>Pb_Safety\<close>, \<^verbatim>\<open>Pb_Decode_Safe\<close>: the stream stays in its buffer. \<^verbatim>\<open>Pb_Bounds\<close>: static fields are written inside their
    storage. \<^verbatim>\<open>Pb_Required\<close>: required fields. \<^verbatim>\<open>Pb_Total\<close>: decoding returns, for static, allocated and callback fields and nested
    messages (locale \<open>decode_interface\<close>). The properties are in \<^verbatim>\<open>Pb_Properties\<close>,
    \<^verbatim>\<open>Pb_Decode_Properties\<close> and \<^verbatim>\<open>Pb_Guarantees\<close>.

  \<^bold>\<open>BoringSSL.\<close>
  \<^item> \<^verbatim>\<open>Cbs\<close> (\<^verbatim>\<open>bytestring/cbs.c\<close>): the reader. \<^verbatim>\<open>Der\<close>, \<^verbatim>\<open>Der_Element\<close>, \<^verbatim>\<open>Der_Values\<close>: DER encodings as functions
    (\<open>der_tag\<close>, \<open>der_length\<close>, \<open>der\<close>, \<open>der_uint\<close>, \<open>der_int\<close>) and, for each parser, that it accepts exactly them.
    \<^verbatim>\<open>Cbs_Properties\<close>: the properties.
  \<^item> \<^verbatim>\<open>Mem\<close> (\<^verbatim>\<open>mem.c\<close>): blocks with their size header, reallocation, wiping, C strings.
  \<^item> \<^verbatim>\<open>Cbb\<close>, \<^verbatim>\<open>Cbb_Asn1\<close> (\<^verbatim>\<open>bytestring/cbb.c\<close>): the builder. \<^verbatim>\<open>Cbb_Refine\<close>, \<^verbatim>\<open>Cbb_Ops\<close>, \<^verbatim>\<open>Cbb_Der\<close>, \<^verbatim>\<open>Cbb_Nested\<close>: the builder refines an
    abstract one, which is bytes and a stack of open parts (\<open>view\<close>, \<open>closed\<close>); the locale \<open>reallocator\<close> is the interface to
    the allocator, interpreted on the model of \<^verbatim>\<open>OPENSSL_realloc\<close>. \<^verbatim>\<open>Cbb_Set_Of\<close>: DER order. \<^verbatim>\<open>Cbb_Oid\<close>:
    object identifiers from and to text. \<^verbatim>\<open>Cbb_Properties\<close>: the properties.
  \<^item> \<^verbatim>\<open>Constant_Time\<close> (\<^verbatim>\<open>internal.h\<close>): comparisons and selections without branches. \<^verbatim>\<open>Base64\<close> (\<^verbatim>\<open>base64/base64.c\<close>): the
    codec, on blocks and on streams. \<^verbatim>\<open>Base64_Correct\<close>, \<^verbatim>\<open>Base64_Stream\<close>: decoding inverts encoding, however the data is cut.
  \<^item> \<^verbatim>\<open>Lhash\<close> (\<^verbatim>\<open>lhash/lhash.c\<close>): hash tables of chains. \<^verbatim>\<open>Lhash_Refine\<close>: the locale \<open>hash_keys\<close> is what a table relies on in
    its user functions; each operation refines an operation of a finite map. \<^verbatim>\<open>Lhash_Properties\<close>: sequences of operations, and
    the interpretation for C strings.
  \<^item> \<^verbatim>\<open>Stack\<close> (\<^verbatim>\<open>stack/stack.c\<close>): growing arrays of pointers. \<^verbatim>\<open>Stack_Refine\<close>: the locales \<open>ptr_order\<close> and \<open>ptr_sorting\<close> are what a
    stack relies on in its comparison function and in \<^verbatim>\<open>qsort\<close>; each operation refines a list operation, and the binary search
    finds the first match. \<^verbatim>\<open>Stack_Properties\<close>: sequences of operations, and the interpretation for \<^verbatim>\<open>sk_strcmp\<close>.
  \<^item> \<^verbatim>\<open>Unicode\<close> (\<^verbatim>\<open>bytestring/unicode.c\<close>), \<^verbatim>\<open>Unicode_Correct\<close>: code points; UTF-8 as a function and the reader and writer of it.
  \<^item> \<^verbatim>\<open>Ber\<close> (\<^verbatim>\<open>bytestring/ber.c\<close>): the converter from BER to DER. \<^verbatim>\<open>Ber_Correct\<close>: BER trees, their encodings and normal forms, the first
    pass. \<^verbatim>\<open>Ber_Convert\<close>: the second pass writes the normal forms. \<^verbatim>\<open>Ber_Total\<close>: every run returns, and accepts trees only.
    \<^verbatim>\<open>Ber_Properties\<close>: the properties, and implicitly tagged strings.
  \<^item> \<^verbatim>\<open>Pool\<close> (\<^verbatim>\<open>pool/pool.c\<close>, \<^verbatim>\<open>refcount_c11.c\<close>): reference-counted buffers and the pool that shares equal ones, with each
    call cut into the pieces that run under the lock. \<^verbatim>\<open>Pool_Safe\<close>: the step relation of the pool and its users, the
    invariant by rule induction, and the interpretation of \<open>hash_keys\<close> for buffers. \<^verbatim>\<open>Pool_Properties\<close>: safety, sharing, release.
  \<^item> \<^verbatim>\<open>Obj\<close> (\<^verbatim>\<open>obj/obj.c\<close>, constructors of \<^verbatim>\<open>asn1/a_object.c\<close>): the registry of object identifiers, which uses hash tables, the
    builder and the reader. \<^verbatim>\<open>Obj_Refine\<close>: \<open>hash_keys\<close> interpreted for numbers, encodings and names; the four tables are maps.
    \<^verbatim>\<open>Obj_Search\<close>: \<^verbatim>\<open>bsearch\<close> and the lookups. \<^verbatim>\<open>Obj_Create\<close>: objects from text, and the state after \<^verbatim>\<open>OBJ_create\<close>.
    \<^verbatim>\<open>Obj_Properties\<close>: added and built-in objects are found, text round trips.

  \<^bold>\<open>State and results.\<close> C structures are records; a function that returns 0 or 1 gives \<open>(bool \<times> state) option\<close>, where
  \<open>None\<close> is a run that does not return or undefined behaviour (a byte outside its object, a null call, a failed
  assertion). So a theorem that gives \<open>Some\<close> also says that none of these happens. Integers are words of their
  C width (LP64). nanopb works on byte-addressed memory with explicit addresses; the byte strings of BoringSSL are lists.

  \<^bold>\<open>Fuel.\<close> The nesting of messages in the encoder and the decoder is bounded by a fuel argument, the depth of the
  descriptors. Loops have fuel only where the code has no structural bound: the decoding loop takes one more
  than the bytes left in the stream, each round reads at least one byte; a packed array takes one more than the bytes of its
  substream; the search of the iterator takes one more than the number of fields. \<open>decode_terminates_in_buffer\<close> proves
  that this is enough for messages of values, \<open>decode_stays_in_buffer\<close> for nested messages with allocated fields and callbacks when the
  fuel is at least the depth of the nesting; extension fields, whose lists lie in memory, are left out there. \<^verbatim>\<open>CBB_flush\<close> follows the chain of children and \<^verbatim>\<open>cbs_convert_ber\<close> its input with no fuel, as partial functions; the
  refinement lemmas prove that the first returns on every well-formed chain, and \<open>ber_to_der_total\<close> that the second always
  returns.

  \<^bold>\<open>Parameters.\<close> User callbacks, extension handlers and the allocator of nanopb are fields of \<open>enc_env\<close> and \<open>dec_env\<close>. The
  system's \<^verbatim>\<open>malloc\<close> is the parameter \<open>heap\<close> of BoringSSL's: it may refuse a size, it refuses objects of \<open>2 ^ 63\<close> bytes
  or more, and a block has arbitrary contents. The same size gets the same answer each time. \<^verbatim>\<open>qsort\<close> and the comparison and hash functions of
  stacks and tables are parameters with their documented contract as hypotheses. \<^verbatim>\<open>bsearch\<close> is the C library's, defined as its standard
  says, by a binary search over the sorted array. The tables of \<^verbatim>\<open>obj_dat.h\<close>, which a script generates, are a parameter of the object registry; what
  the code relies on in them is the predicate \<open>good_tables\<close>. A pool is run by a step relation in which the pieces of a call that run under its lock
  are single steps, interleaved freely with those of other threads.

  \<^bold>\<open>Not modelled.\<close> The Swift application. Data without logic: the tables \<^verbatim>\<open>*.nanopb.c\<close>, the upb message tables,
  \<^verbatim>\<open>obj_dat.h\<close>. What is not C: the C++ of gRPC-Core, abseil, leveldb, Firestore and of BoringSSL's TLS (\<^verbatim>\<open>ssl/\<close>), the
  Objective-C of Firebase. The C library \<^verbatim>\<open>upb\<close> inside gRPC-Core, which computes with offsets into structures that its generated tables
  lay out. In BoringSSL, the parts above and beside the layer modelled here: \<^verbatim>\<open>bio\<close>, \<^verbatim>\<open>conf\<close>, \<^verbatim>\<open>err\<close>, \<^verbatim>\<open>buf\<close>, the ASN.1 templates,
  X.509, PEM and PKCS, the ciphers, digests, big numbers, elliptic curves and RSA, whose correctness is number theory and cryptography
  rather than data handling; threads, random numbers and processor detection, which are system calls. Wrappers of
  \<^verbatim>\<open>vsnprintf\<close>.
\<close>

end
